(* ===== verification/Prelude.thy ===== *)
theory Prelude
  imports Main "HOL-Library.Word" "HOL-Library.Char_ord" "HOL-Library.List_Lexorder"
    "HOL-Library.Multiset"
begin

text \<open>
  What the component theories share: the types every package of the repository uses
  (\<open>uuid.UUID\<close>, \<open>time.Time\<close>, the platform functions that are parameters of the model),
  the pieces of the Go standard library the code calls (\<open>strings.TrimSpace\<close>,
  \<open>strconv.Itoa\<close>, \<open>sort.SliceStable\<close>) and the generic lemmas on them.
\<close>

named_theorems repo_simps \<open>equations of the repository operations\<close>
named_theorems handler_simps \<open>definitions of the handlers of a component\<close>

section \<open>Identifiers and time\<close>

text \<open>
  \<open>github.com/google/uuid\<close>'s UUID is a value of 128 bits whose zero value is
  \<open>uuid.Nil\<close>. A \<open>time.Time\<close> is an instant: nanoseconds since Go's zero time, so that
  \<open>IsZero\<close> is equality with 0, and \<open>UTC()\<close>, which changes the location only, is the
  identity. \<open>Before\<close>, \<open>After\<close> and \<open>Equal\<close> are the order of the instants.
\<close>

type_synonym uuid = "128 word"
type_synonym time = int
type_synonym duration = int

definition uuid_Nil :: uuid where
  "uuid_Nil = 0"

definition zero_time :: time where
  "zero_time = 0"

text \<open>\<open>Time.Sub\<close> saturates at the bounds of \<open>time.Duration\<close> (a signed 64-bit count).\<close>

definition max_duration :: duration where
  "max_duration = 2 ^ 63 - 1"

definition min_duration :: duration where
  "min_duration = - (2 ^ 63)"

definition time_Sub :: "time \<Rightarrow> time \<Rightarrow> duration" where
  "time_Sub t u = max min_duration (min max_duration (t - u))"

lemma time_Sub_ge_iff:
  "d \<le> max_duration \<Longrightarrow> min_duration < d \<Longrightarrow> d \<le> time_Sub t u \<longleftrightarrow> d \<le> t - u"
  by (auto simp: time_Sub_def)

text \<open>Signed 64-bit arithmetic wraps around.\<close>

definition wrap64 :: "int \<Rightarrow> int" where
  "wrap64 x = (x + 2 ^ 63) mod 2 ^ 64 - 2 ^ 63"

lemma wrap64_id: "- (2 ^ 63) \<le> x \<Longrightarrow> x < 2 ^ 63 \<Longrightarrow> wrap64 x = x"
  by (simp add: wrap64_def)

lemma wrap64_bounds: "- (2 ^ 63) \<le> wrap64 x \<and> wrap64 x < 2 ^ 63"
  unfolding wrap64_def by (simp add: algebra_simps)

text \<open>
  The functions of the platform that the model takes as a parameter: SHA-256 in
  hexadecimal (\<open>crypto/sha256\<close> with \<open>encoding/hex\<close>), the text form of a UUID
  (\<open>github.com/google/uuid\<close>), and the two time layouts the code prints instants in.
\<close>

record platform =
  sha256_hex :: "string \<Rightarrow> string"
  uuid_str :: "uuid \<Rightarrow> string"
  fmt_nano :: "time \<Rightarrow> string"
  fmt_rfc3339 :: "time \<Rightarrow> string"

section \<open>Strings\<close>

text \<open>
  A Go string is a sequence of bytes, here a list of characters.
  \<open>strings.TrimSpace\<close> removes the white-space runes of \<open>unicode.IsSpace\<close> at both ends;
  the table lists their UTF-8 encodings.
\<close>

definition space_runes :: "string list" where
  "space_runes =
     [[CHR 0x09], [CHR 0x0A], [CHR 0x0B], [CHR 0x0C], [CHR 0x0D], [CHR 0x20],
      [CHR 0xC2, CHR 0x85], [CHR 0xC2, CHR 0xA0], [CHR 0xE1, CHR 0x9A, CHR 0x80],
      [CHR 0xE2, CHR 0x80, CHR 0x80], [CHR 0xE2, CHR 0x80, CHR 0x81],
      [CHR 0xE2, CHR 0x80, CHR 0x82], [CHR 0xE2, CHR 0x80, CHR 0x83],
      [CHR 0xE2, CHR 0x80, CHR 0x84], [CHR 0xE2, CHR 0x80, CHR 0x85],
      [CHR 0xE2, CHR 0x80, CHR 0x86], [CHR 0xE2, CHR 0x80, CHR 0x87],
      [CHR 0xE2, CHR 0x80, CHR 0x88], [CHR 0xE2, CHR 0x80, CHR 0x89],
      [CHR 0xE2, CHR 0x80, CHR 0x8A], [CHR 0xE2, CHR 0x80, CHR 0xA8],
      [CHR 0xE2, CHR 0x80, CHR 0xA9], [CHR 0xE2, CHR 0x80, CHR 0xAF],
      [CHR 0xE2, CHR 0x81, CHR 0x9F], [CHR 0xE3, CHR 0x80, CHR 0x80]]"

text \<open>The number of bytes of the rune of \<open>rs\<close> that \<open>s\<close> starts with, 0 if none does.\<close>

fun rune_len :: "string list \<Rightarrow> string \<Rightarrow> nat" where
  "rune_len [] s = 0"
| "rune_len (r # rs) s = (if take (length r) s = r then length r else rune_len rs s)"

lemma rune_len_le: "rune_len rs s \<le> length s"
proof (induction rs)
  case (Cons r rs)
  have "take (length r) s = r \<Longrightarrow> length r \<le> length s"
    by (metis length_take min.cobounded1)
  with Cons show ?case by simp
qed simp

function strip_left :: "string list \<Rightarrow> string \<Rightarrow> string" where
  "strip_left rs s = (if rune_len rs s = 0 then s else strip_left rs (drop (rune_len rs s) s))"
  by pat_completeness auto
termination
proof (relation "measure (\<lambda>(rs, s). length s)", goal_cases)
  case (2 rs s)
  then show ?case using rune_len_le [of rs s] by simp
qed simp

declare strip_left.simps [simp del]

definition TrimSpace :: "string \<Rightarrow> string" where
  "TrimSpace s = rev (strip_left (map rev space_runes) (rev (strip_left space_runes s)))"

lemma strip_left_fixed: "rune_len rs s = 0 \<Longrightarrow> strip_left rs s = s"
  by (simp add: strip_left.simps [of rs s])

lemma strip_left_rune_len: "rune_len rs (strip_left rs s) = 0"
proof (induction rs s rule: strip_left.induct)
  case (1 rs s)
  then show ?case by (cases "rune_len rs s = 0") (simp_all add: strip_left.simps [of rs s])
qed

lemma strip_left_idem [simp]: "strip_left rs (strip_left rs s) = strip_left rs s"
  by (rule strip_left_fixed) (rule strip_left_rune_len)

lemma TrimSpace_Nil [simp]: "TrimSpace [] = []"
  by (simp add: TrimSpace_def space_runes_def strip_left.simps)

text \<open>\<open>strconv.Itoa\<close> on a length.\<close>

definition digit_char :: "nat \<Rightarrow> char" where
  "digit_char d = char_of (48 + d)"

function itoa :: "nat \<Rightarrow> string" where
  "itoa n = (if n < 10 then [digit_char n] else itoa (n div 10) @ [digit_char (n mod 10)])"
  by pat_completeness auto
termination by (relation "measure id") auto

declare itoa.simps [simp del]

lemma length_itoa_pos: "0 < length (itoa n)"
  by (simp add: itoa.simps [of n])

lemma itoa_small: "n < 10 \<Longrightarrow> itoa n = [digit_char n]"
  by (simp add: itoa.simps [of n])

lemma itoa_large: "\<not> n < 10 \<Longrightarrow> itoa n = itoa (n div 10) @ [digit_char (n mod 10)]"
  by (simp add: itoa.simps [of n])

lemma length_itoa_mono: "m \<le> n \<Longrightarrow> length (itoa m) \<le> length (itoa n)"
proof (induction n arbitrary: m rule: itoa.induct)
  case (1 n)
  show ?case
  proof (cases "m < 10")
    case True
    then show ?thesis using length_itoa_pos [of n] by (simp add: itoa_small Suc_le_eq del: length_greater_0_conv)
  next
    case False
    with "1.prems" have "\<not> n < 10" and "m div 10 \<le> n div 10"
      by (auto intro: div_le_mono)
    with "1.IH" have "length (itoa (m div 10)) \<le> length (itoa (n div 10))" by blast
    with False \<open>\<not> n < 10\<close> show ?thesis by (simp add: itoa_large)
  qed
qed

lemma itoa_nonempty [simp]: "itoa n \<noteq> []" "[] \<noteq> itoa n"
  using length_itoa_pos [of n] by auto

lemma digit_char_inj: "m < 10 \<Longrightarrow> n < 10 \<Longrightarrow> digit_char m = digit_char n \<Longrightarrow> m = n"
  unfolding digit_char_def by (drule arg_cong [where f = "of_char :: char \<Rightarrow> nat"]) simp

lemma itoa_inj: "itoa m = itoa n \<Longrightarrow> m = n"
proof (induction n arbitrary: m rule: itoa.induct)
  case (1 n)
  show ?case
  proof (cases "m < 10 \<or> n < 10")
    case True
    have "m < 10 \<longleftrightarrow> n < 10"
      using "1.prems" True
      by (cases "m < 10"; cases "n < 10") (simp_all add: itoa_small itoa_large)
    with True "1.prems" show ?thesis by (auto simp: itoa_small dest: digit_char_inj)
  next
    case False
    with "1.prems" have "itoa (m div 10) = itoa (n div 10)"
      and "digit_char (m mod 10) = digit_char (n mod 10)"
      by (simp_all add: itoa_large)
    with "1.IH" False have "m div 10 = n div 10" and "m mod 10 = n mod 10"
      by (auto intro: digit_char_inj)
    then show ?thesis by (metis div_mult_mod_eq)
  qed
qed

text \<open>
  A decimal length followed by as many bytes is uniquely decoded: a longer numeral would
  announce a longer body, but leaves room for a shorter one.
\<close>

lemma counted_body_inj:
  assumes "itoa (length xs) @ xs = itoa (length ys) @ ys"
  shows "xs = ys"
proof -
  have sum: "length (itoa (length xs)) + length xs = length (itoa (length ys)) + length ys"
    using arg_cong [OF assms, of length] by simp
  have "length xs = length ys"
  proof (rule ccontr)
    assume "length xs \<noteq> length ys"
    then consider "length xs < length ys" | "length ys < length xs" by linarith
    then show False
      using sum length_itoa_mono [of "length xs" "length ys"]
        length_itoa_mono [of "length ys" "length xs"]
      by cases linarith+
  qed
  with assms show ?thesis by simp
qed

lemma split_at_sep:
  assumes "a @ c # b = a' @ c # b'" and "c \<notin> set a" and "c \<notin> set a'"
  shows "a = a' \<and> b = b'"
  using assms
proof (induction a arbitrary: a')
  case Nil
  then show ?case by (cases a') auto
next
  case (Cons x a)
  then show ?case by (cases a') auto
qed

text \<open>What the platform documents, as far as the chain relies on it.\<close>

definition platform_ok :: "platform \<Rightarrow> bool" where
  "platform_ok P \<longleftrightarrow>
     inj (uuid_str P) \<and> (\<forall>u. length (uuid_str P u) = 36 \<and> CHR ''|'' \<notin> set (uuid_str P u)) \<and>
     inj (fmt_nano P) \<and> (\<forall>t. CHR ''|'' \<notin> set (fmt_nano P t)) \<and>
     (\<forall>s. length (sha256_hex P s) = 64)"

text \<open>
  A platform that satisfies this, to show that the hypothesis can hold: the text form of a
  UUID as in RFC 4122, a numeral for an instant and a hash of fixed length.
\<close>

definition hex_digit :: "nat \<Rightarrow> char" where
  "hex_digit n = char_of (if n < 10 then 48 + n else 87 + n)"

definition uuid_nibble :: "uuid \<Rightarrow> nat \<Rightarrow> nat" where
  "uuid_nibble u k = unat (take_bit 4 (drop_bit (4 * k) u))"

definition uuid_text :: "uuid \<Rightarrow> string" where
  "uuid_text u =
     (let h = (\<lambda>i j. map (\<lambda>k. hex_digit (uuid_nibble u (31 - k))) [i..<j])
      in h 0 8 @ ''-'' @ h 8 12 @ ''-'' @ h 12 16 @ ''-'' @ h 16 20 @ ''-'' @ h 20 32)"

definition ref_platform :: platform where
  "ref_platform =
     \<lparr>sha256_hex = (\<lambda>s. take 64 (s @ replicate 64 (CHR ''0''))), uuid_str = uuid_text,
      fmt_nano = (\<lambda>t. (if t < 0 then ''-'' else ''+'') @ itoa (nat \<bar>t\<bar>)),
      fmt_rfc3339 = (\<lambda>t. itoa (nat \<bar>t\<bar>))\<rparr>"

lemma uuid_nibble_less: "uuid_nibble u k < 16"
  using take_bit_nat_less_exp [of 4 "unat (drop_bit (4 * k) u)"]
  by (simp add: uuid_nibble_def unsigned_take_bit_eq)

lemma hex_digit_inj: "m < 16 \<Longrightarrow> n < 16 \<Longrightarrow> hex_digit m = hex_digit n \<Longrightarrow> m = n"
  unfolding hex_digit_def
  by (drule arg_cong [where f = "of_char :: char \<Rightarrow> nat"]) (simp split: if_splits)

lemma of_char_hex_digit:
  "n < 16 \<Longrightarrow> (of_char (hex_digit n) :: nat) = (if n < 10 then 48 + n else 87 + n)"
  by (simp add: hex_digit_def)

lemma hex_digit_not_pipe: "n < 16 \<Longrightarrow> hex_digit n \<noteq> CHR ''|''"
  using of_char_hex_digit [of n] by (auto split: if_splits)

lemma uuid_nibbles_inj:
  assumes "\<forall>k < 32. uuid_nibble u k = uuid_nibble v k"
  shows "u = v"
proof (rule bit_word_eqI)
  fix n :: nat assume "n < LENGTH(128)"
  then have k: "n div 4 < 32" by simp
  have "take_bit 4 (drop_bit (4 * (n div 4)) u) = take_bit 4 (drop_bit (4 * (n div 4)) v)"
    using assms k unfolding uuid_nibble_def by (metis word_unat_eq_iff)
  then have "bit (take_bit 4 (drop_bit (4 * (n div 4)) u)) (n mod 4) =
      bit (take_bit 4 (drop_bit (4 * (n div 4)) v)) (n mod 4)" by simp
  then show "bit u n \<longleftrightarrow> bit v n"
    by (simp add: bit_take_bit_iff bit_drop_bit_eq)
qed

lemma uuid_text_inj: "uuid_text u = uuid_text v \<Longrightarrow> u = v"
proof (rule uuid_nibbles_inj, intro allI impI)
  fix k :: nat
  assume eq: "uuid_text u = uuid_text v" and k: "k < 32"
  let ?h = "\<lambda>u k. hex_digit (uuid_nibble u (31 - k))"
  have "map (?h u) [0..<32] = map (?h v) [0..<32]"
  proof -
    have "[0..<32] = [0..<8] @ [8..<12] @ [12..<16] @ [16..<20] @ [20..<32::nat]"
      by (simp add: upt_rec)
    then show ?thesis using eq by (simp only: uuid_text_def Let_def map_append) simp
  qed
  then have "\<forall>j\<in>set [0..<32]. ?h u j = ?h v j" by (simp only: map_eq_conv)
  moreover have "31 - k \<in> set [0..<32]" and "31 - (31 - k) = k" using k by auto
  ultimately have "hex_digit (uuid_nibble u k) = hex_digit (uuid_nibble v k)" by metis
  then show "uuid_nibble u k = uuid_nibble v k"
    using k by (auto dest: hex_digit_inj [OF uuid_nibble_less uuid_nibble_less])
qed

lemma platform_ok_ref: "platform_ok ref_platform"
proof -
  have 1: "inj uuid_text" by (rule injI) (rule uuid_text_inj)
  have 2: "length (uuid_text u) = 36 \<and> CHR ''|'' \<notin> set (uuid_text u)" for u
    using hex_digit_not_pipe [OF uuid_nibble_less, of u] by (force simp: uuid_text_def)
  have 3: "CHR ''|'' \<notin> set (itoa n)" for n
  proof (induction n rule: itoa.induct)
    case (1 n)
    have "CHR ''|'' \<noteq> digit_char d" if "d < 10" for d
      using that by (auto simp: digit_char_def dest!: arg_cong [where f = "of_char :: char \<Rightarrow> nat"])
    with 1 show ?case by (cases "n < 10") (auto simp: itoa_small itoa_large)
  qed
  show ?thesis
    using 1 2 3 by (auto simp: platform_ok_def ref_platform_def inj_def dest!: itoa_inj
        split: if_splits)
qed

section \<open>Errors and lists\<close>

text \<open>Go's \<open>(value, error)\<close> is a sum, \<open>Inl\<close> the error; \<open>is_ok\<close> tests for a nil error.\<close>

definition is_ok :: "'e + 'a \<Rightarrow> bool" where
  "is_ok r \<longleftrightarrow> (case r of Inl _ \<Rightarrow> False | Inr _ \<Rightarrow> True)"

lemma is_ok_simps [simp]: "\<not> is_ok (Inl e)" "is_ok (Inr a)"
  by (simp_all add: is_ok_def)

lemma is_ok_iff: "is_ok r \<longleftrightarrow> (\<exists>a. r = Inr a)"
  by (cases r) simp_all

lemma list_all2_partners:
  "list_all2 P xs ys \<Longrightarrow> (\<forall>y\<in>set ys. \<exists>x\<in>set xs. P x y) \<and> (\<forall>x\<in>set xs. \<exists>y\<in>set ys. P x y)"
  by (induction rule: list_all2_induct) auto

section \<open>Maps kept as lists\<close>

text \<open>
  A Go map from the key of a record to the record, as the list of its values: storing replaces
  the value with the same key or adds one.
\<close>

fun put_by :: "('a \<Rightarrow> 'k) \<Rightarrow> 'a \<Rightarrow> 'a list \<Rightarrow> 'a list" where
  "put_by key x [] = [x]"
| "put_by key x (y # ys) = (if key y = key x then x # ys else y # put_by key x ys)"

definition find_by :: "('a \<Rightarrow> 'k) \<Rightarrow> 'k \<Rightarrow> 'a list \<Rightarrow> 'a option" where
  "find_by key k xs = List.find (\<lambda>x. key x = k) xs"

lemma find_by_simps [simp]:
  "find_by key k [] = None" "find_by key k (x # xs) = (if key x = k then Some x else find_by key k xs)"
  by (simp_all add: find_by_def)

lemma find_by_SomeD: "find_by key k xs = Some x \<Longrightarrow> x \<in> set xs \<and> key x = k"
  by (induction xs) (auto split: if_splits)

lemma find_by_None_iff: "find_by key k xs = None \<longleftrightarrow> (\<forall>x\<in>set xs. key x \<noteq> k)"
  by (induction xs) auto

lemma find_by_eq: "distinct (map key xs) \<Longrightarrow> find_by key k xs = Some x \<longleftrightarrow> x \<in> set xs \<and> key x = k"
  by (induction xs) force+

lemma find_by_put_by: "find_by key k (put_by key x xs) = (if key x = k then Some x else find_by key k xs)"
  by (induction xs) auto

lemma set_put_by_subset: "set (put_by key x xs) \<subseteq> insert x (set xs)"
  by (induction xs) auto

lemma put_by_mem: "x \<in> set (put_by key x xs)"
  by (induction xs) auto

lemma put_by_others: "y \<in> set xs \<Longrightarrow> key y \<noteq> key x \<Longrightarrow> y \<in> set (put_by key x xs)"
  by (induction xs) auto

lemma keys_put_by: "key ` set (put_by key x xs) = insert (key x) (key ` set xs)"
  by (induction xs) auto

lemma distinct_put_by: "distinct (map key xs) \<Longrightarrow> distinct (map key (put_by key x xs))"
proof (induction xs)
  case (Cons y ys)
  then show ?case using keys_put_by [of key x ys] by auto
qed simp

lemma set_put_by: "distinct (map key xs) \<Longrightarrow> set (put_by key x xs) = insert x {y \<in> set xs. key y \<noteq> key x}"
proof (induction xs)
  case (Cons y ys)
  from Cons.prems have "\<forall>z\<in>set ys. key z \<noteq> key y" by (simp add: image_iff) metis
  with Cons show ?case by (cases "key y = key x") auto
qed simp

text \<open>The values of such a map, which an iteration meets in some order.\<close>

definition values_by :: "('a \<Rightarrow> 'k) \<Rightarrow> 'a list \<Rightarrow> 'a list" where
  "values_by key xs = filter (\<lambda>x. find_by key (key x) xs = Some x) xs"

lemma mem_values_by: "x \<in> set (values_by key xs) \<longleftrightarrow> find_by key (key x) xs = Some x"
  by (auto simp: values_by_def dest: find_by_SomeD)

lemma values_put_by: "set (values_by key (put_by key x xs)) = insert x {y \<in> set (values_by key xs). key y \<noteq> key x}"
  by (auto simp: mem_values_by find_by_put_by split: if_splits)

section \<open>Stable sorting\<close>

text \<open>
  \<open>sort.SliceStable\<close> with a \<open>lt\<close> function: elements that \<open>lt\<close> does not order keep
  their order. Insertion sort from the right computes the one list the stable sort can
  return when \<open>lt\<close> is a strict weak order.
\<close>

fun insert_by :: "('a \<Rightarrow> 'a \<Rightarrow> bool) \<Rightarrow> 'a \<Rightarrow> 'a list \<Rightarrow> 'a list" where
  "insert_by lt x [] = [x]"
| "insert_by lt x (y # ys) =
     (if lt y x then y # insert_by lt x ys else x # y # ys)"

fun sort_by :: "('a \<Rightarrow> 'a \<Rightarrow> bool) \<Rightarrow> 'a list \<Rightarrow> 'a list" where
  "sort_by lt [] = []"
| "sort_by lt (x # xs) = insert_by lt x (sort_by lt xs)"

definition sorted_by :: "('a \<Rightarrow> 'a \<Rightarrow> bool) \<Rightarrow> 'a list \<Rightarrow> bool" where
  "sorted_by lt xs \<longleftrightarrow> sorted_wrt (\<lambda>x y. \<not> lt y x) xs"

lemma sorted_by_Nil [simp]: "sorted_by lt []"
  by (simp add: sorted_by_def)

lemma sorted_by_Cons:
  "sorted_by lt (x # xs) \<longleftrightarrow> (\<forall>y\<in>set xs. \<not> lt y x) \<and> sorted_by lt xs"
  by (simp add: sorted_by_def)

lemma sorted_by_append:
  "sorted_by lt (xs @ ys) \<longleftrightarrow>
     sorted_by lt xs \<and> sorted_by lt ys \<and> (\<forall>x\<in>set xs. \<forall>y\<in>set ys. \<not> lt y x)"
  by (simp add: sorted_by_def sorted_wrt_append)

lemma mset_insert_by [simp]: "mset (insert_by lt x xs) = add_mset x (mset xs)"
  by (induction xs) auto

lemma mset_sort_by [simp]: "mset (sort_by lt xs) = mset xs"
  by (induction xs) auto

lemma set_insert_by [simp]: "set (insert_by lt x xs) = insert x (set xs)"
  by (metis mset_insert_by set_mset_add_mset_insert set_mset_mset)

lemma set_sort_by [simp]: "set (sort_by lt xs) = set xs"
  by (metis mset_sort_by set_mset_mset)

lemma length_sort_by [simp]: "length (sort_by lt xs) = length xs"
  by (metis mset_sort_by size_mset)

lemma insert_by_front: "\<forall>y\<in>set xs. \<not> lt y x \<Longrightarrow> insert_by lt x xs = x # xs"
  by (cases xs) auto

text \<open>A list already in order is not touched, whatever \<open>lt\<close> is.\<close>

lemma sort_by_sorted: "sorted_by lt xs \<Longrightarrow> sort_by lt xs = xs"
  by (induction xs) (auto simp: sorted_by_Cons insert_by_front)

locale strict_weak_order =
  fixes lt :: "'a \<Rightarrow> 'a \<Rightarrow> bool"
  assumes less_asym: "lt x y \<Longrightarrow> \<not> lt y x"
    and not_less_trans: "\<not> lt y x \<Longrightarrow> \<not> lt z y \<Longrightarrow> \<not> lt z x"
begin

lemma sorted_insert_by: "sorted_by lt xs \<Longrightarrow> sorted_by lt (insert_by lt x xs)"
proof (induction xs)
  case (Cons y ys)
  show ?case
  proof (cases "lt y x")
    case True
    with Cons show ?thesis by (auto simp: sorted_by_Cons dest: less_asym)
  next
    case False
    with Cons.prems show ?thesis by (auto simp: sorted_by_Cons dest: not_less_trans [OF False])
  qed
qed (simp add: sorted_by_Cons)

lemma sorted_sort_by: "sorted_by lt (sort_by lt xs)"
  by (induction xs) (auto intro: sorted_insert_by)

lemma insert_by_filter:
  assumes "sorted_by lt xs"
  shows "filter P (insert_by lt x xs)
       = (if P x then insert_by lt x (filter P xs) else filter P xs)"
  using assms
proof (induction xs)
  case (Cons y ys)
  have "\<not> lt y x \<Longrightarrow> \<forall>z\<in>set (filter P ys). \<not> lt z x"
    using Cons.prems not_less_trans by (auto simp: sorted_by_Cons)
  then show ?case
    using Cons by (auto simp: sorted_by_Cons insert_by_front)
qed simp

text \<open>Sorting and filtering commute.\<close>

lemma sort_by_filter: "sort_by lt (filter P xs) = filter P (sort_by lt xs)"
  by (induction xs) (simp_all add: insert_by_filter sorted_sort_by)

end

end
