(* ===== verification/Identity.thy ===== *)
theory Identity
  imports Prelude
begin

text \<open>
  \<open>packages/identity\<close>: the roles and permissions of the platform, the permission matrix
  and the checks over it (\<open>role.go\<close>, \<open>permission.go\<close>), users, their account life
  cycle and the identity a request carries (\<open>user.go\<close>, \<open>context.go\<close>,
  \<open>lifecycle.go\<close>, \<open>session.go\<close>) and the three authorisation middlewares
  (\<open>middleware.go\<close>). Bearer tokens come from a pluggable provider, which is a parameter.
\<close>

section \<open>Roles and permissions\<close>

text \<open>
  \<open>Role\<close> is a string type with five named values; \<open>RoleOther\<close> stands for a string that
  is none of them.
\<close>

datatype Role =
  RoleJudge | RoleAdvocate | RoleClerk | RoleAdmin | RoleAuditor | RoleOther string

definition Roles :: "Role list" where
  "Roles = [RoleJudge, RoleAdvocate, RoleClerk, RoleAdmin, RoleAuditor]"

definition Role_IsValid :: "Role \<Rightarrow> bool" where
  "Role_IsValid r \<longleftrightarrow> (\<exists>known\<in>set Roles. r = known)"

datatype Permission =
  PermViewCase | PermEditCase | PermSignOff | PermDeleteCase | 
  PermScheduleHearing | PermViewHearing | PermManageUsers | PermViewUsers | 
  PermAuditRead | PermManageSettings | PermViewKeys | PermManageKeys | 
  PermBreakGlassKeys | PermViewPrivacy | PermManagePrivacy | 
  PermViewCompliance | PermManageCompliance | PermViewThreatmodel | 
  PermManageThreatmodel | PermViewSecuritytesting | PermManageSecuritytesting | 
  PermViewVulnmanagement | PermManageVulnmanagement | PermViewBackupDR | 
  PermManageBackupDR | PermViewIntegration | PermManageIntegration | 
  PermViewBulkImport | PermManageBulkImport | PermViewCorpusUpdater | 
  PermManageCorpusUpdater | PermViewAlerting | PermManageAlerting | 
  PermViewPilot | PermManagePilot | PermViewRelease | PermManageRelease

fun PermissionMatrix :: "Role \<Rightarrow> Permission list option" where
  "PermissionMatrix RoleJudge = Some
     [PermViewCase, PermSignOff, PermViewHearing, PermScheduleHearing, 
      PermViewUsers, PermAuditRead]"
| "PermissionMatrix RoleAdvocate = Some
     [PermViewCase, PermEditCase, PermViewHearing]"
| "PermissionMatrix RoleClerk = Some
     [PermViewCase, PermEditCase, PermScheduleHearing, PermViewHearing, 
      PermViewUsers]"
| "PermissionMatrix RoleAdmin = Some
     [PermViewCase, PermEditCase, PermDeleteCase, PermScheduleHearing, 
      PermViewHearing, PermManageUsers, PermViewUsers, PermManageSettings, 
      PermAuditRead, PermViewKeys, PermManageKeys, PermBreakGlassKeys, 
      PermViewPrivacy, PermManagePrivacy, PermViewCompliance, PermManageCompliance, 
      PermViewThreatmodel, PermManageThreatmodel, PermViewSecuritytesting, 
      PermManageSecuritytesting, PermViewVulnmanagement, PermManageVulnmanagement, 
      PermViewBackupDR, PermManageBackupDR, PermViewIntegration, 
      PermManageIntegration, PermViewBulkImport, PermManageBulkImport, 
      PermViewCorpusUpdater, PermManageCorpusUpdater, PermViewAlerting, 
      PermManageAlerting, PermViewPilot, PermManagePilot, PermViewRelease, 
      PermManageRelease]"
| "PermissionMatrix RoleAuditor = Some
     [PermViewCase, PermViewHearing, PermViewUsers, PermAuditRead, PermViewKeys, 
      PermViewPrivacy, PermViewCompliance, PermViewThreatmodel, 
      PermViewSecuritytesting, PermViewVulnmanagement, PermViewBackupDR, 
      PermViewIntegration, PermViewBulkImport, PermViewCorpusUpdater, 
      PermViewAlerting, PermViewPilot, PermViewRelease]"
| "PermissionMatrix (RoleOther s) = None"

definition HasPermission :: "Role \<Rightarrow> Permission \<Rightarrow> bool" where
  "HasPermission role perm =
     (case PermissionMatrix role of None \<Rightarrow> False | Some perms \<Rightarrow> perm \<in> set perms)"

lemma HasPermission_valid: "HasPermission r p \<Longrightarrow> Role_IsValid r"
  by (cases r) (simp_all add: HasPermission_def Role_IsValid_def Roles_def)

lemma HasPermission_SignOff [simp]: "HasPermission r PermSignOff \<longleftrightarrow> r = RoleJudge"
  by (cases r) (simp_all add: HasPermission_def)

lemma HasPermission_EditCase [simp]:
  "HasPermission r PermEditCase \<longleftrightarrow> r \<in> {RoleAdvocate, RoleClerk, RoleAdmin}"
  by (cases r) (simp_all add: HasPermission_def)

lemma HasPermission_ViewCase [simp]: "HasPermission r PermViewCase \<longleftrightarrow> Role_IsValid r"
  by (cases r) (simp_all add: HasPermission_def Role_IsValid_def Roles_def)

lemma HasPermission_AuditRead [simp]:
  "HasPermission r PermAuditRead \<longleftrightarrow> r \<in> {RoleJudge, RoleAdmin, RoleAuditor}"
  by (cases r) (simp_all add: HasPermission_def)

section \<open>Users and the identity of a request\<close>

datatype UserStatus = UserStatusActive | UserStatusInvited | UserStatusDisabled
  | UserStatusOther string

definition UserStatus_IsValid :: "UserStatus \<Rightarrow> bool" where
  "UserStatus_IsValid s \<longleftrightarrow> s \<in> {UserStatusActive, UserStatusInvited, UserStatusDisabled}"

record User =
  us_ID :: uuid
  us_TenantID :: uuid
  us_Email :: string
  us_Name :: string
  us_Roles :: "Role list"
  us_Status :: UserStatus
  us_InvitedAt :: "time option"
  us_DisabledAt :: "time option"
  us_CreatedAt :: time
  us_UpdatedAt :: time

definition User_HasRole :: "User \<Rightarrow> Role \<Rightarrow> bool" where
  "User_HasRole u r \<longleftrightarrow> (\<exists>role\<in>set (us_Roles u). role = r)"

definition User_HasPermission :: "User \<Rightarrow> Permission \<Rightarrow> bool" where
  "User_HasPermission u perm \<longleftrightarrow> (\<exists>role\<in>set (us_Roles u). HasPermission role perm)"

definition User_IsActive :: "User \<Rightarrow> bool" where
  "User_IsActive u \<longleftrightarrow> us_Status u = UserStatusActive"

text \<open>
  What the packages read of a \<open>context.Context\<close> is the user it carries, if any.
\<close>

type_synonym ctx = "User option"

definition WithUser :: "ctx \<Rightarrow> User \<Rightarrow> ctx" where
  "WithUser c u = Some u"

definition UserFromContext :: "ctx \<Rightarrow> User option" where
  "UserFromContext c = c"

definition RolesFromContext :: "ctx \<Rightarrow> Role list option" where
  "RolesFromContext c = (case UserFromContext c of None \<Rightarrow> None | Some u \<Rightarrow> Some (us_Roles u))"

section \<open>Account life cycle\<close>

datatype id_error = ErrUnauthenticated | ErrForbidden | ErrUserNotFound | ErrTokenInvalid
  | ErrTokenExpired | ErrAlreadyActive | ErrAlreadyDisabled

record LifecycleEvent =
  le_Kind :: string
  le_User :: User

definition InviteUser ::
  "User option \<Rightarrow> Role list \<Rightarrow> time \<Rightarrow> id_error + (User \<times> LifecycleEvent)" where
  "InviteUser u roles now =
     (case u of
        None \<Rightarrow> Inl ErrUserNotFound
      | Some u \<Rightarrow>
          let updated = u\<lparr>us_Status := UserStatusInvited, us_Roles := roles,
                          us_InvitedAt := Some now, us_DisabledAt := None,
                          us_UpdatedAt := now\<rparr>
          in Inr (updated, \<lparr>le_Kind = ''user.invited'', le_User = updated\<rparr>))"

definition DisableUser ::
  "User option \<Rightarrow> time \<Rightarrow> id_error + (User \<times> LifecycleEvent)" where
  "DisableUser u now =
     (case u of
        None \<Rightarrow> Inl ErrUserNotFound
      | Some u \<Rightarrow>
          if us_Status u = UserStatusDisabled then Inl ErrAlreadyDisabled
          else
            let updated = u\<lparr>us_Status := UserStatusDisabled, us_DisabledAt := Some now,
                            us_UpdatedAt := now\<rparr>
            in Inr (updated, \<lparr>le_Kind = ''user.disabled'', le_User = updated\<rparr>))"

definition EnableUser ::
  "User option \<Rightarrow> time \<Rightarrow> id_error + (User \<times> LifecycleEvent)" where
  "EnableUser u now =
     (case u of
        None \<Rightarrow> Inl ErrUserNotFound
      | Some u \<Rightarrow>
          if us_Status u = UserStatusActive then Inl ErrAlreadyActive
          else
            let updated = u\<lparr>us_Status := UserStatusActive, us_DisabledAt := None,
                            us_UpdatedAt := now\<rparr>
            in Inr (updated, \<lparr>le_Kind = ''user.enabled'', le_User = updated\<rparr>))"

text \<open>
  The invariant of an account: a disabled account carries the instant it was disabled at,
  and no active or invited one does.
\<close>

definition account_ok :: "User \<Rightarrow> bool" where
  "account_ok u \<longleftrightarrow> UserStatus_IsValid (us_Status u) \<and>
     (us_Status u = UserStatusDisabled \<longleftrightarrow> us_DisabledAt u \<noteq> None)"

inductive account_step :: "User \<Rightarrow> User \<Rightarrow> bool" where
  invite: "InviteUser (Some u) roles now = Inr (u', e) \<Longrightarrow> account_step u u'"
| disable: "DisableUser (Some u) now = Inr (u', e) \<Longrightarrow> account_step u u'"
| enable: "EnableUser (Some u) now = Inr (u', e) \<Longrightarrow> account_step u u'"

inductive_cases account_stepE: "account_step u u'"

lemma account_step_keeps: "account_step u u' \<Longrightarrow> account_ok u'"
  by (erule account_stepE)
     (auto simp: InviteUser_def DisableUser_def EnableUser_def Let_def account_ok_def
        UserStatus_IsValid_def split: if_splits)

lemma account_step_frame:
  "account_step u u' \<Longrightarrow> us_ID u' = us_ID u \<and> us_TenantID u' = us_TenantID u"
  by (erule account_stepE)
     (auto simp: InviteUser_def DisableUser_def EnableUser_def Let_def split: if_splits)

section \<open>Sessions, tokens and the middlewares\<close>

record Session =
  se_ID :: uuid
  se_UserID :: uuid
  se_TenantID :: uuid
  se_Roles :: "Role list"
  se_ExpiresAt :: time
  se_CreatedAt :: time

definition Session_IsExpired :: "Session \<Rightarrow> time \<Rightarrow> bool" where
  "Session_IsExpired s now \<longleftrightarrow> se_ExpiresAt s < now"

record TokenClaims =
  tc_UserID :: uuid
  tc_TenantID :: uuid
  tc_Email :: string
  tc_Roles :: "Role list"
  tc_IssuedAt :: time
  tc_ExpiresAt :: time
  tc_TokenID :: string

definition TokenClaims_IsExpired :: "TokenClaims \<Rightarrow> time \<Rightarrow> bool" where
  "TokenClaims_IsExpired c now \<longleftrightarrow> tc_ExpiresAt c < now"

text \<open>
  A middleware either answers the request with an HTTP error or calls the next handler
  with a context.
\<close>

datatype outcome = Unauthorized id_error | Forbidden id_error | Next ctx

definition lower_ascii :: "char \<Rightarrow> char" where
  "lower_ascii c = (let n = of_char c :: nat in
     if 65 \<le> n \<and> n \<le> 90 then char_of (n + 32) else c)"

text \<open>
  \<open>strings.SplitN(hdr, " ", 2)\<close> splits at the first space; \<open>strings.EqualFold\<close> against an
  ASCII word without \<open>k\<close> or \<open>s\<close> folds ASCII case only.
\<close>

definition extractBearerToken :: "string \<Rightarrow> string option" where
  "extractBearerToken hdr =
     (if hdr = [] then None
      else
        let scheme = takeWhile (\<lambda>c. c \<noteq> CHR '' '') hdr;
            rest = dropWhile (\<lambda>c. c \<noteq> CHR '' '') hdr
        in if rest = [] \<or> map lower_ascii scheme \<noteq> ''bearer'' then None
           else let token = TrimSpace (tl rest) in if token = [] then None else Some token)"

text \<open>
  \<open>AuthMiddleware\<close>: \<open>validate\<close> is the provider's \<open>ValidateToken\<close>, \<open>parse_uuid\<close> is
  \<open>uuid.Parse\<close> and \<open>store\<close> the session store's \<open>Get\<close>, if a store is configured.
\<close>

definition AuthMiddleware ::
  "(string \<Rightarrow> id_error + TokenClaims) \<Rightarrow> (string \<Rightarrow> uuid option) \<Rightarrow>
   (uuid \<Rightarrow> id_error + Session) option \<Rightarrow> string \<Rightarrow> outcome" where
  "AuthMiddleware validate parse_uuid store hdr =
     (case extractBearerToken hdr of
        None \<Rightarrow> Unauthorized ErrUnauthenticated
      | Some token \<Rightarrow>
          (case validate token of
             Inl e \<Rightarrow> if e = ErrTokenExpired then Unauthorized ErrTokenExpired
                      else Unauthorized ErrUnauthenticated
           | Inr claims \<Rightarrow>
               let user = \<lparr>us_ID = tc_UserID claims, us_TenantID = tc_TenantID claims,
                           us_Email = tc_Email claims, us_Name = [],
                           us_Roles = tc_Roles claims, us_Status = UserStatusActive,
                           us_InvitedAt = None, us_DisabledAt = None,
                           us_CreatedAt = zero_time, us_UpdatedAt = zero_time\<rparr>;
                   roles = (case store of
                              None \<Rightarrow> us_Roles user
                            | Some get \<Rightarrow>
                                (case parse_uuid (tc_TokenID claims) of
                                   None \<Rightarrow> us_Roles user
                                 | Some sid \<Rightarrow>
                                     (case get sid of
                                        Inl _ \<Rightarrow> us_Roles user
                                      | Inr session \<Rightarrow> se_Roles session)))
               in Next (WithUser None (user\<lparr>us_Roles := roles\<rparr>))))"

definition RequireRole :: "Role list \<Rightarrow> ctx \<Rightarrow> outcome" where
  "RequireRole roles c =
     (case UserFromContext c of
        None \<Rightarrow> Unauthorized ErrUnauthenticated
      | Some user \<Rightarrow> if \<exists>required\<in>set roles. User_HasRole user required then Next c
                      else Forbidden ErrForbidden)"

definition RequirePermission :: "Permission list \<Rightarrow> ctx \<Rightarrow> outcome" where
  "RequirePermission perms c =
     (case UserFromContext c of
        None \<Rightarrow> Unauthorized ErrUnauthenticated
      | Some user \<Rightarrow> if \<exists>perm\<in>set perms. \<not> User_HasPermission user perm
                      then Forbidden ErrForbidden else Next c)"

lemma RequirePermission_Next:
  "RequirePermission perms c = Next c' \<longleftrightarrow>
     c' = c \<and> (\<exists>u. c = Some u \<and> (\<forall>p\<in>set perms. User_HasPermission u p))"
  by (auto simp: RequirePermission_def UserFromContext_def split: option.splits)

text \<open>
  The gate most packages repeat: the context must carry a user who holds the permission.
  \<open>unauth\<close> and \<open>forbidden\<close> are the errors of the calling package.
\<close>

definition require_perm :: "'e \<Rightarrow> 'e \<Rightarrow> Permission \<Rightarrow> ctx \<Rightarrow> 'e + User" where
  "require_perm unauth forbidden perm c =
     (case UserFromContext c of
        None \<Rightarrow> Inl unauth
      | Some user \<Rightarrow> if User_HasPermission user perm then Inr user else Inl forbidden)"

lemma require_perm_Inr:
  "require_perm unauth forbidden perm c = Inr u \<longleftrightarrow> c = Some u \<and> User_HasPermission u perm"
  by (auto simp: require_perm_def UserFromContext_def split: option.splits)

lemma require_perm_Some:
  "User_HasPermission u perm \<Longrightarrow> require_perm unauth forbidden perm (Some u) = Inr u"
  by (simp add: require_perm_Inr)


section \<open>Properties\<close>

text \<open>
  C5: The whole authorisation path of a request to a sign-off route (\<open>AuthMiddleware\<close>, then
  \<open>RequirePermission(PermSignOff)\<close>). The handler is reached only when the header carried a
  bearer token the provider accepts, and then its user is the token's subject in the token's
  tenant and acts as a judge: the role comes from the token, or from the session the token
  names when the store has it.
\<close>

theorem signoff_route_needs_judge:
  assumes "AuthMiddleware validate parse_uuid store hdr = Next c"
    and "RequirePermission [PermSignOff] c = Next c'"
  shows "\<exists>token claims u. extractBearerToken hdr = Some token \<and> validate token = Inr claims \<and>
    c' = Some u \<and> us_ID u = tc_UserID claims \<and> us_TenantID u = tc_TenantID claims \<and>
    RoleJudge \<in> set (us_Roles u) \<and>
    (us_Roles u = tc_Roles claims \<or>
     (\<exists>get sid session. store = Some get \<and> parse_uuid (tc_TokenID claims) = Some sid \<and>
        get sid = Inr session \<and> us_Roles u = se_Roles session))"
  using assms
  by (auto simp: AuthMiddleware_def RequirePermission_Next WithUser_def User_HasPermission_def
      Let_def split: option.splits sum.splits if_splits)

definition sample_claims :: TokenClaims where
  "sample_claims = \<lparr>tc_UserID = 1, tc_TenantID = 2, tc_Email = [], tc_Roles = [RoleJudge],
     tc_IssuedAt = 1, tc_ExpiresAt = 2, tc_TokenID = []\<rparr>"

theorem signoff_route_needs_judge_witness:
  "\<exists>c u. AuthMiddleware (\<lambda>_. Inr sample_claims) (\<lambda>_. None) None ''Bearer abc'' = Next c \<and>
     RequirePermission [PermSignOff] c = Next (Some u) \<and> us_ID u = 1 \<and>
     RoleJudge \<in> set (us_Roles u)"
proof -
  have x: "extractBearerToken ''Bearer abc'' = Some ''abc''" by code_simp
  obtain c where c: "AuthMiddleware (\<lambda>_. Inr sample_claims) (\<lambda>_. None) None ''Bearer abc'' = Next c"
    by (simp add: AuthMiddleware_def x)
  have "RequirePermission [PermSignOff] c = Next c"
    using c by (auto simp: AuthMiddleware_def x RequirePermission_Next WithUser_def
        User_HasPermission_def sample_claims_def)
  from signoff_route_needs_judge [OF c this] c this show ?thesis
    by (auto simp: sample_claims_def)
qed

text \<open>
  Separation of duties in the permission matrix: sign-off is the judge's alone and never
  the administrator's; hard deletion, user management, key rotation and break-glass access
  are the administrator's alone; the auditor holds no permission that changes data; a role
  that is not one of the five holds none.
\<close>

lemma separation_of_duties:
  "(HasPermission r PermSignOff \<longleftrightarrow> r = RoleJudge) \<and>
   (\<forall>p\<in>{PermDeleteCase, PermManageUsers, PermManageSettings, PermManageKeys,
         PermBreakGlassKeys, PermManagePrivacy, PermManageCompliance, PermManageRelease}.
      HasPermission r p \<longleftrightarrow> r = RoleAdmin) \<and>
   (\<forall>p. HasPermission RoleAuditor p \<longrightarrow>
      p \<in> {PermViewCase, PermViewHearing, PermViewUsers, PermAuditRead, PermViewKeys,
        PermViewPrivacy, PermViewCompliance, PermViewThreatmodel, PermViewSecuritytesting,
        PermViewVulnmanagement, PermViewBackupDR, PermViewIntegration, PermViewBulkImport,
        PermViewCorpusUpdater, PermViewAlerting, PermViewPilot, PermViewRelease}) \<and>
   (\<not> Role_IsValid r \<longrightarrow> \<not> HasPermission r p')"
proof -
  have "\<forall>p. HasPermission RoleAuditor p \<longrightarrow>
      p \<in> {PermViewCase, PermViewHearing, PermViewUsers, PermAuditRead, PermViewKeys,
        PermViewPrivacy, PermViewCompliance, PermViewThreatmodel, PermViewSecuritytesting,
        PermViewVulnmanagement, PermViewBackupDR, PermViewIntegration, PermViewBulkImport,
        PermViewCorpusUpdater, PermViewAlerting, PermViewPilot, PermViewRelease}"
    by (simp add: HasPermission_def)
  moreover have "\<forall>p\<in>{PermDeleteCase, PermManageUsers, PermManageSettings, PermManageKeys,
         PermBreakGlassKeys, PermManagePrivacy, PermManageCompliance, PermManageRelease}.
      HasPermission r p \<longleftrightarrow> r = RoleAdmin"
    by (cases r) (simp_all add: HasPermission_def)
  ultimately show ?thesis using HasPermission_valid by auto
qed

lemma separation_of_duties_witness:
  "\<not> Role_IsValid (RoleOther ''root'') \<and> \<not> HasPermission (RoleOther ''root'') PermSignOff"
  using separation_of_duties [of "RoleOther ''root''" PermSignOff]
  by (simp add: Role_IsValid_def Roles_def)

end
