(* ===== verification/CaseLifecycle.thy ===== *)
theory CaseLifecycle
  imports Identity "HOL-Library.AList"
begin

text \<open>
  \<open>packages/caselifecycle\<close>: cases and their state machine. Types and validation
  (\<open>types.go\<close>, \<open>case.go\<close>), which actions a state permits (\<open>actions.go\<close>), the transition
  operations \<open>Transition\<close>, \<open>Reopen\<close> and \<open>Archive\<close>, metadata updates with optimistic
  versions (\<open>metadata.go\<close>), the bulk operations (\<open>bulk.go\<close>), the permission gates
  (\<open>access.go\<close>) and the in-memory repository. The operations are written against the
  \<open>Repository\<close> interface, a record of operations whose contract is the locale
  \<open>case_repository\<close>; \<open>None\<close> is a nil repository.
\<close>

section \<open>States and actions\<close>

datatype State = StateDraft | StateActive | StateUnderReview | StateClosed | StateArchived
  | StateUnknown string

definition State_Valid :: "State \<Rightarrow> bool" where
  "State_Valid s \<longleftrightarrow> (case s of StateUnknown _ \<Rightarrow> False | _ \<Rightarrow> True)"

definition IsTerminal :: "State \<Rightarrow> bool" where
  "IsTerminal s \<longleftrightarrow> s = StateArchived"

text \<open>A state that is not a key of the Go map yields the nil slice.\<close>

fun allowedTransitions :: "State \<Rightarrow> State list" where
  "allowedTransitions StateDraft = [StateActive]"
| "allowedTransitions StateActive = [StateUnderReview]"
| "allowedTransitions StateUnderReview = [StateClosed, StateActive]"
| "allowedTransitions StateClosed = []"
| "allowedTransitions StateArchived = []"
| "allowedTransitions (StateUnknown _) = []"

definition CanTransition :: "State \<Rightarrow> State \<Rightarrow> bool" where
  "CanTransition from to \<longleftrightarrow> (\<exists>s\<in>set (allowedTransitions from). s = to)"

lemma CanTransition_iff:
  "CanTransition a b \<longleftrightarrow> (a, b) \<in> {(StateDraft, StateActive), (StateActive, StateUnderReview),
     (StateUnderReview, StateClosed), (StateUnderReview, StateActive)}"
  by (cases a) (auto simp: CanTransition_def)

datatype Action = ActionIngestEvidence | ActionEditCategory | ActionEditTimeline
  | ActionGenerateReasoning | ActionReviewOpinion | ActionEditMetadata | ActionUnknown string

fun permittedActions :: "State \<Rightarrow> Action list" where
  "permittedActions StateDraft =
     [ActionIngestEvidence, ActionEditCategory, ActionEditTimeline, ActionEditMetadata]"
| "permittedActions StateActive =
     [ActionIngestEvidence, ActionEditCategory, ActionEditTimeline, ActionGenerateReasoning,
      ActionReviewOpinion, ActionEditMetadata]"
| "permittedActions StateUnderReview = [ActionReviewOpinion, ActionEditMetadata]"
| "permittedActions StateClosed = []"
| "permittedActions StateArchived = []"
| "permittedActions (StateUnknown _) = []"

definition CanPerform :: "State \<Rightarrow> Action \<Rightarrow> bool" where
  "CanPerform state action \<longleftrightarrow> action \<in> set (permittedActions state)"

section \<open>Cases, records and errors\<close>

record Case =
  cs_ID :: uuid
  cs_TenantID :: uuid
  cs_JurisdictionID :: uuid
  cs_CategoryID :: string
  cs_Title :: string
  cs_Reference :: string
  cs_State :: State
  cs_Metadata :: "string \<rightharpoonup> string"
  cs_MetadataVersion :: "64 word"
  cs_CreatedBy :: uuid
  cs_CreatedAt :: time
  cs_UpdatedAt :: time
  cs_ArchivedAt :: "time option"

record TransitionRecord =
  tr_ID :: uuid
  tr_CaseID :: uuid
  tr_TenantID :: uuid
  tr_FromState :: State
  tr_ToState :: State
  tr_Actor :: uuid
  tr_Reason :: string
  tr_OccurredAt :: time

datatype cl_error = ErrNotFound | ErrCrossTenantAccess | ErrInvalidCase | ErrIllegalTransition
  | ErrUnauthenticated | ErrForbidden | ErrReasonRequired | ErrActionNotPermitted
  | ErrInvalidMetadataKey | ErrMetadataVersionConflict | ErrNilRepository
  | Wrapf string cl_error

definition RequireAction :: "State \<Rightarrow> Action \<Rightarrow> cl_error option" where
  "RequireAction state action = (if \<not> CanPerform state action then Some ErrActionNotPermitted else None)"

definition PermittedActions :: "State \<Rightarrow> Action list" where
  "PermittedActions state =
     filter (\<lambda>a. a \<in> set (permittedActions state))
       [ActionIngestEvidence, ActionEditCategory, ActionEditTimeline, ActionGenerateReasoning,
        ActionReviewOpinion, ActionEditMetadata]"

definition Case_Validate :: "Case option \<Rightarrow> cl_error option" where
  "Case_Validate c =
     (case c of
        None \<Rightarrow> Some ErrInvalidCase
      | Some c \<Rightarrow>
          if cs_TenantID c = uuid_Nil then Some ErrInvalidCase
          else if cs_JurisdictionID c = uuid_Nil then Some ErrInvalidCase
          else if TrimSpace (cs_Title c) = [] then Some ErrInvalidCase
          else if \<not> State_Valid (cs_State c) then Some ErrInvalidCase
          else None)"

definition requireMatchingTenant :: "uuid \<Rightarrow> uuid \<Rightarrow> cl_error option" where
  "requireMatchingTenant scopeTenantID entityTenantID =
     (if entityTenantID \<noteq> uuid_Nil \<and> entityTenantID \<noteq> scopeTenantID
      then Some ErrCrossTenantAccess else None)"

definition RequireViewPermission :: "ctx \<Rightarrow> cl_error option" where
  "RequireViewPermission c =
     (case require_perm ErrUnauthenticated ErrForbidden PermViewCase c of
        Inl e \<Rightarrow> Some e | Inr _ \<Rightarrow> None)"

definition RequireEditPermission :: "ctx \<Rightarrow> cl_error option" where
  "RequireEditPermission c =
     (case require_perm ErrUnauthenticated ErrForbidden PermEditCase c of
        Inl e \<Rightarrow> Some e | Inr _ \<Rightarrow> None)"

definition RequireDeletePermission :: "ctx \<Rightarrow> cl_error option" where
  "RequireDeletePermission c =
     (case require_perm ErrUnauthenticated ErrForbidden PermDeleteCase c of
        Inl e \<Rightarrow> Some e | Inr _ \<Rightarrow> None)"

text \<open>A Go map given as an argument is an association list with distinct keys.\<close>

record NewCaseInput =
  nc_TenantID :: uuid
  nc_JurisdictionID :: uuid
  nc_CategoryID :: string
  nc_Title :: string
  nc_Reference :: string
  nc_Metadata :: "(string \<times> string) list"
  nc_CreatedBy :: uuid

definition NewCase :: "time \<Rightarrow> uuid \<Rightarrow> NewCaseInput \<Rightarrow> cl_error + Case" where
  "NewCase now newid input =
     (if nc_CreatedBy input = uuid_Nil then Inl ErrUnauthenticated
      else
        let c = \<lparr>cs_ID = newid, cs_TenantID = nc_TenantID input,
                 cs_JurisdictionID = nc_JurisdictionID input,
                 cs_CategoryID = TrimSpace (nc_CategoryID input),
                 cs_Title = TrimSpace (nc_Title input),
                 cs_Reference = TrimSpace (nc_Reference input),
                 cs_State = StateDraft, cs_Metadata = map_of (nc_Metadata input),
                 cs_MetadataVersion = 1, cs_CreatedBy = nc_CreatedBy input,
                 cs_CreatedAt = now, cs_UpdatedAt = now, cs_ArchivedAt = None\<rparr>
        in (case Case_Validate (Some c) of Some err \<Rightarrow> Inl err | None \<Rightarrow> Inr c))"

section \<open>The repository interface and its in-memory implementation\<close>

record CaseFilter =
  cf_State :: "State option"
  cf_JurisdictionID :: uuid
  cf_CategoryID :: string

record 's CaseRepository =
  cr_Create :: "'s \<Rightarrow> uuid \<Rightarrow> uuid \<Rightarrow> Case option \<Rightarrow> (cl_error + Case) \<times> 's"
  cr_Get :: "'s \<Rightarrow> uuid \<Rightarrow> uuid \<Rightarrow> cl_error + Case"
  cr_List :: "'s \<Rightarrow> uuid \<Rightarrow> CaseFilter \<Rightarrow> cl_error + Case list"
  cr_Update :: "'s \<Rightarrow> uuid \<Rightarrow> Case option \<Rightarrow> (cl_error + unit) \<times> 's"
  cr_AppendTransition ::
    "'s \<Rightarrow> uuid \<Rightarrow> uuid \<Rightarrow> TransitionRecord option \<Rightarrow> (cl_error + unit) \<times> 's"
  cr_ListTransitions :: "'s \<Rightarrow> uuid \<Rightarrow> uuid \<Rightarrow> cl_error + TransitionRecord list"

text \<open>
  The Go maps of the repository: the cases as an association list (its order is the
  iteration order, which no result depends on), the transition log as a function whose
  default is the nil slice. Stored values are clones, so values serve as they are.
  \<open>newid\<close> is the result of \<open>uuid.New()\<close>.
\<close>

record CaseStore =
  st_cases :: "(uuid \<times> Case) list"
  st_transitions :: "uuid \<Rightarrow> TransitionRecord list"

definition cases_Create ::
  "CaseStore \<Rightarrow> uuid \<Rightarrow> uuid \<Rightarrow> Case option \<Rightarrow> (cl_error + Case) \<times> CaseStore" where
  "cases_Create r tenantID newid c =
     (case c of
        None \<Rightarrow> (Inl (Wrapf ''InMemoryRepository.Create'' ErrInvalidCase), r)
      | Some c \<Rightarrow>
          let c = (if cs_TenantID c = uuid_Nil then c\<lparr>cs_TenantID := tenantID\<rparr> else c) in
          (case requireMatchingTenant tenantID (cs_TenantID c) of
             Some err \<Rightarrow> (Inl err, r)
           | None \<Rightarrow>
               (case Case_Validate (Some c) of
                  Some err \<Rightarrow> (Inl err, r)
                | None \<Rightarrow>
                    let c = (if cs_ID c = uuid_Nil then c\<lparr>cs_ID := newid\<rparr> else c) in
                    (Inr c, r\<lparr>st_cases := AList.update (cs_ID c) c (st_cases r)\<rparr>))))"

definition cases_Get :: "CaseStore \<Rightarrow> uuid \<Rightarrow> uuid \<Rightarrow> cl_error + Case" where
  "cases_Get r tenantID caseID =
     (case map_of (st_cases r) caseID of
        None \<Rightarrow> Inl ErrNotFound
      | Some c \<Rightarrow> if cs_TenantID c \<noteq> tenantID then Inl ErrNotFound else Inr c)"

definition case_matches :: "uuid \<Rightarrow> CaseFilter \<Rightarrow> Case \<Rightarrow> bool" where
  "case_matches tenantID f c =
     (if cs_TenantID c \<noteq> tenantID then False
      else if cf_State f \<noteq> None \<and> Some (cs_State c) \<noteq> cf_State f then False
      else if cf_JurisdictionID f \<noteq> uuid_Nil \<and> cs_JurisdictionID c \<noteq> cf_JurisdictionID f then False
      else if cf_CategoryID f \<noteq> [] \<and> cs_CategoryID c \<noteq> cf_CategoryID f then False
      else True)"

definition case_less :: "platform \<Rightarrow> Case \<Rightarrow> Case \<Rightarrow> bool" where
  "case_less P a b =
     (if cs_CreatedAt a = cs_CreatedAt b then uuid_str P (cs_ID a) < uuid_str P (cs_ID b)
      else cs_CreatedAt a < cs_CreatedAt b)"

definition cases_List :: "platform \<Rightarrow> CaseStore \<Rightarrow> uuid \<Rightarrow> CaseFilter \<Rightarrow> cl_error + Case list" where
  "cases_List P r tenantID f =
     Inr (sort_by (case_less P) (filter (case_matches tenantID f) (map snd (st_cases r))))"

definition cases_Update ::
  "CaseStore \<Rightarrow> uuid \<Rightarrow> Case option \<Rightarrow> (cl_error + unit) \<times> CaseStore" where
  "cases_Update r tenantID c =
     (case c of
        None \<Rightarrow> (Inl (Wrapf ''InMemoryRepository.Update'' ErrInvalidCase), r)
      | Some c \<Rightarrow>
          (case requireMatchingTenant tenantID (cs_TenantID c) of
             Some err \<Rightarrow> (Inl err, r)
           | None \<Rightarrow>
               (case map_of (st_cases r) (cs_ID c) of
                  None \<Rightarrow> (Inl ErrNotFound, r)
                | Some existing \<Rightarrow>
                    if cs_TenantID existing \<noteq> tenantID then (Inl ErrNotFound, r)
                    else (Inr (), r\<lparr>st_cases := AList.update (cs_ID c) c (st_cases r)\<rparr>))))"

definition cases_AppendTransition ::
  "CaseStore \<Rightarrow> uuid \<Rightarrow> uuid \<Rightarrow> TransitionRecord option \<Rightarrow> (cl_error + unit) \<times> CaseStore" where
  "cases_AppendTransition r tenantID newid entry =
     (case entry of
        None \<Rightarrow> (Inl (Wrapf ''InMemoryRepository.AppendTransition'' ErrInvalidCase), r)
      | Some rc \<Rightarrow>
          (case requireMatchingTenant tenantID (tr_TenantID rc) of
             Some err \<Rightarrow> (Inl err, r)
           | None \<Rightarrow>
               let rc = (if tr_ID rc = uuid_Nil then rc\<lparr>tr_ID := newid\<rparr> else rc) in
               (Inr (), r\<lparr>st_transitions := (st_transitions r)
                  (tr_CaseID rc := st_transitions r (tr_CaseID rc) @ [rc])\<rparr>)))"

text \<open>
  \<open>ListTransitions\<close> sorts by \<open>OccurredAt\<close> with \<open>sort.Slice\<close>; where instants coincide that
  sort may return any order, and the stable order stands for it.
\<close>

definition cases_ListTransitions ::
  "CaseStore \<Rightarrow> uuid \<Rightarrow> uuid \<Rightarrow> cl_error + TransitionRecord list" where
  "cases_ListTransitions r tenantID caseID =
     (case map_of (st_cases r) caseID of
        None \<Rightarrow> Inl ErrNotFound
      | Some c \<Rightarrow>
          if cs_TenantID c \<noteq> tenantID then Inl ErrNotFound
          else Inr (sort_by (\<lambda>a b. tr_OccurredAt a < tr_OccurredAt b)
                 (filter (\<lambda>rc. tr_TenantID rc = tenantID) (st_transitions r caseID))))"

definition mem_cases :: "platform \<Rightarrow> CaseStore CaseRepository" where
  "mem_cases P = \<lparr>cr_Create = cases_Create, cr_Get = cases_Get, cr_List = cases_List P,
     cr_Update = cases_Update, cr_AppendTransition = cases_AppendTransition,
     cr_ListTransitions = cases_ListTransitions\<rparr>"

section \<open>Transition, Reopen and Archive\<close>

definition wrapf :: "string \<Rightarrow> cl_error \<Rightarrow> cl_error" where
  "wrapf fn err = Wrapf fn err"

record TransitionInput =
  ti_TenantID :: uuid
  ti_CaseID :: uuid
  ti_ToState :: State
  ti_Reason :: string

text \<open>
  \<open>now\<close> is the clock's reading and \<open>newid\<close> the \<open>uuid.New()\<close> of the operation. Each operation
  ends in the same two writes, the case and then its audit record; the state that the first
  write left is kept when the second fails.
\<close>

definition commit_move ::
  "'s CaseRepository \<Rightarrow> uuid \<Rightarrow> uuid \<Rightarrow> Case \<Rightarrow> TransitionRecord \<Rightarrow> 's \<Rightarrow> (cl_error + Case) \<times> 's" where
  "commit_move R tenantID newid c entry s =
     (case cr_Update R s tenantID (Some c) of
        (Inl err, s1) \<Rightarrow> (Inl err, s1)
      | (Inr _, s1) \<Rightarrow>
          (case cr_AppendTransition R s1 tenantID newid (Some entry) of
             (Inl err, s2) \<Rightarrow> (Inl err, s2)
           | (Inr _, s2) \<Rightarrow> (Inr c, s2)))"

text \<open>What \<open>Transition\<close> does with the case it read, from the check of the move on.\<close>

definition transition_read ::
  "'s CaseRepository \<Rightarrow> time \<Rightarrow> uuid \<Rightarrow> User \<Rightarrow> TransitionInput \<Rightarrow> Case \<Rightarrow> 's
    \<Rightarrow> (cl_error + Case) \<times> 's" where
  "transition_read R now newid user input c s =
     (if \<not> CanTransition (cs_State c) (ti_ToState input)
      then (Inl (wrapf ''Transition'' ErrIllegalTransition), s)
      else
        let fromState = cs_State c;
            c = c\<lparr>cs_State := ti_ToState input, cs_UpdatedAt := now\<rparr>;
            entry = \<lparr>tr_ID = newid, tr_CaseID = cs_ID c, tr_TenantID = cs_TenantID c,
                     tr_FromState = fromState, tr_ToState = ti_ToState input,
                     tr_Actor = us_ID user, tr_Reason = ti_Reason input, tr_OccurredAt = now\<rparr>
        in commit_move R (ti_TenantID input) newid c entry s)"

definition Transition ::
  "'s CaseRepository option \<Rightarrow> time \<Rightarrow> uuid \<Rightarrow> ctx \<Rightarrow> TransitionInput \<Rightarrow> 's
    \<Rightarrow> (cl_error + Case) \<times> 's" where
  "Transition repo now newid ct input s =
     (case repo of
        None \<Rightarrow> (Inl ErrNilRepository, s)
      | Some R \<Rightarrow>
          (case UserFromContext ct of
             None \<Rightarrow> (Inl ErrUnauthenticated, s)
           | Some user \<Rightarrow>
               if \<not> State_Valid (ti_ToState input)
               then (Inl (wrapf ''Transition'' ErrIllegalTransition), s)
               else (case cr_Get R s (ti_TenantID input) (ti_CaseID input) of
                       Inl err \<Rightarrow> (Inl err, s)
                     | Inr c \<Rightarrow> transition_read R now newid user input c s)))"

definition Reopen ::
  "'s CaseRepository option \<Rightarrow> time \<Rightarrow> uuid \<Rightarrow> ctx \<Rightarrow> uuid \<Rightarrow> uuid \<Rightarrow> string \<Rightarrow> 's
    \<Rightarrow> (cl_error + Case) \<times> 's" where
  "Reopen repo now newid ct tenantID caseID justification s =
     (case repo of
        None \<Rightarrow> (Inl ErrNilRepository, s)
      | Some R \<Rightarrow>
          (case UserFromContext ct of
             None \<Rightarrow> (Inl ErrUnauthenticated, s)
           | Some user \<Rightarrow>
               let justification = TrimSpace justification in
               if justification = [] then (Inl ErrReasonRequired, s)
               else (case cr_Get R s tenantID caseID of
                       Inl err \<Rightarrow> (Inl err, s)
                     | Inr c \<Rightarrow>
                         if cs_State c \<noteq> StateClosed
                         then (Inl (wrapf ''Reopen'' ErrIllegalTransition), s)
                         else
                           let c = c\<lparr>cs_State := StateActive, cs_UpdatedAt := now\<rparr>;
                               entry = \<lparr>tr_ID = newid, tr_CaseID = cs_ID c,
                                        tr_TenantID = cs_TenantID c, tr_FromState = StateClosed,
                                        tr_ToState = StateActive, tr_Actor = us_ID user,
                                        tr_Reason = justification, tr_OccurredAt = now\<rparr>
                           in commit_move R tenantID newid c entry s)))"

definition Archive ::
  "'s CaseRepository option \<Rightarrow> time \<Rightarrow> uuid \<Rightarrow> ctx \<Rightarrow> uuid \<Rightarrow> uuid \<Rightarrow> string \<Rightarrow> 's
    \<Rightarrow> (cl_error + Case) \<times> 's" where
  "Archive repo now newid ct tenantID caseID reason s =
     (case repo of
        None \<Rightarrow> (Inl ErrNilRepository, s)
      | Some R \<Rightarrow>
          (case UserFromContext ct of
             None \<Rightarrow> (Inl ErrUnauthenticated, s)
           | Some user \<Rightarrow>
               (case cr_Get R s tenantID caseID of
                  Inl err \<Rightarrow> (Inl err, s)
                | Inr c \<Rightarrow>
                    if cs_State c \<noteq> StateClosed
                    then (Inl (wrapf ''Archive'' ErrIllegalTransition), s)
                    else
                      let c = c\<lparr>cs_State := StateArchived, cs_UpdatedAt := now,
                                cs_ArchivedAt := Some now\<rparr>;
                          entry = \<lparr>tr_ID = newid, tr_CaseID = cs_ID c,
                                   tr_TenantID = cs_TenantID c, tr_FromState = StateClosed,
                                   tr_ToState = StateArchived, tr_Actor = us_ID user,
                                   tr_Reason = reason, tr_OccurredAt = now\<rparr>
                      in commit_move R tenantID newid c entry s)))"

section \<open>Metadata\<close>

record MetadataUpdateInput =
  mu_TenantID :: uuid
  mu_CaseID :: uuid
  mu_Values :: "(string \<times> string) list"
  mu_ExpectedVersion :: "64 word"

definition validateMetadataValues :: "(string \<times> string) list \<Rightarrow> cl_error option" where
  "validateMetadataValues values =
     (if \<exists>(k, v)\<in>set values. TrimSpace k = [] then Some ErrInvalidMetadataKey else None)"

text \<open>\<open>metadata_write\<close> is the part of the update after the read of the case.\<close>

definition metadata_write ::
  "'s CaseRepository \<Rightarrow> time \<Rightarrow> MetadataUpdateInput \<Rightarrow> bool \<Rightarrow> Case \<Rightarrow> 's
    \<Rightarrow> (cl_error + Case) \<times> 's" where
  "metadata_write R now input merge c s =
     (if mu_ExpectedVersion input \<noteq> 0 \<and> mu_ExpectedVersion input \<noteq> cs_MetadataVersion c
      then (Inl ErrMetadataVersionConflict, s)
      else
        let c = c\<lparr>cs_Metadata := (if merge then cs_Metadata c ++ map_of (mu_Values input)
                                   else map_of (mu_Values input))\<rparr>;
            c = c\<lparr>cs_MetadataVersion := cs_MetadataVersion c + 1, cs_UpdatedAt := now\<rparr>
        in (case cr_Update R s (mu_TenantID input) (Some c) of
              (Inl err, s1) \<Rightarrow> (Inl err, s1)
            | (Inr _, s1) \<Rightarrow> (Inr c, s1)))"

definition updateMetadata ::
  "'s CaseRepository option \<Rightarrow> time \<Rightarrow> MetadataUpdateInput \<Rightarrow> bool \<Rightarrow> 's
    \<Rightarrow> (cl_error + Case) \<times> 's" where
  "updateMetadata repo now input merge s =
     (case repo of
        None \<Rightarrow> (Inl ErrNilRepository, s)
      | Some R \<Rightarrow>
          (case validateMetadataValues (mu_Values input) of
             Some err \<Rightarrow> (Inl err, s)
           | None \<Rightarrow>
               (case cr_Get R s (mu_TenantID input) (mu_CaseID input) of
                  Inl err \<Rightarrow> (Inl err, s)
                | Inr c \<Rightarrow> metadata_write R now input merge c s)))"

definition SetMetadata where
  "SetMetadata repo now input s = updateMetadata repo now input False s"

definition MergeMetadata where
  "MergeMetadata repo now input s = updateMetadata repo now input True s"

definition GetMetadataValue :: "Case option \<Rightarrow> string \<Rightarrow> string \<times> bool" where
  "GetMetadataValue c key =
     (case c of
        None \<Rightarrow> ([], False)
      | Some c \<Rightarrow> (case cs_Metadata c key of None \<Rightarrow> ([], False) | Some v \<Rightarrow> (v, True)))"

section \<open>Bulk operations and the audit log\<close>

record BulkResult =
  br_CaseID :: uuid
  br_Case :: "Case option"
  br_Err :: "cl_error option"

definition bulk_result :: "uuid \<Rightarrow> cl_error + Case \<Rightarrow> BulkResult" where
  "bulk_result caseID r =
     \<lparr>br_CaseID = caseID,
      br_Case = (case r of Inl _ \<Rightarrow> None | Inr c \<Rightarrow> Some c),
      br_Err = (case r of Inl err \<Rightarrow> Some err | Inr _ \<Rightarrow> None)\<rparr>"

definition Succeeded :: "BulkResult \<Rightarrow> bool" where
  "Succeeded r \<longleftrightarrow> br_Err r = None"

text \<open>
  The loop over the case IDs; \<open>op\<close> gets the position in the list, which selects the clock's
  reading and the fresh identifier of that iteration.
\<close>

fun bulk_loop ::
  "(nat \<Rightarrow> uuid \<Rightarrow> 's \<Rightarrow> (cl_error + Case) \<times> 's) \<Rightarrow> nat \<Rightarrow> uuid list \<Rightarrow> 's \<Rightarrow> BulkResult list \<times> 's" where
  "bulk_loop op n [] s = ([], s)"
| "bulk_loop op n (caseID # caseIDs) s =
     (case op n caseID s of
        (r, s1) \<Rightarrow>
          (case bulk_loop op (Suc n) caseIDs s1 of
             (results, s2) \<Rightarrow> (bulk_result caseID r # results, s2)))"

definition BulkTransition ::
  "'s CaseRepository option \<Rightarrow> (nat \<Rightarrow> time) \<Rightarrow> (nat \<Rightarrow> uuid) \<Rightarrow> ctx \<Rightarrow> uuid \<Rightarrow> uuid list
    \<Rightarrow> State \<Rightarrow> string \<Rightarrow> 's \<Rightarrow> (cl_error + BulkResult list) \<times> 's" where
  "BulkTransition repo now newid ct tenantID caseIDs toState reason s =
     (case repo of
        None \<Rightarrow> (Inl ErrNilRepository, s)
      | Some _ \<Rightarrow>
          (case bulk_loop (\<lambda>n caseID s. Transition repo (now n) (newid n) ct
                  \<lparr>ti_TenantID = tenantID, ti_CaseID = caseID, ti_ToState = toState,
                   ti_Reason = reason\<rparr> s) 0 caseIDs s of
             (results, s') \<Rightarrow> (Inr results, s')))"

definition bulkMetadataUpdate ::
  "'s CaseRepository option \<Rightarrow> (nat \<Rightarrow> time) \<Rightarrow> uuid \<Rightarrow> uuid list \<Rightarrow> (string \<times> string) list
    \<Rightarrow> bool \<Rightarrow> 's \<Rightarrow> (cl_error + BulkResult list) \<times> 's" where
  "bulkMetadataUpdate repo now tenantID caseIDs values merge s =
     (case repo of
        None \<Rightarrow> (Inl ErrNilRepository, s)
      | Some _ \<Rightarrow>
          (case bulk_loop (\<lambda>n caseID s.
                  let updateInput = \<lparr>mu_TenantID = tenantID, mu_CaseID = caseID,
                                     mu_Values = values, mu_ExpectedVersion = 0\<rparr>
                  in if merge then MergeMetadata repo (now n) updateInput s
                     else SetMetadata repo (now n) updateInput s) 0 caseIDs s of
             (results, s') \<Rightarrow> (Inr results, s')))"

definition SucceededCaseIDs :: "BulkResult list \<Rightarrow> uuid list" where
  "SucceededCaseIDs results = map br_CaseID (filter Succeeded results)"

definition FailedResults :: "BulkResult list \<Rightarrow> BulkResult list" where
  "FailedResults results = filter (\<lambda>r. \<not> Succeeded r) results"

record AuditEvent =
  ae_Time :: time
  ae_Actor :: string
  ae_Action :: string
  ae_Target :: string
  ae_Outcome :: string

definition ToAuditEvent :: "platform \<Rightarrow> TransitionRecord \<Rightarrow> AuditEvent" where
  "ToAuditEvent P r =
     \<lparr>ae_Time = tr_OccurredAt r, ae_Actor = uuid_str P (tr_Actor r),
      ae_Action = ''case.transitioned'', ae_Target = uuid_str P (tr_CaseID r),
      ae_Outcome = ''success''\<rparr>"

definition History ::
  "'s CaseRepository option \<Rightarrow> uuid \<Rightarrow> uuid \<Rightarrow> 's \<Rightarrow> cl_error + TransitionRecord list" where
  "History repo tenantID caseID s =
     (case repo of
        None \<Rightarrow> Inl ErrNilRepository
      | Some R \<Rightarrow> cr_ListTransitions R s tenantID caseID)"

section \<open>The history of a case\<close>

text \<open>
  The abstract state machine: which moves an audit record may report, and a log as a path
  from one state to another.
\<close>

definition legal_move :: "TransitionRecord \<Rightarrow> bool" where
  "legal_move r \<longleftrightarrow>
     CanTransition (tr_FromState r) (tr_ToState r) \<or>
     tr_FromState r = StateClosed \<and> tr_ToState r = StateActive \<and> tr_Reason r \<noteq> [] \<or>
     tr_FromState r = StateClosed \<and> tr_ToState r = StateArchived"

fun path :: "State \<Rightarrow> TransitionRecord list \<Rightarrow> State \<Rightarrow> bool" where
  "path a [] b \<longleftrightarrow> a = b"
| "path a (r # rs) b \<longleftrightarrow> tr_FromState r = a \<and> legal_move r \<and> path (tr_ToState r) rs b"

lemma path_append: "path a (rs @ qs) c \<longleftrightarrow> (\<exists>b. path a rs b \<and> path b qs c)"
  by (induction rs arbitrary: a) auto

lemma path_snoc: "path a rs b \<Longrightarrow> legal_move r \<Longrightarrow> tr_FromState r = b \<Longrightarrow> path a (rs @ [r]) (tr_ToState r)"
  by (auto simp: path_append)

lemma legal_moves:
  "legal_move r \<longleftrightarrow>
     (tr_FromState r, tr_ToState r) \<in> {(StateDraft, StateActive), (StateActive, StateUnderReview),
       (StateUnderReview, StateClosed), (StateUnderReview, StateActive), (StateClosed, StateArchived)} \<or>
     (tr_FromState r, tr_ToState r) = (StateClosed, StateActive) \<and> tr_Reason r \<noteq> []"
  by (auto simp: legal_move_def CanTransition_iff)

lemma path_archived: "path StateArchived rs b \<Longrightarrow> rs = [] \<and> b = StateArchived"
  by (cases rs) (auto simp: legal_moves)

lemma path_Nil_iff: "path StateDraft rs StateDraft \<longleftrightarrow> rs = []"
proof
  show "path StateDraft rs StateDraft \<Longrightarrow> rs = []"
    by (cases rs rule: rev_cases) (auto simp: path_append legal_moves)
qed simp

text \<open>No case is closed or archived that was not under review.\<close>

lemma path_reviewed:
  "path StateDraft rs b \<Longrightarrow> b \<in> {StateClosed, StateArchived} \<Longrightarrow>
     \<exists>r\<in>set rs. tr_FromState r = StateUnderReview \<and> tr_ToState r = StateClosed"
proof (induction rs arbitrary: b rule: rev_induct)
  case (snoc r rs)
  from snoc.prems(1) have "path StateDraft rs (tr_FromState r)" "tr_ToState r = b" "legal_move r"
    by (auto simp: path_append)
  moreover have "b = StateArchived \<Longrightarrow> tr_FromState r = StateClosed" and
    "b = StateClosed \<Longrightarrow> tr_FromState r = StateUnderReview"
    using \<open>legal_move r\<close> \<open>tr_ToState r = b\<close> by (auto simp: legal_moves)
  ultimately show ?case using snoc.IH [of StateClosed] snoc.prems(2) by auto
qed simp

text \<open>
  The invariant of a case and its log when the clock reads \<open>k\<close>; without a case the log of
  its identifier is empty.
\<close>

definition case_ok :: "time \<Rightarrow> uuid \<Rightarrow> Case option \<Rightarrow> TransitionRecord list \<Rightarrow> bool" where
  "case_ok k caseID c lg \<longleftrightarrow>
     (case c of
        None \<Rightarrow> lg = []
      | Some c \<Rightarrow>
          cs_ID c = caseID \<and> Case_Validate (Some c) = None \<and> path StateDraft lg (cs_State c) \<and>
          (\<forall>r\<in>set lg. tr_CaseID r = caseID \<and> tr_TenantID r = cs_TenantID c \<and> tr_OccurredAt r \<le> k) \<and>
          sorted_wrt (<) (map tr_OccurredAt lg) \<and>
          (cs_State c = StateArchived \<longleftrightarrow> cs_ArchivedAt c \<noteq> None))"

lemma case_ok_mono: "case_ok k i c lg \<Longrightarrow> k \<le> k' \<Longrightarrow> case_ok k' i c lg"
  by (force simp: case_ok_def split: option.splits)

text \<open>The effect of a successful move by record \<open>r\<close>, and of a metadata update.\<close>

definition moved :: "Case \<Rightarrow> TransitionRecord \<Rightarrow> Case" where
  "moved c r = c\<lparr>cs_State := tr_ToState r, cs_UpdatedAt := tr_OccurredAt r,
     cs_ArchivedAt := (if tr_ToState r = StateArchived then Some (tr_OccurredAt r)
                       else cs_ArchivedAt c)\<rparr>"

definition move_of :: "Case \<Rightarrow> TransitionRecord \<Rightarrow> bool" where
  "move_of c r \<longleftrightarrow> tr_CaseID r = cs_ID c \<and> tr_TenantID r = cs_TenantID c \<and>
     tr_FromState r = cs_State c \<and> legal_move r"

lemma legal_move_valid: "legal_move r \<Longrightarrow> State_Valid (tr_ToState r)"
  by (auto simp: legal_moves State_Valid_def)

lemma Case_Validate_None:
  "Case_Validate (Some c) = None \<longleftrightarrow> cs_TenantID c \<noteq> uuid_Nil \<and> cs_JurisdictionID c \<noteq> uuid_Nil \<and>
     TrimSpace (cs_Title c) \<noteq> [] \<and> State_Valid (cs_State c)"
  by (simp add: Case_Validate_def)

lemma moved_ok:
  assumes "case_ok k i (Some c) lg" "move_of c r" "k < tr_OccurredAt r"
  shows "case_ok (tr_OccurredAt r) i (Some (moved c r)) (lg @ [r])"
proof -
  have "cs_State c \<noteq> StateArchived"
    using assms(2) by (auto simp: move_of_def legal_moves)
  then show ?thesis
    using assms legal_move_valid [of r] path_snoc [of StateDraft lg "cs_State c" r]
    by (fastforce simp: case_ok_def moved_def move_of_def Case_Validate_None sorted_wrt_append)
qed

definition metadata_written :: "time \<Rightarrow> MetadataUpdateInput \<Rightarrow> bool \<Rightarrow> Case \<Rightarrow> Case" where
  "metadata_written now input merge c =
     c\<lparr>cs_Metadata := (if merge then cs_Metadata c ++ map_of (mu_Values input)
                       else map_of (mu_Values input)),
       cs_MetadataVersion := cs_MetadataVersion c + 1, cs_UpdatedAt := now\<rparr>"

lemma metadata_written_fields [simp]:
  "cs_ID (metadata_written now input merge c) = cs_ID c"
  "cs_TenantID (metadata_written now input merge c) = cs_TenantID c"
  "cs_State (metadata_written now input merge c) = cs_State c"
  "cs_MetadataVersion (metadata_written now input merge c) = cs_MetadataVersion c + 1"
  "cs_ArchivedAt (metadata_written now input merge c) = cs_ArchivedAt c"
  by (simp_all add: metadata_written_def)

lemma metadata_written_ok:
  "case_ok k i (Some c) lg \<Longrightarrow> case_ok k i (Some (metadata_written now input merge c)) lg"
  by (auto simp: case_ok_def Case_Validate_None metadata_written_def)

text \<open>
  What an operation of the tenant may see of a case; the moves the three operations make,
  as functions of the case they read.
\<close>

definition seen :: "uuid \<Rightarrow> Case option \<Rightarrow> Case option" where
  "seen t c = (case c of Some c \<Rightarrow> if cs_TenantID c = t then Some c else None | None \<Rightarrow> None)"

lemma seen_Some: "seen t c = Some d \<longleftrightarrow> c = Some d \<and> cs_TenantID d = t"
  by (auto simp: seen_def split: option.splits)

definition move_entry :: "time \<Rightarrow> uuid \<Rightarrow> User \<Rightarrow> Case \<Rightarrow> State \<Rightarrow> string \<Rightarrow> TransitionRecord" where
  "move_entry now newid user c to reason =
     \<lparr>tr_ID = newid, tr_CaseID = cs_ID c, tr_TenantID = cs_TenantID c,
      tr_FromState = cs_State c, tr_ToState = to, tr_Actor = us_ID user, tr_Reason = reason,
      tr_OccurredAt = now\<rparr>"

lemma move_entry_fields [simp]:
  "tr_ID (move_entry now newid user c to reason) = newid"
  "tr_CaseID (move_entry now newid user c to reason) = cs_ID c"
  "tr_TenantID (move_entry now newid user c to reason) = cs_TenantID c"
  "tr_FromState (move_entry now newid user c to reason) = cs_State c"
  "tr_ToState (move_entry now newid user c to reason) = to"
  "tr_Actor (move_entry now newid user c to reason) = us_ID user"
  "tr_Reason (move_entry now newid user c to reason) = reason"
  "tr_OccurredAt (move_entry now newid user c to reason) = now"
  by (simp_all add: move_entry_def)

definition plan_transition ::
  "time \<Rightarrow> uuid \<Rightarrow> ctx \<Rightarrow> TransitionInput \<Rightarrow> Case option \<Rightarrow> cl_error + TransitionRecord" where
  "plan_transition now newid ct input c =
     (case ct of
        None \<Rightarrow> Inl ErrUnauthenticated
      | Some u \<Rightarrow>
          if \<not> State_Valid (ti_ToState input) then Inl (wrapf ''Transition'' ErrIllegalTransition)
          else (case seen (ti_TenantID input) c of
                  None \<Rightarrow> Inl ErrNotFound
                | Some c \<Rightarrow>
                    if CanTransition (cs_State c) (ti_ToState input)
                    then Inr (move_entry now newid u c (ti_ToState input) (ti_Reason input))
                    else Inl (wrapf ''Transition'' ErrIllegalTransition)))"

definition plan_reopen ::
  "time \<Rightarrow> uuid \<Rightarrow> ctx \<Rightarrow> uuid \<Rightarrow> string \<Rightarrow> Case option \<Rightarrow> cl_error + TransitionRecord" where
  "plan_reopen now newid ct t justification c =
     (case ct of
        None \<Rightarrow> Inl ErrUnauthenticated
      | Some u \<Rightarrow>
          if TrimSpace justification = [] then Inl ErrReasonRequired
          else (case seen t c of
                  None \<Rightarrow> Inl ErrNotFound
                | Some c \<Rightarrow>
                    if cs_State c = StateClosed
                    then Inr (move_entry now newid u c StateActive (TrimSpace justification))
                    else Inl (wrapf ''Reopen'' ErrIllegalTransition)))"

definition plan_archive ::
  "time \<Rightarrow> uuid \<Rightarrow> ctx \<Rightarrow> uuid \<Rightarrow> string \<Rightarrow> Case option \<Rightarrow> cl_error + TransitionRecord" where
  "plan_archive now newid ct t reason c =
     (case ct of
        None \<Rightarrow> Inl ErrUnauthenticated
      | Some u \<Rightarrow>
          (case seen t c of
             None \<Rightarrow> Inl ErrNotFound
           | Some c \<Rightarrow>
               if cs_State c = StateClosed then Inr (move_entry now newid u c StateArchived reason)
               else Inl (wrapf ''Archive'' ErrIllegalTransition)))"

lemmas plan_defs = plan_transition_def plan_reopen_def plan_archive_def

lemma plan_move:
  "plan_transition now newid ct input c = Inr r \<Longrightarrow>
     \<exists>d. seen (ti_TenantID input) c = Some d \<and> move_of d r \<and> tr_ID r = newid \<and> tr_OccurredAt r = now"
  "plan_reopen now newid ct t justification c = Inr r \<Longrightarrow>
     \<exists>d. seen t c = Some d \<and> move_of d r \<and> tr_ID r = newid \<and> tr_OccurredAt r = now"
  "plan_archive now newid ct t reason c = Inr r \<Longrightarrow>
     \<exists>d. seen t c = Some d \<and> move_of d r \<and> tr_ID r = newid \<and> tr_OccurredAt r = now"
  by (auto simp: plan_defs move_of_def legal_move_def split: option.splits if_splits)

definition plan_metadata ::
  "time \<Rightarrow> MetadataUpdateInput \<Rightarrow> bool \<Rightarrow> Case option \<Rightarrow> cl_error + Case" where
  "plan_metadata now input merge c =
     (case validateMetadataValues (mu_Values input) of
        Some err \<Rightarrow> Inl err
      | None \<Rightarrow>
          (case seen (mu_TenantID input) c of
             None \<Rightarrow> Inl ErrNotFound
           | Some c \<Rightarrow>
               if mu_ExpectedVersion input \<noteq> 0 \<and> mu_ExpectedVersion input \<noteq> cs_MetadataVersion c
               then Inl ErrMetadataVersionConflict
               else Inr (metadata_written now input merge c)))"

lemma plan_metadata_Inr:
  "plan_metadata now input merge c = Inr d \<Longrightarrow>
     \<exists>e. seen (mu_TenantID input) c = Some e \<and> d = metadata_written now input merge e \<and>
         (mu_ExpectedVersion input = 0 \<or> mu_ExpectedVersion input = cs_MetadataVersion e)"
  by (auto simp: plan_metadata_def split: option.splits if_splits)

section \<open>The contract of a case repository\<close>

text \<open>
  \<open>caseOf s i\<close> is the stored case with identifier \<open>i\<close> and \<open>logOf s i\<close> its transition records
  in the order they were appended.
\<close>

locale case_repository =
  fixes R :: "'s CaseRepository"
    and caseOf :: "'s \<Rightarrow> uuid \<Rightarrow> Case option"
    and logOf :: "'s \<Rightarrow> uuid \<Rightarrow> TransitionRecord list"
  assumes Create_law: "Case_Validate (Some c) = None \<Longrightarrow> cs_TenantID c = t \<Longrightarrow> cs_ID c = i \<Longrightarrow> cs_ID c \<noteq> uuid_Nil \<Longrightarrow>
      \<exists>s'. cr_Create R s t n (Some c) = (Inr c, s') \<and> caseOf s' = (caseOf s)(i \<mapsto> c) \<and>
           logOf s' = logOf s"
    and Create_err: "cs_TenantID c \<noteq> uuid_Nil \<Longrightarrow> cs_TenantID c \<noteq> t \<Longrightarrow>
      cr_Create R s t n (Some c) = (Inl ErrCrossTenantAccess, s)"
    and Get_law: "cr_Get R s t i = (case seen t (caseOf s i) of None \<Rightarrow> Inl ErrNotFound | Some c \<Rightarrow> Inr c)"
    and Update_law: "seen t (caseOf s i) = Some old \<Longrightarrow> cs_ID c = i \<Longrightarrow> cs_TenantID c = t \<Longrightarrow>
      \<exists>s'. cr_Update R s t (Some c) = (Inr (), s') \<and> caseOf s' = (caseOf s)(i \<mapsto> c) \<and>
           logOf s' = logOf s"
    and Append_law: "tr_TenantID r = t \<Longrightarrow> tr_ID r = n \<Longrightarrow> tr_CaseID r = i \<Longrightarrow>
      \<exists>s'. cr_AppendTransition R s t n (Some r) = (Inr (), s') \<and> caseOf s' = caseOf s \<and>
           logOf s' = (logOf s)(i := logOf s i @ [r])"
    and List_law: "cr_ListTransitions R s t i =
      (case seen t (caseOf s i) of
         None \<Rightarrow> Inl ErrNotFound
       | Some _ \<Rightarrow> Inr (sort_by (\<lambda>a b. tr_OccurredAt a < tr_OccurredAt b)
                         (filter (\<lambda>r. tr_TenantID r = t) (logOf s i))))"
begin

definition cases_ok :: "time \<Rightarrow> 's \<Rightarrow> bool" where
  "cases_ok k s \<longleftrightarrow> (\<forall>i. case_ok k i (caseOf s i) (logOf s i))"

lemma cases_ok_ID: "cases_ok k s \<Longrightarrow> seen t (caseOf s i) = Some c \<Longrightarrow> cs_ID c = i \<and> cs_TenantID c = t"
  by (fastforce simp: cases_ok_def case_ok_def seen_Some split: option.splits)

text \<open>The result of carrying out a planned move, or refusing it.\<close>

definition carried :: "uuid \<Rightarrow> 's \<Rightarrow> cl_error + TransitionRecord \<Rightarrow> (cl_error + Case) \<times> 's \<Rightarrow> bool" where
  "carried i s plan out \<longleftrightarrow>
     (case plan of
        Inl err \<Rightarrow> out = (Inl err, s)
      | Inr r \<Rightarrow> \<exists>c s'. caseOf s i = Some c \<and> out = (Inr (moved c r), s') \<and>
          caseOf s' = (caseOf s)(i \<mapsto> moved c r) \<and> logOf s' = (logOf s)(i := logOf s i @ [r]))"

lemma commit_move_ok:
  assumes "seen t (caseOf s i) = Some old" "cs_ID c = i" "cs_TenantID c = t"
    "tr_TenantID r = t" "tr_ID r = n" "tr_CaseID r = i"
  shows "\<exists>s'. commit_move R t n c r s = (Inr c, s') \<and> caseOf s' = (caseOf s)(i \<mapsto> c) \<and>
    logOf s' = (logOf s)(i := logOf s i @ [r])"
proof -
  obtain s1 where 1: "cr_Update R s t (Some c) = (Inr (), s1)" "caseOf s1 = (caseOf s)(i \<mapsto> c)"
      "logOf s1 = logOf s"
    using Update_law [OF assms(1-3)] by blast
  obtain s2 where "cr_AppendTransition R s1 t n (Some r) = (Inr (), s2)" "caseOf s2 = caseOf s1"
      "logOf s2 = (logOf s1)(i := logOf s1 i @ [r])"
    using Append_law [OF assms(4-6)] by blast
  with 1 show ?thesis by (simp add: commit_move_def)
qed

lemma carry_out:
  assumes "seen t (caseOf s i) = Some c" "cs_ID c = i" "cs_TenantID c = t" "move_of c r" "tr_ID r = n"
  shows "carried i s (Inr r) (commit_move R t n (moved c r) r s)"
proof -
  have "cs_ID (moved c r) = i" "cs_TenantID (moved c r) = t" "tr_TenantID r = t" "tr_CaseID r = i"
    using assms by (auto simp: moved_def move_of_def)
  from commit_move_ok [OF assms(1) this(1-3) assms(5) this(4)] assms(1) show ?thesis
    by (auto simp: carried_def seen_Some)
qed

lemma moved_entry:
  "to \<noteq> StateArchived \<Longrightarrow>
     c\<lparr>cs_State := to, cs_UpdatedAt := now\<rparr> = moved c (move_entry now newid u c to reason)"
  "c\<lparr>cs_State := StateArchived, cs_UpdatedAt := now, cs_ArchivedAt := Some now\<rparr> =
     moved c (move_entry now newid u c StateArchived reason)"
  by (simp_all add: moved_def)

lemma Transition_carried:
  assumes "cases_ok k s" "ti_CaseID input = i"
  shows "carried i s (plan_transition now newid ct input (caseOf s i))
           (Transition (Some R) now newid ct input s)"
proof (cases "ct = None \<or> \<not> State_Valid (ti_ToState input) \<or> seen (ti_TenantID input) (caseOf s i) = None")
  case True
  then show ?thesis
    using assms(2) by (auto simp: carried_def Transition_def plan_transition_def Get_law UserFromContext_def
        split: option.splits)
next
  case False
  then obtain u c where [simp]: "ct = Some u" and v: "State_Valid (ti_ToState input)"
    and c: "seen (ti_TenantID input) (caseOf s i) = Some c" by auto
  note ids = cases_ok_ID [OF assms(1) c]
  show ?thesis
  proof (cases "CanTransition (cs_State c) (ti_ToState input)")
    case True
    let ?r = "move_entry now newid u c (ti_ToState input) (ti_Reason input)"
    have m: "move_of c ?r" using True by (simp add: move_of_def legal_move_def)
    have na: "ti_ToState input \<noteq> StateArchived" using True by (auto simp: CanTransition_iff)
    have "Transition (Some R) now newid ct input s =
        commit_move R (ti_TenantID input) newid (moved c ?r) ?r s"
      using v c assms(2) True moved_entry(1) [OF na, of now c newid u "ti_Reason input", symmetric]
      by (simp add: Transition_def transition_read_def UserFromContext_def Get_law Let_def move_entry_def)
    moreover have "plan_transition now newid ct input (caseOf s i) = Inr ?r"
      using v c True by (simp add: plan_transition_def)
    ultimately show ?thesis using carry_out [OF c _ _ m] ids by simp
  next
    case False
    then show ?thesis using v c assms(2)
      by (simp add: carried_def Transition_def transition_read_def plan_transition_def Get_law
          UserFromContext_def)
  qed
qed

lemma Reopen_carried:
  assumes "cases_ok k s"
  shows "carried i s (plan_reopen now newid ct t justification (caseOf s i))
           (Reopen (Some R) now newid ct t i justification s)"
proof (cases "ct = None \<or> TrimSpace justification = [] \<or> seen t (caseOf s i) = None")
  case True
  then show ?thesis
    by (auto simp: carried_def Reopen_def plan_reopen_def Get_law UserFromContext_def Let_def
        split: option.splits)
next
  case False
  then obtain u c where [simp]: "ct = Some u" and v: "TrimSpace justification \<noteq> []"
    and c: "seen t (caseOf s i) = Some c" by auto
  note ids = cases_ok_ID [OF assms(1) c]
  let ?r = "move_entry now newid u c StateActive (TrimSpace justification)"
  show ?thesis
  proof (cases "cs_State c = StateClosed")
    case True
    have m: "move_of c ?r" using True v by (simp add: move_of_def legal_move_def)
    have "Reopen (Some R) now newid ct t i justification s = commit_move R t newid (moved c ?r) ?r s"
      using v c True moved_entry(1) [of StateActive now c newid u "TrimSpace justification", symmetric]
      by (simp add: Reopen_def UserFromContext_def Get_law Let_def move_entry_def)
    moreover have "plan_reopen now newid ct t justification (caseOf s i) = Inr ?r"
      using v c True by (simp add: plan_reopen_def)
    ultimately show ?thesis using carry_out [OF c _ _ m] ids by simp
  qed (use v c in \<open>simp add: carried_def Reopen_def plan_reopen_def Get_law UserFromContext_def Let_def\<close>)
qed

lemma Archive_carried:
  assumes "cases_ok k s"
  shows "carried i s (plan_archive now newid ct t reason (caseOf s i))
           (Archive (Some R) now newid ct t i reason s)"
proof (cases "ct = None \<or> seen t (caseOf s i) = None")
  case True
  then show ?thesis
    by (auto simp: carried_def Archive_def plan_archive_def Get_law UserFromContext_def
        split: option.splits)
next
  case False
  then obtain u c where [simp]: "ct = Some u" and c: "seen t (caseOf s i) = Some c" by auto
  note ids = cases_ok_ID [OF assms(1) c]
  let ?r = "move_entry now newid u c StateArchived reason"
  show ?thesis
  proof (cases "cs_State c = StateClosed")
    case True
    have m: "move_of c ?r" using True by (simp add: move_of_def legal_move_def)
    have "Archive (Some R) now newid ct t i reason s = commit_move R t newid (moved c ?r) ?r s"
      using c True moved_entry(2) [of now c newid u reason, symmetric]
      by (simp add: Archive_def UserFromContext_def Get_law Let_def move_entry_def)
    moreover have "plan_archive now newid ct t reason (caseOf s i) = Inr ?r"
      using c True by (simp add: plan_archive_def)
    ultimately show ?thesis using carry_out [OF c _ _ m] ids by simp
  qed (use c in \<open>simp add: carried_def Archive_def plan_archive_def Get_law UserFromContext_def\<close>)
qed

definition written :: "uuid \<Rightarrow> 's \<Rightarrow> cl_error + Case \<Rightarrow> (cl_error + Case) \<times> 's \<Rightarrow> bool" where
  "written i s plan out \<longleftrightarrow>
     (case plan of
        Inl err \<Rightarrow> out = (Inl err, s)
      | Inr c \<Rightarrow> \<exists>s'. out = (Inr c, s') \<and> caseOf s' = (caseOf s)(i \<mapsto> c) \<and> logOf s' = logOf s)"

lemma written_Inr:
  "written i s plan (Inr c, s') \<Longrightarrow>
     plan = Inr c \<and> caseOf s' = (caseOf s)(i \<mapsto> c) \<and> logOf s' = logOf s"
  by (auto simp: written_def split: sum.splits)

lemma metadata_write_ok:
  assumes "seen (mu_TenantID input) (caseOf s i) = Some old" "cs_ID c = i"
    "cs_TenantID c = mu_TenantID input"
    "mu_ExpectedVersion input = 0 \<or> mu_ExpectedVersion input = cs_MetadataVersion c"
  shows "written i s (Inr (metadata_written now input merge c)) (metadata_write R now input merge c s)"
proof -
  let ?c = "metadata_written now input merge c"
  from Update_law [OF assms(1), of ?c] assms
  obtain s' where "cr_Update R s (mu_TenantID input) (Some ?c) = (Inr (), s')"
    "caseOf s' = (caseOf s)(i \<mapsto> ?c)" "logOf s' = logOf s" by auto
  then show ?thesis
    using assms(4) by (auto simp: written_def metadata_write_def Let_def metadata_written_def)
qed

lemma updateMetadata_written:
  assumes "cases_ok k s" "mu_CaseID input = i"
  shows "written i s (plan_metadata now input merge (caseOf s i))
           (updateMetadata (Some R) now input merge s)"
proof (cases "validateMetadataValues (mu_Values input)")
  case None
  show ?thesis
  proof (cases "seen (mu_TenantID input) (caseOf s i)")
    case (Some c)
    note ids = cases_ok_ID [OF assms(1) Some]
    from metadata_write_ok [OF Some, of c now merge] ids Some None assms(2) show ?thesis
      by (auto simp: updateMetadata_def plan_metadata_def Get_law written_def metadata_write_def)
  qed (use None assms(2) in \<open>simp add: updateMetadata_def plan_metadata_def Get_law written_def\<close>)
qed (simp add: updateMetadata_def plan_metadata_def written_def)

text \<open>
  Every operation on one case has one of three effects: none, one legal move of that case
  with its audit record, or one metadata update.
\<close>

definition effect :: "uuid \<Rightarrow> time \<Rightarrow> 's \<Rightarrow> 's \<Rightarrow> bool" where
  "effect i now s s' \<longleftrightarrow>
     caseOf s' = caseOf s \<and> logOf s' = logOf s \<or>
     (\<exists>c r. caseOf s i = Some c \<and> move_of c r \<and> tr_OccurredAt r = now \<and>
        caseOf s' = (caseOf s)(i \<mapsto> moved c r) \<and> logOf s' = (logOf s)(i := logOf s i @ [r])) \<or>
     (\<exists>c now input merge. caseOf s i = Some c \<and>
        caseOf s' = (caseOf s)(i \<mapsto> metadata_written now input merge c) \<and> logOf s' = logOf s)"

lemma carried_effect:
  assumes "carried i s plan out"
    and "\<And>r. plan = Inr r \<Longrightarrow> \<exists>d. seen t (caseOf s i) = Some d \<and> move_of d r \<and> tr_ID r = n \<and> tr_OccurredAt r = now"
  shows "effect i now s (snd out)"
proof (cases plan)
  case (Inr r)
  with assms show ?thesis by (fastforce simp: carried_def effect_def seen_Some)
qed (use assms(1) in \<open>simp add: carried_def effect_def\<close>)

lemma written_effect:
  assumes "written i s (plan_metadata now input merge (caseOf s i)) out"
  shows "effect i now s (snd out)"
proof (cases "plan_metadata now input merge (caseOf s i)")
  case (Inr d)
  then obtain c where "caseOf s i = Some c" "d = metadata_written now input merge c"
    by (auto simp: plan_metadata_def seen_Some split: option.splits if_splits)
  with assms Inr show ?thesis by (fastforce simp: written_def effect_def)
qed (use assms in \<open>simp add: written_def effect_def\<close>)

lemma operation_effects:
  assumes "cases_ok k s"
  shows "ti_CaseID input = i \<Longrightarrow> effect i now s (snd (Transition (Some R) now newid ct input s))"
    and "effect i now s (snd (Reopen (Some R) now newid ct t i justification s))"
    and "effect i now s (snd (Archive (Some R) now newid ct t i reason s))"
    and "mu_CaseID minput = i \<Longrightarrow> effect i now s (snd (updateMetadata (Some R) now minput merge s))"
  using assms
  by (auto intro: carried_effect [OF Transition_carried plan_move(1)]
      carried_effect [OF Reopen_carried plan_move(2)] carried_effect [OF Archive_carried plan_move(3)]
      written_effect [OF updateMetadata_written])

lemma effect_keeps:
  assumes "cases_ok k s" "k < now" "effect i now s s'"
  shows "cases_ok now s'"
proof -
  have mono: "case_ok now j (caseOf s j) (logOf s j)" for j
    using assms(1) case_ok_mono less_imp_le [OF assms(2)] by (metis cases_ok_def)
  have "case_ok now i (caseOf s' i) (logOf s' i)"
    using assms(3) mono [of i] metadata_written_ok [of now i _ "logOf s i"]
      moved_ok [of k i _ "logOf s i"] assms(1,2) unfolding effect_def cases_ok_def
    by (elim disjE exE conjE) (metis fun_upd_same)+
  moreover have "caseOf s' j = caseOf s j \<and> logOf s' j = logOf s j" if "j \<noteq> i" for j
    using assms(3) that by (auto simp: effect_def)
  ultimately show ?thesis using mono unfolding cases_ok_def by metis
qed

text \<open>A case that is archived keeps its state, its instant and its log.\<close>

definition archived :: "uuid \<Rightarrow> time option \<Rightarrow> TransitionRecord list \<Rightarrow> 's \<Rightarrow> bool" where
  "archived i at lg s \<longleftrightarrow> logOf s i = lg \<and>
     (\<exists>c. caseOf s i = Some c \<and> cs_State c = StateArchived \<and> cs_ArchivedAt c = at)"

lemma effect_archived: "effect j now s s' \<Longrightarrow> archived i at lg s \<Longrightarrow> archived i at lg s'"
  by (auto simp: effect_def archived_def move_of_def legal_moves)

lemma created_archived:
  "archived i at lg s \<Longrightarrow> caseOf s j = None \<Longrightarrow> caseOf s' = (caseOf s)(j \<mapsto> c) \<Longrightarrow>
     logOf s' = logOf s \<Longrightarrow> archived i at lg s'"
  by (auto simp: archived_def)

text \<open>Bulk operations: what the operation on one case keeps, the loop keeps.\<close>

lemma bulk_loop_keeps:
  assumes "\<And>n i s. I n s \<Longrightarrow> I (Suc n) (snd (op n i s))" and "I m s"
  shows "I (m + length ids) (snd (bulk_loop op m ids s))"
  using assms(2)
proof (induction ids arbitrary: m s)
  case (Cons i ids)
  then show ?case using Cons.IH [OF assms(1) [OF Cons.prems], of i]
    by (cases "op m i s"; cases "bulk_loop op (Suc m) ids (snd (op m i s))") simp
qed simp

lemma bulk_effects:
  assumes ok: "cases_ok k s" "k < now 0" and up: "\<And>n. now n < now (Suc n)"
    and eff: "\<And>n i k s. cases_ok k s \<Longrightarrow> effect i (now n) s (snd (op n i s))"
    and inv: "Q s" "\<And>n j s s'. Q s \<Longrightarrow> effect j (now n) s s' \<Longrightarrow> Q s'"
  shows "cases_ok (now (length ids)) (snd (bulk_loop op 0 ids s)) \<and> Q (snd (bulk_loop op 0 ids s))"
proof -
  define I where "I n s \<longleftrightarrow> (\<exists>k < now n. cases_ok k s) \<and> Q s" for n s
  have "I (Suc n) (snd (op n i s))" if "I n s" for n i s
    using that effect_keeps [OF _ _ eff] eff inv(2) up unfolding I_def by blast
  then have "I (0 + length ids) (snd (bulk_loop op 0 ids s))"
    by (rule bulk_loop_keeps) (use ok inv(1) in \<open>auto simp: I_def\<close>)
  then show ?thesis
    by (auto simp: I_def cases_ok_def intro: case_ok_mono)
qed

lemma bulk_loop_local:
  assumes keep: "\<And>n i s. I n s \<Longrightarrow> I (Suc n) (snd (op n i s))"
    and loc: "\<And>n i s. I n s \<Longrightarrow> fst (op n i s) = F n i (caseOf s i) \<and>
      caseOf (snd (op n i s)) = (caseOf s)(i := G n i (caseOf s i)) \<and>
      logOf (snd (op n i s)) = (logOf s)(i := logOf s i @ H n i (caseOf s i))"
    and "I m s" "distinct ids"
  shows "fst (bulk_loop op m ids s) =
      map (\<lambda>j. bulk_result (ids ! j) (F (m + j) (ids ! j) (caseOf s (ids ! j)))) [0..<length ids] \<and>
    (\<forall>i. i \<notin> set ids \<longrightarrow> caseOf (snd (bulk_loop op m ids s)) i = caseOf s i \<and>
      logOf (snd (bulk_loop op m ids s)) i = logOf s i) \<and>
    (\<forall>j < length ids.
      caseOf (snd (bulk_loop op m ids s)) (ids ! j) = G (m + j) (ids ! j) (caseOf s (ids ! j)) \<and>
      logOf (snd (bulk_loop op m ids s)) (ids ! j) =
        logOf s (ids ! j) @ H (m + j) (ids ! j) (caseOf s (ids ! j)))"
  using assms(3,4)
proof (induction ids arbitrary: m s)
  case (Cons i ids)
  let ?s = "snd (op m i s)"
  have l: "fst (op m i s) = F m i (caseOf s i)" "caseOf ?s = (caseOf s)(i := G m i (caseOf s i))"
    "logOf ?s = (logOf s)(i := logOf s i @ H m i (caseOf s i))"
    using loc [OF Cons.prems(1)] by blast+
  have i: "i \<notin> set ids" "distinct ids" using Cons.prems(2) by auto
  have ne: "ids ! j \<noteq> i" if "j < length ids" for j using i that by auto
  note IH = Cons.IH [OF keep [OF Cons.prems(1)] i(2), of i]
  have eq: "bulk_loop op m (i # ids) s = (bulk_result i (fst (op m i s)) #
      fst (bulk_loop op (Suc m) ids ?s), snd (bulk_loop op (Suc m) ids ?s))"
    by (simp split: prod.splits)
  have upt: "[0..<Suc (length ids)] = 0 # map Suc [0..<length ids]"
    using upt_conv_Cons [of 0 "Suc (length ids)"] by (simp add: map_Suc_upt)
  show ?case
    unfolding eq using IH i ne by (auto simp: l upt nth_Cons split: nat.splits simp del: upt_Suc)
qed simp

lemma History_ok:
  assumes "cases_ok k s" "caseOf s i = Some c" "cs_TenantID c = t"
  shows "History (Some R) t i s = Inr (logOf s i)"
proof -
  have ok: "case_ok k i (Some c) (logOf s i)" using assms(1,2) by (metis cases_ok_def)
  then have f: "filter (\<lambda>r. tr_TenantID r = t) (logOf s i) = logOf s i"
    using assms(3) by (auto simp: case_ok_def filter_id_conv)
  have "sorted_by (\<lambda>a b. tr_OccurredAt a < tr_OccurredAt b) (logOf s i)"
    using ok by (auto simp: case_ok_def sorted_by_def sorted_wrt_map elim!: sorted_wrt_mono_rel [rotated])
  then show ?thesis using assms f by (simp add: History_def List_law seen_def sort_by_sorted)
qed

end

section \<open>Runs of the service\<close>

text \<open>The outcome of one operation as a function of the one case it names.\<close>

definition out_result :: "Case option \<Rightarrow> cl_error + TransitionRecord \<Rightarrow> cl_error + Case" where
  "out_result c plan = (case plan of Inl err \<Rightarrow> Inl err | Inr r \<Rightarrow> Inr (moved (the c) r))"

definition out_case :: "Case option \<Rightarrow> cl_error + TransitionRecord \<Rightarrow> Case option" where
  "out_case c plan = (case plan of Inl err \<Rightarrow> c | Inr r \<Rightarrow> Some (moved (the c) r))"

definition out_log :: "cl_error + TransitionRecord \<Rightarrow> TransitionRecord list" where
  "out_log plan = (case plan of Inl err \<Rightarrow> [] | Inr r \<Rightarrow> [r])"

text \<open>
  A step is one call of an operation, at an instant after the clock's last reading; a bulk
  call reads the clock once for each case. Permitted and refused calls are both steps. A
  case is created from \<open>NewCase\<close>, whose identifier is fresh.
\<close>

inductive case_step ::
  "'s CaseRepository \<Rightarrow> ('s \<Rightarrow> uuid \<Rightarrow> Case option) \<Rightarrow> 's \<times> time \<Rightarrow> 's \<times> time \<Rightarrow> bool"
  for R caseOf where
  create: "k < now \<Longrightarrow> NewCase now newid input = Inr c \<Longrightarrow> newid \<noteq> uuid_Nil \<Longrightarrow> caseOf s newid = None \<Longrightarrow>
    case_step R caseOf (s, k) (snd (cr_Create R s t n (Some c)), now)"
| transition: "k < now \<Longrightarrow>
    case_step R caseOf (s, k) (snd (Transition (Some R) now newid ct ti s), now)"
| reopen: "k < now \<Longrightarrow>
    case_step R caseOf (s, k) (snd (Reopen (Some R) now newid ct t i justification s), now)"
| archive: "k < now \<Longrightarrow>
    case_step R caseOf (s, k) (snd (Archive (Some R) now newid ct t i reason s), now)"
| metadata: "k < now \<Longrightarrow>
    case_step R caseOf (s, k) (snd (updateMetadata (Some R) now mi merge s), now)"
| bulk_transition: "k < nows 0 \<Longrightarrow> (\<And>n. nows n < nows (Suc n)) \<Longrightarrow>
    case_step R caseOf (s, k) (snd (BulkTransition (Some R) nows ids ct t cids to reason s), nows (length cids))"
| bulk_metadata: "k < nows 0 \<Longrightarrow> (\<And>n. nows n < nows (Suc n)) \<Longrightarrow>
    case_step R caseOf (s, k) (snd (bulkMetadataUpdate (Some R) nows t cids values merge s), nows (length cids))"

lemma NewCase_Inr:
  "NewCase now newid input = Inr c \<Longrightarrow>
     cs_ID c = newid \<and> cs_State c = StateDraft \<and> cs_ArchivedAt c = None \<and>
     Case_Validate (Some c) = None"
  by (auto simp: NewCase_def Let_def split: if_splits option.splits)

context case_repository
begin

lemma bulk_snd:
  "snd (BulkTransition (Some R) nows ids ct t cids to reason s) =
     snd (bulk_loop (\<lambda>n i. Transition (Some R) (nows n) (ids n) ct
       \<lparr>ti_TenantID = t, ti_CaseID = i, ti_ToState = to, ti_Reason = reason\<rparr>) 0 cids s)"
  "snd (bulkMetadataUpdate (Some R) nows t cids values merge s) =
     snd (bulk_loop (\<lambda>n i. updateMetadata (Some R) (nows n)
       \<lparr>mu_TenantID = t, mu_CaseID = i, mu_Values = values, mu_ExpectedVersion = 0\<rparr> merge) 0 cids s)"
  by (cases merge; simp add: BulkTransition_def bulkMetadataUpdate_def SetMetadata_def MergeMetadata_def
      split: prod.splits)+

lemma cases_ok_mono: "cases_ok k s \<Longrightarrow> k \<le> k' \<Longrightarrow> cases_ok k' s"
  using case_ok_mono unfolding cases_ok_def by metis

lemma created_ok:
  assumes "cases_ok k s" "k < now" "NewCase now newid input = Inr c" "caseOf s newid = None"
    "caseOf s' = (caseOf s)(newid \<mapsto> c)" "logOf s' = logOf s"
  shows "cases_ok now s'"
proof -
  have "case_ok k newid (caseOf s newid) (logOf s newid)" using assms(1) by (simp add: cases_ok_def)
  then have "logOf s newid = []" using assms(4) by (simp add: case_ok_def)
  then have "case_ok now newid (Some c) (logOf s newid)"
    using NewCase_Inr [OF assms(3)] by (simp add: case_ok_def)
  moreover have "cases_ok now s" using assms(1,2) by (simp add: cases_ok_mono)
  ultimately show ?thesis using assms(5,6) by (simp add: cases_ok_def)
qed

lemma created_cases:
  assumes "NewCase now newid input = Inr c" "newid \<noteq> uuid_Nil"
  shows "snd (cr_Create R s t n (Some c)) = s \<or>
    caseOf (snd (cr_Create R s t n (Some c))) = (caseOf s)(newid \<mapsto> c) \<and>
    logOf (snd (cr_Create R s t n (Some c))) = logOf s"
proof (cases "cs_TenantID c = t")
  case True
  then show ?thesis using Create_law [of c t newid s n] NewCase_Inr [OF assms(1)] assms(2) by auto
next
  case False
  then show ?thesis
    using Create_err NewCase_Inr [OF assms(1)] by (simp add: Case_Validate_None)
qed

lemma carried_local:
  "carried i s plan out \<Longrightarrow>
     fst out = out_result (caseOf s i) plan \<and>
     caseOf (snd out) = (caseOf s)(i := out_case (caseOf s i) plan) \<and>
     logOf (snd out) = (logOf s)(i := logOf s i @ out_log plan)"
  by (auto simp: carried_def out_result_def out_case_def out_log_def split: sum.splits)

text \<open>
  With distinct case IDs, each case of a bulk transition fares as a single transition on the
  store before the call.
\<close>

lemma bulk_transition_local:
  fixes ct t to reason ids
  assumes "cases_ok k s" "k < nows 0" "\<And>n. nows n < nows (Suc n)" "distinct cids"
  defines "single \<equiv> \<lambda>j. Transition (Some R) (nows j) (ids j) ct
    \<lparr>ti_TenantID = t, ti_CaseID = cids ! j, ti_ToState = to, ti_Reason = reason\<rparr> s"
    and "after \<equiv> snd (BulkTransition (Some R) nows ids ct t cids to reason s)"
  shows "fst (BulkTransition (Some R) nows ids ct t cids to reason s) =
      Inr (map (\<lambda>j. bulk_result (cids ! j) (fst (single j))) [0..<length cids]) \<and>
    (\<forall>j < length cids. caseOf after (cids ! j) = caseOf (snd (single j)) (cids ! j) \<and>
       logOf after (cids ! j) = logOf (snd (single j)) (cids ! j)) \<and>
    (\<forall>i. i \<notin> set cids \<longrightarrow> caseOf after i = caseOf s i \<and> logOf after i = logOf s i)"
proof -
  let ?in = "\<lambda>i. \<lparr>ti_TenantID = t, ti_CaseID = i, ti_ToState = to, ti_Reason = reason\<rparr>"
  let ?op = "\<lambda>n i. Transition (Some R) (nows n) (ids n) ct (?in i)"
  let ?plan = "\<lambda>n i. plan_transition (nows n) (ids n) ct (?in i)"
  define I where "I n s \<longleftrightarrow> (\<exists>k < nows n. cases_ok k s)" for n s
  have keep: "I (Suc n) (snd (?op n i s))" if "I n s" for n i s
  proof -
    from that obtain k where k: "k < nows n" "cases_ok k s" by (auto simp: I_def)
    from effect_keeps [OF k(2,1) operation_effects(1) [OF k(2)], of "?in i" i "ids n" ct] assms(3)
    show ?thesis by (auto simp: I_def)
  qed
  have loc: "fst (?op n i s) = out_result (caseOf s i) (?plan n i (caseOf s i)) \<and>
      caseOf (snd (?op n i s)) = (caseOf s)(i := out_case (caseOf s i) (?plan n i (caseOf s i))) \<and>
      logOf (snd (?op n i s)) = (logOf s)(i := logOf s i @ out_log (?plan n i (caseOf s i)))"
    if "I n s" for n i s
  proof -
    from that obtain k where "cases_ok k s" by (auto simp: I_def)
    from carried_local [OF Transition_carried [OF this]] show ?thesis by simp
  qed
  have "I 0 s" using assms(1,2) by (auto simp: I_def)
  note all = bulk_loop_local [OF keep loc this assms(4)]
  have fst: "fst (BulkTransition (Some R) nows ids ct t cids to reason s) = Inr (fst (bulk_loop ?op 0 cids s))"
    by (simp add: BulkTransition_def split: prod.splits)
  note one = loc [OF \<open>I 0 s\<close>] carried_local [OF Transition_carried [OF assms(1)]]
  show ?thesis
    unfolding fst after_def bulk_snd single_def using all one by simp
qed

text \<open>What every effect on a consistent store keeps, every step keeps, when creations do.\<close>

lemma case_step_keeps:
  assumes "case_step R caseOf (s, k) (s', k')" "cases_ok k s" "Q s"
    and eff: "\<And>j now s s'. Q s \<Longrightarrow> effect j now s s' \<Longrightarrow> Q s'"
    and cre: "\<And>i c s s'. Q s \<Longrightarrow> caseOf s i = None \<Longrightarrow>
      caseOf s' = (caseOf s)(i \<mapsto> c) \<Longrightarrow> logOf s' = logOf s \<Longrightarrow> Q s'"
  shows "cases_ok k' s' \<and> Q s'"
proof -
  have one: "cases_ok k' s' \<and> Q s'" if "effect i k' s s'" "k < k'" for i
    using effect_keeps [OF assms(2) that(2,1)] eff [OF assms(3) that(1)] by simp
  note effs = operation_effects [OF assms(2)]
  from assms(1) show ?thesis
  proof (cases rule: case_step.cases)
    case (create newid input c t n)
    from created_cases [OF create(3,4), of s t n] show ?thesis
    proof
      assume "snd (cr_Create R s t n (Some c)) = s"
      then show ?thesis using create assms(2,3) by (simp add: cases_ok_mono)
    next
      assume "caseOf (snd (cr_Create R s t n (Some c))) = (caseOf s)(newid \<mapsto> c) \<and>
        logOf (snd (cr_Create R s t n (Some c))) = logOf s"
      then show ?thesis
        using create created_ok [OF assms(2) create(2,3,5)] cre [OF assms(3) create(5)] by simp
    qed
  next
    case (bulk_transition nows ids ct t cids to reason)
    show ?thesis unfolding bulk_transition(1,2) bulk_snd(1)
      using bulk_transition(3,4) eff
      by (intro bulk_effects [where Q = Q, OF assms(2)] operation_effects(1)) (auto simp: assms(3))
  next
    case (bulk_metadata nows t cids "values" merge)
    show ?thesis unfolding bulk_metadata(1,2) bulk_snd(2)
      using bulk_metadata(3,4) eff
      by (intro bulk_effects [where Q = Q, OF assms(2)] operation_effects(4)) (auto simp: assms(3))
  next
    case transition
    with one effs(1) [OF refl] show ?thesis by metis
  next
    case reopen
    with one effs(2) show ?thesis by metis
  next
    case archive
    with one effs(3) show ?thesis by metis
  next
    case metadata
    with one effs(4) [OF refl] show ?thesis by metis
  qed
qed

lemma case_reach_ok:
  "(case_step R caseOf)\<^sup>*\<^sup>* x y \<Longrightarrow> cases_ok (snd x) (fst x) \<Longrightarrow> cases_ok (snd y) (fst y)"
  by (induction rule: rtranclp_induct) (metis case_step_keeps [where Q = "\<lambda>_. True"] prod.collapse)+

lemma case_reach_archived:
  "(case_step R caseOf)\<^sup>*\<^sup>* x y \<Longrightarrow> cases_ok (snd x) (fst x) \<Longrightarrow> archived i at lg (fst x) \<Longrightarrow>
     archived i at lg (fst y)"
proof (induction rule: rtranclp_induct)
  case (step y z)
  have "cases_ok (snd y) (fst y)" using case_reach_ok step by blast
  moreover have "case_step R caseOf (fst y, snd y) (fst z, snd z)" using step(2) by simp
  moreover have "archived i at lg (fst y)" using step by blast
  ultimately have "cases_ok (snd z) (fst z) \<and> archived i at lg (fst z)"
    by (intro case_step_keeps [where Q = "archived i at lg"])
       (assumption | erule (1) effect_archived | erule (3) created_archived)+
  then show ?case by blast
qed

end

section \<open>The in-memory repository meets the contract\<close>

abbreviation stored :: "CaseStore \<Rightarrow> uuid \<Rightarrow> Case option" where
  "stored s \<equiv> map_of (st_cases s)"

lemmas cases_ops = mem_cases_def cases_Create_def cases_Get_def cases_Update_def
  cases_AppendTransition_def cases_ListTransitions_def requireMatchingTenant_def

interpretation mem_case: case_repository "mem_cases P" stored st_transitions for P
proof (unfold_locales, goal_cases)
  case (1 c t i s n)
  moreover from 1 have "t \<noteq> uuid_Nil" by (auto simp: Case_Validate_None)
  ultimately show ?case by (auto simp: cases_ops update_conv' Let_def)
next
  case (2 c t s n)
  then show ?case by (simp add: cases_ops)
next
  case (3 s t i)
  then show ?case by (simp add: cases_ops seen_def split: option.splits)
next
  case (4 t s i old c)
  then show ?case by (simp add: cases_ops seen_Some update_conv')
next
  case (5 r t n i s)
  then show ?case by (cases r) (simp add: cases_ops Let_def)
next
  case (6 s t i)
  then show ?case by (simp add: cases_ops seen_def split: option.splits)
qed

definition cases_empty :: CaseStore where
  "cases_empty = \<lparr>st_cases = [], st_transitions = (\<lambda>_. [])\<rparr>"

abbreviation case_run :: "platform \<Rightarrow> CaseStore \<times> time \<Rightarrow> CaseStore \<times> time \<Rightarrow> bool" where
  "case_run P \<equiv> (case_step (mem_cases P) stored)\<^sup>*\<^sup>*"

lemma case_run_ok: "case_run P (cases_empty, k0) (s, k) \<Longrightarrow> mem_case.cases_ok k s"
  by (drule mem_case.case_reach_ok)
     (simp_all add: mem_case.cases_ok_def cases_empty_def case_ok_def)

section \<open>Properties\<close>

text \<open>
  C6: The audit log of a case tells its whole story. After any run of calls, permitted or
  refused, single or in bulk, \<open>History\<close> of a visible case is a path of legal moves from
  \<open>StateDraft\<close> to the case's current state, strictly ordered in time and of that case and
  tenant only; every reopening in it has a reason, and a case that is closed or archived
  was closed from review.
\<close>

theorem case_history_is_legal_path:
  assumes "case_run P (cases_empty, k0) (s, k)" and "cases_Get s t i = Inr c"
  shows "\<exists>lg. History (Some (mem_cases P)) t i s = Inr lg \<and>
    path StateDraft lg (cs_State c) \<and> sorted_wrt (<) (map tr_OccurredAt lg) \<and>
    (\<forall>r\<in>set lg. tr_CaseID r = i \<and> tr_TenantID r = t \<and>
       (tr_FromState r = StateClosed \<and> tr_ToState r = StateActive \<longrightarrow> tr_Reason r \<noteq> [])) \<and>
    (cs_State c \<in> {StateClosed, StateArchived} \<longrightarrow>
       (\<exists>r\<in>set lg. tr_FromState r = StateUnderReview \<and> tr_ToState r = StateClosed))"
proof -
  have ok: "mem_case.cases_ok k s" using assms(1) by (rule case_run_ok)
  have c: "stored s i = Some c" "cs_TenantID c = t"
    using assms(2) by (auto simp: cases_Get_def split: option.splits if_splits)
  from ok c(1) have "case_ok k i (Some c) (st_transitions s i)"
    unfolding mem_case.cases_ok_def by metis
  then have lg: "path StateDraft (st_transitions s i) (cs_State c)"
      "sorted_wrt (<) (map tr_OccurredAt (st_transitions s i))"
      "\<forall>r\<in>set (st_transitions s i). tr_CaseID r = i \<and> tr_TenantID r = t"
    using c(2) by (auto simp: case_ok_def)
  have "\<forall>r\<in>set rs. legal_move r" if "path a rs b" for a rs b
    using that by (induction rs arbitrary: a) auto
  then have "\<forall>r\<in>set (st_transitions s i). legal_move r" using lg(1) by blast
  then show ?thesis
    using lg path_reviewed [OF lg(1)] mem_case.History_ok [OF ok c]
    by (auto simp: legal_moves)
qed

definition sample_clerk :: User where
  "sample_clerk = \<lparr>us_ID = 5, us_TenantID = 7, us_Email = [], us_Name = [],
     us_Roles = [RoleClerk], us_Status = UserStatusActive, us_InvitedAt = None,
     us_DisabledAt = None, us_CreatedAt = 1, us_UpdatedAt = 1\<rparr>"

definition sample_input :: NewCaseInput where
  "sample_input = \<lparr>nc_TenantID = 7, nc_JurisdictionID = 3, nc_CategoryID = [],
     nc_Title = ''Doe'', nc_Reference = [], nc_Metadata = [], nc_CreatedBy = 5\<rparr>"

definition sample_case :: Case where
  "sample_case = \<lparr>cs_ID = 1, cs_TenantID = 7, cs_JurisdictionID = 3, cs_CategoryID = [],
     cs_Title = ''Doe'', cs_Reference = [], cs_State = StateDraft, cs_Metadata = Map.empty,
     cs_MetadataVersion = 1, cs_CreatedBy = 5, cs_CreatedAt = 1, cs_UpdatedAt = 1,
     cs_ArchivedAt = None\<rparr>"

lemma trim_sample [simp]: "TrimSpace ''Doe'' = ''Doe''"
  by code_simp

lemma sample_new: "NewCase 1 1 sample_input = Inr sample_case"
  by (simp add: NewCase_def sample_input_def sample_case_def Case_Validate_def State_Valid_def
      uuid_Nil_def)

definition sample_store :: CaseStore where
  "sample_store = \<lparr>st_cases = [(1, sample_case)], st_transitions = (\<lambda>_. [])\<rparr>"

lemma sample_run: "case_run ref_platform (cases_empty, 0) (sample_store, 1)"
proof -
  have "snd (cases_Create cases_empty 7 1 (Some sample_case)) = sample_store"
    by (simp add: cases_Create_def cases_empty_def sample_store_def sample_case_def
        requireMatchingTenant_def Case_Validate_def State_Valid_def uuid_Nil_def Let_def)
  then show ?thesis
    using case_step.create [of 0 1 1 sample_input sample_case stored cases_empty "mem_cases ref_platform" 7 1]
      sample_new by (simp add: cases_empty_def uuid_Nil_def mem_cases_def r_into_rtranclp)
qed

text \<open>The sample case on its way to the archive, one instant for each move.\<close>

definition go_to :: "State \<Rightarrow> TransitionInput" where
  "go_to st = \<lparr>ti_TenantID = 7, ti_CaseID = 1, ti_ToState = st, ti_Reason = []\<rparr>"

definition go :: "time \<Rightarrow> State \<Rightarrow> CaseStore \<Rightarrow> CaseStore" where
  "go now st s = snd (Transition (Some (mem_cases ref_platform)) now 4 (Some sample_clerk) (go_to st) s)"

definition closed_store :: CaseStore where
  "closed_store = go 4 StateClosed (go 3 StateUnderReview (go 2 StateActive sample_store))"

definition archived_store :: CaseStore where
  "archived_store = snd (Archive (Some (mem_cases ref_platform)) 5 4 (Some sample_clerk) 7 1 [] closed_store)"

lemma go_run:
  "case_run ref_platform x (s, k) \<Longrightarrow> k < now \<Longrightarrow> case_run ref_platform x (go now st s, now)"
  unfolding go_def by (rule rtranclp.rtrancl_into_rtrancl) (auto intro: case_step.transition)

lemma closed_run: "case_run ref_platform (cases_empty, 0) (closed_store, 4)"
  unfolding closed_store_def by (intro go_run [OF go_run [OF go_run [OF sample_run]]]) simp_all

lemma archived_run: "case_run ref_platform (cases_empty, 0) (archived_store, 5)"
  unfolding archived_store_def
  by (rule rtranclp.rtrancl_into_rtrancl [OF closed_run case_step.archive]) simp

lemmas operation_defs = Transition_def transition_read_def Reopen_def Archive_def
  updateMetadata_def metadata_write_def commit_move_def UserFromContext_def Let_def

lemma closed_case: "stored closed_store 1 =
    Some (sample_case\<lparr>cs_State := StateClosed, cs_UpdatedAt := 4\<rparr>)"
  by (simp add: closed_store_def go_def go_to_def operation_defs cases_ops sample_store_def
      State_Valid_def CanTransition_iff sample_case_def uuid_Nil_def)

lemma archived_case: "stored archived_store 1 =
    Some (sample_case\<lparr>cs_State := StateArchived, cs_UpdatedAt := 5, cs_ArchivedAt := Some 5\<rparr>)"
  using closed_case
  by (simp add: archived_store_def operation_defs cases_ops update_conv' sample_case_def uuid_Nil_def)

theorem case_history_is_legal_path_witness:
  "\<exists>lg. History (Some (mem_cases ref_platform)) 7 1 closed_store = Inr lg \<and>
     path StateDraft lg StateClosed \<and>
     (\<exists>r\<in>set lg. tr_FromState r = StateUnderReview \<and> tr_ToState r = StateClosed)"
proof -
  have "cases_Get closed_store 7 1 = Inr (sample_case\<lparr>cs_State := StateClosed, cs_UpdatedAt := 4\<rparr>)"
    using closed_case by (simp add: cases_Get_def sample_case_def)
  from case_history_is_legal_path [OF closed_run this] show ?thesis by auto
qed

text \<open>
  Archiving is final. Once a reachable store holds an archived case, every later run of
  calls leaves it archived at the same instant and with the same audit log; no plain
  transition and no reopening of it succeeds.
\<close>

lemma archived_is_final:
  assumes "case_run P (cases_empty, k0) (s, k)" and "stored s i = Some c"
    and "cs_State c = StateArchived" and "case_run P (s, k) (s', k')"
  shows "\<exists>c'. stored s' i = Some c' \<and> cs_State c' = StateArchived \<and>
      cs_ArchivedAt c' = cs_ArchivedAt c \<and> cs_ArchivedAt c \<noteq> None \<and>
      st_transitions s' i = st_transitions s i \<and>
      \<not> is_ok (fst (Transition (Some (mem_cases P)) now newid ct
          \<lparr>ti_TenantID = t, ti_CaseID = i, ti_ToState = to, ti_Reason = reason\<rparr> s')) \<and>
      \<not> is_ok (fst (Reopen (Some (mem_cases P)) now newid ct t i reason s'))"
proof -
  have ok: "mem_case.cases_ok k s" using assms(1) by (rule case_run_ok)
  have ok': "mem_case.cases_ok k' s'"
    using mem_case.case_reach_ok [OF assms(4)] ok by simp
  have "mem_case.archived i (cs_ArchivedAt c) (st_transitions s i) s"
    using assms(2,3) by (simp add: mem_case.archived_def)
  from mem_case.case_reach_archived [OF assms(4)] this ok
  have "mem_case.archived i (cs_ArchivedAt c) (st_transitions s i) s'" by simp
  then obtain c' where c': "stored s' i = Some c'" "cs_State c' = StateArchived"
      "cs_ArchivedAt c' = cs_ArchivedAt c" "st_transitions s' i = st_transitions s i"
    by (auto simp: mem_case.archived_def)
  have "case_ok k i (Some c) (st_transitions s i)"
    using ok assms(2) unfolding mem_case.cases_ok_def by metis
  then have "cs_ArchivedAt c \<noteq> None" using assms(3) by (simp add: case_ok_def)
  moreover have "\<not> is_ok (fst (Transition (Some (mem_cases P)) now newid ct
      \<lparr>ti_TenantID = t, ti_CaseID = i, ti_ToState = to, ti_Reason = reason\<rparr> s'))"
    by (simp add: Transition_def transition_read_def mem_case.Get_law seen_def c' CanTransition_iff
        is_ok_def split: option.splits)
  moreover have "\<not> is_ok (fst (Reopen (Some (mem_cases P)) now newid ct t i reason s'))"
    by (simp add: Reopen_def mem_case.Get_law seen_def c' is_ok_def Let_def split: option.splits)
  ultimately show ?thesis using c' by blast
qed

lemma archived_is_final_witness:
  "\<exists>c'. stored archived_store 1 = Some c' \<and> cs_State c' = StateArchived \<and>
     cs_ArchivedAt c' = Some 5 \<and>
     \<not> is_ok (fst (Reopen (Some (mem_cases ref_platform)) 6 1 (Some sample_clerk) 7 1 ''new evidence'' archived_store))"
proof -
  have "cs_State (sample_case\<lparr>cs_State := StateArchived, cs_UpdatedAt := 5, cs_ArchivedAt := Some 5\<rparr>) =
      StateArchived" by simp
  from archived_is_final [OF archived_run archived_case this rtranclp.rtrancl_refl,
      of 6 1 "Some sample_clerk" 7 StateActive "''new evidence''"]
  show ?thesis by auto
qed

text \<open>
  A metadata update with a stale version is refused. After an update that named the
  version it had read, a second update (replacing or merging) that names that same version
  changes nothing and is answered with the conflict error; the first one's values stay.
\<close>

lemma stale_metadata_update_refused:
  assumes "case_run P (cases_empty, k0) (s, k)"
    and "updateMetadata (Some (mem_cases P)) now a merge s = (Inr c, s1)"
    and "mu_ExpectedVersion a \<noteq> 0" and "mu_ExpectedVersion b = mu_ExpectedVersion a"
    and "mu_TenantID b = mu_TenantID a" and "mu_CaseID b = mu_CaseID a"
    and "validateMetadataValues (mu_Values b) = None"
  shows "updateMetadata (Some (mem_cases P)) now' b merge' s1 = (Inl ErrMetadataVersionConflict, s1) \<and>
    stored s1 (mu_CaseID a) = Some c \<and> cs_MetadataVersion c = mu_ExpectedVersion a + 1 \<and>
    (\<forall>key v. map_of (mu_Values a) key = Some v \<longrightarrow> GetMetadataValue (Some c) key = (v, True))"
proof -
  let ?i = "mu_CaseID a"
  have ok: "mem_case.cases_ok k s" using assms(1) by (rule case_run_ok)
  from mem_case.updateMetadata_written [OF ok refl, where P = P and input = a and now = now and merge = merge]
  have "mem_case.written ?i s (plan_metadata now a merge (stored s ?i)) (Inr c, s1)"
    by (simp add: assms(2))
  from mem_case.written_Inr [OF this] obtain d where
    d: "seen (mu_TenantID a) (stored s ?i) = Some d" "mu_ExpectedVersion a = cs_MetadataVersion d"
      "c = metadata_written now a merge d" "stored s1 = (stored s)(?i \<mapsto> c)"
    using plan_metadata_Inr assms(3) by blast
  have "seen (mu_TenantID a) (stored s1 ?i) = Some c"
    using d by (simp add: seen_Some)
  moreover have "cs_MetadataVersion d + 1 \<noteq> cs_MetadataVersion d" by simp
  ultimately have "updateMetadata (Some (mem_cases P)) now' b merge' s1 = (Inl ErrMetadataVersionConflict, s1)"
    using assms(3-7) d by (simp add: updateMetadata_def mem_case.Get_law metadata_write_def)
  moreover have "GetMetadataValue (Some c) key = (v, True)" if "map_of (mu_Values a) key = Some v" for key v
    using that d(3) by (simp add: GetMetadataValue_def metadata_written_def map_add_find_right)
  ultimately show ?thesis using d by simp
qed

definition docket :: "string \<Rightarrow> MetadataUpdateInput" where
  "docket v = \<lparr>mu_TenantID = 7, mu_CaseID = 1, mu_Values = [(''docket'', v)], mu_ExpectedVersion = 1\<rparr>"

lemma docket_ok [simp]: "validateMetadataValues (mu_Values (docket v)) = None"
proof -
  have "TrimSpace ''docket'' \<noteq> []" by code_simp
  then show ?thesis by (simp add: validateMetadataValues_def docket_def)
qed

lemma stale_metadata_update_refused_witness:
  "\<exists>c s1. updateMetadata (Some (mem_cases ref_platform)) 6 (docket ''17'') True sample_store = (Inr c, s1) \<and>
     updateMetadata (Some (mem_cases ref_platform)) 7 (docket ''18'') True s1 =
       (Inl ErrMetadataVersionConflict, s1)"
proof -
  obtain c s1 where u:
    "updateMetadata (Some (mem_cases ref_platform)) 6 (docket ''17'') True sample_store = (Inr c, s1)"
    using docket_ok [of "''17''"]
    by (simp add: operation_defs cases_ops docket_def sample_store_def sample_case_def)
  have d: "mu_ExpectedVersion (docket v) = 1" "mu_TenantID (docket v) = 7" "mu_CaseID (docket v) = 1" for v
    by (simp_all add: docket_def)
  have "updateMetadata (Some (mem_cases ref_platform)) 7 (docket ''18'') True s1 =
      (Inl ErrMetadataVersionConflict, s1)"
    by (rule conjunct1 [OF stale_metadata_update_refused [OF sample_run u]]) (simp_all add: d)
  with u show ?thesis by blast
qed

text \<open>
  The version check is not atomic with the write. When two updates read the case before
  either writes (\<open>metadata_write\<close> is what follows the read), both pass the check of the same
  expected version, both succeed with the same new version, and after the second replacing
  write no value of the first is left.
\<close>

lemma racing_metadata_updates_lose_one:
  assumes "stored s i = Some c" and "cs_ID c = i" and "cs_TenantID c = t" and "t \<noteq> uuid_Nil"
    and "mu_TenantID a = t" and "mu_TenantID b = t"
    and "mu_ExpectedVersion a = cs_MetadataVersion c" and "mu_ExpectedVersion b = cs_MetadataVersion c"
  shows "cases_Get s t i = Inr c \<and>
    (let (ra, s1) = metadata_write (mem_cases P) now a False c s;
         (rb, s2) = metadata_write (mem_cases P) now' b False c s1
     in is_ok ra \<and> is_ok rb \<and>
        (\<exists>d. stored s2 i = Some d \<and> cs_Metadata d = map_of (mu_Values b) \<and>
             cs_MetadataVersion d = cs_MetadataVersion c + 1))"
proof -
  have g: "seen (mu_TenantID a) (stored s i) = Some c"
    using assms by (simp add: seen_Some)
  have "mem_case.written i s (Inr (metadata_written now a False c)) (metadata_write (mem_cases P) now a False c s)"
    by (rule mem_case.metadata_write_ok [OF g]) (use assms in simp_all)
  then obtain s1 where 1: "metadata_write (mem_cases P) now a False c s =
      (Inr (metadata_written now a False c), s1)"
      "stored s1 = (stored s)(i \<mapsto> metadata_written now a False c)"
    by (auto simp: mem_case.written_def)
  have g1: "seen (mu_TenantID b) (stored s1 i) = Some (metadata_written now a False c)"
    using assms 1 by (simp add: seen_Some)
  have "mem_case.written i s1 (Inr (metadata_written now' b False c)) (metadata_write (mem_cases P) now' b False c s1)"
    by (rule mem_case.metadata_write_ok [OF g1]) (use assms in simp_all)
  then obtain s2 where 2: "metadata_write (mem_cases P) now' b False c s1 =
      (Inr (metadata_written now' b False c), s2)"
      "stored s2 = (stored s1)(i \<mapsto> metadata_written now' b False c)"
    by (auto simp: mem_case.written_def)
  show ?thesis
    using assms(1,3) 1 2 by (simp add: cases_Get_def metadata_written_def)
qed

lemma racing_metadata_updates_lose_one_witness:
  "let (ra, s1) = metadata_write (mem_cases ref_platform) 6 (docket ''17'') False sample_case sample_store;
       (rb, s2) = metadata_write (mem_cases ref_platform) 7 (docket ''18'') False sample_case s1
   in is_ok ra \<and> is_ok rb \<and>
      (\<exists>d. stored s2 1 = Some d \<and> cs_Metadata d = map_of (mu_Values (docket ''18'')) \<and>
           cs_MetadataVersion d = cs_MetadataVersion sample_case + 1)"
  by (rule conjunct2 [OF racing_metadata_updates_lose_one [where t = 7]])
     (simp_all add: sample_store_def sample_case_def docket_def uuid_Nil_def)

text \<open>
  Nor is the check of a move. When two transitions read a case under review before either
  writes, one may close it and the other send it back: both succeed, the case ends active
  without a reopening, and its audit log is not the log of any legal history.
\<close>

lemma racing_transitions_break_history:
  assumes "stored s i = Some c" and "cs_ID c = i" and "cs_TenantID c = t"
    and "cs_State c = StateUnderReview" and "ti_TenantID a = t" and "ti_TenantID b = t"
    and "ti_ToState a = StateClosed" and "ti_ToState b = StateActive"
  shows "let (ra, s1) = transition_read (mem_cases P) now n u a c s;
             (rb, s2) = transition_read (mem_cases P) now' n' v b c s1
     in is_ok ra \<and> is_ok rb \<and>
        (\<exists>d. stored s2 i = Some d \<and> cs_State d = StateActive) \<and>
        \<not> (\<exists>st. path StateDraft (st_transitions s2 i) st)"
proof -
  let ?ea = "move_entry now n u c StateClosed (ti_Reason a)"
  let ?eb = "move_entry now' n' v c StateActive (ti_Reason b)"
  let ?a = "c\<lparr>cs_State := StateClosed, cs_UpdatedAt := now\<rparr>"
  let ?b = "c\<lparr>cs_State := StateActive, cs_UpdatedAt := now'\<rparr>"
  have eq: "transition_read (mem_cases P) now n u a c s0 = commit_move (mem_cases P) t n ?a ?ea s0"
    "transition_read (mem_cases P) now' n' v b c s0 = commit_move (mem_cases P) t n' ?b ?eb s0" for s0
    using assms by (simp_all add: transition_read_def CanTransition_iff Let_def move_entry_def)
  have "seen t (stored s i) = Some c" using assms by (simp add: seen_Some)
  from mem_case.commit_move_ok [OF this, of ?a ?ea n P] assms
  obtain s1 where 1: "commit_move (mem_cases P) t n ?a ?ea s = (Inr ?a, s1)"
      "stored s1 = (stored s)(i \<mapsto> ?a)"
      "st_transitions s1 = (st_transitions s)(i := st_transitions s i @ [?ea])"
    by auto
  then have "seen t (stored s1 i) = Some ?a" using assms by (simp add: seen_Some)
  from mem_case.commit_move_ok [OF this, of ?b ?eb n' P] assms
  obtain s2 where 2: "commit_move (mem_cases P) t n' ?b ?eb s1 = (Inr ?b, s2)"
      "stored s2 = (stored s1)(i \<mapsto> ?b)"
      "st_transitions s2 = (st_transitions s1)(i := st_transitions s1 i @ [?eb])"
    by auto
  have "\<not> path StateDraft (st_transitions s i @ [?ea, ?eb]) st" for st
    using assms(4) by (auto simp: path_append)
  then show ?thesis using 1 2 by (simp add: eq)
qed

definition review_store :: CaseStore where
  "review_store = \<lparr>st_cases = [(1, sample_case\<lparr>cs_State := StateUnderReview\<rparr>)],
     st_transitions = (\<lambda>_. [])\<rparr>"

lemma racing_transitions_break_history_witness:
  "let (ra, s1) = transition_read (mem_cases ref_platform) 4 8 sample_clerk (go_to StateClosed)
           (sample_case\<lparr>cs_State := StateUnderReview\<rparr>) review_store;
       (rb, s2) = transition_read (mem_cases ref_platform) 5 9 sample_clerk (go_to StateActive)
           (sample_case\<lparr>cs_State := StateUnderReview\<rparr>) s1
   in is_ok ra \<and> is_ok rb \<and>
      (\<exists>d. stored s2 1 = Some d \<and> cs_State d = StateActive) \<and>
      \<not> (\<exists>st. path StateDraft (st_transitions s2 1) st)"
  by (rule racing_transitions_break_history [where t = 7])
     (simp_all add: review_store_def sample_case_def go_to_def)

text \<open>
  A bulk transition over distinct cases is the cases' single transitions side by side.
  From any reachable store the i-th result is exactly what a single \<open>Transition\<close> of the i-th
  case on the store before the call returns, its case and audit log end as that transition
  leaves them, and no other case changes: a case that fails neither stops nor alters the rest.
\<close>

lemma BulkTransition_isolates_cases:
  assumes "case_run P (cases_empty, k0) (s, k)" and "k < now 0" and "\<And>n. now n < now (Suc n)"
    and "distinct cids"
  shows "\<exists>results s'.
    BulkTransition (Some (mem_cases P)) now newid ct t cids to reason s = (Inr results, s') \<and>
    length results = length cids \<and>
    (\<forall>j < length cids.
       let (r, s1) = Transition (Some (mem_cases P)) (now j) (newid j) ct
             \<lparr>ti_TenantID = t, ti_CaseID = cids ! j, ti_ToState = to, ti_Reason = reason\<rparr> s
       in results ! j = bulk_result (cids ! j) r \<and>
          stored s' (cids ! j) = stored s1 (cids ! j) \<and>
          st_transitions s' (cids ! j) = st_transitions s1 (cids ! j)) \<and>
    (\<forall>i. i \<notin> set cids \<longrightarrow> stored s' i = stored s i \<and> st_transitions s' i = st_transitions s i)"
proof -
  have ok: "mem_case.cases_ok k s" using assms(1) by (rule case_run_ok)
  show ?thesis
    using mem_case.bulk_transition_local [where P = P and nows = now and ids = newid and ct = ct
        and t = t and to = to and reason = reason, OF ok assms(2-4)]
    by (cases "BulkTransition (Some (mem_cases P)) now newid ct t cids to reason s")
       (auto simp: split_beta Let_def)
qed

lemma BulkTransition_isolates_cases_witness:
  "\<exists>results s'.
    BulkTransition (Some (mem_cases ref_platform)) (\<lambda>n. 2 + int n) (\<lambda>n. 20) (Some sample_clerk) 7 [9, 1]
      StateActive [] sample_store = (Inr results, s') \<and>
    br_Err (results ! 0) = Some ErrNotFound \<and>
    (\<exists>c. stored s' 1 = Some c \<and> cs_State c = StateActive)"
proof -
  have t: "(\<exists>s1. Transition (Some (mem_cases ref_platform)) 2 20 (Some sample_clerk)
         \<lparr>ti_TenantID = 7, ti_CaseID = 9, ti_ToState = StateActive, ti_Reason = []\<rparr> sample_store =
         (Inl ErrNotFound, s1))"
    "\<exists>r s1. Transition (Some (mem_cases ref_platform)) 3 20 (Some sample_clerk)
         \<lparr>ti_TenantID = 7, ti_CaseID = 1, ti_ToState = StateActive, ti_Reason = []\<rparr> sample_store =
         (r, s1) \<and> (\<exists>c. stored s1 1 = Some c \<and> cs_State c = StateActive)"
    by (simp_all add: operation_defs cases_ops sample_store_def sample_case_def State_Valid_def
        CanTransition_iff)
  have "\<exists>results s'.
    BulkTransition (Some (mem_cases ref_platform)) (\<lambda>n. 2 + int n) (\<lambda>n. 20) (Some sample_clerk) 7 [9, 1]
      StateActive [] sample_store = (Inr results, s') \<and> length results = length [9 :: uuid, 1] \<and>
    (\<forall>j < length [9 :: uuid, 1].
       let (r, s1) = Transition (Some (mem_cases ref_platform)) (2 + int j) 20 (Some sample_clerk)
             \<lparr>ti_TenantID = 7, ti_CaseID = [9, 1] ! j, ti_ToState = StateActive, ti_Reason = []\<rparr> sample_store
       in results ! j = bulk_result ([9, 1] ! j) r \<and>
          stored s' ([9, 1] ! j) = stored s1 ([9, 1] ! j) \<and>
          st_transitions s' ([9, 1] ! j) = st_transitions s1 ([9, 1] ! j)) \<and>
    (\<forall>i. i \<notin> set [9, 1] \<longrightarrow> stored s' i = stored sample_store i \<and>
      st_transitions s' i = st_transitions sample_store i)"
    by (rule BulkTransition_isolates_cases [OF sample_run]) simp_all
  then obtain results s' where r:
    "BulkTransition (Some (mem_cases ref_platform)) (\<lambda>n. 2 + int n) (\<lambda>n. 20) (Some sample_clerk) 7 [9, 1]
      StateActive [] sample_store = (Inr results, s')"
    "\<And>j. j < 2 \<Longrightarrow>
       let (r, s1) = Transition (Some (mem_cases ref_platform)) (2 + int j) 20 (Some sample_clerk)
             \<lparr>ti_TenantID = 7, ti_CaseID = [9, 1] ! j, ti_ToState = StateActive, ti_Reason = []\<rparr> sample_store
       in results ! j = bulk_result ([9, 1] ! j) r \<and> stored s' ([9, 1] ! j) = stored s1 ([9, 1] ! j)"
    by (auto simp: Let_def split_beta)
  from r(2) [of 0] r(2) [of 1] t r(1) show ?thesis
    by (auto simp: bulk_result_def)
qed

text \<open>
  C7: A case of another tenant is invisible. Every operation that names a stored case of a
  different tenant leaves the store as it is, and answers what it would answer if the case
  did not exist: no error, result or log tells the two apart.
\<close>

theorem foreign_case_invisible:
  assumes "stored s i = Some c" and "cs_TenantID c \<noteq> t" and "stored s0 i = None"
    and "ti_TenantID ti = t" and "ti_CaseID ti = i" and "mu_TenantID mi = t" and "mu_CaseID mi = i"
  shows "Transition (Some (mem_cases P)) now n ct ti s =
      (fst (Transition (Some (mem_cases P)) now n ct ti s0), s) \<and>
    Reopen (Some (mem_cases P)) now n ct t i why s =
      (fst (Reopen (Some (mem_cases P)) now n ct t i why s0), s) \<and>
    Archive (Some (mem_cases P)) now n ct t i why s =
      (fst (Archive (Some (mem_cases P)) now n ct t i why s0), s) \<and>
    updateMetadata (Some (mem_cases P)) now mi merge s =
      (fst (updateMetadata (Some (mem_cases P)) now mi merge s0), s) \<and>
    History (Some (mem_cases P)) t i s = History (Some (mem_cases P)) t i s0 \<and>
    \<not> is_ok (History (Some (mem_cases P)) t i s) \<and> \<not> is_ok (cases_Get s t i)"
proof -
  have "seen t (stored s i) = None" "seen t (stored s0 i) = None"
    using assms(1-3) by (simp_all add: seen_def)
  then show ?thesis
    using assms
    by (auto simp: Transition_def Reopen_def Archive_def updateMetadata_def History_def
        mem_case.Get_law mem_case.List_law cases_Get_def Let_def split: option.splits)
qed

theorem foreign_case_invisible_witness:
  "Archive (Some (mem_cases ref_platform)) 9 1 (Some sample_clerk) 8 1 [] closed_store =
     (fst (Archive (Some (mem_cases ref_platform)) 9 1 (Some sample_clerk) 8 1 [] cases_empty), closed_store)"
  using foreign_case_invisible [OF closed_case, of 8 cases_empty
      "\<lparr>ti_TenantID = 8, ti_CaseID = 1, ti_ToState = StateActive, ti_Reason = []\<rparr>"
      "(docket [])\<lparr>mu_TenantID := 8\<rparr>" ref_platform 9 1 "Some sample_clerk" "[]"]
  by (simp add: sample_case_def cases_empty_def docket_def)

text \<open>
  What may be done to a case in which state: reasoning is generated for active cases only,
  evidence, category and timeline change in drafts and active cases only, a case under
  review takes no action that changes what is reviewed, and nothing may be done to a closed,
  archived or unknown one; whatever is permitted is listed by \<open>PermittedActions\<close>, once.
\<close>

lemma actions_frozen_under_review:
  shows "(RequireAction st ActionGenerateReasoning = None \<longleftrightarrow> st = StateActive) \<and>
    (\<forall>a\<in>{ActionIngestEvidence, ActionEditCategory, ActionEditTimeline}.
       RequireAction st a = None \<longleftrightarrow> st \<in> {StateDraft, StateActive}) \<and>
    (RequireAction st ActionReviewOpinion = None \<longleftrightarrow> st \<in> {StateActive, StateUnderReview}) \<and>
    ((\<exists>a. RequireAction st a = None) \<longleftrightarrow> st \<in> {StateDraft, StateActive, StateUnderReview}) \<and>
    (\<forall>a. a \<in> set (PermittedActions st) \<longleftrightarrow> RequireAction st a = None) \<and>
    distinct (PermittedActions st)"
proof (cases st)
qed (auto simp: RequireAction_def CanPerform_def PermittedActions_def)

lemma actions_frozen_under_review_witness:
  "RequireAction StateUnderReview ActionIngestEvidence = Some ErrActionNotPermitted"
  using actions_frozen_under_review [of StateUnderReview]
  by (auto simp: RequireAction_def)

end
