(* ===== verification/Guardrail.thy ===== *)
theory Guardrail
  imports Identity "HOL-Library.Sublist"
begin

text \<open>
  The non-binding guardrail: the verdict-language scan of \<open>packages/irac\<close>
  (\<open>guardrail.go\<close>) and \<open>packages/guardrail\<close> on top of it: the checks \<open>CheckText\<close>,
  \<open>RequireLabel\<close> and \<open>ValidateLabeled\<close>, the disclaimer, the sign-off gate \<open>CanFinalize\<close>
  and the recorder of failures. Errors are values without their message text.
\<close>

section \<open>The verdict-language scan\<close>

definition DraftAnalysisLabel :: string where
  "DraftAnalysisLabel = ''draft_analysis''"

definition verdictLanguageWordlist :: "string list" where
  "verdictLanguageWordlist =
     [''guilty'', ''liable'', ''shall pay'', ''is ordered'', ''is hereby ordered'',
      ''judgment for'', ''convicted'', ''acquitted'', ''sentenced'']"

text \<open>
  \<open>strings.ToLower\<close> as far as the scan can tell: ASCII capitals and the two other runes whose
  lower case is ASCII (U+0130, the dotted capital I, and U+212A, the Kelvin sign) are
  lowered; every other rune stays non-ASCII, so no ASCII word can match inside it.
\<close>

fun ToLower :: "string \<Rightarrow> string" where
  "ToLower [] = []"
| "ToLower (c # cs) =
     (if c = CHR 0xC4 \<and> take 1 cs = [CHR 0xB0] then CHR ''i'' # ToLower (drop 1 cs)
      else if c = CHR 0xE2 \<and> take 2 cs = [CHR 0x84, CHR 0xAA] then CHR ''k'' # ToLower (drop 2 cs)
      else lower_ascii c # ToLower cs)"

text \<open>The class \<open>\s\<close> of the \<open>regexp\<close> package, and the replacement of its runs by one space.\<close>

definition re_space :: "char \<Rightarrow> bool" where
  "re_space c \<longleftrightarrow> c \<in> {CHR 0x09, CHR 0x0A, CHR 0x0C, CHR 0x0D, CHR '' ''}"

function collapse :: "string \<Rightarrow> string" where
  "collapse [] = []"
| "collapse (c # cs) =
     (if re_space c then CHR '' '' # collapse (dropWhile re_space cs) else c # collapse cs)"
  by pat_completeness auto
termination
  by (relation "measure length") (auto simp: le_imp_less_Suc length_dropWhile_le)

definition ContainsVerdictLanguage :: "string \<Rightarrow> bool" where
  "ContainsVerdictLanguage s \<longleftrightarrow>
     (let lower = collapse (ToLower s)
      in \<exists>word\<in>set verdictLanguageWordlist. sublist word lower)"

section \<open>The checks\<close>

datatype gr_error = ErrVerdictLanguageDetected | ErrMissingLabel | ErrSignoffNotApproved
  | ErrNilSignoffGate | ErrEmptyCaseID

definition CheckText :: "string \<Rightarrow> gr_error option" where
  "CheckText s = (if ContainsVerdictLanguage s then Some ErrVerdictLanguageDetected else None)"

definition RequireLabel :: "string \<Rightarrow> gr_error option" where
  "RequireLabel label = (if label \<noteq> DraftAnalysisLabel then Some ErrMissingLabel else None)"

text \<open>A \<open>Labeled\<close> value is the label it reports; \<open>None\<close> is the nil interface.\<close>

definition ValidateLabeled :: "string option \<Rightarrow> gr_error option" where
  "ValidateLabeled x =
     (case x of None \<Rightarrow> Some ErrMissingLabel | Some label \<Rightarrow> RequireLabel label)"

text \<open>The disclaimer, byte for byte; its dash is the UTF-8 form of U+2014.\<close>

definition nl :: string where
  "nl = [CHR 0x0A]"

definition outputDisclaimer :: string where
  "outputDisclaimer =
     nl @ nl @ ''---'' @ nl @
     ''DRAFT ANALYSIS '' @ [CHR 0xE2, CHR 0x80, CHR 0x94] @
     '' NON-BINDING: This output is an AI-generated draft legal'' @ nl @
     ''analysis produced by the Verdex platform. It is not a verdict, ruling, or'' @ nl @
     ''judgment, and it does not constitute legal advice. It must not be treated'' @ nl @
     ''as, cited as, or relied upon in place of a determination by a qualified'' @ nl @
     ''legal professional or a court. The analysis may contain errors, omissions,'' @ nl @
     ''or inaccuracies.''"

definition HasDisclaimer :: "string \<Rightarrow> bool" where
  "HasDisclaimer s \<longleftrightarrow> suffix outputDisclaimer s"

definition RequireDisclaimer :: "string \<Rightarrow> string" where
  "RequireDisclaimer s = (if suffix outputDisclaimer s then s else s @ outputDisclaimer)"

definition EnsureDisclaimer :: "string \<Rightarrow> string" where
  "EnsureDisclaimer s = RequireDisclaimer s"

section \<open>The sign-off gate\<close>

datatype SignoffStatus = SignoffPending | SignoffApproved | SignoffRejected

text \<open>
  A gate reports the status of a case or fails with an error of its own; \<open>None\<close> is the nil
  gate. \<open>CanFinalize\<close> refuses with an error of this package or wraps the gate's.
\<close>

type_synonym 'e SignoffGate = "string \<Rightarrow> 'e + SignoffStatus"

datatype 'e fin_error = Refused gr_error | LookupFailed string 'e

definition NoSignoffRecordedGate :: "gr_error SignoffGate" where
  "NoSignoffRecordedGate caseID = (if caseID = [] then Inl ErrEmptyCaseID else Inr SignoffPending)"

definition CanFinalize :: "string \<Rightarrow> 'e SignoffGate option \<Rightarrow> bool \<times> 'e fin_error option" where
  "CanFinalize caseID gate =
     (if caseID = [] then (False, Some (Refused ErrEmptyCaseID))
      else
        (case gate of
           None \<Rightarrow> (False, Some (Refused ErrNilSignoffGate))
         | Some status \<Rightarrow>
             (case status caseID of
                Inl err \<Rightarrow> (False, Some (LookupFailed caseID err))
              | Inr st \<Rightarrow>
                  if st \<noteq> SignoffApproved then (False, Some (Refused ErrSignoffNotApproved))
                  else (True, None))))"

lemma CanFinalize_iff:
  "CanFinalize caseID gate = (True, e) \<longleftrightarrow>
     e = None \<and> caseID \<noteq> [] \<and> (\<exists>g. gate = Some g \<and> g caseID = Inr SignoffApproved)"
  by (auto simp: CanFinalize_def split: option.splits sum.splits)

section \<open>The recorder of failures\<close>

datatype ViolationKind = ViolationMissingLabel | ViolationVerdictLanguage | ViolationFinalizeBlocked

record GuardEvent =
  ge_Kind :: ViolationKind
  ge_CaseID :: string
  ge_Detail :: string
  ge_OccurredAt :: time

text \<open>
  An error is recorded by its message; \<open>None\<close> is the nil error.
  A sink is what it does to the outside world, a state of type \<open>'w\<close>. A nil sink of a
  \<open>MultiAlertSink\<close> is skipped.
\<close>

type_synonym 'w AlertSink = "GuardEvent \<Rightarrow> 'w \<Rightarrow> 'w"

definition NoOpAlertSink :: "'w AlertSink" where
  "NoOpAlertSink e w = w"

definition MultiAlertSink :: "'w AlertSink option list \<Rightarrow> 'w AlertSink" where
  "MultiAlertSink sinks e w =
     fold (\<lambda>s w. case s of None \<Rightarrow> w | Some notify \<Rightarrow> notify e w) sinks w"

record Recorder =
  rc_events :: "GuardEvent list"

definition Recorder_Record ::
  "'w AlertSink option \<Rightarrow> time \<Rightarrow> GuardEvent \<Rightarrow> Recorder \<times> 'w \<Rightarrow> Recorder \<times> 'w" where
  "Recorder_Record sink now event rw =
     (case rw of
        (r, w) \<Rightarrow>
          let event = event\<lparr>ge_OccurredAt := now\<rparr>;
              notify = (case sink of None \<Rightarrow> NoOpAlertSink | Some notify \<Rightarrow> notify)
          in (r\<lparr>rc_events := rc_events r @ [event]\<rparr>, notify event w))"

definition record_failure ::
  "ViolationKind \<Rightarrow> 'w AlertSink option \<Rightarrow> time \<Rightarrow> string \<Rightarrow> string option
    \<Rightarrow> Recorder \<times> 'w \<Rightarrow> Recorder \<times> 'w" where
  "record_failure kind sink now caseID err rw =
     (case err of
        None \<Rightarrow> rw
      | Some message \<Rightarrow> Recorder_Record sink now
          \<lparr>ge_Kind = kind, ge_CaseID = caseID, ge_Detail = message, ge_OccurredAt = zero_time\<rparr> rw)"

definition RecordCheckTextFailure where
  "RecordCheckTextFailure sink now caseID err rw =
     record_failure ViolationVerdictLanguage sink now caseID err rw"

definition RecordLabelFailure where
  "RecordLabelFailure sink now caseID err rw =
     record_failure ViolationMissingLabel sink now caseID err rw"

definition RecordFinalizeBlocked where
  "RecordFinalizeBlocked sink now caseID err rw =
     record_failure ViolationFinalizeBlocked sink now caseID err rw"

section \<open>Lemmas on the scan\<close>

lemma collapse_prefix: "prefix (collapse s) (collapse (s @ b))"
proof (induction s rule: collapse.induct)
  case (2 c cs)
  show ?case
  proof (cases "re_space c")
    case True
    have "prefix (collapse (dropWhile re_space cs)) (collapse (dropWhile re_space (cs @ b)))"
    proof (cases "dropWhile re_space cs")
      case (Cons d ds)
      then have "dropWhile re_space (cs @ b) = dropWhile re_space cs @ b"
        by (metis dropWhile_append dropWhile_eq_Nil_conv list.distinct(1))
      then show ?thesis using 2(1) [OF True] by simp
    next
      case Nil
      then show ?thesis by (simp del: dropWhile_eq_Nil_conv)
    qed
    with True show ?thesis by simp
  qed (use 2(2) in simp)
qed simp

lemma collapse_append_left: "sublist w (collapse s) \<Longrightarrow> sublist w (collapse (s @ b))"
  using collapse_prefix prefix_imp_sublist sublist_order.order_trans by metis

lemma sublist_collapse_drop:
  assumes "sublist w (collapse s)" "w \<noteq> []" "hd w \<noteq> CHR '' ''"
  shows "sublist w (collapse (dropWhile re_space s))"
proof (cases s)
  case (Cons c cs)
  show ?thesis
  proof (cases "re_space c")
    case True
    then have "sublist w (CHR '' '' # collapse (dropWhile re_space cs))" using assms(1) Cons by simp
    then have "sublist w (collapse (dropWhile re_space cs))"
      using assms(2,3) by (cases w) (auto simp: sublist_Cons_right)
    then show ?thesis using Cons True by simp
  qed (use assms(1) Cons in simp)
qed (use assms(1) in simp)

lemma collapse_append_right:
  assumes "sublist w (collapse s)" "w \<noteq> []" "hd w \<noteq> CHR '' ''"
  shows "sublist w (collapse (a @ s))"
  using assms(1)
proof (induction a rule: collapse.induct)
  case (2 c cs)
  show ?case
  proof (cases "re_space c")
    case True
    have "sublist w (collapse (dropWhile re_space (cs @ s)))"
    proof (cases "dropWhile re_space cs")
      case Nil
      then have "dropWhile re_space (cs @ s) = dropWhile re_space s"
        by (simp add: dropWhile_append dropWhile_eq_Nil_conv)
      then show ?thesis using sublist_collapse_drop [OF 2(3) assms(2,3)] by simp
    next
      case (Cons d ds)
      then have "dropWhile re_space (cs @ s) = dropWhile re_space cs @ s"
        by (metis dropWhile_append dropWhile_eq_Nil_conv list.distinct(1))
      then show ?thesis using 2(1) [OF True 2(3)] by simp
    qed
    with True show ?thesis by (simp add: sublist_Cons_right)
  qed (use 2 in \<open>simp add: sublist_Cons_right\<close>)
qed simp

lemma wordlist_heads: "w \<in> set verdictLanguageWordlist \<Longrightarrow>
    w \<noteq> [] \<and> hd w \<noteq> CHR '' '' \<and> last w \<noteq> CHR '' '' \<and> CHR ''-'' \<notin> set w"
  by (auto simp: verdictLanguageWordlist_def)

text \<open>A piece of text that does not start inside the encoding of a rune.\<close>

definition rune_start :: "string \<Rightarrow> bool" where
  "rune_start s \<longleftrightarrow> s = [] \<or> of_char (hd s) < (128 :: nat) \<or> 192 \<le> (of_char (hd s) :: nat)"

lemma rune_start_not: "rune_start s \<Longrightarrow> s = [] \<or> hd s \<notin> {CHR 0xB0, CHR 0x84, CHR 0xAA}"
  by (auto simp: rune_start_def)

lemma ToLower_append: "rune_start b \<Longrightarrow> ToLower (a @ b) = ToLower a @ ToLower b"
proof (induction a rule: ToLower.induct)
  case (2 c cs)
  have b: "b = [] \<or> hd b \<notin> {CHR 0xB0, CHR 0x84, CHR 0xAA}" using rune_start_not 2(4) .
  have 1: "take 1 (cs @ b) = [CHR 0xB0] \<longleftrightarrow> take 1 cs = [CHR 0xB0]"
    using b by (cases cs; cases b) auto
  have 2: "take 2 (cs @ b) = [CHR 0x84, CHR 0xAA] \<longleftrightarrow> take 2 cs = [CHR 0x84, CHR 0xAA]"
    using b by (cases cs; cases "tl cs"; cases b) (auto simp: numeral_2_eq_2)
  have 3: "drop 1 (cs @ b) = drop 1 cs @ b" if "take 1 cs = [CHR 0xB0]"
    using that by (cases cs) auto
  have 4: "drop 2 (cs @ b) = drop 2 cs @ b" if "take 2 cs = [CHR 0x84, CHR 0xAA]"
    using that by (cases cs; cases "tl cs") (auto simp: numeral_2_eq_2)
  show ?case using "2.IH" "2.prems" 1 2 3 4 by simp
qed simp

lemma dropWhile_spaces:
  "ws \<noteq> [] \<Longrightarrow> \<forall>c\<in>set ws. re_space c \<Longrightarrow> dropWhile re_space (ws @ b) = dropWhile re_space b"
  by (simp add: dropWhile_append)

lemma collapse_spaces:
  assumes "ws \<noteq> []" "\<forall>c\<in>set ws. re_space c"
  shows "collapse (ws @ b) = CHR '' '' # collapse (dropWhile re_space b)"
  using assms by (cases ws) (auto simp: dropWhile_append)

lemma collapse_space_run:
  assumes "ws \<noteq> []" "\<forall>c\<in>set ws. re_space c" "vs \<noteq> []" "\<forall>c\<in>set vs. re_space c"
  shows "collapse (a @ ws @ b) = collapse (a @ vs @ b)"
proof (induction a rule: collapse.induct)
  case 1
  then show ?case using assms by (simp add: collapse_spaces)
next
  case (2 c cs)
  show ?case
  proof (cases "re_space c")
    case True
    show ?thesis
    proof (cases "dropWhile re_space cs")
      case Nil
      then have "dropWhile re_space (cs @ us) = dropWhile re_space us" for us
        by (simp add: dropWhile_append dropWhile_eq_Nil_conv)
      then show ?thesis using True assms by (simp add: dropWhile_spaces)
    next
      case (Cons d ds)
      then have "dropWhile re_space (cs @ us) = dropWhile re_space cs @ us" for us
        by (metis dropWhile_append dropWhile_eq_Nil_conv list.distinct(1))
      then show ?thesis using True 2(1) [OF True] by simp
    qed
  qed (use 2(2) in simp)
qed

lemma lower_ascii_space [simp]: "re_space c \<Longrightarrow> lower_ascii c = c"
  by (auto simp: re_space_def lower_ascii_def)

lemma ToLower_spaces: "\<forall>c\<in>set ws. re_space c \<Longrightarrow> ToLower (ws @ b) = ws @ ToLower b"
  by (induction ws) (auto simp: re_space_def)

lemma re_space_ASCII: "re_space c \<Longrightarrow> (of_char c :: nat) < 128"
  by (elim re_space_def [THEN iffD1, elim_format] insertE emptyE) simp_all

lemma re_space_dash: "\<not> re_space (CHR ''-'')"
  by (simp add: re_space_def)

lemma rune_start_space: "ws \<noteq> [] \<Longrightarrow> \<forall>c\<in>set ws. re_space c \<Longrightarrow> rune_start (ws @ b)"
  using re_space_ASCII [of "hd ws"] by (cases ws) (simp_all add: rune_start_def)

lemma lower_ascii_of_char:
  "(of_char (lower_ascii c) :: nat) =
     (if 65 \<le> (of_char c :: nat) \<and> (of_char c :: nat) \<le> 90 then of_char c + 32 else of_char c)"
  by (simp add: lower_ascii_def Let_def)

lemma lower_ascii_idem [simp]: "lower_ascii (lower_ascii c) = lower_ascii c"
proof -
  have "of_char (lower_ascii (lower_ascii c)) = (of_char (lower_ascii c) :: nat)"
    by (simp add: lower_ascii_of_char)
  then show ?thesis by (simp only: of_char_eq_iff)
qed

lemma lower_ascii_high: "(128 :: nat) \<le> of_char x \<Longrightarrow> lower_ascii c = x \<longleftrightarrow> c = x"
proof
  assume x: "(128 :: nat) \<le> of_char x" and "lower_ascii c = x"
  then have "of_char (lower_ascii c) = (of_char x :: nat)" by simp
  then have "of_char c = (of_char x :: nat)"
    using x by (simp add: lower_ascii_of_char split: if_splits)
  then show "c = x" by (simp only: of_char_eq_iff)
qed (simp add: lower_ascii_def Let_def)

lemma ToLower_lower: "ToLower (map lower_ascii s) = ToLower s"
proof (induction s rule: ToLower.induct)
  case (2 c cs)
  have 1: "take 1 (map lower_ascii cs) = [CHR 0xB0] \<longleftrightarrow> take 1 cs = [CHR 0xB0]"
    by (cases cs) (auto simp: lower_ascii_high)
  have 2: "take 2 (map lower_ascii cs) = [CHR 0x84, CHR 0xAA] \<longleftrightarrow> take 2 cs = [CHR 0x84, CHR 0xAA]"
    by (cases cs; cases "tl cs") (auto simp: numeral_2_eq_2 lower_ascii_high)
  show ?case
    using "2.IH" 1 2 by (simp add: lower_ascii_high drop_map)
qed simp

text \<open>Appending a separator and text that starts with a dash.\<close>

lemma sublist_separator:
  assumes "x \<notin> set w"
  shows "sublist w (p @ x # q) \<longleftrightarrow> sublist w p \<or> sublist w q"
proof
  assume "sublist w (p @ x # q)"
  moreover have "w2 = []" if "w = w1 @ w2" "prefix w2 (x # q)" for w1 w2
    using that assms by (cases w2) auto
  ultimately show "sublist w p \<or> sublist w q"
    using assms by (auto simp: sublist_append sublist_Cons_right prefix_Cons)
qed (auto simp: sublist_append sublist_Cons_right)

lemma sublist_snoc_other: "w \<noteq> [] \<Longrightarrow> last w \<noteq> x \<Longrightarrow> sublist w (p @ [x]) \<longleftrightarrow> sublist w p"
  by (metis last_snoc sublist_snoc suffix_def append_is_Nil_conv last_append last_ConsL list.distinct(1)
      suffix_snoc)

lemma collapse_separated:
  "\<exists>X. (collapse u = X \<or> collapse u = X @ '' '') \<and>
     (\<forall>ws z. ws \<noteq> [] \<and> (\<forall>c\<in>set ws. re_space c) \<and> z \<noteq> [] \<and> \<not> re_space (hd z) \<longrightarrow>
        collapse (u @ ws @ z) = X @ CHR '' '' # collapse z)"
proof (induction u rule: collapse.induct)
  case 1
  have "dropWhile re_space z = z" if "z \<noteq> []" "\<not> re_space (hd z)" for z
    using that by (cases z) auto
  then show ?case by (intro exI [of _ "[]"]) (simp add: collapse_spaces)
next
  case (2 c cs)
  show ?case
  proof (cases "re_space c")
    case True
    show ?thesis
    proof (cases "dropWhile re_space cs")
      case Nil
      have "dropWhile re_space (cs @ ws @ z) = z"
        if "ws \<noteq> []" "\<forall>c\<in>set ws. re_space c" "z \<noteq> []" "\<not> re_space (hd z)" for ws z
        using that Nil by (cases z) (auto simp: dropWhile_append)
      with True Nil show ?thesis
        by (intro exI [of _ "[]"]) (simp del: dropWhile_eq_Nil_conv)
    next
      case (Cons d ds)
      then have "dropWhile re_space (cs @ us) = dropWhile re_space cs @ us" for us
        by (metis dropWhile_append dropWhile_eq_Nil_conv list.distinct(1))
      with True 2(1) [OF True] show ?thesis by (force intro: exI [of _ "CHR '' '' # _"])
    qed
  next
    case False
    with 2(2) show ?thesis by (force intro: exI [of _ "c # _"])
  qed
qed

lemma scan_separated:
  assumes "ToLower d = ws @ CHR ''-'' # z" "rune_start d" "ws \<noteq> []" "\<forall>c\<in>set ws. re_space c"
  shows "ContainsVerdictLanguage (s @ d) \<longleftrightarrow> ContainsVerdictLanguage s \<or> ContainsVerdictLanguage d"
proof -
  obtain X where X: "collapse (ToLower s) = X \<or> collapse (ToLower s) = X @ '' ''"
      "collapse (ToLower s @ ToLower d) = X @ CHR '' '' # CHR ''-'' # collapse z"
    using collapse_separated [of "ToLower s"] assms(1,3,4)
    by (metis collapse.simps(2) list.distinct(1) list.sel(1) re_space_dash)
  have d: "collapse (ToLower d) = CHR '' '' # CHR ''-'' # collapse z"
    using assms by (simp add: collapse_spaces re_space_dash)
  have "sublist w (collapse (ToLower (s @ d))) \<longleftrightarrow>
      sublist w (collapse (ToLower s)) \<or> sublist w (collapse (ToLower d))"
    if "w \<in> set verdictLanguageWordlist" for w
  proof -
    note h = wordlist_heads [OF that]
    have "sublist w (X @ '' '' @ CHR ''-'' # collapse z) \<longleftrightarrow> sublist w X \<or> sublist w (collapse z)"
      using h sublist_separator [of "CHR ''-''" w "X @ '' ''" "collapse z"]
        sublist_snoc_other [of w "CHR '' ''" X] by simp
    moreover have "sublist w ([] @ '' '' @ CHR ''-'' # collapse z) \<longleftrightarrow> sublist w (collapse z)"
      using h sublist_separator [of "CHR ''-''" w "'' ''" "collapse z"]
        sublist_snoc_other [of w "CHR '' ''" "[]"] by simp
    moreover have "sublist w (collapse (ToLower s)) \<longleftrightarrow> sublist w X"
      using X(1) h sublist_snoc_other [of w "CHR '' ''" X] by auto
    ultimately show ?thesis using X(2) d by (simp add: ToLower_append [OF assms(2)])
  qed
  then show ?thesis by (auto simp: ContainsVerdictLanguage_def Let_def)
qed

lemma disclaimer_clean: "\<not> ContainsVerdictLanguage outputDisclaimer"
  by code_simp

lemma disclaimer_separated:
  "\<exists>z. ToLower outputDisclaimer = [CHR 0x0A, CHR 0x0A] @ CHR ''-'' # z"
  by (simp add: outputDisclaimer_def nl_def lower_ascii_def)

section \<open>Properties\<close>

text \<open>
  C8: Rejected language cannot be hidden. Text that contains verdict language is rejected
  inside any surrounding text (cut at rune boundaries), in any mixture of ASCII case, and
  with any other run of spaces, tabs and newlines in place of one.
\<close>

theorem verdict_language_cannot_hide:
  assumes "CheckText s = Some ErrVerdictLanguageDetected" and "rune_start s" and "rune_start b"
  shows "CheckText (a @ s @ b) = Some ErrVerdictLanguageDetected \<and>
    (\<forall>t. map lower_ascii t = map lower_ascii s \<longrightarrow> CheckText t = Some ErrVerdictLanguageDetected) \<and>
    (\<forall>x y ws vs. s = x @ ws @ y \<and> ws \<noteq> [] \<and> vs \<noteq> [] \<and> (\<forall>c\<in>set ws \<union> set vs. re_space c) \<longrightarrow>
       CheckText (x @ vs @ y) = Some ErrVerdictLanguageDetected)"
proof -
  from assms(1) obtain w where w: "w \<in> set verdictLanguageWordlist" "sublist w (collapse (ToLower s))"
    by (auto simp: CheckText_def ContainsVerdictLanguage_def Let_def split: if_splits)
  have rs: "rune_start (s @ b)" using assms(2,3) by (cases s) (auto simp: rune_start_def)
  have "sublist w (collapse (ToLower s @ ToLower b))"
    using w(2) by (rule collapse_append_left)
  then have "sublist w (collapse (ToLower (a @ s @ b)))"
    using wordlist_heads [OF w(1)] collapse_append_right
    by (simp add: ToLower_append [OF rs] ToLower_append [OF assms(3)])
  then have around: "CheckText (a @ s @ b) = Some ErrVerdictLanguageDetected"
    using w(1) by (auto simp: CheckText_def ContainsVerdictLanguage_def Let_def)
  have folded: "CheckText t = Some ErrVerdictLanguageDetected" if "map lower_ascii t = map lower_ascii s" for t
    using that assms(1) ToLower_lower by (metis CheckText_def ContainsVerdictLanguage_def)
  have spaced: "CheckText (x @ vs @ y) = Some ErrVerdictLanguageDetected"
    if "s = x @ ws @ y" "ws \<noteq> []" "vs \<noteq> []" "\<forall>c\<in>set ws \<union> set vs. re_space c" for x y ws vs
  proof -
    have "collapse (ToLower (x @ us @ y)) = collapse (ToLower x @ us @ ToLower y)"
      if "us \<noteq> []" "\<forall>c\<in>set us. re_space c" for us
      using that by (simp add: ToLower_append rune_start_space ToLower_spaces)
    then have "CheckText (x @ vs @ y) = CheckText (x @ ws @ y)"
      using that collapse_space_run [of ws vs "ToLower x" "ToLower y"]
      by (simp add: CheckText_def ContainsVerdictLanguage_def)
    then show ?thesis using that(1) assms(1) by simp
  qed
  show ?thesis using around folded spaced by blast
qed

theorem verdict_language_cannot_hide_witness:
  "CheckText (''The defendant '' @ ''Shall  Pay'' @ '' costs.'') = Some ErrVerdictLanguageDetected"
proof -
  have "CheckText ''Shall  Pay'' = Some ErrVerdictLanguageDetected" by code_simp
  moreover have "rune_start ''Shall  Pay''" "rune_start '' costs.''" by (simp_all add: rune_start_def)
  ultimately show ?thesis by (rule conjunct1 [OF verdict_language_cannot_hide])
qed

text \<open>
  Every reasoning output can be given its disclaimer, once. \<open>RequireDisclaimer\<close> keeps the
  text as a prefix, leaves it alone when it already ends in the disclaimer, is idempotent,
  and neither adds language that \<open>CheckText\<close> rejects nor hides any: its answer is the same
  before and after.
\<close>

lemma RequireDisclaimer_ok:
  shows "HasDisclaimer (RequireDisclaimer s) \<and> prefix s (RequireDisclaimer s) \<and>
    RequireDisclaimer (RequireDisclaimer s) = RequireDisclaimer s \<and>
    (HasDisclaimer s \<longleftrightarrow> RequireDisclaimer s = s) \<and>
    CheckText (RequireDisclaimer s) = CheckText s"
proof -
  have d: "outputDisclaimer \<noteq> []" "rune_start outputDisclaimer"
    by (simp_all add: outputDisclaimer_def nl_def rune_start_def)
  obtain z where z: "ToLower outputDisclaimer = [CHR 0x0A, CHR 0x0A] @ CHR ''-'' # z"
    using disclaimer_separated by blast
  have "ContainsVerdictLanguage (s @ outputDisclaimer) \<longleftrightarrow> ContainsVerdictLanguage s"
    using scan_separated [OF z d(2), of s] disclaimer_clean by (simp add: re_space_def)
  then show ?thesis
    using d(1) by (auto simp: RequireDisclaimer_def HasDisclaimer_def CheckText_def suffix_def)
qed

text \<open>
  The scan matches inside words and knows ASCII white space only. Every text that contains
  the word \<open>reliable\<close> is rejected (it contains \<open>liable\<close>), and a phrase of the word list
  written with a no-break space is accepted.
\<close>

lemma scan_misjudges:
  assumes "rune_start b"
  shows "CheckText (a @ ''reliable'' @ b) = Some ErrVerdictLanguageDetected \<and>
    CheckText (''shall'' @ [CHR 0xC2, CHR 0xA0] @ ''pay'') = None"
proof
  have "sublist ''liable'' (collapse (ToLower ''reliable''))" by code_simp
  then have "sublist ''liable'' (collapse (ToLower ''reliable'' @ ToLower b))"
    by (rule collapse_append_left)
  then have "sublist ''liable'' (collapse (ToLower a @ ToLower ''reliable'' @ ToLower b))"
    by (rule collapse_append_right) simp_all
  moreover have r: "rune_start (''reliable'' @ b)" by (simp add: rune_start_def)
  ultimately have "sublist ''liable'' (collapse (ToLower (a @ ''reliable'' @ b)))"
    unfolding ToLower_append [OF r] ToLower_append [OF assms] by blast
  moreover have "''liable'' \<in> set verdictLanguageWordlist"
    by (simp add: verdictLanguageWordlist_def)
  ultimately show "CheckText (a @ ''reliable'' @ b) = Some ErrVerdictLanguageDetected"
    unfolding CheckText_def ContainsVerdictLanguage_def Let_def by (simp only: if_True bexI)
  show "CheckText (''shall'' @ [CHR 0xC2, CHR 0xA0] @ ''pay'') = None" by code_simp
qed

lemma scan_misjudges_witness:
  "CheckText (''The witness is '' @ ''reliable'' @ ''.'') = Some ErrVerdictLanguageDetected"
  using scan_misjudges [of "''.''" "''The witness is ''"] by (simp add: rune_start_def)

end
