(* ===== verification/AuditLog.thy ===== *)
theory AuditLog
  imports Identity
begin

text \<open>
  \<open>packages/auditlog\<close>: the hash-chained audit trail. Events and their validation
  (\<open>types.go\<close>), the hash chain (\<open>chain.go\<close>), the in-memory repository
  (\<open>inmemory_repository.go\<close>), the store that links every appended event to the tail of
  its tenant's chain (\<open>store.go\<close>), queries and retention (\<open>query.go\<close>,
  \<open>retention.go\<close>) and the sinks other packages write through (\<open>accessadapter.go\<close>).
  \<open>Store\<close> is written against the \<open>Repository\<close> interface, a record of operations here; the
  locale \<open>audit_repository\<close> states what the store relies on.
\<close>

section \<open>Events\<close>

text \<open>\<open>KindUnknown s\<close> is a \<open>Kind\<close> string that none of the constants names.\<close>

datatype Kind = KindDataAccess | KindReasoning | KindSignoff | KindDataChange | KindAdmin
  | KindExport | KindSystem | KindUnknown string

definition Kind_IsValid :: "Kind \<Rightarrow> bool" where
  "Kind_IsValid k \<longleftrightarrow> (case k of KindUnknown _ \<Rightarrow> False | _ \<Rightarrow> True)"

fun Kind_String :: "Kind \<Rightarrow> string" where
  "Kind_String KindDataAccess = ''data_access''"
| "Kind_String KindReasoning = ''reasoning''"
| "Kind_String KindSignoff = ''signoff''"
| "Kind_String KindDataChange = ''data_change''"
| "Kind_String KindAdmin = ''admin''"
| "Kind_String KindExport = ''export''"
| "Kind_String KindSystem = ''system''"
| "Kind_String (KindUnknown s) = s"

text \<open>The embedded \<open>observability.AuditEvent\<close> contributes Time, Actor, Action, Target, Outcome.\<close>

record Event =
  ev_ID :: uuid
  ev_TenantID :: uuid
  ev_Time :: time
  ev_Actor :: string
  ev_Action :: string
  ev_Target :: string
  ev_Outcome :: string
  ev_Kind :: Kind
  ev_CaseID :: uuid
  ev_Detail :: string
  ev_PrevHash :: string
  ev_ChainHash :: string

datatype hash_field = PrevHashMismatch | ChainHashMismatch | NotGenesis

text \<open>
  The errors of the package. \<open>ErrChainBroken\<close> carries the index, the event's ID and the
  field named in its message; \<open>Wrapf fn e\<close> is \<open>wrapf(fn, e)\<close>.
\<close>

datatype al_error = ErrNilEvent | ErrEmptyTenantID | ErrEmptyAction | ErrEmptyActor
  | ErrCrossTenantAccess | ErrUnauthenticated | ErrForbidden | ErrNilRepository
  | ErrChainBroken nat uuid hash_field | ErrInvalidRetention | ErrInvalidExportFormat
  | ErrInvalidKind Kind | Wrapf string al_error

definition Event_Validate :: "Event option \<Rightarrow> al_error option" where
  "Event_Validate e =
     (case e of
        None \<Rightarrow> Some ErrNilEvent
      | Some e \<Rightarrow>
          if ev_TenantID e = uuid_Nil then Some ErrEmptyTenantID
          else if TrimSpace (ev_Action e) = [] then Some ErrEmptyAction
          else if TrimSpace (ev_Actor e) = [] then Some ErrEmptyActor
          else if \<not> Kind_IsValid (ev_Kind e) then Some (ErrInvalidKind (ev_Kind e))
          else None)"

section \<open>The hash chain\<close>

definition contentDigest :: "platform \<Rightarrow> Event \<Rightarrow> string" where
  "contentDigest P e =
     uuid_str P (ev_TenantID e) @ ''|'' @ fmt_nano P (ev_Time e) @ ''|'' @
     ev_Actor e @ ''|'' @ ev_Action e @ ''|'' @ ev_Target e @ ''|'' @ ev_Outcome e @ ''|'' @
     Kind_String (ev_Kind e) @ ''|'' @ uuid_str P (ev_CaseID e) @ ''|'' @ ev_Detail e"

text \<open>The string that is hashed, and its hash.\<close>

definition chain_input :: "platform \<Rightarrow> string \<Rightarrow> Event \<Rightarrow> string" where
  "chain_input P prev e =
     prev @ uuid_str P (ev_ID e) @ itoa (length (contentDigest P e)) @ contentDigest P e"

definition ComputeChainHash :: "platform \<Rightarrow> string \<Rightarrow> Event \<Rightarrow> string" where
  "ComputeChainHash P prev e = sha256_hex P (chain_input P prev e)"

definition link_event :: "platform \<Rightarrow> string \<Rightarrow> Event \<Rightarrow> Event" where
  "link_event P prev e =
     (let e = e\<lparr>ev_PrevHash := prev\<rparr> in e\<lparr>ev_ChainHash := ComputeChainHash P prev e\<rparr>)"

fun build_from :: "platform \<Rightarrow> string \<Rightarrow> Event list \<Rightarrow> Event list" where
  "build_from P prev [] = []"
| "build_from P prev (e # es) =
     (let e' = link_event P prev e in e' # build_from P (ev_ChainHash e') es)"

definition BuildChain :: "platform \<Rightarrow> Event list \<Rightarrow> Event list" where
  "BuildChain P events = build_from P [] events"

text \<open>The verification loop from index \<open>i\<close>; the result is (valid, brokenAt, err).\<close>

fun verify_from :: "platform \<Rightarrow> nat \<Rightarrow> string \<Rightarrow> Event list \<Rightarrow> bool \<times> int \<times> al_error option"
  where
  "verify_from P i prev [] = (True, -1, None)"
| "verify_from P i prev (e # es) =
     (if ev_PrevHash e \<noteq> prev
      then (False, int i, Some (ErrChainBroken i (ev_ID e) PrevHashMismatch))
      else if ev_ChainHash e \<noteq> ComputeChainHash P prev e
      then (False, int i, Some (ErrChainBroken i (ev_ID e) ChainHashMismatch))
      else verify_from P (Suc i) (ev_ChainHash e) es)"

definition VerifyChain :: "platform \<Rightarrow> Event list \<Rightarrow> bool \<times> int \<times> al_error option" where
  "VerifyChain P events =
     (case events of
        [] \<Rightarrow> (True, -1, None)
      | e # _ \<Rightarrow> verify_from P 0 (ev_PrevHash e) events)"

definition VerifyGenesisChain :: "platform \<Rightarrow> Event list \<Rightarrow> bool \<times> int \<times> al_error option"
  where
  "VerifyGenesisChain P events =
     (case events of
        [] \<Rightarrow> VerifyChain P events
      | e # _ \<Rightarrow>
          if ev_PrevHash e \<noteq> [] then (False, 0, Some (ErrChainBroken 0 (ev_ID e) NotGenesis))
          else VerifyChain P events)"

text \<open>
  The declarative reading of the loop: every event stores the hash of its predecessor and
  the hash of its own contents.
\<close>

fun chained :: "platform \<Rightarrow> string \<Rightarrow> Event list \<Rightarrow> bool" where
  "chained P prev [] \<longleftrightarrow> True"
| "chained P prev (e # es) \<longleftrightarrow>
     ev_PrevHash e = prev \<and> ev_ChainHash e = ComputeChainHash P prev e \<and>
     chained P (ev_ChainHash e) es"

lemma verify_from_chained: "verify_from P i prev es = (True, -1, None) \<longleftrightarrow> chained P prev es"
  by (induction es arbitrary: i prev) auto

lemma verify_from_broken:
  "\<not> chained P prev es \<Longrightarrow>
     \<exists>n < length es. \<exists>f. verify_from P i prev es =
       (False, int (i + n), Some (ErrChainBroken (i + n) (ev_ID (es ! n)) f)) \<and>
       chained P prev (take n es) \<and> \<not> chained P prev (take (Suc n) es)"
proof (induction es arbitrary: i prev)
  case (Cons e es)
  show ?case
  proof (cases "ev_PrevHash e = prev \<and> ev_ChainHash e = ComputeChainHash P prev e")
    case True
    with Cons.prems have "\<not> chained P (ev_ChainHash e) es" by simp
    from Cons.IH [OF this, of "Suc i"] obtain n f where
      n: "n < length es"
        "verify_from P (Suc i) (ev_ChainHash e) es =
           (False, int (Suc i + n), Some (ErrChainBroken (Suc i + n) (ev_ID (es ! n)) f))"
        "chained P (ev_ChainHash e) (take n es)"
        "\<not> chained P (ev_ChainHash e) (take (Suc n) es)"
      by blast
    with True show ?thesis by (intro exI [of _ "Suc n"]) auto
  next
    case False
    then show ?thesis by (intro exI [of _ 0]) auto
  qed
qed simp

lemma VerifyChain_iff:
  "VerifyChain P es = (True, -1, None) \<longleftrightarrow> (es = [] \<or> chained P (ev_PrevHash (hd es)) es)"
  by (cases es) (simp_all only: VerifyChain_def list.case verify_from_chained list.sel
    list.distinct simp_thms)

lemma VerifyGenesisChain_iff:
  "VerifyGenesisChain P es = (True, -1, None) \<longleftrightarrow> chained P [] es"
  by (cases es) (auto simp: VerifyGenesisChain_def VerifyChain_iff)

lemma chained_link:
  "chained P prev (e # es) \<longleftrightarrow>
     link_event P prev e = e \<and> chained P (ev_ChainHash e) es"
  by (cases e) (auto simp: link_event_def ComputeChainHash_def chain_input_def
      contentDigest_def)

lemma contentDigest_update [simp]:
  "contentDigest P (e\<lparr>ev_PrevHash := h\<rparr>) = contentDigest P e"
  "contentDigest P (e\<lparr>ev_ChainHash := h\<rparr>) = contentDigest P e"
  by (simp_all add: contentDigest_def)

lemma ComputeChainHash_update [simp]:
  "ComputeChainHash P prev (e\<lparr>ev_PrevHash := h\<rparr>) = ComputeChainHash P prev e"
  "ComputeChainHash P prev (e\<lparr>ev_ChainHash := h\<rparr>) = ComputeChainHash P prev e"
  by (simp_all add: ComputeChainHash_def chain_input_def)

lemma chained_build_from: "chained P prev (build_from P prev es)"
  by (induction es arbitrary: prev) (simp_all add: link_event_def Let_def)

text \<open>The hash the chain ends in, the value a new event is linked to.\<close>

definition tail_hash :: "string \<Rightarrow> Event list \<Rightarrow> string" where
  "tail_hash prev es = (if es = [] then prev else ev_ChainHash (last es))"

lemma tail_hash_simps [simp]:
  "tail_hash prev [] = prev" "tail_hash prev (e # es) = tail_hash (ev_ChainHash e) es"
  by (simp_all add: tail_hash_def)

lemma chained_append:
  "chained P prev (xs @ ys) \<longleftrightarrow> chained P prev xs \<and> chained P (tail_hash prev xs) ys"
  by (induction xs arbitrary: prev) auto

lemma chained_suffix:
  "chained P prev (xs @ ys) \<Longrightarrow> ys = [] \<or> chained P (ev_PrevHash (hd ys)) ys"
  by (cases ys) (auto simp: chained_append)


subsection \<open>Tamper evidence\<close>

text \<open>
  The fields before \<open>Detail\<close> are joined by \<open>|\<close> and not escaped, so the digest determines
  them only when they do not contain that byte.
\<close>

definition pipe_free :: "Event \<Rightarrow> bool" where
  "pipe_free e \<longleftrightarrow> Kind_IsValid (ev_Kind e) \<and>
     (\<forall>s\<in>{ev_Actor e, ev_Action e, ev_Target e, ev_Outcome e}. CHR ''|'' \<notin> set s)"

lemma Kind_String_inj:
  "Kind_IsValid k \<Longrightarrow> Kind_IsValid k' \<Longrightarrow> Kind_String k = Kind_String k' \<Longrightarrow> k = k'"
  by (cases k; cases k') (simp_all add: Kind_IsValid_def)

lemma Kind_String_pipe_free: "Kind_IsValid k \<Longrightarrow> CHR ''|'' \<notin> set (Kind_String k)"
  by (cases k) (simp_all add: Kind_IsValid_def)

lemma contentDigest_inj:
  assumes P: "platform_ok P" and free: "pipe_free e" "pipe_free e'"
    and eq: "contentDigest P e = contentDigest P e'"
  shows "ev_TenantID e = ev_TenantID e' \<and> ev_Time e = ev_Time e' \<and> ev_Actor e = ev_Actor e' \<and>
    ev_Action e = ev_Action e' \<and> ev_Target e = ev_Target e' \<and> ev_Outcome e = ev_Outcome e' \<and>
    ev_Kind e = ev_Kind e' \<and> ev_CaseID e = ev_CaseID e' \<and> ev_Detail e = ev_Detail e'"
proof -
  note sep = split_at_sep [where c = "CHR ''|''"]
  have u: "CHR ''|'' \<notin> set (uuid_str P x)" and t: "CHR ''|'' \<notin> set (fmt_nano P y)" for x y
    using P by (simp_all add: platform_ok_def)
  have k: "CHR ''|'' \<notin> set (Kind_String (ev_Kind e))" "CHR ''|'' \<notin> set (Kind_String (ev_Kind e'))"
    using free by (simp_all add: pipe_free_def Kind_String_pipe_free)
  note eq1 = eq [unfolded contentDigest_def append_Cons append_Nil]
  note e1 = sep [OF eq1 u u]
  note e2 = sep [OF conjunct2 [OF e1] t t]
  have f: "CHR ''|'' \<notin> set (ev_Actor e)" "CHR ''|'' \<notin> set (ev_Actor e')"
    "CHR ''|'' \<notin> set (ev_Action e)" "CHR ''|'' \<notin> set (ev_Action e')"
    "CHR ''|'' \<notin> set (ev_Target e)" "CHR ''|'' \<notin> set (ev_Target e')"
    "CHR ''|'' \<notin> set (ev_Outcome e)" "CHR ''|'' \<notin> set (ev_Outcome e')"
    using free by (simp_all add: pipe_free_def)
  note e3 = sep [OF conjunct2 [OF e2] f(1,2)]
  note e4 = sep [OF conjunct2 [OF e3] f(3,4)]
  note e5 = sep [OF conjunct2 [OF e4] f(5,6)]
  note e6 = sep [OF conjunct2 [OF e5] f(7,8)]
  note e7 = sep [OF conjunct2 [OF e6] k]
  note e8 = sep [OF conjunct2 [OF e7] u u]
  have inj: "inj (uuid_str P)" "inj (fmt_nano P)"
    using P by (simp_all add: platform_ok_def)
  have kinds: "Kind_IsValid (ev_Kind e)" "Kind_IsValid (ev_Kind e')"
    using free by (simp_all add: pipe_free_def)
  show ?thesis
    using e1 e2 e3 e4 e5 e6 e8 injD [OF inj(1)] injD [OF inj(2)]
      Kind_String_inj [OF kinds conjunct1 [OF e7]] by blast
qed

lemma chain_input_inj:
  assumes P: "platform_ok P" and len: "length p = length p'"
    and eq: "chain_input P p e = chain_input P p' e'"
  shows "p = p' \<and> ev_ID e = ev_ID e' \<and> contentDigest P e = contentDigest P e'"
proof -
  have "length (uuid_str P (ev_ID e)) = length (uuid_str P (ev_ID e'))"
    using P by (simp add: platform_ok_def)
  with eq len have "p = p'" and "uuid_str P (ev_ID e) = uuid_str P (ev_ID e')"
    and "contentDigest P e = contentDigest P e'"
    by (auto simp: chain_input_def intro: counted_body_inj)
  with P show ?thesis by (auto simp: platform_ok_def inj_def)
qed

text \<open>The string hashed for the event at index \<open>i\<close> of a stored list.\<close>

definition stored_input :: "platform \<Rightarrow> Event list \<Rightarrow> nat \<Rightarrow> string" where
  "stored_input P es i = chain_input P (ev_PrevHash (es ! i)) (es ! i)"

text \<open>Two equally long genesis chains that end in the same hash are equal, or show a collision.\<close>

lemma chained_tail_hash_length:
  assumes "platform_ok P" "chained P [] xs" "chained P [] ys" "length xs = length ys"
  shows "length (tail_hash [] xs) = length (tail_hash [] ys)"
proof (cases xs rule: rev_cases)
  case (snoc xs' x)
  with assms(4) obtain ys' y where "ys = ys' @ [y]" by (cases ys rule: rev_cases) auto
  with snoc assms(1-3) show ?thesis
    by (simp add: chained_append tail_hash_def ComputeChainHash_def platform_ok_def)
qed (use assms in simp)

lemma chained_same_tail:
  assumes P: "platform_ok P" and "chained P [] xs" and "chained P [] ys"
    and "length xs = length ys" and "tail_hash [] xs = tail_hash [] ys"
    and "\<forall>e\<in>set xs \<union> set ys. pipe_free e"
  shows "xs = ys \<or> (\<exists>i < length xs. stored_input P xs i \<noteq> stored_input P ys i \<and>
           sha256_hex P (stored_input P xs i) = sha256_hex P (stored_input P ys i))"
  using assms(2-)
proof (induction xs arbitrary: ys rule: rev_induct)
  case (snoc x xs zs)
  then obtain ys y where zs: "zs = ys @ [y]" by (cases zs rule: rev_cases) auto
  have cx: "chained P [] xs" "ev_PrevHash x = tail_hash [] xs"
      "ev_ChainHash x = ComputeChainHash P (tail_hash [] xs) x"
    and cy: "chained P [] ys" "ev_PrevHash y = tail_hash [] ys"
      "ev_ChainHash y = ComputeChainHash P (tail_hash [] ys) y"
    and len: "length xs = length ys" and tl: "ev_ChainHash x = ev_ChainHash y"
    using snoc.prems by (simp_all add: zs chained_append tail_hash_def [of _ "_ @ _"])
  let ?x = "chain_input P (ev_PrevHash x) x" and ?y = "chain_input P (ev_PrevHash y) y"
  show ?case
  proof (cases "?x = ?y")
    case False
    with cx cy len tl show ?thesis
      by (intro disjI2 exI [of _ "length xs"])
         (simp add: zs stored_input_def ComputeChainHash_def nth_append)
  next
    case True
    with P chain_input_inj chained_tail_hash_length [OF P cx(1) cy(1) len] cx(2) cy(2)
    have eqs: "ev_PrevHash x = ev_PrevHash y" "ev_ID x = ev_ID y"
        "contentDigest P x = contentDigest P y" by metis+
    have "x = y"
      using contentDigest_inj [OF P _ _ eqs(3)] eqs(1,2) tl snoc.prems(5)
      by (auto simp: zs intro: Event.equality)
    moreover have "xs = ys \<or> (\<exists>i < length xs. stored_input P xs i \<noteq> stored_input P ys i \<and>
           sha256_hex P (stored_input P xs i) = sha256_hex P (stored_input P ys i))"
      using snoc.IH [OF cx(1) cy(1) len] eqs(1) cx(2) cy(2) snoc.prems(5) by (simp add: zs)
    ultimately show ?thesis
      using len by (auto simp: zs stored_input_def nth_append)
  qed
qed simp


section \<open>Properties of the chain\<close>


definition sample_event :: Event where
  "sample_event =
     \<lparr>ev_ID = 1, ev_TenantID = 7, ev_Time = 5, ev_Actor = ''judge'', ev_Action = ''case.viewed'',
      ev_Target = ''c'', ev_Outcome = ''success'', ev_Kind = KindDataAccess, ev_CaseID = 3,
      ev_Detail = [], ev_PrevHash = [], ev_ChainHash = []\<rparr>"

lemma sample_pipe_free: "pipe_free (link_event P prev sample_event)"
  by (simp add: pipe_free_def sample_event_def link_event_def Let_def Kind_IsValid_def)


text \<open>
  \<open>VerifyChain\<close> locates the damage. On any list it either accepts, and then every event
  stores its predecessor's hash and the hash of its own contents, or it reports the index and
  the ID of the first event whose linkage does not hold: all events before it verify.
\<close>

lemma VerifyChain_locates_first_break:
  "(VerifyChain P es = (True, -1, None) \<and> (es = [] \<or> chained P (ev_PrevHash (hd es)) es)) \<or>
   (\<exists>n < length es. \<exists>f. VerifyChain P es = (False, int n, Some (ErrChainBroken n (ev_ID (es ! n)) f)) \<and>
      chained P (ev_PrevHash (hd es)) (take n es) \<and>
      \<not> chained P (ev_PrevHash (hd es)) (take (Suc n) es))"
proof (cases "es = [] \<or> chained P (ev_PrevHash (hd es)) es")
  case True
  then show ?thesis by (simp only: VerifyChain_iff) simp
next
  case False
  then obtain e es' where es: "es = e # es'" by (cases es) auto
  with False have "\<not> chained P (ev_PrevHash e) es" by simp
  from verify_from_broken [OF this, of 0] show ?thesis
    by (simp only: es VerifyChain_def list.case list.sel add_0) blast
qed

text \<open>
  The fields are joined without escaping. Moving the text after a \<open>|\<close> of the actor to
  the front of the action changes neither the digest nor the chain hash, so \<open>VerifyChain\<close>
  accepts an altered event in place of the recorded one, at every position of a trail and for
  every hash function.
\<close>

lemma field_boundary_shift_undetected:
  "VerifyChain P (xs @ e\<lparr>ev_Actor := a @ ''|'' @ b, ev_Action := c\<rparr> # ys) =
   VerifyChain P (xs @ e\<lparr>ev_Actor := a, ev_Action := b @ ''|'' @ c\<rparr> # ys)"
proof -
  have h: "ComputeChainHash P prev (e\<lparr>ev_Actor := a @ ''|'' @ b, ev_Action := c\<rparr>) =
      ComputeChainHash P prev (e\<lparr>ev_Actor := a, ev_Action := b @ ''|'' @ c\<rparr>)" for prev
    by (simp add: ComputeChainHash_def chain_input_def contentDigest_def)
  have "verify_from P i prev (xs @ e\<lparr>ev_Actor := a @ ''|'' @ b, ev_Action := c\<rparr> # ys) =
      verify_from P i prev (xs @ e\<lparr>ev_Actor := a, ev_Action := b @ ''|'' @ c\<rparr> # ys)" for i prev
    by (induction xs arbitrary: i prev) (simp_all add: h [simplified])
  then show ?thesis by (cases xs) (simp_all add: VerifyChain_def del: verify_from.simps)
qed

end
