(* ===== verification/AuditStore.thy ===== *)
theory AuditStore
  imports AuditLog
begin

text \<open>
  The writing and reading side of \<open>packages/auditlog\<close>: the in-memory repository, the
  \<open>Repository\<close> interface as a record of operations with its contract, and \<open>Store\<close>'s
  operations over any repository (\<open>Append\<close>, \<open>VerifyTenantChain\<close>, \<open>Query\<close>, \<open>Purge\<close> and
  the data-access sink).
\<close>

section \<open>Filters, order and retention\<close>

record Filter =
  fl_Actor :: string
  fl_CaseID :: uuid
  fl_Kinds :: "Kind list"
  fl_Action :: string
  fl_Since :: time
  fl_Until :: time
  fl_Limit :: int

definition matchesFilter :: "Event \<Rightarrow> Filter \<Rightarrow> bool" where
  "matchesFilter e f =
     (if fl_Actor f \<noteq> [] \<and> ev_Actor e \<noteq> fl_Actor f then False
      else if fl_CaseID f \<noteq> uuid_Nil \<and> ev_CaseID e \<noteq> fl_CaseID f then False
      else if fl_Action f \<noteq> [] \<and> ev_Action e \<noteq> fl_Action f then False
      else if fl_Kinds f \<noteq> [] \<and> \<not> (\<exists>k\<in>set (fl_Kinds f). ev_Kind e = k) then False
      else if fl_Since f \<noteq> zero_time \<and> ev_Time e < fl_Since f then False
      else if fl_Until f \<noteq> zero_time \<and> fl_Until f < ev_Time e then False
      else True)"

definition defaultQueryLimit :: int where
  "defaultQueryLimit = 1000"

text \<open>The \<open>less\<close> function of \<open>sortByChainOrder\<close>: time, then the text of the ID.\<close>

definition chain_less :: "platform \<Rightarrow> Event \<Rightarrow> Event \<Rightarrow> bool" where
  "chain_less P a b =
     (if ev_Time a = ev_Time b then uuid_str P (ev_ID a) < uuid_str P (ev_ID b)
      else ev_Time a < ev_Time b)"

definition sortByChainOrder :: "platform \<Rightarrow> Event list \<Rightarrow> Event list" where
  "sortByChainOrder P events = sort_by (chain_less P) events"

interpretation chain_order: strict_weak_order "chain_less P" for P
  by unfold_locales (auto simp: chain_less_def split: if_splits)

definition RetentionPolicy_Validate :: "duration \<Rightarrow> al_error option" where
  "RetentionPolicy_Validate window = (if window \<le> 0 then Some ErrInvalidRetention else None)"

definition CutoffBefore :: "duration \<Rightarrow> time \<Rightarrow> time" where
  "CutoffBefore window now = now + (- window)"

section \<open>The in-memory repository\<close>

text \<open>A tenant without an entry has the nil slice, which is the empty list.\<close>

record InMemoryRepository =
  im_events :: "uuid \<Rightarrow> Event list"

definition mem_Append ::
  "InMemoryRepository \<Rightarrow> uuid \<Rightarrow> Event option \<Rightarrow> (al_error + Event) \<times> InMemoryRepository" where
  "mem_Append r tenantID event =
     (case event of
        None \<Rightarrow> (Inl (Wrapf ''InMemoryRepository.Append'' ErrNilEvent), r)
      | Some e \<Rightarrow>
          let e = (if ev_TenantID e = uuid_Nil then e\<lparr>ev_TenantID := tenantID\<rparr> else e) in
          if ev_TenantID e \<noteq> tenantID
          then (Inl (Wrapf ''InMemoryRepository.Append'' ErrCrossTenantAccess), r)
          else (Inr e, r\<lparr>im_events := (im_events r)(tenantID := im_events r tenantID @ [e])\<rparr>))"

definition mem_Last :: "InMemoryRepository \<Rightarrow> uuid \<Rightarrow> al_error + Event option" where
  "mem_Last r tenantID =
     (let list = im_events r tenantID in
      if length list = 0 then Inr None else Inr (Some (list ! (length list - 1))))"

definition mem_ListAll :: "platform \<Rightarrow> InMemoryRepository \<Rightarrow> uuid \<Rightarrow> al_error + Event list" where
  "mem_ListAll P r tenantID = Inr (sortByChainOrder P (im_events r tenantID))"

definition mem_Query ::
  "platform \<Rightarrow> InMemoryRepository \<Rightarrow> uuid \<Rightarrow> Filter \<Rightarrow> al_error + Event list" where
  "mem_Query P r tenantID f =
     (let limit = (if fl_Limit f \<le> 0 then defaultQueryLimit else fl_Limit f);
          out = sortByChainOrder P (filter (\<lambda>e. matchesFilter e f) (im_events r tenantID))
      in Inr (if limit < int (length out) then take (nat limit) out else out))"

definition mem_PurgeBefore ::
  "InMemoryRepository \<Rightarrow> uuid \<Rightarrow> time \<Rightarrow> (al_error + nat) \<times> InMemoryRepository" where
  "mem_PurgeBefore r tenantID cutoff =
     (let list = im_events r tenantID;
          kept = filter (\<lambda>e. \<not> ev_Time e < cutoff) list;
          removed = length (filter (\<lambda>e. ev_Time e < cutoff) list)
      in (Inr removed, r\<lparr>im_events := (im_events r)(tenantID := kept)\<rparr>))"

section \<open>The repository interface\<close>

record 's Repository =
  rp_Append :: "'s \<Rightarrow> uuid \<Rightarrow> Event option \<Rightarrow> (al_error + Event) \<times> 's"
  rp_Query :: "'s \<Rightarrow> uuid \<Rightarrow> Filter \<Rightarrow> al_error + Event list"
  rp_ListAll :: "'s \<Rightarrow> uuid \<Rightarrow> al_error + Event list"
  rp_Last :: "'s \<Rightarrow> uuid \<Rightarrow> al_error + Event option"
  rp_PurgeBefore :: "'s \<Rightarrow> uuid \<Rightarrow> time \<Rightarrow> (al_error + nat) \<times> 's"

definition mem_repo :: "platform \<Rightarrow> InMemoryRepository Repository" where
  "mem_repo P = \<lparr>rp_Append = mem_Append, rp_Query = mem_Query P, rp_ListAll = mem_ListAll P,
                 rp_Last = mem_Last, rp_PurgeBefore = mem_PurgeBefore\<rparr>"

section \<open>The store\<close>

text \<open>
  \<open>Store.Append\<close> in its three phases: stamp and validate the event, read the hash of the
  tenant's tail, link and persist. \<open>newid\<close> is the result of \<open>uuid.New()\<close> and \<open>now\<close> the
  clock's reading.
\<close>

definition store_prepare :: "time \<Rightarrow> uuid \<Rightarrow> Event \<Rightarrow> al_error + Event" where
  "store_prepare now newid e =
     (if ev_TenantID e = uuid_Nil then Inl (Wrapf ''Append'' ErrEmptyTenantID)
      else
        let e = (if ev_ID e = uuid_Nil then e\<lparr>ev_ID := newid\<rparr> else e);
            e = (if ev_Time e = zero_time then e\<lparr>ev_Time := now\<rparr> else e);
            e = (if ev_Kind e = KindUnknown [] then e\<lparr>ev_Kind := KindSystem\<rparr> else e)
        in (case Event_Validate (Some e) of
              Some err \<Rightarrow> Inl (Wrapf ''Append'' err)
            | None \<Rightarrow> Inr e))"

definition store_tail :: "'s Repository \<Rightarrow> uuid \<Rightarrow> 's \<Rightarrow> al_error + string" where
  "store_tail R tenantID s =
     (case rp_Last R s tenantID of
        Inl err \<Rightarrow> Inl (Wrapf ''Append'' err)
      | Inr None \<Rightarrow> Inr []
      | Inr (Some l) \<Rightarrow> Inr (ev_ChainHash l))"

definition store_commit ::
  "platform \<Rightarrow> 's Repository \<Rightarrow> string \<Rightarrow> Event \<Rightarrow> 's \<Rightarrow> (al_error + Event) \<times> 's" where
  "store_commit P R prevHash e s =
     (let e = e\<lparr>ev_PrevHash := prevHash\<rparr>;
          e = e\<lparr>ev_ChainHash := ComputeChainHash P prevHash e\<rparr>
      in (case rp_Append R s (ev_TenantID e) (Some e) of
            (Inl err, s') \<Rightarrow> (Inl (Wrapf ''Append'' err), s')
          | (Inr e', s') \<Rightarrow> (Inr e', s')))"

definition store_Append ::
  "platform \<Rightarrow> 's Repository \<Rightarrow> time \<Rightarrow> uuid \<Rightarrow> Event \<Rightarrow> 's \<Rightarrow> (al_error + Event) \<times> 's" where
  "store_Append P R now newid event s =
     (case store_prepare now newid event of
        Inl err \<Rightarrow> (Inl err, s)
      | Inr e \<Rightarrow>
          (case store_tail R (ev_TenantID e) s of
             Inl err \<Rightarrow> (Inl err, s)
           | Inr prevHash \<Rightarrow> store_commit P R prevHash e s))"

definition authorizeAuditRead :: "ctx \<Rightarrow> al_error + User" where
  "authorizeAuditRead c = require_perm ErrUnauthenticated ErrForbidden PermAuditRead c"

definition requireMatchingUserTenant :: "User \<Rightarrow> uuid \<Rightarrow> al_error option" where
  "requireMatchingUserTenant user tenantID =
     (if us_TenantID user \<noteq> tenantID then Some ErrCrossTenantAccess else None)"

definition VerifyTenantChain ::
  "platform \<Rightarrow> 's Repository \<Rightarrow> ctx \<Rightarrow> uuid \<Rightarrow> 's \<Rightarrow> bool \<times> int \<times> al_error option" where
  "VerifyTenantChain P R c tenantID s =
     (case authorizeAuditRead c of
        Inl err \<Rightarrow> (False, -1, Some err)
      | Inr _ \<Rightarrow>
          (case rp_ListAll R s tenantID of
             Inl err \<Rightarrow> (False, -1, Some (Wrapf ''VerifyTenantChain'' err))
           | Inr events \<Rightarrow> VerifyChain P events))"

definition store_Query ::
  "'s Repository \<Rightarrow> ctx \<Rightarrow> uuid \<Rightarrow> Filter \<Rightarrow> 's \<Rightarrow> al_error + Event list" where
  "store_Query R c tenantID f s =
     (case authorizeAuditRead c of
        Inl err \<Rightarrow> Inl err
      | Inr user \<Rightarrow>
          (case requireMatchingUserTenant user tenantID of
             Some err \<Rightarrow> Inl err
           | None \<Rightarrow>
               if tenantID = uuid_Nil then Inl (Wrapf ''Query'' ErrEmptyTenantID)
               else (case rp_Query R s tenantID f of
                       Inl err \<Rightarrow> Inl (Wrapf ''Query'' err)
                     | Inr events \<Rightarrow> Inr events)))"

definition purgeDetail :: "platform \<Rightarrow> nat \<Rightarrow> time \<Rightarrow> string" where
  "purgeDetail P removed cutoff =
     ''purged '' @ itoa removed @ '' events before '' @ fmt_rfc3339 P cutoff"

definition purge_event :: "platform \<Rightarrow> User \<Rightarrow> uuid \<Rightarrow> nat \<Rightarrow> time \<Rightarrow> Event" where
  "purge_event P user tenantID removed cutoff =
     \<lparr>ev_ID = uuid_Nil, ev_TenantID = tenantID, ev_Time = zero_time,
      ev_Actor = uuid_str P (us_ID user), ev_Action = ''audit.purged'',
      ev_Target = uuid_str P tenantID, ev_Outcome = ''success'', ev_Kind = KindSystem,
      ev_CaseID = uuid_Nil, ev_Detail = purgeDetail P removed cutoff,
      ev_PrevHash = [], ev_ChainHash = []\<rparr>"

text \<open>
  The clock is read once for the cutoff (\<open>now\<close>) and again by the \<open>Append\<close> of the purge
  event (\<open>now'\<close>). The result is the number of removed events with the error, if any.
\<close>

definition Purge ::
  "platform \<Rightarrow> 's Repository \<Rightarrow> time \<Rightarrow> time \<Rightarrow> uuid \<Rightarrow> ctx \<Rightarrow> uuid \<Rightarrow> duration \<Rightarrow> 's
    \<Rightarrow> (nat \<times> al_error option) \<times> 's" where
  "Purge P R now now' newid c tenantID window s =
     (case authorizeAuditRead c of
        Inl err \<Rightarrow> ((0, Some err), s)
      | Inr user \<Rightarrow>
          (case requireMatchingUserTenant user tenantID of
             Some err \<Rightarrow> ((0, Some err), s)
           | None \<Rightarrow>
               if tenantID = uuid_Nil then ((0, Some (Wrapf ''Purge'' ErrEmptyTenantID)), s)
               else (case RetentionPolicy_Validate window of
                  Some err \<Rightarrow> ((0, Some (Wrapf ''Purge'' err)), s)
                | None \<Rightarrow>
                    let cutoff = CutoffBefore window now in
                    (case rp_PurgeBefore R s tenantID cutoff of
                       (Inl err, s') \<Rightarrow> ((0, Some (Wrapf ''Purge'' err)), s')
                     | (Inr removed, s') \<Rightarrow>
                         if removed > 0
                         then (case store_Append P R now' newid
                                      (purge_event P user tenantID removed cutoff) s' of
                                 (Inl err, s'') \<Rightarrow> ((removed, Some (Wrapf ''Purge'' err)), s'')
                               | (Inr _, s'') \<Rightarrow> ((removed, None), s''))
                         else ((removed, None), s')))))"

definition view_event ::
  "platform \<Rightarrow> User \<Rightarrow> uuid \<Rightarrow> uuid \<Rightarrow> string \<Rightarrow> string \<Rightarrow> string \<Rightarrow> Event" where
  "view_event P user tenantID caseID action target detail =
     \<lparr>ev_ID = uuid_Nil, ev_TenantID = tenantID, ev_Time = zero_time,
      ev_Actor = uuid_str P (us_ID user), ev_Action = action, ev_Target = target,
      ev_Outcome = ''success'', ev_Kind = KindDataAccess, ev_CaseID = caseID,
      ev_Detail = detail, ev_PrevHash = [], ev_ChainHash = []\<rparr>"

definition RecordCaseView ::
  "platform \<Rightarrow> 's Repository \<Rightarrow> time \<Rightarrow> uuid \<Rightarrow> ctx \<Rightarrow> uuid \<Rightarrow> uuid \<Rightarrow> 's
    \<Rightarrow> (al_error + Event) \<times> 's" where
  "RecordCaseView P R now newid c tenantID caseID s =
     (case UserFromContext c of
        None \<Rightarrow> (Inl (Wrapf ''RecordCaseView'' ErrUnauthenticated), s)
      | Some user \<Rightarrow>
          store_Append P R now newid
            (view_event P user tenantID caseID ''case.viewed'' (uuid_str P caseID) []) s)"

definition RecordDocumentView ::
  "platform \<Rightarrow> 's Repository \<Rightarrow> time \<Rightarrow> uuid \<Rightarrow> ctx \<Rightarrow> uuid \<Rightarrow> uuid \<Rightarrow> string \<Rightarrow> 's
    \<Rightarrow> (al_error + Event) \<times> 's" where
  "RecordDocumentView P R now newid c tenantID caseID documentID s =
     (case UserFromContext c of
        None \<Rightarrow> (Inl (Wrapf ''RecordDocumentView'' ErrUnauthenticated), s)
      | Some user \<Rightarrow>
          store_Append P R now newid
            (view_event P user tenantID caseID ''document.viewed'' documentID
              (''document:'' @ documentID)) s)"


section \<open>Preparing an event\<close>

lemma store_prepare_Inr:
  assumes "store_prepare now newid ev = Inr e"
  shows "ev_TenantID e = ev_TenantID ev \<and> ev_TenantID e \<noteq> uuid_Nil \<and>
    Event_Validate (Some e) = None \<and>
    ev_Time e = (if ev_Time ev = zero_time then now else ev_Time ev) \<and>
    ev_Actor e = ev_Actor ev \<and> ev_Action e = ev_Action ev \<and> ev_Target e = ev_Target ev \<and>
    ev_Outcome e = ev_Outcome ev \<and> ev_CaseID e = ev_CaseID ev \<and> ev_Detail e = ev_Detail ev"
  using assms by (auto simp: store_prepare_def Let_def split: if_splits option.splits)

lemma link_event_fields [simp]:
  "ev_ID (link_event P prev e) = ev_ID e" "ev_TenantID (link_event P prev e) = ev_TenantID e"
  "ev_Time (link_event P prev e) = ev_Time e" "ev_PrevHash (link_event P prev e) = prev"
  "ev_ChainHash (link_event P prev e) = ComputeChainHash P prev e"
  by (simp_all add: link_event_def Let_def)

lemma ComputeChainHash_link [simp]:
  "ComputeChainHash P prev (link_event P p e) = ComputeChainHash P prev e"
  by (simp add: link_event_def Let_def)

lemma chain_less_link [simp]:
  "chain_less P (link_event P p e) x = chain_less P e x"
  "chain_less P x (link_event P p e) = chain_less P x e"
  by (simp_all add: chain_less_def)

text \<open>A stored list as a segment of a chain: the anchor is its first event's \<open>PrevHash\<close>.\<close>

definition linked :: "platform \<Rightarrow> Event list \<Rightarrow> bool" where
  "linked P es \<longleftrightarrow> es = [] \<or> chained P (ev_PrevHash (hd es)) es"

lemma linked_snoc: "linked P es \<Longrightarrow> linked P (es @ [link_event P (tail_hash [] es) e])"
  by (cases es) (auto simp: linked_def chained_append tail_hash_def)

lemma linked_suffix: "linked P (xs @ ys) \<Longrightarrow> linked P ys"
  by (cases xs; cases ys) (auto simp: linked_def chained_append)

definition trail_ok :: "platform \<Rightarrow> uuid \<Rightarrow> Event list \<Rightarrow> bool" where
  "trail_ok P t es \<longleftrightarrow>
     linked P es \<and> sorted_by (chain_less P) es \<and> (\<forall>e\<in>set es. ev_TenantID e = t)"

lemma trail_ok_Nil [simp]: "trail_ok P t []"
  by (simp add: trail_ok_def linked_def)

lemma trail_ok_snoc:
  assumes "trail_ok P t es" "ev_TenantID e = t" "\<forall>x\<in>set es. ev_Time x < ev_Time e"
  shows "trail_ok P t (es @ [link_event P (tail_hash [] es) e])"
proof -
  have "\<not> chain_less P e x" if "x \<in> set es" for x
    using assms(3) that by (force simp: chain_less_def)
  then show ?thesis
    using assms(1,2) linked_snoc by (simp add: trail_ok_def sorted_by_append sorted_by_Cons)
qed

text \<open>In chain order the expired events are a prefix, so purging keeps a suffix.\<close>

lemma sorted_by_time: "sorted_by (chain_less P) es \<Longrightarrow> sorted (map ev_Time es)"
  by (induction es) (force simp: sorted_by_Cons chain_less_def split: if_splits)+

lemma purge_suffix:
  "sorted (map ev_Time es) \<Longrightarrow>
     filter (\<lambda>e. \<not> ev_Time e < c) es = dropWhile (\<lambda>e. ev_Time e < c) es"
proof (induction es)
  case (Cons e es)
  then show ?case by (cases es) (auto simp: filter_id_conv)
qed simp

lemma purge_prefix:
  "sorted (map ev_Time es) \<Longrightarrow>
     filter (\<lambda>e. ev_Time e < c) es = takeWhile (\<lambda>e. ev_Time e < c) es"
proof (induction es)
  case (Cons e es)
  then show ?case by (cases es) (auto simp: filter_empty_conv)
qed simp

lemma trail_ok_purge:
  assumes "trail_ok P t es"
  shows "trail_ok P t (filter (\<lambda>e. \<not> ev_Time e < c) es)"
proof -
  let ?drop = "dropWhile (\<lambda>e. ev_Time e < c) es"
  have split: "es = takeWhile (\<lambda>e. ev_Time e < c) es @ ?drop" by simp
  have "linked P ?drop" and "sorted_by (chain_less P) ?drop"
    using assms split linked_suffix sorted_by_append unfolding trail_ok_def by metis+
  with assms show ?thesis
    by (auto simp: trail_ok_def purge_suffix sorted_by_time dest: set_dropWhileD)
qed

section \<open>The contract of a repository\<close>

text \<open>
  \<open>events s t\<close> is the list of tenant \<open>t\<close>'s events in the order of their insertion.
\<close>

locale audit_repository =
  fixes P :: platform and R :: "'s Repository" and events :: "'s \<Rightarrow> uuid \<Rightarrow> Event list"
  assumes Last_law:
      "rp_Last R s t = Inr (if events s t = [] then None else Some (last (events s t)))"
    and Append_law: "ev_TenantID e = t \<Longrightarrow> t \<noteq> uuid_Nil \<Longrightarrow>
      \<exists>s'. rp_Append R s t (Some e) = (Inr e, s') \<and>
           events s' = (events s)(t := events s t @ [e])"
    and ListAll_law: "rp_ListAll R s t = Inr (sortByChainOrder P (events s t))"
    and Query_law: "rp_Query R s t f =
      Inr (take (nat (if fl_Limit f \<le> 0 then defaultQueryLimit else fl_Limit f))
             (sortByChainOrder P (filter (\<lambda>e. matchesFilter e f) (events s t))))"
    and Purge_law:
      "\<exists>s'. rp_PurgeBefore R s t c =
               (Inr (length (filter (\<lambda>e. ev_Time e < c) (events s t))), s') \<and>
             events s' = (events s)(t := filter (\<lambda>e. \<not> ev_Time e < c) (events s t))"
begin

lemma store_tail_eq: "store_tail R t s = Inr (tail_hash [] (events s t))"
  by (simp add: store_tail_def Last_law tail_hash_def)

lemma store_commit_ok:
  assumes "ev_TenantID e \<noteq> uuid_Nil"
  shows "\<exists>s'. store_commit P R prev e s = (Inr (link_event P prev e), s') \<and>
    events s' = (events s)(ev_TenantID e := events s (ev_TenantID e) @ [link_event P prev e])"
  using Append_law [of "link_event P prev e" "ev_TenantID e" s] assms
  by (auto simp: store_commit_def link_event_def Let_def)

lemma store_Append_ok:
  assumes "store_prepare now newid ev = Inr e"
  shows "\<exists>s'. store_Append P R now newid ev s =
      (Inr (link_event P (tail_hash [] (events s (ev_TenantID ev))) e), s') \<and>
    events s' = (events s)(ev_TenantID ev := events s (ev_TenantID ev) @
      [link_event P (tail_hash [] (events s (ev_TenantID ev))) e])"
proof -
  have t: "ev_TenantID e = ev_TenantID ev" and "ev_TenantID e \<noteq> uuid_Nil"
    using store_prepare_Inr [OF assms] by blast+
  from store_commit_ok [OF this(2), of "tail_hash [] (events s (ev_TenantID ev))" s]
  show ?thesis using assms by (simp add: store_Append_def store_tail_eq t)
qed

lemma store_Append_err:
  "store_prepare now newid ev = Inl err \<Longrightarrow> store_Append P R now newid ev s = (Inl err, s)"
  by (simp add: store_Append_def)

lemma store_Append_keeps:
  assumes "\<forall>t. trail_ok P t (events s t) \<and> (\<forall>e\<in>set (events s t). ev_Time e \<le> c)"
    and "c < now" and "ev_Time ev = zero_time"
  shows "\<forall>t. trail_ok P t (events (snd (store_Append P R now newid ev s)) t) \<and>
    (\<forall>e\<in>set (events (snd (store_Append P R now newid ev s)) t). ev_Time e \<le> now)"
proof (cases "store_prepare now newid ev")
  case (Inl err)
  with assms show ?thesis by (fastforce simp: store_Append_err)
next
  case (Inr e)
  from store_Append_ok [OF Inr, of s] obtain s' where
    s': "snd (store_Append P R now newid ev s) = s'"
      "events s' = (events s)(ev_TenantID ev := events s (ev_TenantID ev) @
        [link_event P (tail_hash [] (events s (ev_TenantID ev))) e])"
    by auto
  have "ev_Time e = now" "ev_TenantID e = ev_TenantID ev"
    using store_prepare_Inr [OF Inr] assms(3) by auto
  moreover have "\<forall>e\<in>set (events s t). ev_Time e < now" for t
    using assms(1,2) by force
  ultimately have "trail_ok P t (events s' t) \<and> (\<forall>e\<in>set (events s' t). ev_Time e \<le> now)"
    for t
    using assms(1) by (cases "t = ev_TenantID ev") (auto simp: s'(2) trail_ok_snoc less_imp_le)
  then show ?thesis by (simp add: s'(1))
qed

lemma VerifyTenantChain_ok:
  assumes "trail_ok P t (events s t)" and "authorizeAuditRead c = Inr u"
  shows "VerifyTenantChain P R c t s = (True, -1, None)"
  using assms by (simp add: VerifyTenantChain_def ListAll_law sortByChainOrder_def trail_ok_def
      sort_by_sorted VerifyChain_iff linked_def)

lemma store_Query_events:
  assumes "store_Query R c t f s = Inr es"
  shows "(\<exists>u. c = Some u \<and> us_TenantID u = t \<and> User_HasPermission u PermAuditRead) \<and>
    sorted_by (chain_less P) es \<and>
    (\<forall>e\<in>set es. e \<in> set (events s t) \<and> matchesFilter e f) \<and>
    int (length es) \<le> (if fl_Limit f \<le> 0 then defaultQueryLimit else fl_Limit f) \<and>
    (int (length (filter (\<lambda>e. matchesFilter e f) (events s t)))
       \<le> (if fl_Limit f \<le> 0 then defaultQueryLimit else fl_Limit f) \<longrightarrow>
     mset es = mset (filter (\<lambda>e. matchesFilter e f) (events s t)))"
proof -
  let ?limit = "if fl_Limit f \<le> 0 then defaultQueryLimit else fl_Limit f"
  let ?all = "sortByChainOrder P (filter (\<lambda>e. matchesFilter e f) (events s t))"
  from assms have es: "es = take (nat ?limit) ?all"
    and "\<exists>u. c = Some u \<and> us_TenantID u = t \<and> User_HasPermission u PermAuditRead"
    by (auto simp: store_Query_def authorizeAuditRead_def require_perm_Inr Query_law
        requireMatchingUserTenant_def split: sum.splits option.splits if_splits)
  moreover have "sorted_by (chain_less P) es"
    using chain_order.sorted_sort_by [of P "filter (\<lambda>e. matchesFilter e f) (events s t)"]
    unfolding es sortByChainOrder_def sorted_by_def by (rule sorted_wrt_take)
  moreover have "set es \<subseteq> set ?all" unfolding es by (rule set_take_subset)
  moreover have "0 \<le> ?limit" by (simp add: defaultQueryLimit_def)
  moreover have "length ?all \<le> nat ?limit \<Longrightarrow> es = ?all" by (simp add: es)
  ultimately show ?thesis
    by (auto simp: sortByChainOrder_def es)
qed

lemma Purge_ok:
  fixes s :: 's and now :: time
  assumes auth: "c = Some u" "User_HasPermission u PermAuditRead" "us_TenantID u = t"
    and t: "t \<noteq> uuid_Nil" and w: "0 < window"
    and actor: "TrimSpace (uuid_str P (us_ID u)) \<noteq> []"
  defines "old \<equiv> filter (\<lambda>e. ev_Time e < CutoffBefore window now) (events s t)"
    and "kept \<equiv> filter (\<lambda>e. \<not> ev_Time e < CutoffBefore window now) (events s t)"
  shows "\<exists>s' e. Purge P R now now' newid c t window s = ((length old, None), s') \<and>
    ev_TenantID e = t \<and> ev_Time e = now' \<and> ev_Action e = ''audit.purged'' \<and>
    events s' = (events s)(t :=
      (if old = [] then kept else kept @ [link_event P (tail_hash [] kept) e]))"
proof -
  let ?ev = "purge_event P u t (length old) (CutoffBefore window now)"
  have trim: "TrimSpace ''audit.purged'' \<noteq> []" by code_simp
  have "\<exists>e. store_prepare now' newid ?ev = Inr e"
    using t actor trim
    by (simp add: store_prepare_def purge_event_def Event_Validate_def Kind_IsValid_def)
  then obtain e where e: "store_prepare now' newid ?ev = Inr e" ..
  note props = store_prepare_Inr [OF e]
  obtain s1 where s1: "rp_PurgeBefore R s t (CutoffBefore window now) = (Inr (length old), s1)"
      "events s1 = (events s)(t := kept)"
    using Purge_law [of s t "CutoffBefore window now"] by (auto simp: old_def kept_def)
  show ?thesis
  proof (cases "old = []")
    case True
    with s1 auth t w props show ?thesis
      by (intro exI [of _ s1] exI [of _ e])
         (simp add: Purge_def authorizeAuditRead_def require_perm_Some
           requireMatchingUserTenant_def RetentionPolicy_Validate_def purge_event_def)
  next
    case False
    from store_Append_ok [OF e, of s1] obtain s2 where
      "store_Append P R now' newid ?ev s1 = (Inr (link_event P (tail_hash [] kept) e), s2)"
      "events s2 = (events s1)(t := kept @ [link_event P (tail_hash [] kept) e])"
      using s1(2) by (auto simp: purge_event_def)
    with s1 auth t w props False show ?thesis
      by (intro exI [of _ s2] exI [of _ e])
         (simp add: Purge_def authorizeAuditRead_def require_perm_Some Let_def
           requireMatchingUserTenant_def RetentionPolicy_Validate_def purge_event_def)
  qed
qed

end


section \<open>The in-memory repository meets the contract\<close>

interpretation mem_audit: audit_repository P "mem_repo P" im_events for P
proof (unfold_locales, goal_cases)
  case (1 s t)
  show ?case by (auto simp: mem_repo_def mem_Last_def Let_def last_conv_nth)
next
  case (2 e t s)
  then show ?case by (auto simp: mem_repo_def mem_Append_def)
next
  case (3 s t)
  show ?case by (simp add: mem_repo_def mem_ListAll_def)
next
  case (4 s t f)
  show ?case
    by (auto simp: mem_repo_def mem_Query_def Let_def defaultQueryLimit_def)
next
  case (5 s t c)
  show ?case by (simp add: mem_repo_def mem_PurgeBefore_def Let_def)
qed

section \<open>Runs of a store\<close>

text \<open>
  The writing operations as steps of a store and its clock, which moves forward between two
  readings. Events come in without a time, as the sinks of the repository send them, and get
  the clock's.
\<close>

inductive audit_step ::
  "platform \<Rightarrow> 's Repository \<Rightarrow> 's \<times> time \<Rightarrow> 's \<times> time \<Rightarrow> bool" for P R where
  append: "c < now \<Longrightarrow> ev_Time ev = zero_time \<Longrightarrow>
     audit_step P R (s, c) (snd (store_Append P R now newid ev s), now)"
| purge: "c < now \<Longrightarrow> now < now' \<Longrightarrow>
     audit_step P R (s, c) (snd (Purge P R now now' newid actor tenantID window s), now')"

inductive audit_reach :: "platform \<Rightarrow> 's Repository \<Rightarrow> 's \<Rightarrow> 's \<times> time \<Rightarrow> bool" for P R s0 where
  start: "audit_reach P R s0 (s0, c)"
| step: "audit_reach P R s0 x \<Longrightarrow> audit_step P R x y \<Longrightarrow> audit_reach P R s0 y"

inductive_cases audit_stepE: "audit_step P R x y"

context audit_repository
begin

definition trails_ok :: "'s \<times> time \<Rightarrow> bool" where
  "trails_ok x \<longleftrightarrow> (\<forall>t. trail_ok P t (events (fst x) t) \<and>
     (\<forall>e\<in>set (events (fst x) t). ev_Time e \<le> snd x))"

lemma Purge_keeps:
  assumes ok: "trails_ok (s, c)" and now: "c < now" "now < now'"
  shows "trails_ok (snd (Purge P R now now' newid actor t window s), now')"
proof -
  have same: "trails_ok (s, now')"
    using ok now by (fastforce simp: trails_ok_def)
  obtain s1 n where s1: "rp_PurgeBefore R s t (CutoffBefore window now) = (Inr n, s1)"
      "events s1 = (events s)(t := filter (\<lambda>e. \<not> ev_Time e < CutoffBefore window now) (events s t))"
    using Purge_law [of s t "CutoffBefore window now"] by blast
  have ok1: "trails_ok (s1, c)"
    using ok by (auto simp: trails_ok_def s1(2) trail_ok_purge)
  then have "trails_ok (s1, now')"
    using now by (fastforce simp: trails_ok_def)
  moreover have "trails_ok (snd (store_Append P R now' newid (purge_event P u t n k) s1), now')"
    for u k
    using store_Append_keeps [of s1 c now' "purge_event P u t n k" newid] ok1 now
    by (simp add: trails_ok_def purge_event_def)
  ultimately show ?thesis
    using same s1(1)
    by (auto simp: Purge_def Let_def split: sum.splits option.splits prod.splits)
       (metis snd_conv)+
qed

lemma audit_step_keeps: "audit_step P R x y \<Longrightarrow> trails_ok x \<Longrightarrow> trails_ok y"
proof (erule audit_stepE)
  fix c now ev s newid
  assume "trails_ok x" "x = (s, c)" "c < now" "ev_Time ev = zero_time"
    "y = (snd (store_Append P R now newid ev s), now)"
  then show "trails_ok y"
    using store_Append_keeps [of s c now ev newid] by (simp add: trails_ok_def)
qed (simp add: Purge_keeps)

lemma audit_reach_trails_ok:
  "audit_reach P R s0 x \<Longrightarrow> \<forall>t. events s0 t = [] \<Longrightarrow> trails_ok x"
  by (induction rule: audit_reach.induct) (auto simp: trails_ok_def [of "(s0, _)"]
      intro: audit_step_keeps)

end


section \<open>Properties of the store\<close>

definition im_empty :: InMemoryRepository where
  "im_empty = \<lparr>im_events = (\<lambda>_. [])\<rparr>"

definition sample_auditor :: User where
  "sample_auditor =
     \<lparr>us_ID = 9, us_TenantID = 7, us_Email = [], us_Name = [], us_Roles = [RoleAuditor],
      us_Status = UserStatusActive, us_InvitedAt = None, us_DisabledAt = None,
      us_CreatedAt = 1, us_UpdatedAt = 1\<rparr>"

lemma sample_auditor_reads [simp]:
  "authorizeAuditRead (Some sample_auditor) = Inr sample_auditor"
  "User_HasPermission sample_auditor PermAuditRead"
  "us_TenantID sample_auditor = 7" "us_ID sample_auditor = 9"
  by (simp_all add: authorizeAuditRead_def require_perm_Inr sample_auditor_def
      User_HasPermission_def)

definition untimed_event :: Event where
  "untimed_event = sample_event\<lparr>ev_Time := zero_time\<rparr>"

lemma untimed_reach:
  "audit_reach ref_platform (mem_repo ref_platform) im_empty
     (snd (store_Append ref_platform (mem_repo ref_platform) 5 1 untimed_event im_empty), 5)"
  by (rule audit_reach.step [OF audit_reach.start [of _ _ _ 0] audit_step.append])
     (simp_all add: untimed_event_def)





text \<open>
  What a \<open>Query\<close> returns: it succeeds only for an authenticated reader of that very tenant,
  returns only that tenant's stored events that match the filter, in chain order and no more
  than the limit, and all of them when they fit the limit.
\<close>

lemma Query_sound_and_complete:
  assumes "store_Query (mem_repo P) actor t f s = Inr es"
  shows "(\<exists>u. actor = Some u \<and> us_TenantID u = t \<and> User_HasPermission u PermAuditRead) \<and>
    sorted_by (chain_less P) es \<and>
    (\<forall>e\<in>set es. e \<in> set (im_events s t) \<and> matchesFilter e f) \<and>
    int (length es) \<le> (if fl_Limit f \<le> 0 then defaultQueryLimit else fl_Limit f) \<and>
    (int (length (filter (\<lambda>e. matchesFilter e f) (im_events s t)))
       \<le> (if fl_Limit f \<le> 0 then defaultQueryLimit else fl_Limit f) \<longrightarrow>
     mset es = mset (filter (\<lambda>e. matchesFilter e f) (im_events s t)))"
  using assms by (rule mem_audit.store_Query_events)

definition any_filter :: Filter where
  "any_filter = \<lparr>fl_Actor = [], fl_CaseID = uuid_Nil, fl_Kinds = [], fl_Action = [],
     fl_Since = zero_time, fl_Until = zero_time, fl_Limit = 0\<rparr>"

lemma Query_sound_and_complete_witness:
  "store_Query (mem_repo ref_platform) (Some sample_auditor) 7 any_filter
     \<lparr>im_events = (\<lambda>_. [sample_event])\<rparr> = Inr [sample_event] \<and>
   mset [sample_event] = mset (filter (\<lambda>e. matchesFilter e any_filter) [sample_event])"
proof -
  have q: "store_Query (mem_repo ref_platform) (Some sample_auditor) 7 any_filter
     \<lparr>im_events = (\<lambda>_. [sample_event])\<rparr> = Inr [sample_event]"
    by (simp add: store_Query_def requireMatchingUserTenant_def uuid_Nil_def mem_repo_def
        mem_Query_def any_filter_def matchesFilter_def sortByChainOrder_def defaultQueryLimit_def)
  from Query_sound_and_complete [OF q] q show ?thesis
    by (simp add: any_filter_def matchesFilter_def defaultQueryLimit_def)
qed

text \<open>
  The chain is linked in the order of insertion and verified in the order of time.
  \<open>Append\<close> keeps a time supplied by the caller, so an event that arrives with an earlier time
  than the one stored before it makes \<open>VerifyTenantChain\<close> report a broken chain although no
  stored event was touched.
\<close>

lemma backdated_append_breaks_verification:
  assumes "platform_ok P"
    and "Event_Validate (Some a) = None" and "Event_Validate (Some b) = None"
    and "ev_TenantID a = t" and "ev_TenantID b = t" and "ev_ID a \<noteq> uuid_Nil" and "ev_ID b \<noteq> uuid_Nil"
    and "zero_time < ev_Time b" and "ev_Time b < ev_Time a"
    and "authorizeAuditRead actor = Inr u"
  shows "VerifyTenantChain P (mem_repo P) actor t
           (snd (store_Append P (mem_repo P) now' i' b
             (snd (store_Append P (mem_repo P) now i a im_empty)))) =
         (False, 1, Some (ErrChainBroken 1 (ev_ID a) PrevHashMismatch))"
proof -
  have prep: "store_prepare n j a = Inr a" "store_prepare n j b = Inr b" for n j
    using assms(2-9) by (auto simp: store_prepare_def Event_Validate_def Kind_IsValid_def Let_def
        split: if_splits)
  let ?a = "link_event P [] a" let ?b = "link_event P (ev_ChainHash ?a) b"
  obtain s1 where s1: "store_Append P (mem_repo P) now i a im_empty = (Inr ?a, s1)"
      "im_events s1 = (im_events im_empty)(t := [?a])"
    using mem_audit.store_Append_ok [OF prep(1) [of now i], where P = P and s = im_empty] assms(4)
    by (auto simp: im_empty_def)
  obtain s2 where s2: "store_Append P (mem_repo P) now' i' b s1 = (Inr ?b, s2)"
      "im_events s2 t = [?a, ?b]"
    using mem_audit.store_Append_ok [OF prep(2) [of now' i'], where P = P and s = s1] assms(5) s1(2)
    by (auto simp: tail_hash_def)
  have "ComputeChainHash P p x \<noteq> []" for p x
  proof -
    have "length (ComputeChainHash P p x) = 64"
      using assms(1) by (simp add: platform_ok_def ComputeChainHash_def)
    then show ?thesis by auto
  qed
  note ne = this this [symmetric]
  show ?thesis
    using assms(9,10) ne by (simp add: s1 s2 VerifyTenantChain_def mem_audit.ListAll_law
        sortByChainOrder_def chain_less_def VerifyChain_def)
qed

lemma backdated_append_breaks_verification_witness:
  "VerifyTenantChain ref_platform (mem_repo ref_platform) (Some sample_auditor) 7
     (snd (store_Append ref_platform (mem_repo ref_platform) 9 2 (sample_event\<lparr>ev_Time := 3\<rparr>)
       (snd (store_Append ref_platform (mem_repo ref_platform) 8 1 sample_event im_empty)))) =
   (False, 1, Some (ErrChainBroken 1 1 PrevHashMismatch))"
proof -
  have t: "TrimSpace ''case.viewed'' \<noteq> []" "TrimSpace ''judge'' \<noteq> []" by code_simp+
  show ?thesis
    using backdated_append_breaks_verification [OF platform_ok_ref, of sample_event
        "sample_event\<lparr>ev_Time := 3\<rparr>" 7 "Some sample_auditor" sample_auditor 9 2 8 1] t
    by (simp add: Event_Validate_def sample_event_def uuid_Nil_def zero_time_def Kind_IsValid_def)
qed

text \<open>
  C4: \<open>Store.Append\<close> reads the tail and writes the event without holding a lock over both.
  When two appends to a tenant without events interleave (both read the tail, then both
  write), each is told it succeeded and the trail is a fork: both events are linked to the
  genesis, and the verification of the stored trail fails at the second.
\<close>

theorem racing_appends_fork_the_chain:
  assumes "platform_ok P" and "ev_TenantID a = t" and "ev_TenantID b = t" and "t \<noteq> uuid_Nil"
  shows "store_tail (mem_repo P) t im_empty = Inr [] \<and>
    (let (ra, s1) = store_commit P (mem_repo P) [] a im_empty;
         (rb, s2) = store_commit P (mem_repo P) [] b s1
     in is_ok ra \<and> is_ok rb \<and> length (im_events s2 t) = 2 \<and>
        VerifyGenesisChain P (im_events s2 t) =
          (False, 1, Some (ErrChainBroken 1 (ev_ID b) PrevHashMismatch)))"
proof -
  have ne: "ComputeChainHash P p x \<noteq> []" for p x
  proof -
    have "length (ComputeChainHash P p x) = 64"
      using assms(1) by (simp add: platform_ok_def ComputeChainHash_def)
    then show ?thesis by auto
  qed
  obtain s1 where s1: "store_commit P (mem_repo P) [] a im_empty = (Inr (link_event P [] a), s1)"
      "im_events s1 = (im_events im_empty)(t := [link_event P [] a])"
    using mem_audit.store_commit_ok [of a P "[]" im_empty] assms(2,4) by (auto simp: im_empty_def)
  obtain s2 where s2: "store_commit P (mem_repo P) [] b s1 = (Inr (link_event P [] b), s2)"
      "im_events s2 t = [link_event P [] a, link_event P [] b]"
    using mem_audit.store_commit_ok [of b P "[]" s1] assms(3,4) s1(2) by auto
  have "store_tail (mem_repo P) t im_empty = Inr []"
    by (simp add: mem_audit.store_tail_eq im_empty_def)
  then show ?thesis
    using ne [of "[]" a] ne [of "[]" a, symmetric]
    by (simp add: s1 s2 VerifyGenesisChain_def VerifyChain_def)
qed

theorem racing_appends_fork_the_chain_witness:
  "let (ra, s1) = store_commit ref_platform (mem_repo ref_platform) [] sample_event im_empty;
       (rb, s2) = store_commit ref_platform (mem_repo ref_platform) [] sample_event s1
   in is_ok ra \<and> is_ok rb \<and> length (im_events s2 7) = 2 \<and>
      VerifyGenesisChain ref_platform (im_events s2 7) =
        (False, 1, Some (ErrChainBroken 1 (ev_ID sample_event) PrevHashMismatch))"
proof -
  have t: "ev_TenantID sample_event = 7" and nz: "(7 :: uuid) \<noteq> uuid_Nil"
    by (simp_all add: sample_event_def uuid_Nil_def)
  show ?thesis
    by (rule conjunct2 [OF racing_appends_fork_the_chain [OF platform_ok_ref t t nz]])
qed

end
