(* ===== verification/Signoff.thy ===== *)
theory Signoff
  imports CaseLifecycle Guardrail AuditStore
begin

text \<open>
  \<open>packages/signoff\<close>: the human sign-off of a case's reasoning output. The decisions
  \<open>Approve\<close> and \<open>Reject\<close> (\<open>decision.go\<close>), entering the workflow (\<open>awaiting.go\<close>), the
  automatic re-review after a case update (\<open>rereview.go\<close>), the gate that
  \<open>guardrail.CanFinalize\<close> consults (\<open>gate.go\<close>), the version reader over the case repository
  (\<open>caseadapter.go\<close>), notifications, the in-memory repository and the projection of the
  sign-off trail into the audit log (\<open>packages/auditlog/adapter.go\<close>).
\<close>

section \<open>Records, errors and permissions\<close>

datatype DecisionSource = DecisionSourceReviewer | DecisionSourceReReview | DecisionSourceInitial

definition DecisionSource_String :: "DecisionSource \<Rightarrow> string" where
  "DecisionSource_String d =
     (case d of DecisionSourceReviewer \<Rightarrow> ''reviewer'' | DecisionSourceReReview \<Rightarrow> ''re_review''
      | DecisionSourceInitial \<Rightarrow> ''initial'')"

record SignoffRecord =
  so_ID :: uuid
  so_CaseID :: uuid
  so_TenantID :: uuid
  so_Status :: SignoffStatus
  so_ReviewerID :: uuid
  so_Notes :: string
  so_CaseVersion :: "64 word"
  so_Source :: DecisionSource
  so_DecidedAt :: time
  so_CreatedAt :: time

record AuditEntry =
  sa_ID :: uuid
  sa_CaseID :: uuid
  sa_TenantID :: uuid
  sa_FromStatus :: SignoffStatus
  sa_ToStatus :: SignoffStatus
  sa_Actor :: uuid
  sa_Source :: DecisionSource
  sa_Notes :: string
  sa_CaseVersion :: "64 word"
  sa_OccurredAt :: time

text \<open>\<open>CaseReaderErr\<close> is an error of the case version reader.\<close>

datatype so_error = ErrNotFound | ErrCrossTenantAccess | ErrEmptyCaseID | ErrUnauthenticated
  | ErrForbidden | ErrAcknowledgementRequired | ErrNotesRequired | ErrNilRepository
  | ErrNilCaseReader | ErrCaseVersionMismatch | CaseReaderErr cl_error | so_Wrapf string so_error

definition so_wrapf :: "string \<Rightarrow> so_error \<Rightarrow> so_error" where
  "so_wrapf fn err = so_Wrapf fn err"

definition so_requireMatchingTenant :: "uuid \<Rightarrow> uuid \<Rightarrow> so_error option" where
  "so_requireMatchingTenant scopeTenantID entityTenantID =
     (if entityTenantID \<noteq> uuid_Nil \<and> entityTenantID \<noteq> scopeTenantID
      then Some ErrCrossTenantAccess else None)"

definition RequireSignoffPermission :: "ctx \<Rightarrow> so_error option" where
  "RequireSignoffPermission c =
     (case require_perm ErrUnauthenticated ErrForbidden PermSignOff c of
        Inl e \<Rightarrow> Some e | Inr _ \<Rightarrow> None)"

definition so_RequireViewPermission :: "ctx \<Rightarrow> so_error option" where
  "so_RequireViewPermission c =
     (case require_perm ErrUnauthenticated ErrForbidden PermViewCase c of
        Inl e \<Rightarrow> Some e | Inr _ \<Rightarrow> None)"

section \<open>The repository interface and its in-memory implementation\<close>

record 's SignoffRepository =
  sr_Get :: "'s \<Rightarrow> uuid \<Rightarrow> uuid \<Rightarrow> so_error + SignoffRecord"
  sr_Upsert :: "'s \<Rightarrow> uuid \<Rightarrow> uuid \<Rightarrow> SignoffRecord option \<Rightarrow> (so_error + unit) \<times> 's"
  sr_AppendAudit :: "'s \<Rightarrow> uuid \<Rightarrow> uuid \<Rightarrow> AuditEntry option \<Rightarrow> (so_error + unit) \<times> 's"
  sr_ListAudit :: "'s \<Rightarrow> uuid \<Rightarrow> uuid \<Rightarrow> so_error + AuditEntry list"

record SignoffStore =
  ss_records :: "uuid \<Rightarrow> SignoffRecord option"
  ss_audit :: "uuid \<Rightarrow> AuditEntry list"

definition signoff_empty :: SignoffStore where
  "signoff_empty = \<lparr>ss_records = Map.empty, ss_audit = (\<lambda>_. [])\<rparr>"

definition signoff_Get :: "SignoffStore \<Rightarrow> uuid \<Rightarrow> uuid \<Rightarrow> so_error + SignoffRecord" where
  "signoff_Get repo tenantID caseID =
     (case ss_records repo caseID of
        None \<Rightarrow> Inl ErrNotFound
      | Some r \<Rightarrow> if so_TenantID r \<noteq> tenantID then Inl ErrNotFound else Inr r)"

definition signoff_Upsert ::
  "SignoffStore \<Rightarrow> uuid \<Rightarrow> uuid \<Rightarrow> SignoffRecord option \<Rightarrow> (so_error + unit) \<times> SignoffStore" where
  "signoff_Upsert repo tenantID newid r =
     (case r of
        None \<Rightarrow> (Inl (so_wrapf ''InMemoryRepository.Upsert'' ErrNilRepository), repo)
      | Some r \<Rightarrow>
          (case so_requireMatchingTenant tenantID (so_TenantID r) of
             Some err \<Rightarrow> (Inl err, repo)
           | None \<Rightarrow>
               let r = (if so_ID r = uuid_Nil then r\<lparr>so_ID := newid\<rparr> else r) in
               (Inr (), repo\<lparr>ss_records := (ss_records repo)(so_CaseID r \<mapsto> r)\<rparr>)))"

definition signoff_AppendAudit ::
  "SignoffStore \<Rightarrow> uuid \<Rightarrow> uuid \<Rightarrow> AuditEntry option \<Rightarrow> (so_error + unit) \<times> SignoffStore" where
  "signoff_AppendAudit repo tenantID newid e =
     (case e of
        None \<Rightarrow> (Inl (so_wrapf ''InMemoryRepository.AppendAudit'' ErrNilRepository), repo)
      | Some e \<Rightarrow>
          (case so_requireMatchingTenant tenantID (sa_TenantID e) of
             Some err \<Rightarrow> (Inl err, repo)
           | None \<Rightarrow>
               let e = (if sa_ID e = uuid_Nil then e\<lparr>sa_ID := newid\<rparr> else e) in
               (Inr (), repo\<lparr>ss_audit :=
                  (ss_audit repo)(sa_CaseID e := ss_audit repo (sa_CaseID e) @ [e])\<rparr>)))"

text \<open>As for transitions, the stable order stands for \<open>sort.Slice\<close> where instants coincide.\<close>

definition signoff_ListAudit :: "SignoffStore \<Rightarrow> uuid \<Rightarrow> uuid \<Rightarrow> so_error + AuditEntry list" where
  "signoff_ListAudit repo tenantID caseID =
     Inr (sort_by (\<lambda>a b. sa_OccurredAt a < sa_OccurredAt b)
       (filter (\<lambda>e. sa_TenantID e = tenantID) (ss_audit repo caseID)))"

definition mem_signoff :: "SignoffStore SignoffRepository" where
  "mem_signoff = \<lparr>sr_Get = signoff_Get, sr_Upsert = signoff_Upsert,
     sr_AppendAudit = signoff_AppendAudit, sr_ListAudit = signoff_ListAudit\<rparr>"

section \<open>Decisions\<close>

text \<open>
  A \<open>CaseVersionReader\<close> is a function of the tenant and the case; the one of the repository
  reads the case's metadata version from the case repository in state \<open>cs\<close>.
\<close>

type_synonym CaseVersionReader = "uuid \<Rightarrow> uuid \<Rightarrow> cl_error + 64 word"

definition CaselifecycleVersionReader :: "'c CaseRepository \<Rightarrow> 'c \<Rightarrow> CaseVersionReader" where
  "CaselifecycleVersionReader R cs tenantID caseID =
     (case cr_Get R cs tenantID caseID of
        Inl err \<Rightarrow> Inl err
      | Inr c \<Rightarrow> Inr (cs_MetadataVersion c))"

definition AcknowledgementConfirmation :: string where
  "AcknowledgementConfirmation = ''I acknowledge and approve this review decision''"

record DecisionInput =
  di_TenantID :: uuid
  di_CaseID :: uuid
  di_CaseVersion :: "64 word"
  di_Notes :: string
  di_Acknowledgement :: string

definition validateCommon :: "CaseVersionReader \<Rightarrow> ctx \<Rightarrow> DecisionInput \<Rightarrow> so_error + User" where
  "validateCommon reader c input =
     (if di_CaseID input = uuid_Nil then Inl ErrEmptyCaseID
      else
        (case RequireSignoffPermission c of
           Some err \<Rightarrow> Inl err
         | None \<Rightarrow>
             let user = the (UserFromContext c) in
             if di_Acknowledgement input \<noteq> AcknowledgementConfirmation
             then Inl ErrAcknowledgementRequired
             else (case reader (di_TenantID input) (di_CaseID input) of
                     Inl err \<Rightarrow> Inl (so_wrapf ''validateCommon'' (CaseReaderErr err))
                   | Inr liveVersion \<Rightarrow>
                       if di_CaseVersion input \<noteq> liveVersion then Inl ErrCaseVersionMismatch
                       else Inr user)))"

definition initial_record :: "uuid \<Rightarrow> uuid \<Rightarrow> uuid \<Rightarrow> 64 word \<Rightarrow> time \<Rightarrow> SignoffRecord" where
  "initial_record newid caseID tenantID caseVersion at =
     \<lparr>so_ID = newid, so_CaseID = caseID, so_TenantID = tenantID, so_Status = SignoffPending,
      so_ReviewerID = uuid_Nil, so_Notes = [], so_CaseVersion = caseVersion,
      so_Source = DecisionSourceInitial, so_DecidedAt = at, so_CreatedAt = at\<rparr>"

definition currentOrInitial ::
  "'s SignoffRepository \<Rightarrow> uuid \<Rightarrow> uuid \<Rightarrow> uuid \<Rightarrow> 64 word \<Rightarrow> time \<Rightarrow> 's
    \<Rightarrow> so_error + SignoffRecord" where
  "currentOrInitial R newid tenantID caseID caseVersion at s =
     (case sr_Get R s tenantID caseID of
        Inr existing \<Rightarrow> Inr existing
      | Inl err \<Rightarrow>
          if err \<noteq> ErrNotFound then Inl err
          else Inr (initial_record newid caseID tenantID caseVersion at))"

text \<open>
  The writes that end a decision, a re-review and the entry into the workflow: the record and
  then its audit entry. \<open>newid\<close> and \<open>newid'\<close> are the fresh identifiers of the record and of
  the entry.
\<close>

definition store_with_audit ::
  "'s SignoffRepository \<Rightarrow> uuid \<Rightarrow> uuid \<Rightarrow> uuid \<Rightarrow> SignoffRecord \<Rightarrow> AuditEntry \<Rightarrow> 's
    \<Rightarrow> so_error option \<times> 's" where
  "store_with_audit R tenantID newid newid' r e s =
     (case sr_Upsert R s tenantID newid (Some r) of
        (Inl err, s1) \<Rightarrow> (Some err, s1)
      | (Inr _, s1) \<Rightarrow>
          (case sr_AppendAudit R s1 tenantID newid' (Some e) of
             (Inl err, s2) \<Rightarrow> (Some err, s2)
           | (Inr _, s2) \<Rightarrow> (None, s2)))"

definition decide ::
  "string \<Rightarrow> SignoffStatus \<Rightarrow> 's SignoffRepository \<Rightarrow> time \<Rightarrow> uuid \<Rightarrow> uuid \<Rightarrow> User
    \<Rightarrow> DecisionInput \<Rightarrow> string \<Rightarrow> 's \<Rightarrow> (so_error + SignoffRecord) \<times> 's" where
  "decide fn status R at newid newid' user input notes s =
     (case currentOrInitial R newid (di_TenantID input) (di_CaseID input) (di_CaseVersion input) at s of
        Inl err \<Rightarrow> (Inl (so_wrapf fn err), s)
      | Inr current \<Rightarrow>
          let fromStatus = so_Status current;
              r = \<lparr>so_ID = so_ID current, so_CaseID = di_CaseID input,
                   so_TenantID = di_TenantID input, so_Status = status,
                   so_ReviewerID = us_ID user, so_Notes = notes,
                   so_CaseVersion = di_CaseVersion input, so_Source = DecisionSourceReviewer,
                   so_DecidedAt = at, so_CreatedAt = so_CreatedAt current\<rparr>;
              r = (if so_CreatedAt r = zero_time then r\<lparr>so_CreatedAt := at\<rparr> else r);
              e = \<lparr>sa_ID = newid', sa_CaseID = di_CaseID input, sa_TenantID = di_TenantID input,
                   sa_FromStatus = fromStatus, sa_ToStatus = status, sa_Actor = us_ID user,
                   sa_Source = DecisionSourceReviewer, sa_Notes = notes,
                   sa_CaseVersion = di_CaseVersion input, sa_OccurredAt = at\<rparr>
          in (case store_with_audit R (di_TenantID input) newid newid' r e s of
                (Some err, s1) \<Rightarrow> (Inl (so_wrapf fn err), s1)
              | (None, s1) \<Rightarrow> (Inr r, s1)))"

definition Approve ::
  "'s SignoffRepository \<Rightarrow> CaseVersionReader \<Rightarrow> time \<Rightarrow> uuid \<Rightarrow> uuid \<Rightarrow> ctx \<Rightarrow> DecisionInput
    \<Rightarrow> 's \<Rightarrow> (so_error + SignoffRecord) \<times> 's" where
  "Approve R reader at newid newid' c input s =
     (case validateCommon reader c input of
        Inl err \<Rightarrow> (Inl (so_wrapf ''Approve'' err), s)
      | Inr user \<Rightarrow>
          decide ''Approve'' SignoffApproved R at newid newid' user input (TrimSpace (di_Notes input)) s)"

definition Reject ::
  "'s SignoffRepository \<Rightarrow> CaseVersionReader \<Rightarrow> time \<Rightarrow> uuid \<Rightarrow> uuid \<Rightarrow> ctx \<Rightarrow> DecisionInput
    \<Rightarrow> 's \<Rightarrow> (so_error + SignoffRecord) \<times> 's" where
  "Reject R reader at newid newid' c input s =
     (let notes = TrimSpace (di_Notes input) in
      if notes = [] then (Inl (so_wrapf ''Reject'' ErrNotesRequired), s)
      else
        (case validateCommon reader c input of
           Inl err \<Rightarrow> (Inl (so_wrapf ''Reject'' err), s)
         | Inr user \<Rightarrow> decide ''Reject'' SignoffRejected R at newid newid' user input notes s))"

definition SignoffGet ::
  "'s SignoffRepository \<Rightarrow> CaseVersionReader \<Rightarrow> time \<Rightarrow> ctx \<Rightarrow> uuid \<Rightarrow> uuid \<Rightarrow> 's
    \<Rightarrow> so_error + SignoffRecord" where
  "SignoffGet R reader now c tenantID caseID s =
     (case so_RequireViewPermission c of
        Some err \<Rightarrow> Inl err
      | None \<Rightarrow>
          if caseID = uuid_Nil then Inl ErrEmptyCaseID
          else
            (case sr_Get R s tenantID caseID of
               Inr r \<Rightarrow> Inr r
             | Inl err \<Rightarrow>
                 if err \<noteq> ErrNotFound then Inl (so_wrapf ''Get'' err)
                 else (case reader tenantID caseID of
                         Inl verr \<Rightarrow> Inl (so_wrapf ''Get'' (CaseReaderErr verr))
                       | Inr liveVersion \<Rightarrow>
                           Inr (initial_record uuid_Nil caseID tenantID liveVersion now))))"

definition SignoffHistory ::
  "'s SignoffRepository \<Rightarrow> ctx \<Rightarrow> uuid \<Rightarrow> uuid \<Rightarrow> 's \<Rightarrow> so_error + AuditEntry list" where
  "SignoffHistory R c tenantID caseID s =
     (case so_RequireViewPermission c of
        Some err \<Rightarrow> Inl err
      | None \<Rightarrow> if caseID = uuid_Nil then Inl ErrEmptyCaseID else sr_ListAudit R s tenantID caseID)"

section \<open>Notifications\<close>

record PendingSignoffEvent =
  pe_TenantID :: uuid
  pe_CaseID :: uuid
  pe_Reason :: string
  pe_CaseVersion :: "64 word"
  pe_CreatedAt :: time

text \<open>
  A sink answers an event with an error or not and changes the outside world \<open>'w\<close>. The
  service ignores the error, so its operations return the events they send.
\<close>

type_synonym ('e, 'w) NotificationSink = "PendingSignoffEvent \<Rightarrow> 'w \<Rightarrow> 'e option \<times> 'w"

definition NoOpNotificationSink :: "('e, 'w) NotificationSink" where
  "NoOpNotificationSink e w = (None, w)"

fun MultiNotificationSink :: "('e, 'w) NotificationSink list \<Rightarrow> ('e, 'w) NotificationSink" where
  "MultiNotificationSink [] e w = (None, w)"
| "MultiNotificationSink (notify # sinks) e w =
     (case notify e w of
        (err, w1) \<Rightarrow>
          (case MultiNotificationSink sinks e w1 of
             (rest, w2) \<Rightarrow> (if err = None then rest else err, w2)))"

section \<open>Entering the workflow and re-review\<close>

definition pending_event ::
  "uuid \<Rightarrow> uuid \<Rightarrow> string \<Rightarrow> 64 word \<Rightarrow> time \<Rightarrow> PendingSignoffEvent" where
  "pending_event tenantID caseID reason version at =
     \<lparr>pe_TenantID = tenantID, pe_CaseID = caseID, pe_Reason = reason, pe_CaseVersion = version,
      pe_CreatedAt = at\<rparr>"

definition MarkAwaitingSignoff ::
  "'s SignoffRepository \<Rightarrow> CaseVersionReader \<Rightarrow> time \<Rightarrow> uuid \<Rightarrow> uuid \<Rightarrow> uuid \<Rightarrow> uuid \<Rightarrow> 's
    \<Rightarrow> (so_error + SignoffRecord) \<times> PendingSignoffEvent list \<times> 's" where
  "MarkAwaitingSignoff R reader at newid newid' tenantID caseID s =
     (if caseID = uuid_Nil then (Inl ErrEmptyCaseID, [], s)
      else
        (case reader tenantID caseID of
           Inl err \<Rightarrow> (Inl (so_wrapf ''MarkAwaitingSignoff'' (CaseReaderErr err)), [], s)
         | Inr liveVersion \<Rightarrow>
             let sent = [pending_event tenantID caseID ''case awaiting human sign-off'' liveVersion at]
             in (case sr_Get R s tenantID caseID of
                   Inr r \<Rightarrow> (Inr r, sent, s)
                 | Inl err \<Rightarrow>
                     if err \<noteq> ErrNotFound
                     then (Inl (so_wrapf ''MarkAwaitingSignoff'' err), [], s)
                     else
                       let r = initial_record newid caseID tenantID liveVersion at;
                           e = \<lparr>sa_ID = newid', sa_CaseID = caseID, sa_TenantID = tenantID,
                                sa_FromStatus = SignoffPending, sa_ToStatus = SignoffPending,
                                sa_Actor = uuid_Nil, sa_Source = DecisionSourceInitial,
                                sa_Notes = ''case entered sign-off workflow'',
                                sa_CaseVersion = liveVersion, sa_OccurredAt = at\<rparr>
                       in (case store_with_audit R tenantID newid newid' r e s of
                             (Some err, s1) \<Rightarrow> (Inl (so_wrapf ''MarkAwaitingSignoff'' err), [], s1)
                           | (None, s1) \<Rightarrow> (Inr r, sent, s1)))))"

text \<open>\<open>%d\<close> of a signed 64-bit integer.\<close>

definition fmt_int :: "64 word \<Rightarrow> string" where
  "fmt_int v = (if sint v < 0 then ''-'' @ itoa (nat (- sint v)) else itoa (nat (sint v)))"

definition rereview_reason :: "64 word \<Rightarrow> 64 word \<Rightarrow> string" where
  "rereview_reason old new =
     ''case metadata version changed from '' @ fmt_int old @ '' to '' @ fmt_int new @ '' after approval''"

text \<open>The result is the record, if there is one, and whether it was reverted.\<close>

definition ReReviewOnCaseUpdate ::
  "'s SignoffRepository \<Rightarrow> CaseVersionReader \<Rightarrow> time \<Rightarrow> uuid \<Rightarrow> uuid \<Rightarrow> uuid \<Rightarrow> 's
    \<Rightarrow> (so_error + SignoffRecord option \<times> bool) \<times> PendingSignoffEvent list \<times> 's" where
  "ReReviewOnCaseUpdate R reader at newid tenantID caseID s =
     (if caseID = uuid_Nil then (Inl ErrEmptyCaseID, [], s)
      else
        (case reader tenantID caseID of
           Inl err \<Rightarrow> (Inl (so_wrapf ''ReReviewOnCaseUpdate'' (CaseReaderErr err)), [], s)
         | Inr liveVersion \<Rightarrow>
             (case sr_Get R s tenantID caseID of
                Inl err \<Rightarrow>
                  if err = ErrNotFound then (Inr (None, False), [], s)
                  else (Inl (so_wrapf ''ReReviewOnCaseUpdate'' err), [], s)
              | Inr current \<Rightarrow>
                  if so_Status current \<noteq> SignoffApproved \<or> so_CaseVersion current = liveVersion
                  then (Inr (Some current, False), [], s)
                  else
                    let reverted = \<lparr>so_ID = so_ID current, so_CaseID = caseID, so_TenantID = tenantID,
                          so_Status = SignoffPending, so_ReviewerID = so_ReviewerID current,
                          so_Notes = [], so_CaseVersion = liveVersion,
                          so_Source = DecisionSourceReReview, so_DecidedAt = at,
                          so_CreatedAt = so_CreatedAt current\<rparr>;
                        reason = rereview_reason (so_CaseVersion current) liveVersion;
                        e = \<lparr>sa_ID = newid, sa_CaseID = caseID, sa_TenantID = tenantID,
                             sa_FromStatus = so_Status current, sa_ToStatus = SignoffPending,
                             sa_Actor = uuid_Nil, sa_Source = DecisionSourceReReview,
                             sa_Notes = reason, sa_CaseVersion = liveVersion, sa_OccurredAt = at\<rparr>
                    in (case store_with_audit R tenantID newid newid reverted e s of
                          (Some err, s1) \<Rightarrow> (Inl (so_wrapf ''ReReviewOnCaseUpdate'' err), [], s1)
                        | (None, s1) \<Rightarrow>
                            (Inr (Some reverted, True),
                             [pending_event tenantID caseID reason liveVersion at], s1)))))"

section \<open>The gate\<close>

datatype gate_error = GateEmptyCaseID | GateInvalidCaseID string | GateRepository so_error

text \<open>\<open>parse_uuid\<close> is \<open>uuid.Parse\<close>.\<close>

definition GateImpl ::
  "(string \<Rightarrow> uuid option) \<Rightarrow> 's SignoffRepository \<Rightarrow> uuid \<Rightarrow> 's \<Rightarrow> gate_error SignoffGate" where
  "GateImpl parse_uuid R tenantID s caseID =
     (if caseID = [] then Inl GateEmptyCaseID
      else
        (case parse_uuid caseID of
           None \<Rightarrow> Inl (GateInvalidCaseID caseID)
         | Some i \<Rightarrow>
             (case sr_Get R s tenantID i of
                Inl err \<Rightarrow>
                  if err = ErrNotFound then Inr SignoffPending else Inl (GateRepository err)
              | Inr r \<Rightarrow> Inr (so_Status r))))"

section \<open>The projection into the audit log\<close>

definition SignoffStatus_String :: "SignoffStatus \<Rightarrow> string" where
  "SignoffStatus_String st =
     (case st of SignoffPending \<Rightarrow> ''pending'' | SignoffApproved \<Rightarrow> ''approved''
      | SignoffRejected \<Rightarrow> ''rejected'')"

definition FromSignoffEntry :: "platform \<Rightarrow> AuditEntry \<Rightarrow> Event" where
  "FromSignoffEntry P e =
     (let actor = uuid_str P (sa_Actor e);
          actor = (if uuid_str P (sa_Actor e) = ''00000000-0000-0000-0000-000000000000''
                   then ''system:'' @ DecisionSource_String (sa_Source e) else actor)
      in \<lparr>ev_ID = uuid_Nil, ev_TenantID = sa_TenantID e, ev_Time = sa_OccurredAt e,
          ev_Actor = actor, ev_Action = ''case.signoff'',
          ev_Target = SignoffStatus_String (sa_ToStatus e), ev_Outcome = ''success'',
          ev_Kind = KindSignoff, ev_CaseID = sa_CaseID e, ev_Detail = sa_Notes e,
          ev_PrevHash = [], ev_ChainHash = []\<rparr>)"

definition RecordSignoffEntry ::
  "platform \<Rightarrow> 's Repository \<Rightarrow> time \<Rightarrow> uuid \<Rightarrow> AuditEntry option \<Rightarrow> 's
    \<Rightarrow> (al_error + Event) \<times> 's" where
  "RecordSignoffEntry P R now newid entry s =
     (case entry of
        None \<Rightarrow> (Inl (al_error.Wrapf ''RecordSignoffEntry'' ErrNilEvent), s)
      | Some e \<Rightarrow> store_Append P R now newid (FromSignoffEntry P e) s)"

section \<open>The history of a sign-off\<close>

text \<open>
  The abstract decision machine: which entries a trail may hold (\<open>J\<close> is the set of the
  judges who act), and a trail as a chain of statuses.
\<close>

definition entry_ok :: "uuid set \<Rightarrow> AuditEntry \<Rightarrow> bool" where
  "entry_ok J e \<longleftrightarrow>
     (case sa_Source e of
        DecisionSourceReviewer \<Rightarrow> sa_Actor e \<in> J \<and> sa_ToStatus e \<noteq> SignoffPending \<and>
          (sa_ToStatus e = SignoffRejected \<longrightarrow> sa_Notes e \<noteq> [])
      | DecisionSourceReReview \<Rightarrow> sa_FromStatus e = SignoffApproved \<and> sa_ToStatus e = SignoffPending
      | DecisionSourceInitial \<Rightarrow> sa_FromStatus e = SignoffPending \<and> sa_ToStatus e = SignoffPending)"

fun trail :: "SignoffStatus \<Rightarrow> AuditEntry list \<Rightarrow> SignoffStatus \<Rightarrow> bool" where
  "trail a [] b \<longleftrightarrow> a = b"
| "trail a (e # es) b \<longleftrightarrow> sa_FromStatus e = a \<and> trail (sa_ToStatus e) es b"

lemma trail_snoc: "trail a (es @ [e]) b \<longleftrightarrow> trail a es (sa_FromStatus e) \<and> sa_ToStatus e = b"
  by (induction es arbitrary: a) auto

text \<open>A record agrees with the entry written with it.\<close>

definition agrees :: "SignoffRecord \<Rightarrow> AuditEntry \<Rightarrow> bool" where
  "agrees r e \<longleftrightarrow> sa_CaseID e = so_CaseID r \<and> sa_TenantID e = so_TenantID r \<and>
     sa_ToStatus e = so_Status r \<and> sa_CaseVersion e = so_CaseVersion r \<and>
     sa_Source e = so_Source r \<and> (so_Status r \<noteq> SignoffPending \<longrightarrow> sa_Actor e = so_ReviewerID r)"

definition signoff_ok :: "uuid set \<Rightarrow> time \<Rightarrow> uuid \<Rightarrow> SignoffRecord option \<Rightarrow> AuditEntry list \<Rightarrow> bool" where
  "signoff_ok J k i r es \<longleftrightarrow>
     (case r of
        None \<Rightarrow> es = []
      | Some r \<Rightarrow>
          so_CaseID r = i \<and> so_ID r \<noteq> uuid_Nil \<and> es \<noteq> [] \<and> agrees r (last es) \<and>
          trail SignoffPending es (so_Status r) \<and>
          (\<forall>e\<in>set es. entry_ok J e \<and> sa_CaseID e = i \<and> sa_TenantID e = so_TenantID r \<and>
             sa_OccurredAt e \<le> k) \<and>
          sorted_wrt (<) (map sa_OccurredAt es))"

lemma signoff_ok_mono: "signoff_ok J k i r es \<Longrightarrow> k \<le> k' \<Longrightarrow> signoff_ok J k' i r es"
  by (force simp: signoff_ok_def split: option.splits)

text \<open>The status a case has before an entry, with or without a record.\<close>

definition status_of :: "SignoffRecord option \<Rightarrow> SignoffStatus" where
  "status_of r = (case r of None \<Rightarrow> SignoffPending | Some r \<Rightarrow> so_Status r)"

lemma signoff_ok_snoc:
  assumes "signoff_ok J k i r0 es" "agrees r e" "entry_ok J e" "sa_CaseID e = i"
    "sa_FromStatus e = status_of r0" "so_ID r \<noteq> uuid_Nil" "k < sa_OccurredAt e"
    "\<And>r1. r0 = Some r1 \<Longrightarrow> so_TenantID r1 = so_TenantID r"
  shows "signoff_ok J (sa_OccurredAt e) i (Some r) (es @ [e])"
proof (cases r0)
  case None
  with assms show ?thesis by (auto simp: signoff_ok_def status_of_def agrees_def)
next
  case (Some r1)
  with assms(8) have "so_TenantID r1 = so_TenantID r" by simp
  with assms Some show ?thesis
    by (fastforce simp: signoff_ok_def status_of_def agrees_def trail_snoc sorted_wrt_append)
qed

section \<open>The contract of a sign-off repository\<close>

locale signoff_repository =
  fixes S :: "'s SignoffRepository"
    and recOf :: "'s \<Rightarrow> uuid \<Rightarrow> SignoffRecord option"
    and auditOf :: "'s \<Rightarrow> uuid \<Rightarrow> AuditEntry list"
  assumes Get_law: "sr_Get S s t i =
      (case recOf s i of
         None \<Rightarrow> Inl ErrNotFound
       | Some r \<Rightarrow> if so_TenantID r \<noteq> t then Inl ErrNotFound else Inr r)"
    and Upsert_law: "so_TenantID r = t \<Longrightarrow> so_ID r \<noteq> uuid_Nil \<Longrightarrow> so_CaseID r = i \<Longrightarrow>
      \<exists>s'. sr_Upsert S s t n (Some r) = (Inr (), s') \<and> recOf s' = (recOf s)(i \<mapsto> r) \<and>
           auditOf s' = auditOf s"
    and Append_law: "sa_TenantID e = t \<Longrightarrow> sa_ID e \<noteq> uuid_Nil \<Longrightarrow> sa_CaseID e = i \<Longrightarrow>
      \<exists>s'. sr_AppendAudit S s t n (Some e) = (Inr (), s') \<and> recOf s' = recOf s \<and>
           auditOf s' = (auditOf s)(i := auditOf s i @ [e])"
    and List_law: "sr_ListAudit S s t i =
      Inr (sort_by (\<lambda>a b. sa_OccurredAt a < sa_OccurredAt b)
            (filter (\<lambda>e. sa_TenantID e = t) (auditOf s i)))"
begin

text \<open>One recorded change: the new record of case \<open>i\<close> and the entry that explains it.\<close>

definition recorded :: "uuid set \<Rightarrow> time \<Rightarrow> uuid \<Rightarrow> SignoffRecord \<Rightarrow> 's \<Rightarrow> 's \<Rightarrow> bool" where
  "recorded J at i r s s' \<longleftrightarrow>
     (\<exists>e. agrees r e \<and> entry_ok J e \<and> sa_CaseID e = i \<and> sa_FromStatus e = status_of (recOf s i) \<and>
        so_ID r \<noteq> uuid_Nil \<and> sa_OccurredAt e = at \<and>
        recOf s' = (recOf s)(i \<mapsto> r) \<and> auditOf s' = (auditOf s)(i := auditOf s i @ [e]))"

lemma store_with_audit_ok:
  assumes "so_TenantID r = t" "so_ID r \<noteq> uuid_Nil" "so_CaseID r = i"
    "sa_TenantID e = t" "sa_ID e \<noteq> uuid_Nil" "sa_CaseID e = i"
  shows "\<exists>s'. store_with_audit S t n n' r e s = (None, s') \<and> recOf s' = (recOf s)(i \<mapsto> r) \<and>
    auditOf s' = (auditOf s)(i := auditOf s i @ [e])"
proof -
  obtain s1 where 1: "sr_Upsert S s t n (Some r) = (Inr (), s1)" "recOf s1 = (recOf s)(i \<mapsto> r)"
      "auditOf s1 = auditOf s"
    using Upsert_law [OF assms(1-3)] by blast
  obtain s2 where "sr_AppendAudit S s1 t n' (Some e) = (Inr (), s2)" "recOf s2 = recOf s1"
      "auditOf s2 = (auditOf s1)(i := auditOf s1 i @ [e])"
    using Append_law [OF assms(4-6)] by blast
  with 1 show ?thesis by (simp add: store_with_audit_def)
qed

text \<open>Whose record the store holds for a case: none, or one of the tenant that acts.\<close>

definition owned :: "uuid \<Rightarrow> uuid \<Rightarrow> 's \<Rightarrow> bool" where
  "owned t i s \<longleftrightarrow> (\<forall>r. recOf s i = Some r \<longrightarrow> so_TenantID r = t \<and> so_CaseID r = i \<and> so_ID r \<noteq> uuid_Nil)"

lemma owned_Get: "owned t i s \<Longrightarrow> sr_Get S s t i = (case recOf s i of None \<Rightarrow> Inl ErrNotFound | Some r \<Rightarrow> Inr r)"
  by (auto simp: owned_def Get_law split: option.splits)

lemma decide_ok:
  assumes "owned t i s" "n \<noteq> uuid_Nil" "n' \<noteq> uuid_Nil" "di_TenantID input = t" "di_CaseID input = i"
    "us_ID u \<in> J" "status \<noteq> SignoffPending" "status = SignoffRejected \<longrightarrow> notes \<noteq> []"
  shows "\<exists>r s'. decide fn status S at n n' u input notes s = (Inr r, s') \<and> recorded J at i r s s' \<and>
    so_Status r = status \<and> so_CaseVersion r = di_CaseVersion input \<and> so_ReviewerID r = us_ID u \<and>
    so_TenantID r = t"
proof -
  define c where "c = (case recOf s i of None \<Rightarrow> initial_record n i t (di_CaseVersion input) at | Some r \<Rightarrow> r)"
  have c: "currentOrInitial S n t i (di_CaseVersion input) at s = Inr c"
    using assms(1) by (simp add: currentOrInitial_def owned_Get c_def split: option.splits)
  have st: "so_Status c = status_of (recOf s i)" and id: "so_ID c \<noteq> uuid_Nil"
    using assms(1,2) by (auto simp: c_def status_of_def initial_record_def owned_def split: option.splits)
  define r where "r = \<lparr>so_ID = so_ID c, so_CaseID = i, so_TenantID = t, so_Status = status,
    so_ReviewerID = us_ID u, so_Notes = notes, so_CaseVersion = di_CaseVersion input,
    so_Source = DecisionSourceReviewer, so_DecidedAt = at,
    so_CreatedAt = (if so_CreatedAt c = zero_time then at else so_CreatedAt c)\<rparr>"
  define e where "e = \<lparr>sa_ID = n', sa_CaseID = i, sa_TenantID = t, sa_FromStatus = so_Status c,
    sa_ToStatus = status, sa_Actor = us_ID u, sa_Source = DecisionSourceReviewer,
    sa_Notes = notes, sa_CaseVersion = di_CaseVersion input, sa_OccurredAt = at\<rparr>"
  obtain s' where s': "store_with_audit S t n n' r e s = (None, s')" "recOf s' = (recOf s)(i \<mapsto> r)"
      "auditOf s' = (auditOf s)(i := auditOf s i @ [e])"
    using store_with_audit_ok [of r t i e n n' s] id assms(3) by (auto simp: r_def e_def)
  have "decide fn status S at n n' u input notes s = (Inr r, s')"
    using s'(1) c assms(4,5) by (auto simp: decide_def Let_def r_def e_def)
  moreover have "recorded J at i r s s'"
    using s' st id assms(6-8)
    by (auto simp: recorded_def agrees_def entry_ok_def r_def e_def intro!: exI [of _ e])
  ultimately show ?thesis by (auto simp: r_def)
qed

lemma recorded_keeps:
  assumes "recorded J at i r s s'" "\<forall>j. signoff_ok J k j (recOf s j) (auditOf s j)" "k < at"
    "owned (so_TenantID r) i s"
  shows "\<forall>j. signoff_ok J at j (recOf s' j) (auditOf s' j)"
proof
  fix j
  from assms(1) obtain e where e: "agrees r e" "entry_ok J e" "sa_CaseID e = i"
    "sa_FromStatus e = status_of (recOf s i)" "so_ID r \<noteq> uuid_Nil" "sa_OccurredAt e = at"
    "recOf s' = (recOf s)(i \<mapsto> r)" "auditOf s' = (auditOf s)(i := auditOf s i @ [e])"
    by (auto simp: recorded_def)
  show "signoff_ok J at j (recOf s' j) (auditOf s' j)"
  proof (cases "j = i")
    case True
    have "signoff_ok J (sa_OccurredAt e) i (Some r) (auditOf s i @ [e])"
      by (rule signoff_ok_snoc [OF assms(2) [rule_format] e(1-5)])
         (use assms(3,4) e(6) in \<open>auto simp: owned_def\<close>)
    then show ?thesis using e True by simp
  next
    case False
    then show ?thesis
      using e assms(2,3) signoff_ok_mono [of J k j "recOf s j" "auditOf s j" at] by simp
  qed
qed

lemma Await_ok:
  assumes "owned t i s" "n \<noteq> uuid_Nil" "n' \<noteq> uuid_Nil" "i \<noteq> uuid_Nil" "reader t i = Inr v"
  shows "\<exists>r evs s'. MarkAwaitingSignoff S reader at n n' t i s = (Inr r, evs, s') \<and>
    (recOf s i = Some r \<and> s' = s \<or>
     recOf s i = None \<and> recorded J at i r s s' \<and> so_Status r = SignoffPending \<and> so_TenantID r = t)"
proof (cases "recOf s i")
  case (Some r)
  then show ?thesis
    using assms by (simp add: MarkAwaitingSignoff_def owned_Get Let_def)
next
  case None
  define e where "e = \<lparr>sa_ID = n', sa_CaseID = i, sa_TenantID = t, sa_FromStatus = SignoffPending,
    sa_ToStatus = SignoffPending, sa_Actor = uuid_Nil, sa_Source = DecisionSourceInitial,
    sa_Notes = ''case entered sign-off workflow'', sa_CaseVersion = v, sa_OccurredAt = at\<rparr>"
  let ?r = "initial_record n i t v at"
  obtain s' where "store_with_audit S t n n' ?r e s = (None, s')" "recOf s' = (recOf s)(i \<mapsto> ?r)"
      "auditOf s' = (auditOf s)(i := auditOf s i @ [e])"
    using store_with_audit_ok [of ?r t i e n n' s] assms(2,3) by (auto simp: initial_record_def e_def)
  moreover from this have "recorded J at i ?r s s'"
    using None assms(2)
    by (auto simp: recorded_def agrees_def entry_ok_def initial_record_def e_def status_of_def
        intro!: exI [of _ e])
  ultimately show ?thesis
    using assms None
    by (simp add: MarkAwaitingSignoff_def owned_Get Let_def e_def) (simp add: initial_record_def)
qed

text \<open>Re-review: nothing to do, or the approval is taken back.\<close>

lemma ReReview_ok:
  assumes "owned t i s" "n \<noteq> uuid_Nil" "i \<noteq> uuid_Nil" "reader t i = Inr v"
  shows "\<exists>r b evs s'. ReReviewOnCaseUpdate S reader at n t i s = (Inr (r, b), evs, s') \<and>
    (\<not> b \<and> s' = s \<and> r = recOf s i \<and>
       (\<forall>r. recOf s i = Some r \<and> so_Status r = SignoffApproved \<longrightarrow> so_CaseVersion r = v) \<or>
     b \<and> (\<exists>r'. r = Some r' \<and> recorded J at i r' s s' \<and> so_Status r' = SignoffPending \<and> so_TenantID r' = t))"
proof (cases "\<exists>c. recOf s i = Some c \<and> so_Status c = SignoffApproved \<and> so_CaseVersion c \<noteq> v")
  case True
  then obtain c where c: "recOf s i = Some c" "so_Status c = SignoffApproved" "so_CaseVersion c \<noteq> v"
    by blast
  define r where "r = \<lparr>so_ID = so_ID c, so_CaseID = i, so_TenantID = t, so_Status = SignoffPending,
    so_ReviewerID = so_ReviewerID c, so_Notes = [], so_CaseVersion = v,
    so_Source = DecisionSourceReReview, so_DecidedAt = at, so_CreatedAt = so_CreatedAt c\<rparr>"
  define e where "e = \<lparr>sa_ID = n, sa_CaseID = i, sa_TenantID = t, sa_FromStatus = SignoffApproved,
    sa_ToStatus = SignoffPending, sa_Actor = uuid_Nil, sa_Source = DecisionSourceReReview,
    sa_Notes = rereview_reason (so_CaseVersion c) v, sa_CaseVersion = v, sa_OccurredAt = at\<rparr>"
  have id: "so_ID c \<noteq> uuid_Nil" using assms(1) c(1) by (simp add: owned_def)
  obtain s' where s': "store_with_audit S t n n r e s = (None, s')" "recOf s' = (recOf s)(i \<mapsto> r)"
      "auditOf s' = (auditOf s)(i := auditOf s i @ [e])"
    using store_with_audit_ok [of r t i e n n s] id assms(2) by (auto simp: r_def e_def)
  have "ReReviewOnCaseUpdate S reader at n t i s =
      (Inr (Some r, True), [pending_event t i (rereview_reason (so_CaseVersion c) v) v at], s')"
    using assms c s'(1) by (simp add: ReReviewOnCaseUpdate_def owned_Get Let_def r_def e_def)
  moreover have "recorded J at i r s s'"
    using s' c id
    by (auto simp: recorded_def agrees_def entry_ok_def r_def e_def status_of_def intro!: exI [of _ e])
  moreover have "so_Status r = SignoffPending \<and> so_TenantID r = t" by (simp add: r_def)
  ultimately show ?thesis by blast
next
  case False
  then show ?thesis
    using assms by (auto simp: ReReviewOnCaseUpdate_def owned_Get split: option.splits)
qed

end

interpretation mem_sign: signoff_repository mem_signoff ss_records ss_audit
proof (unfold_locales, goal_cases)
  case (1 s t i)
  then show ?case by (simp add: mem_signoff_def signoff_Get_def)
next
  case (2 r t i s n)
  then show ?case by (simp add: mem_signoff_def signoff_Upsert_def so_requireMatchingTenant_def Let_def)
next
  case (3 e t i s n)
  then show ?case by (simp add: mem_signoff_def signoff_AppendAudit_def so_requireMatchingTenant_def Let_def)
next
  case (4 s t i)
  then show ?case by (simp add: mem_signoff_def signoff_ListAudit_def)
qed

lemma validateCommon_Inr:
  "validateCommon reader c input = Inr u \<longleftrightarrow>
     c = Some u \<and> User_HasRole u RoleJudge \<and> di_CaseID input \<noteq> uuid_Nil \<and>
     di_Acknowledgement input = AcknowledgementConfirmation \<and>
     reader (di_TenantID input) (di_CaseID input) = Inr (di_CaseVersion input)"
  by (auto simp: validateCommon_def RequireSignoffPermission_def require_perm_def UserFromContext_def
      User_HasPermission_def User_HasRole_def Let_def split: option.splits sum.splits if_splits)

end
