(* ===== verification/Review.thy ===== *)
theory Review
  imports Signoff
begin

text \<open>
  The case service and the sign-off service together: cases move and change, judges decide
  on the version they reviewed, and the gate of \<open>guardrail.CanFinalize\<close> opens. The contracts
  of both repositories are combined in one locale, the runs of the combined system are a
  step relation, and the properties say when a case's output can be finalised.
\<close>

section \<open>Runs of the combined system\<close>

text \<open>
  \<open>J\<close> is the set of the judges who act in a run: it contains every judge whose context reaches
  a decision.
\<close>

definition acting :: "uuid set \<Rightarrow> ctx \<Rightarrow> bool" where
  "acting J c \<longleftrightarrow> (\<forall>u. c = Some u \<and> User_HasRole u RoleJudge \<longrightarrow> us_ID u \<in> J)"

text \<open>
  The state is that of the two repositories and the clock. A metadata update is followed by
  the re-review of its case, as the comment of \<open>ReReviewOnCaseUpdate\<close> asks of the callers.
\<close>

inductive review_step ::
  "'c CaseRepository \<Rightarrow> 's SignoffRepository \<Rightarrow> ('c \<Rightarrow> uuid \<Rightarrow> Case option) \<Rightarrow> uuid set
    \<Rightarrow> 'c \<times> 's \<times> time \<Rightarrow> 'c \<times> 's \<times> time \<Rightarrow> bool"
  for R S caseOf J where
  create: "k < now \<Longrightarrow> NewCase now n input = Inr c \<Longrightarrow> n \<noteq> uuid_Nil \<Longrightarrow> caseOf cs n = None \<Longrightarrow>
    review_step R S caseOf J (cs, s, k) (snd (cr_Create R cs t n' (Some c)), s, now)"
| transition: "k < now \<Longrightarrow>
    review_step R S caseOf J (cs, s, k) (snd (Transition (Some R) now n ct ti cs), s, now)"
| reopen: "k < now \<Longrightarrow>
    review_step R S caseOf J (cs, s, k) (snd (Reopen (Some R) now n ct t i why cs), s, now)"
| archive: "k < now \<Longrightarrow>
    review_step R S caseOf J (cs, s, k) (snd (Archive (Some R) now n ct t i why cs), s, now)"
| update: "k < now \<Longrightarrow> now < now' \<Longrightarrow> n \<noteq> uuid_Nil \<Longrightarrow>
    cs' = snd (updateMetadata (Some R) now mi merge cs) \<Longrightarrow>
    review_step R S caseOf J (cs, s, k)
      (cs', snd (snd (ReReviewOnCaseUpdate S (CaselifecycleVersionReader R cs') now' n
              (mu_TenantID mi) (mu_CaseID mi) s)), now')"
| await: "k < now \<Longrightarrow> n \<noteq> uuid_Nil \<Longrightarrow> n' \<noteq> uuid_Nil \<Longrightarrow>
    review_step R S caseOf J (cs, s, k)
      (cs, snd (snd (MarkAwaitingSignoff S (CaselifecycleVersionReader R cs) now n n' t i s)), now)"
| approve: "k < now \<Longrightarrow> n \<noteq> uuid_Nil \<Longrightarrow> n' \<noteq> uuid_Nil \<Longrightarrow> acting J ct \<Longrightarrow>
    review_step R S caseOf J (cs, s, k)
      (cs, snd (Approve S (CaselifecycleVersionReader R cs) now n n' ct input s), now)"
| reject: "k < now \<Longrightarrow> n \<noteq> uuid_Nil \<Longrightarrow> n' \<noteq> uuid_Nil \<Longrightarrow> acting J ct \<Longrightarrow>
    review_step R S caseOf J (cs, s, k)
      (cs, snd (Reject S (CaselifecycleVersionReader R cs) now n n' ct input s), now)"
| rereview: "k < now \<Longrightarrow> n \<noteq> uuid_Nil \<Longrightarrow>
    review_step R S caseOf J (cs, s, k)
      (cs, snd (snd (ReReviewOnCaseUpdate S (CaselifecycleVersionReader R cs) now n t i s)), now)"

section \<open>The invariant\<close>

locale review_system =
  cr: case_repository R caseOf logOf + sr: signoff_repository S recOf auditOf
  for R :: "'c CaseRepository" and caseOf :: "'c \<Rightarrow> uuid \<Rightarrow> Case option"
    and logOf :: "'c \<Rightarrow> uuid \<Rightarrow> TransitionRecord list"
    and S :: "'s SignoffRepository" and recOf :: "'s \<Rightarrow> uuid \<Rightarrow> SignoffRecord option"
    and auditOf :: "'s \<Rightarrow> uuid \<Rightarrow> AuditEntry list" +
  fixes J :: "uuid set"
begin

abbreviation reader :: "'c \<Rightarrow> CaseVersionReader" where
  "reader cs \<equiv> CaselifecycleVersionReader R cs"

text \<open>
  A record is of a stored case and its tenant; an approval is of the case's current version.
  In between an update and the re-review of case \<open>x\<close> the latter may fail for \<open>x\<close>.
\<close>

definition linked_except :: "uuid option \<Rightarrow> 'c \<Rightarrow> 's \<Rightarrow> bool" where
  "linked_except x cs s \<longleftrightarrow>
     (\<forall>i r. recOf s i = Some r \<longrightarrow> i \<noteq> uuid_Nil \<and>
        (\<exists>c. caseOf cs i = Some c \<and> cs_TenantID c = so_TenantID r \<and>
           (so_Status r = SignoffApproved \<and> Some i \<noteq> x \<longrightarrow> so_CaseVersion r = cs_MetadataVersion c)))"

definition review_ok :: "'c \<times> 's \<times> time \<Rightarrow> bool" where
  "review_ok x \<longleftrightarrow>
     (case x of (cs, s, k) \<Rightarrow>
        cr.cases_ok k cs \<and> (\<forall>i. signoff_ok J k i (recOf s i) (auditOf s i)) \<and> linked_except None cs s)"

lemma reader_Inr:
  "reader cs t i = Inr v \<longleftrightarrow> (\<exists>c. caseOf cs i = Some c \<and> cs_TenantID c = t \<and> cs_MetadataVersion c = v)"
  by (auto simp: CaselifecycleVersionReader_def cr.Get_law seen_def split: option.splits sum.splits)

lemma reader_owned:
  assumes "reader cs t i = Inr v" "linked_except x cs s" "\<forall>i. signoff_ok J k i (recOf s i) (auditOf s i)"
  shows "sr.owned t i s"
proof -
  have "so_TenantID r = t \<and> so_CaseID r = i \<and> so_ID r \<noteq> uuid_Nil" if "recOf s i = Some r" for r
  proof -
    have "signoff_ok J k i (Some r) (auditOf s i)" using assms(3) that by metis
    then show ?thesis
      using assms(1,2) that by (fastforce simp: reader_Inr linked_except_def signoff_ok_def)
  qed
  then show ?thesis by (simp add: sr.owned_def)
qed

text \<open>A change of the cases that keeps versions and tenants keeps the links.\<close>

definition version_of :: "'c \<Rightarrow> uuid \<Rightarrow> (uuid \<times> 64 word) option" where
  "version_of cs i = map_option (\<lambda>c. (cs_TenantID c, cs_MetadataVersion c)) (caseOf cs i)"

lemma linked_version:
  assumes "linked_except x cs s" "\<And>i. version_of cs i \<noteq> None \<Longrightarrow> version_of cs' i = version_of cs i"
  shows "linked_except x cs' s"
  unfolding linked_except_def
proof (intro allI impI)
  fix i r
  assume "recOf s i = Some r"
  with assms(1) obtain c where c: "i \<noteq> uuid_Nil" "caseOf cs i = Some c" "cs_TenantID c = so_TenantID r"
    "so_Status r = SignoffApproved \<and> Some i \<noteq> x \<longrightarrow> so_CaseVersion r = cs_MetadataVersion c"
    by (auto simp: linked_except_def)
  moreover obtain c' where "caseOf cs' i = Some c'" "cs_TenantID c' = cs_TenantID c"
      "cs_MetadataVersion c' = cs_MetadataVersion c"
    using assms(2) [of i] c(2) by (auto simp: version_of_def)
  ultimately show "i \<noteq> uuid_Nil \<and> (\<exists>c. caseOf cs' i = Some c \<and> cs_TenantID c = so_TenantID r \<and>
      (so_Status r = SignoffApproved \<and> Some i \<noteq> x \<longrightarrow> so_CaseVersion r = cs_MetadataVersion c))"
    by metis
qed

lemma carried_version: "cr.carried i cs plan out \<Longrightarrow> version_of (snd out) j = version_of cs j"
  by (auto simp: cr.carried_def version_of_def moved_def split: sum.splits)

lemma written_linked:
  assumes "cr.written i cs (plan_metadata now mi merge (caseOf cs i)) out" "linked_except None cs s"
  shows "linked_except (Some i) (snd out) s"
proof (cases "plan_metadata now mi merge (caseOf cs i)")
  case (Inl err)
  then show ?thesis using assms by (auto simp: cr.written_def linked_except_def)
next
  case (Inr d)
  then obtain c where "caseOf cs i = Some c" "cs_TenantID d = cs_TenantID c"
    "caseOf (snd out) = (caseOf cs)(i \<mapsto> d)"
    using assms(1) plan_metadata_Inr by (fastforce simp: cr.written_def seen_Some)
  then show ?thesis using assms(2) by (fastforce simp: linked_except_def)
qed

text \<open>A recorded decision on a case whose version the reader gave.\<close>

lemma recorded_review_ok:
  assumes "cr.cases_ok k cs" "\<forall>i. signoff_ok J k i (recOf s i) (auditOf s i)"
    "linked_except x cs s" "x \<in> {None, Some i}" "reader cs t i = Inr v"
    "sr.recorded J at i r s s'" "so_TenantID r = t" "k < at"
    "so_Status r = SignoffApproved \<longrightarrow> so_CaseVersion r = v" "i \<noteq> uuid_Nil"
  shows "review_ok (cs, s', at)"
proof -
  have own: "sr.owned (so_TenantID r) i s"
    using reader_owned [OF assms(5,3,2)] assms(7) by simp
  have rec: "recOf s' = (recOf s)(i \<mapsto> r)" using assms(6) by (auto simp: sr.recorded_def)
  have "linked_except None cs s'"
    using assms(3-5,7,9,10) by (auto simp: linked_except_def rec reader_Inr)
  then show ?thesis
    using sr.recorded_keeps [OF assms(6,2,8) own] cr.cases_ok_mono [OF assms(1)] assms(8)
    by (simp add: review_ok_def)
qed

lemma signoffs_ok_mono:
  "\<forall>i. signoff_ok J k i (recOf s i) (auditOf s i) \<Longrightarrow> k \<le> k' \<Longrightarrow>
     \<forall>i. signoff_ok J k' i (recOf s i) (auditOf s i)"
  using signoff_ok_mono by blast

lemma review_ok_mono:
  "cr.cases_ok k cs \<Longrightarrow> \<forall>i. signoff_ok J k i (recOf s i) (auditOf s i) \<Longrightarrow> linked_except None cs s \<Longrightarrow>
     k \<le> k' \<Longrightarrow> review_ok (cs, s, k')"
  using cr.cases_ok_mono signoffs_ok_mono by (simp add: review_ok_def)

lemma rereview_review_ok:
  assumes "cr.cases_ok k cs" "\<forall>i. signoff_ok J k i (recOf s i) (auditOf s i)"
    "linked_except x cs s" "x \<in> {None, Some i}" "k < at" "n \<noteq> uuid_Nil"
    "x = None \<or> (\<exists>v. reader cs t i = Inr v)"
  shows "review_ok (cs, snd (snd (ReReviewOnCaseUpdate S (reader cs) at n t i s)), at)"
proof (cases "i \<noteq> uuid_Nil \<and> (\<exists>v. reader cs t i = Inr v)")
  case True
  then obtain v where v: "reader cs t i = Inr v" "i \<noteq> uuid_Nil" by blast
  from sr.ReReview_ok [OF reader_owned [OF v(1) assms(3,2)] assms(6) v(2), of "reader cs" v at J, OF v(1)]
  obtain r b evs s' where o: "ReReviewOnCaseUpdate S (reader cs) at n t i s = (Inr (r, b), evs, s')"
    "\<not> b \<and> s' = s \<and> (\<forall>r. recOf s i = Some r \<and> so_Status r = SignoffApproved \<longrightarrow> so_CaseVersion r = v) \<or>
     (\<exists>r'. sr.recorded J at i r' s s' \<and> so_Status r' = SignoffPending \<and> so_TenantID r' = t)"
    by blast
  from o(2) show ?thesis
  proof
    assume same: "\<not> b \<and> s' = s \<and>
      (\<forall>r. recOf s i = Some r \<and> so_Status r = SignoffApproved \<longrightarrow> so_CaseVersion r = v)"
    have "linked_except None cs s"
      using assms(3,4) same v(1) by (fastforce simp: linked_except_def reader_Inr)
    then show ?thesis using review_ok_mono [OF assms(1,2)] assms(5) same o(1) by simp
  next
    assume "\<exists>r'. sr.recorded J at i r' s s' \<and> so_Status r' = SignoffPending \<and> so_TenantID r' = t"
    then show ?thesis
      using recorded_review_ok [OF assms(1-4) v(1)] v(2) assms(5) o(1) by auto
  qed
next
  case False
  then have "snd (snd (ReReviewOnCaseUpdate S (reader cs) at n t i s)) = s"
    by (auto simp: ReReviewOnCaseUpdate_def split: sum.splits)
  moreover have "linked_except None cs s"
    using assms(3,4,7) False by (fastforce simp: linked_except_def)
  ultimately show ?thesis using review_ok_mono [OF assms(1,2)] assms(5) by simp
qed

lemma review_ok_later: "review_ok (cs, s, k) \<Longrightarrow> k < now \<Longrightarrow> review_ok (cs, s, now)"
  using review_ok_mono [of k cs s now] by (simp add: review_ok_def)

lemma case_move_review_ok:
  assumes "review_ok (cs, s, k)" "k < now" "cr.effect i now cs cs'" "\<And>j. version_of cs' j = version_of cs j"
  shows "review_ok (cs', s, now)"
  using assms cr.effect_keeps [of k cs now i cs'] linked_version [of None cs s cs']
    signoffs_ok_mono [of k s now] by (simp add: review_ok_def)

lemma decision_review_ok:
  assumes "review_ok (cs, s, k)" "k < at" "n \<noteq> uuid_Nil" "n' \<noteq> uuid_Nil" "acting J ct"
    "validateCommon (reader cs) ct input = Inr u" "status \<noteq> SignoffPending"
    "status = SignoffRejected \<longrightarrow> notes \<noteq> []"
  shows "review_ok (cs, snd (decide fn status S at n n' u input notes s), at)"
proof -
  have ok: "cr.cases_ok k cs" "\<forall>i. signoff_ok J k i (recOf s i) (auditOf s i)" "linked_except None cs s"
    using assms(1) by (auto simp: review_ok_def)
  have v: "ct = Some u" "User_HasRole u RoleJudge" "di_CaseID input \<noteq> uuid_Nil"
    "reader cs (di_TenantID input) (di_CaseID input) = Inr (di_CaseVersion input)"
    using assms(6) by (auto simp: validateCommon_Inr)
  have "us_ID u \<in> J" using assms(5) v(1,2) by (simp add: acting_def)
  from sr.decide_ok [OF reader_owned [OF v(4) ok(3,2)] assms(3,4) refl refl this assms(7,8)]
  obtain r s' where "decide fn status S at n n' u input notes s = (Inr r, s')"
      "sr.recorded J at (di_CaseID input) r s s'" "so_CaseVersion r = di_CaseVersion input"
      "so_TenantID r = di_TenantID input"
    by blast
  then show ?thesis
    using recorded_review_ok [OF ok _ v(4), where r = r and s' = s' and at = at] assms(2) v(3) by simp
qed

lemma review_step_keeps:
  assumes "review_step R S caseOf J x y" "review_ok x"
  shows "review_ok y"
  using assms
proof (induction rule: review_step.induct)
  case (create k now n input c cs s t n')
  let ?cs = "snd (cr_Create R cs t n' (Some c))"
  have ok: "cr.cases_ok k cs" "\<forall>i. signoff_ok J k i (recOf s i) (auditOf s i)" "linked_except None cs s"
    using create(5) by (auto simp: review_ok_def)
  from cr.created_cases [OF create(2,3), of cs t n'] show ?case
  proof
    assume "?cs = cs"
    then show ?thesis using review_ok_mono [OF ok] create(1) by simp
  next
    assume new: "caseOf ?cs = (caseOf cs)(n \<mapsto> c) \<and> logOf ?cs = logOf cs"
    have "cr.cases_ok now ?cs" using cr.created_ok [OF ok(1) create(1,2,4)] new by blast
    moreover have "linked_except None ?cs s"
      by (rule linked_version [OF ok(3)]) (use new create(4) in \<open>auto simp: version_of_def\<close>)
    ultimately show ?thesis
      using signoffs_ok_mono [OF ok(2)] create(1) by (simp add: review_ok_def)
  qed
next
  case (transition k now cs s n ct ti)
  have ok: "cr.cases_ok k cs" using transition(2) by (simp add: review_ok_def)
  from case_move_review_ok [OF transition(2,1) cr.operation_effects(1) [OF ok refl]]
    carried_version [OF cr.Transition_carried [OF ok refl]]
  show ?case by blast
next
  case (reopen k now cs s n ct t i why)
  have ok: "cr.cases_ok k cs" using reopen(2) by (simp add: review_ok_def)
  from case_move_review_ok [OF reopen(2,1) cr.operation_effects(2) [OF ok]]
    carried_version [OF cr.Reopen_carried [OF ok]]
  show ?case by blast
next
  case (archive k now cs s n ct t i why)
  have ok: "cr.cases_ok k cs" using archive(2) by (simp add: review_ok_def)
  from case_move_review_ok [OF archive(2,1) cr.operation_effects(3) [OF ok]]
    carried_version [OF cr.Archive_carried [OF ok]]
  show ?case by blast
next
  case (update k now now' n cs' mi merge cs s)
  let ?i = "mu_CaseID mi"
  have ok: "cr.cases_ok k cs" "\<forall>i. signoff_ok J k i (recOf s i) (auditOf s i)" "linked_except None cs s"
    using update(5) by (auto simp: review_ok_def)
  have w: "cr.written ?i cs (plan_metadata now mi merge (caseOf cs ?i)) (updateMetadata (Some R) now mi merge cs)"
    by (rule cr.updateMetadata_written [OF ok(1) refl])
  have ok': "cr.cases_ok now cs'" "\<forall>i. signoff_ok J now i (recOf s i) (auditOf s i)"
    using cr.effect_keeps [OF ok(1) update(1) cr.operation_effects(4) [OF ok(1) refl]] update(4)
      signoffs_ok_mono [OF ok(2) less_imp_le [OF update(1)]] by simp_all
  show ?case
  proof (cases "plan_metadata now mi merge (caseOf cs ?i)")
    case (Inl err)
    then have "cs' = cs" using w update(4) by (simp add: cr.written_def)
    then show ?thesis
      using rereview_review_ok [OF ok' _ _ update(2,3)] ok(3) by blast
  next
    case (Inr d)
    then obtain c where "seen (mu_TenantID mi) (caseOf cs ?i) = Some c" "cs_TenantID d = cs_TenantID c"
        "caseOf cs' = (caseOf cs)(?i \<mapsto> d)"
      using w update(4) plan_metadata_Inr by (fastforce simp: cr.written_def)
    then have "\<exists>v. reader cs' (mu_TenantID mi) ?i = Inr v"
      by (auto simp: reader_Inr seen_Some)
    then show ?thesis
      using rereview_review_ok [OF ok', of "Some ?i"] written_linked [OF w ok(3)] update(2-4) by blast
  qed
next
  case (await k now n n' cs s t i)
  have ok: "cr.cases_ok k cs" "\<forall>i. signoff_ok J k i (recOf s i) (auditOf s i)" "linked_except None cs s"
    using await(4) by (auto simp: review_ok_def)
  show ?case
  proof (cases "i \<noteq> uuid_Nil \<and> (\<exists>v. reader cs t i = Inr v)")
    case True
    then obtain v where v: "i \<noteq> uuid_Nil" "reader cs t i = Inr v" by blast
    from sr.Await_ok [OF reader_owned [OF v(2) ok(3,2)] await(2,3) v(1), of "reader cs" v now J, OF v(2)]
    show ?thesis
      using recorded_review_ok [OF ok _ v(2)] review_ok_mono [OF ok] await(1) v(1) by fastforce
  next
    case False
    then have "snd (snd (MarkAwaitingSignoff S (reader cs) now n n' t i s)) = s"
      by (auto simp: MarkAwaitingSignoff_def split: sum.splits)
    then show ?thesis using review_ok_mono [OF ok] await(1) by simp
  qed
next
  case (approve k now n n' ct cs s input)
  note keep = review_ok_later [OF approve(5,1)]
  show ?case
  proof (cases "validateCommon (reader cs) ct input")
    case (Inr u)
    show ?thesis unfolding Approve_def Inr sum.case
      by (rule decision_review_ok [OF approve(5,1-4) Inr]) simp_all
  qed (use keep in \<open>simp add: Approve_def\<close>)
next
  case (reject k now n n' ct cs s input)
  note keep = review_ok_later [OF reject(5,1)]
  show ?case
  proof (cases "TrimSpace (di_Notes input) = [] \<or> \<not> is_ok (validateCommon (reader cs) ct input)")
    case True
    then have "snd (Reject S (reader cs) now n n' ct input s) = s"
      by (auto simp: Reject_def is_ok_def Let_def split: sum.splits)
    then show ?thesis using keep by simp
  next
    case False
    then obtain u where u: "validateCommon (reader cs) ct input = Inr u" by (auto simp: is_ok_iff)
    then have "Reject S (reader cs) now n n' ct input s =
        decide ''Reject'' SignoffRejected S now n n' u input (TrimSpace (di_Notes input)) s"
      using False by (simp add: Reject_def Let_def)
    then show ?thesis
      using decision_review_ok [OF reject(5,1-4) u, of SignoffRejected] False by simp
  qed
next
  case (rereview k now n cs s t i)
  then show ?case
    using rereview_review_ok [of k cs s None] by (simp add: review_ok_def)
qed

end

section \<open>The in-memory repositories together\<close>

interpretation mem_review: review_system "mem_cases P" stored st_transitions mem_signoff ss_records ss_audit J
  for P J
  by unfold_locales

abbreviation review_run :: "platform \<Rightarrow> uuid set \<Rightarrow> CaseStore \<times> SignoffStore \<times> time
    \<Rightarrow> CaseStore \<times> SignoffStore \<times> time \<Rightarrow> bool" where
  "review_run P J \<equiv> (review_step (mem_cases P) mem_signoff stored J)\<^sup>*\<^sup>*"

lemma review_run_ok:
  assumes "review_run P J (cases_empty, signoff_empty, k0) x"
  shows "mem_review.review_ok J x"
  using assms
proof (induction rule: rtranclp_induct)
  case base
  show ?case
    by (simp add: mem_review.review_ok_def mem_case.cases_ok_def mem_review.linked_except_def
        cases_empty_def signoff_empty_def case_ok_def signoff_ok_def)
next
  case (step y z)
  then show ?case using mem_review.review_step_keeps by blast
qed

lemma review_run_signoffs:
  "review_run P J (cases_empty, signoff_empty, k0) (cs, s, k) \<Longrightarrow>
     signoff_ok J k i (ss_records s i) (ss_audit s i)"
  by (drule review_run_ok) (simp add: mem_review.review_ok_def)

lemma review_run_linked:
  "review_run P J (cases_empty, signoff_empty, k0) (cs, s, k) \<Longrightarrow> ss_records s i = Some r \<Longrightarrow>
     \<exists>c. stored cs i = Some c \<and> cs_TenantID c = so_TenantID r \<and>
       (so_Status r = SignoffApproved \<longrightarrow> so_CaseVersion r = cs_MetadataVersion c)"
  by (drule review_run_ok) (auto simp: mem_review.review_ok_def mem_review.linked_except_def)

lemma review_run_not_Nil:
  "review_run P J (cases_empty, signoff_empty, k0) (cs, s, k) \<Longrightarrow> ss_records s i = Some r \<Longrightarrow> i \<noteq> uuid_Nil"
  by (drule review_run_ok) (auto simp: mem_review.review_ok_def mem_review.linked_except_def)

lemma CanFinalize_GateImpl:
  "CanFinalize caseID (Some (GateImpl parse mem_signoff t s)) = (True, e) \<longleftrightarrow>
     e = None \<and> caseID \<noteq> [] \<and>
     (\<exists>i r. parse caseID = Some i \<and> ss_records s i = Some r \<and> so_TenantID r = t \<and>
        so_Status r = SignoffApproved)"
  by (auto simp: CanFinalize_iff GateImpl_def mem_sign.Get_law split: option.splits if_splits)

lemma entry_ok_D:
  "entry_ok J e \<Longrightarrow>
     (sa_Source e = DecisionSourceReviewer \<longrightarrow> sa_Actor e \<in> J \<and>
        (sa_ToStatus e = SignoffRejected \<longrightarrow> sa_Notes e \<noteq> [])) \<and>
     (sa_FromStatus e = SignoffApproved \<and> sa_Source e \<noteq> DecisionSourceReviewer \<longrightarrow>
        sa_Source e = DecisionSourceReReview \<and> sa_ToStatus e = SignoffPending)"
  by (cases "sa_Source e") (auto simp: entry_ok_def)

lemma approved_entry:
  assumes "signoff_ok J k i (Some r) es" "so_Status r = SignoffApproved"
  shows "es \<noteq> [] \<and> sa_Source (last es) = DecisionSourceReviewer \<and>
    sa_ToStatus (last es) = SignoffApproved \<and> sa_Actor (last es) = so_ReviewerID r \<and>
    sa_CaseVersion (last es) = so_CaseVersion r \<and> so_ReviewerID r \<in> J"
proof -
  have es: "es \<noteq> []" "agrees r (last es)" and "\<forall>e\<in>set es. entry_ok J e"
    using assms(1) by (auto simp: signoff_ok_def)
  then have "entry_ok J (last es)" by simp
  with es(2) assms(2) have "sa_Source (last es) = DecisionSourceReviewer"
    by (auto simp: entry_ok_def agrees_def split: DecisionSource.splits)
  with es assms(2) \<open>entry_ok J (last es)\<close> show ?thesis
    by (auto simp: entry_ok_def agrees_def)
qed

text \<open>The writes of a decision, on any store.\<close>

lemma mem_decide:
  assumes "n \<noteq> uuid_Nil" "n' \<noteq> uuid_Nil" "\<And>r. ss_records s (di_CaseID input) = Some r \<Longrightarrow> so_ID r \<noteq> uuid_Nil"
  shows "\<exists>r e s'. decide fn status mem_signoff at n n' u input notes s = (Inr r, s') \<and>
    so_Status r = status \<and> so_CaseVersion r = di_CaseVersion input \<and> so_ReviewerID r = us_ID u \<and>
    so_TenantID r = di_TenantID input \<and> so_Notes r = notes \<and>
    ss_records s' = (ss_records s)(di_CaseID input \<mapsto> r) \<and>
    ss_audit s' = (ss_audit s)(di_CaseID input := ss_audit s (di_CaseID input) @ [e]) \<and>
    sa_TenantID e = di_TenantID input \<and> sa_Actor e = us_ID u \<and> sa_ToStatus e = status \<and> sa_OccurredAt e = at"
  using assms
  by (auto simp: decide_def currentOrInitial_def mem_signoff_def signoff_Get_def initial_record_def
      store_with_audit_def signoff_Upsert_def signoff_AppendAudit_def so_requireMatchingTenant_def
      Let_def split: option.splits)

section \<open>Properties\<close>


definition sample_judge :: User where
  "sample_judge = \<lparr>us_ID = 11, us_TenantID = 7, us_Email = [], us_Name = [],
     us_Roles = [RoleJudge], us_Status = UserStatusActive, us_InvitedAt = None,
     us_DisabledAt = None, us_CreatedAt = 1, us_UpdatedAt = 1\<rparr>"

definition sample_decision :: DecisionInput where
  "sample_decision = \<lparr>di_TenantID = 7, di_CaseID = 1, di_CaseVersion = 1, di_Notes = [],
     di_Acknowledgement = AcknowledgementConfirmation\<rparr>"

definition parse_sample :: "string \<Rightarrow> uuid option" where
  "parse_sample x = (if x = ''case-1'' then Some 1 else None)"

text \<open>What the sample decision leaves in an empty store.\<close>

lemma sample_approval:
  assumes "reader 7 1 = Inr 1"
  shows "\<exists>r e. ss_records (snd (Approve mem_signoff reader at 20 21 (Some sample_judge) sample_decision signoff_empty)) 1 = Some r \<and>
    ss_audit (snd (Approve mem_signoff reader at 20 21 (Some sample_judge) sample_decision signoff_empty)) 1 = [e] \<and>
    so_TenantID r = 7 \<and> so_Status r = SignoffApproved \<and> so_CaseVersion r = 1 \<and>
    sa_TenantID e = 7 \<and> sa_Actor e = 11"
proof -
  have v: "validateCommon reader (Some sample_judge) sample_decision = Inr sample_judge"
    using assms by (simp add: validateCommon_Inr sample_decision_def sample_judge_def User_HasRole_def uuid_Nil_def)
  have n: "(20 :: uuid) \<noteq> uuid_Nil" "(21 :: uuid) \<noteq> uuid_Nil" by (simp_all add: uuid_Nil_def)
  have "\<exists>r e s'. decide ''Approve'' SignoffApproved mem_signoff at 20 21 sample_judge sample_decision
      (TrimSpace (di_Notes sample_decision)) signoff_empty = (Inr r, s') \<and>
    ss_records s' 1 = Some r \<and> ss_audit s' 1 = [e] \<and> so_TenantID r = 7 \<and>
    so_Status r = SignoffApproved \<and> so_CaseVersion r = 1 \<and> sa_TenantID e = 7 \<and> sa_Actor e = 11"
    using mem_decide [OF n, of signoff_empty sample_decision "''Approve''" SignoffApproved at sample_judge
        "TrimSpace (di_Notes sample_decision)"]
    by (auto simp: signoff_empty_def sample_decision_def sample_judge_def)
  then show ?thesis by (auto simp: Approve_def v)
qed

definition approved_signoff :: SignoffStore where
  "approved_signoff = snd (Approve mem_signoff (CaselifecycleVersionReader (mem_cases ref_platform) sample_store)
     2 20 21 (Some sample_judge) sample_decision signoff_empty)"

lemma sample_review_start:
  "review_run ref_platform {11} (cases_empty, signoff_empty, 0) (sample_store, signoff_empty, 1)"
proof -
  have "snd (cr_Create (mem_cases ref_platform) cases_empty 7 1 (Some sample_case)) = sample_store"
    by (simp add: cases_ops cases_empty_def sample_store_def sample_case_def Case_Validate_def
        State_Valid_def uuid_Nil_def Let_def)
  then show ?thesis
    using review_step.create [of 0 1 1 sample_input sample_case stored cases_empty "mem_cases ref_platform"
        mem_signoff "{11}" signoff_empty 7 1] sample_new
    by (simp add: cases_empty_def uuid_Nil_def r_into_rtranclp)
qed

lemma sample_review_run:
  "review_run ref_platform {11} (cases_empty, signoff_empty, 0) (sample_store, approved_signoff, 2)"
  unfolding approved_signoff_def
  by (rule rtranclp.rtrancl_into_rtrancl [OF sample_review_start review_step.approve])
     (simp_all add: acting_def sample_judge_def uuid_Nil_def)

lemma sample_reader:
  "CaselifecycleVersionReader (mem_cases ref_platform) sample_store 7 1 = Inr 1"
  "CaselifecycleVersionReader (mem_cases ref_platform) closed_store 7 1 = Inr 1"
  using closed_case by (simp_all add: mem_review.reader_Inr sample_case_def sample_store_def)

lemma sample_approved:
  "\<exists>r e. ss_records approved_signoff 1 = Some r \<and> ss_audit approved_signoff 1 = [e] \<and>
     so_TenantID r = 7 \<and> so_Status r = SignoffApproved \<and> so_CaseVersion r = 1 \<and>
     sa_TenantID e = 7 \<and> sa_Actor e = 11"
  unfolding approved_signoff_def using sample_approval [of "CaselifecycleVersionReader (mem_cases ref_platform) sample_store"]
    sample_reader by blast

lemma sample_finalize:
  "CanFinalize ''case-1'' (Some (GateImpl parse_sample mem_signoff 7 approved_signoff)) = (True, None)"
  using sample_approved by (auto simp: CanFinalize_GateImpl parse_sample_def)


text \<open>
  C10: The sign-off trail of a case is a legal decision history. In every run, what
  \<open>SignoffHistory\<close> returns to the record's tenant is the whole trail, strictly ordered in
  time; each entry starts from the status the one before it left, the last one leaves the
  current status, decisions come from judges only, rejections have notes, and an approval
  is withdrawn without a decision only by a re-review.
\<close>

theorem signoff_trail_is_legal_history:
  assumes "review_run P J (cases_empty, signoff_empty, k0) (cs, s, k)"
    and "ss_records s i = Some r" and "SignoffHistory mem_signoff ct (so_TenantID r) i s = Inr es"
  shows "es = ss_audit s i \<and> trail SignoffPending es (so_Status r) \<and>
    sorted_wrt (<) (map sa_OccurredAt es) \<and>
    (\<forall>e\<in>set es. sa_CaseID e = i \<and> sa_TenantID e = so_TenantID r \<and>
       (sa_Source e = DecisionSourceReviewer \<longrightarrow> sa_Actor e \<in> J \<and>
          (sa_ToStatus e = SignoffRejected \<longrightarrow> sa_Notes e \<noteq> [])) \<and>
       (sa_FromStatus e = SignoffApproved \<and> sa_Source e \<noteq> DecisionSourceReviewer \<longrightarrow>
          sa_Source e = DecisionSourceReReview \<and> sa_ToStatus e = SignoffPending))"
proof -
  have ok: "signoff_ok J k i (Some r) (ss_audit s i)"
    using review_run_signoffs [OF assms(1), of i] assms(2) by simp
  then have f: "filter (\<lambda>e. sa_TenantID e = so_TenantID r) (ss_audit s i) = ss_audit s i"
    by (auto simp: signoff_ok_def filter_id_conv)
  have "sorted_by (\<lambda>a b. sa_OccurredAt a < sa_OccurredAt b) (ss_audit s i)"
    using ok by (auto simp: signoff_ok_def sorted_by_def sorted_wrt_map elim!: sorted_wrt_mono_rel [rotated])
  then have "es = ss_audit s i"
    using assms(3) f
    by (auto simp: SignoffHistory_def mem_sign.List_law sort_by_sorted split: option.splits if_splits)
  with ok show ?thesis using entry_ok_D by (simp add: signoff_ok_def) blast
qed

theorem signoff_trail_is_legal_history_witness:
  "\<exists>r. ss_records approved_signoff 1 = Some r \<and>
     trail SignoffPending (ss_audit approved_signoff 1) (so_Status r)"
proof -
  obtain r where r: "ss_records approved_signoff 1 = Some r" "so_TenantID r = 7"
    using sample_approved by blast
  have "so_RequireViewPermission (Some sample_judge) = None"
    by (simp add: so_RequireViewPermission_def require_perm_def UserFromContext_def
        User_HasPermission_def sample_judge_def Role_IsValid_def Roles_def)
  then obtain es where "SignoffHistory mem_signoff (Some sample_judge) (so_TenantID r) 1 approved_signoff = Inr es"
    by (simp add: SignoffHistory_def mem_sign.List_law uuid_Nil_def)
  from signoff_trail_is_legal_history [OF sample_review_run r(1) this] r show ?thesis by auto
qed

text \<open>
  What it takes to approve. \<open>Approve\<close> succeeds exactly for a judge who names a case, types
  the acknowledgement exactly and reviewed the version the case has now; it then writes the
  approved record and one audit entry of that judge and touches no other case. In every
  other case it changes nothing.
\<close>

lemma Approve_guards:
  assumes "n \<noteq> uuid_Nil" "n' \<noteq> uuid_Nil"
    and "\<And>r. ss_records s (di_CaseID input) = Some r \<Longrightarrow> so_ID r \<noteq> uuid_Nil"
    and "Approve mem_signoff reader at n n' ct input s = (out, s')"
  shows "(is_ok out \<longleftrightarrow> (\<exists>u. ct = Some u \<and> User_HasRole u RoleJudge) \<and> di_CaseID input \<noteq> uuid_Nil \<and>
       di_Acknowledgement input = AcknowledgementConfirmation \<and>
       reader (di_TenantID input) (di_CaseID input) = Inr (di_CaseVersion input)) \<and>
    (\<not> is_ok out \<longrightarrow> s' = s) \<and>
    (is_ok out \<longrightarrow>
       (\<exists>u r e. ct = Some u \<and> out = Inr r \<and> so_Status r = SignoffApproved \<and>
          so_ReviewerID r = us_ID u \<and> so_CaseVersion r = di_CaseVersion input \<and>
          ss_records s' = (ss_records s)(di_CaseID input \<mapsto> r) \<and>
          ss_audit s' = (ss_audit s)(di_CaseID input := ss_audit s (di_CaseID input) @ [e]) \<and>
          sa_Actor e = us_ID u \<and> sa_ToStatus e = SignoffApproved))"
proof (cases "validateCommon reader ct input")
  case (Inl err)
  then have "\<not> ((\<exists>u. ct = Some u \<and> User_HasRole u RoleJudge) \<and> di_CaseID input \<noteq> uuid_Nil \<and>
       di_Acknowledgement input = AcknowledgementConfirmation \<and>
       reader (di_TenantID input) (di_CaseID input) = Inr (di_CaseVersion input))"
    using validateCommon_Inr [of reader ct input] by fastforce
  moreover have "out = Inl (so_wrapf ''Approve'' err) \<and> s' = s"
    using assms(4) Inl by (simp add: Approve_def)
  ultimately show ?thesis by simp
next
  case (Inr u)
  then have "\<exists>u. ct = Some u \<and> User_HasRole u RoleJudge" "di_CaseID input \<noteq> uuid_Nil"
      "di_Acknowledgement input = AcknowledgementConfirmation" "ct = Some u"
      "reader (di_TenantID input) (di_CaseID input) = Inr (di_CaseVersion input)"
    by (auto simp: validateCommon_Inr)
  moreover obtain r e s2 where "decide ''Approve'' SignoffApproved mem_signoff at n n' u input
        (TrimSpace (di_Notes input)) s = (Inr r, s2)"
      "so_Status r = SignoffApproved" "so_CaseVersion r = di_CaseVersion input" "so_ReviewerID r = us_ID u"
      "ss_records s2 = (ss_records s)(di_CaseID input \<mapsto> r)"
      "ss_audit s2 = (ss_audit s)(di_CaseID input := ss_audit s (di_CaseID input) @ [e])"
      "sa_Actor e = us_ID u" "sa_ToStatus e = SignoffApproved"
    using mem_decide [OF assms(1-3), where fn = "''Approve''" and status = SignoffApproved] by blast
  ultimately show ?thesis
    using assms(4) Inr by (auto simp: Approve_def)
qed

lemma Approve_guards_witness:
  "is_ok (fst (Approve mem_signoff (\<lambda>t i. Inr 1) 2 20 21 (Some sample_judge) sample_decision signoff_empty)) \<and>
   \<not> is_ok (fst (Approve mem_signoff (\<lambda>t i. Inr 2) 2 20 21 (Some sample_judge) sample_decision signoff_empty))"
proof -
  have guards: "is_ok (fst (Approve mem_signoff reader 2 20 21 (Some sample_judge) sample_decision signoff_empty)) \<longleftrightarrow>
      (\<exists>u. Some sample_judge = Some u \<and> User_HasRole u RoleJudge) \<and> di_CaseID sample_decision \<noteq> uuid_Nil \<and>
      di_Acknowledgement sample_decision = AcknowledgementConfirmation \<and>
      reader (di_TenantID sample_decision) (di_CaseID sample_decision) = Inr (di_CaseVersion sample_decision)"
    for reader
    by (rule conjunct1 [OF Approve_guards [OF _ _ _ surjective_pairing]])
       (simp_all add: uuid_Nil_def signoff_empty_def)
  show ?thesis
    unfolding guards by (simp add: sample_judge_def User_HasRole_def sample_decision_def uuid_Nil_def)
qed

text \<open>
  Why the re-review matters. From any reachable store, after a successful metadata update
  of an approved case and before its re-review the gate still accepts the case, although the
  version approved is no longer the current one; the re-review takes the approval back, and
  the gate then refuses.
\<close>

lemma stale_approval_until_rereview:
  assumes "review_run P J (cases_empty, signoff_empty, k0) (cs, s, k)"
    and "ss_records s i = Some r" and "so_Status r = SignoffApproved" and "so_TenantID r = t"
    and "parse caseID = Some i" and "caseID \<noteq> []" and "mu_TenantID mi = t" and "mu_CaseID mi = i"
    and "updateMetadata (Some (mem_cases P)) now mi merge cs = (Inr c, cs')" and "n \<noteq> uuid_Nil"
  shows "CanFinalize caseID (Some (GateImpl parse mem_signoff t s)) = (True, None) \<and>
    so_CaseVersion r \<noteq> cs_MetadataVersion c \<and> stored cs' i = Some c \<and>
    (\<exists>r' evs s'. ReReviewOnCaseUpdate mem_signoff (CaselifecycleVersionReader (mem_cases P) cs') at n t i s =
        (Inr (Some r', True), evs, s') \<and> so_Status r' = SignoffPending \<and>
      CanFinalize caseID (Some (GateImpl parse mem_signoff t s')) = (False, Some (Refused ErrSignoffNotApproved)))"
proof -
  have ok: "mem_review.review_ok J (cs, s, k)" using assms(1) by (rule review_run_ok)
  then have cok: "mem_case.cases_ok k cs" and sok: "\<forall>i. signoff_ok J k i (ss_records s i) (ss_audit s i)"
    by (simp_all add: mem_review.review_ok_def)
  have "mem_case.written i cs (plan_metadata now mi merge (stored cs i)) (Inr c, cs')"
    using mem_case.updateMetadata_written [where P = P, OF cok assms(8), where now = now and merge = merge]
    by (simp add: assms(9))
  from mem_case.written_Inr [OF this] obtain d where
    d: "seen t (stored cs i) = Some d" "c = metadata_written now mi merge d" "stored cs' = (stored cs)(i \<mapsto> c)"
    using plan_metadata_Inr assms(7) by blast
  have v: "so_CaseVersion r = cs_MetadataVersion d" and nil: "i \<noteq> uuid_Nil"
    using review_run_linked [OF assms(1,2)] review_run_not_Nil [OF assms(1,2)] assms(3) d(1)
    by (auto simp: seen_Some)
  have rd: "CaselifecycleVersionReader (mem_cases P) cs' t i = Inr (cs_MetadataVersion c)"
    using d by (simp add: mem_review.reader_Inr seen_Some)
  have so: "so_CaseID r = i" "so_ID r \<noteq> uuid_Nil"
    using sok [rule_format, of i] assms(2) by (simp_all add: signoff_ok_def)
  have own: "mem_sign.owned t i s"
    using assms(2,4) so by (simp add: mem_sign.owned_def)
  have ne: "so_CaseVersion r \<noteq> cs_MetadataVersion c" using v d(2) by simp
  from mem_sign.ReReview_ok [where reader = "CaselifecycleVersionReader (mem_cases P) cs'" and J = J,
      OF own assms(10) nil rd, of at] assms(2,3) ne
  obtain r' evs s' where r':
    "ReReviewOnCaseUpdate mem_signoff (CaselifecycleVersionReader (mem_cases P) cs') at n t i s =
       (Inr (Some r', True), evs, s')"
    "mem_sign.recorded J at i r' s s'" "so_Status r' = SignoffPending" "so_TenantID r' = t"
    by fastforce
  have "CanFinalize caseID (Some (GateImpl parse mem_signoff t s')) = (False, Some (Refused ErrSignoffNotApproved))"
    using r'(2-4) assms(5,6)
    by (auto simp: CanFinalize_def GateImpl_def mem_sign.Get_law mem_sign.recorded_def)
  then show ?thesis
    using r' ne d assms(2-6) by (auto simp: CanFinalize_GateImpl)
qed

lemma stale_approval_until_rereview_witness:
  "\<exists>c cs'. updateMetadata (Some (mem_cases ref_platform)) 3 (docket ''17'') True sample_store = (Inr c, cs') \<and>
     CanFinalize ''case-1'' (Some (GateImpl parse_sample mem_signoff 7 approved_signoff)) = (True, None) \<and>
     (\<exists>s'. CanFinalize ''case-1'' (Some (GateImpl parse_sample mem_signoff 7 s')) =
        (False, Some (Refused ErrSignoffNotApproved)))"
proof -
  obtain c cs' where u:
    "updateMetadata (Some (mem_cases ref_platform)) 3 (docket ''17'') True sample_store = (Inr c, cs')"
    using docket_ok [of "''17''"]
    by (simp add: operation_defs cases_ops docket_def sample_store_def sample_case_def)
  obtain r where r: "ss_records approved_signoff 1 = Some r" "so_Status r = SignoffApproved" "so_TenantID r = 7"
    using sample_approved by blast
  have d: "mu_TenantID (docket ''17'') = 7" "mu_CaseID (docket ''17'') = 1"
    "parse_sample ''case-1'' = Some 1" "''case-1'' \<noteq> []" "(22 :: uuid) \<noteq> uuid_Nil"
    by (simp_all add: docket_def parse_sample_def uuid_Nil_def)
  from stale_approval_until_rereview [where parse = parse_sample and caseID = "''case-1''" and i = 1 and t = 7,
      OF sample_review_run r d(3,4,1,2) u d(5)] u show ?thesis by blast
qed

text \<open>
  Re-review watches the metadata version only. When an approved case that was closed is
  reopened, and from there on may take new evidence, its version is unchanged: the re-review
  finds nothing to do and the gate accepts the reopened case on the old approval.
\<close>

lemma reopened_case_keeps_approval:
  assumes "review_run P J (cases_empty, signoff_empty, k0) (cs, s, k)"
    and "ss_records s i = Some r" and "so_Status r = SignoffApproved" and "so_TenantID r = t"
    and "parse caseID = Some i" and "caseID \<noteq> []" and "n \<noteq> uuid_Nil"
    and "Reopen (Some (mem_cases P)) now m ct t i why cs = (Inr c, cs')"
  shows "stored cs' i = Some c \<and> cs_State c = StateActive \<and>
    RequireAction (cs_State c) ActionIngestEvidence = None \<and>
    ReReviewOnCaseUpdate mem_signoff (CaselifecycleVersionReader (mem_cases P) cs') at n t i s =
      (Inr (Some r, False), [], s) \<and>
    CanFinalize caseID (Some (GateImpl parse mem_signoff t s)) = (True, None)"
proof -
  have ok: "mem_review.review_ok J (cs, s, k)" using assms(1) by (rule review_run_ok)
  then have cok: "mem_case.cases_ok k cs" by (simp add: mem_review.review_ok_def)
  have car: "mem_case.carried i cs (plan_reopen now m ct t why (stored cs i)) (Inr c, cs')"
    using mem_case.Reopen_carried [where P = P, OF cok, where i = i and now = now and newid = m and ct = ct
        and t = t and justification = why] by (simp add: assms(8))
  then obtain e d where e: "plan_reopen now m ct t why (stored cs i) = Inr e" "stored cs i = Some d"
      "c = moved d e" "stored cs' = (stored cs)(i \<mapsto> c)"
    by (auto simp: mem_case.carried_def split: sum.splits)
  then have to: "tr_ToState e = StateActive"
    by (auto simp: plan_reopen_def split: option.splits if_splits)
  have v: "so_CaseVersion r = cs_MetadataVersion c" "cs_TenantID c = t" "i \<noteq> uuid_Nil"
    using review_run_linked [OF assms(1,2)] review_run_not_Nil [OF assms(1,2)] assms(3,4) e(2,3)
    by (auto simp: moved_def)
  have rd: "CaselifecycleVersionReader (mem_cases P) cs' t i = Inr (cs_MetadataVersion c)"
    using e(4) v(2) by (simp add: mem_review.reader_Inr)
  have "ReReviewOnCaseUpdate mem_signoff (CaselifecycleVersionReader (mem_cases P) cs') at n t i s =
      (Inr (Some r, False), [], s)"
    using rd v assms(2-4) by (simp add: ReReviewOnCaseUpdate_def mem_sign.Get_law)
  moreover have "cs_State c = StateActive" using e(3) to by (simp add: moved_def)
  ultimately show ?thesis
    using e(4) assms(2-6) by (auto simp: CanFinalize_GateImpl RequireAction_def CanPerform_def)
qed

text \<open>The sample case, closed and then approved.\<close>

definition closed_signoff :: SignoffStore where
  "closed_signoff = snd (Approve mem_signoff (CaselifecycleVersionReader (mem_cases ref_platform) closed_store)
     5 20 21 (Some sample_judge) sample_decision signoff_empty)"

lemma go_review:
  "review_run ref_platform {11} x (cs, s, k) \<Longrightarrow> k < now \<Longrightarrow> review_run ref_platform {11} x (go now st cs, s, now)"
  unfolding go_def by (rule rtranclp.rtrancl_into_rtrancl) (auto intro: review_step.transition)

lemma closed_review_run:
  "review_run ref_platform {11} (cases_empty, signoff_empty, 0) (closed_store, closed_signoff, 5)"
  unfolding closed_signoff_def
proof (rule rtranclp.rtrancl_into_rtrancl)
  show "review_run ref_platform {11} (cases_empty, signoff_empty, 0) (closed_store, signoff_empty, 4)"
    unfolding closed_store_def by (intro go_review [OF go_review [OF go_review [OF sample_review_start]]]) simp_all
  show "review_step (mem_cases ref_platform) mem_signoff stored {11} (closed_store, signoff_empty, 4)
      (closed_store, snd (Approve mem_signoff (CaselifecycleVersionReader (mem_cases ref_platform) closed_store)
         5 20 21 (Some sample_judge) sample_decision signoff_empty), 5)"
    by (rule review_step.approve) (simp_all add: acting_def sample_judge_def uuid_Nil_def)
qed

lemma closed_approved:
  "\<exists>r. ss_records closed_signoff 1 = Some r \<and> so_Status r = SignoffApproved \<and> so_TenantID r = 7"
  unfolding closed_signoff_def using sample_approval [of "CaselifecycleVersionReader (mem_cases ref_platform) closed_store"]
    sample_reader by blast

lemma reopened_case_keeps_approval_witness:
  "\<exists>c cs'. Reopen (Some (mem_cases ref_platform)) 6 3 (Some sample_clerk) 7 1 ''appeal'' closed_store = (Inr c, cs') \<and>
     cs_State c = StateActive \<and>
     CanFinalize ''case-1'' (Some (GateImpl parse_sample mem_signoff 7 closed_signoff)) = (True, None)"
proof -
  have t: "TrimSpace ''appeal'' \<noteq> []" by code_simp
  obtain c cs' where u:
    "Reopen (Some (mem_cases ref_platform)) 6 3 (Some sample_clerk) 7 1 ''appeal'' closed_store = (Inr c, cs')"
    using closed_case t by (simp add: operation_defs cases_ops update_conv' sample_case_def)
  obtain r where r: "ss_records closed_signoff 1 = Some r" "so_Status r = SignoffApproved" "so_TenantID r = 7"
    using closed_approved by blast
  have d: "parse_sample ''case-1'' = Some 1" "''case-1'' \<noteq> []" "(22 :: uuid) \<noteq> uuid_Nil"
    by (simp_all add: parse_sample_def uuid_Nil_def)
  from reopened_case_keeps_approval [where parse = parse_sample and caseID = "''case-1''" and i = 1 and t = 7,
      OF closed_review_run r d u] u show ?thesis by blast
qed

text \<open>
  Every sign-off entry of a tenant can be recorded in the central audit log, wherever that
  log stands: \<open>RecordSignoffEntry\<close> succeeds, appends exactly one event of kind sign-off with
  the entry's case, notes and new status to that tenant's trail, linked to its tail, and
  attributes an entry without a human actor to the system.
\<close>

lemma signoff_entry_is_recorded:
  assumes "sa_TenantID e \<noteq> uuid_Nil" and "TrimSpace (uuid_str P (sa_Actor e)) \<noteq> []"
  shows "\<exists>ev s'. RecordSignoffEntry P (mem_repo P) now newid (Some e) s = (Inr ev, s') \<and>
    im_events s' = (im_events s)(sa_TenantID e := im_events s (sa_TenantID e) @ [ev]) \<and>
    ev_PrevHash ev = tail_hash [] (im_events s (sa_TenantID e)) \<and>
    ev_CaseID ev = sa_CaseID e \<and> ev_Detail ev = sa_Notes e \<and>
    ev_Target ev = SignoffStatus_String (sa_ToStatus e) \<and>
    ev_Actor ev = (if uuid_str P (sa_Actor e) = ''00000000-0000-0000-0000-000000000000''
                   then ''system:'' @ DecisionSource_String (sa_Source e)
                   else uuid_str P (sa_Actor e))"
proof -
  let ?ev = "FromSignoffEntry P e"
  have sys: "TrimSpace (''system:'' @ DecisionSource_String d) \<noteq> []" for d
  proof (cases d)
    case DecisionSourceReviewer
    have "TrimSpace ''system:reviewer'' \<noteq> []" by code_simp
    with DecisionSourceReviewer show ?thesis by (simp add: DecisionSource_String_def)
  next
    case DecisionSourceReReview
    have "TrimSpace ''system:re_review'' \<noteq> []" by code_simp
    with DecisionSourceReReview show ?thesis by (simp add: DecisionSource_String_def)
  next
    case DecisionSourceInitial
    have "TrimSpace ''system:initial'' \<noteq> []" by code_simp
    with DecisionSourceInitial show ?thesis by (simp add: DecisionSource_String_def)
  qed
  have act: "TrimSpace ''case.signoff'' \<noteq> []" by code_simp
  have f: "ev_TenantID ?ev = sa_TenantID e" "ev_Kind ?ev = KindSignoff" "ev_Action ?ev = ''case.signoff''"
    "ev_CaseID ?ev = sa_CaseID e" "ev_Detail ?ev = sa_Notes e"
    "ev_Target ?ev = SignoffStatus_String (sa_ToStatus e)"
    "ev_Actor ?ev = (if uuid_str P (sa_Actor e) = ''00000000-0000-0000-0000-000000000000''
       then ''system:'' @ DecisionSource_String (sa_Source e) else uuid_str P (sa_Actor e))"
    by (simp_all only: FromSignoffEntry_def Let_def Event.select_convs)
  have actor: "TrimSpace (ev_Actor ?ev) \<noteq> []" using sys assms(2) f(7) by metis
  have "\<exists>ev. store_prepare now newid ?ev = Inr ev"
    using assms(1) act actor f(1-3)
    by (simp add: store_prepare_def Event_Validate_def Let_def Kind_IsValid_def)
  then obtain ev where ev: "store_prepare now newid ?ev = Inr ev" by blast
  note same = store_prepare_Inr [OF ev]
  from mem_audit.store_Append_ok [OF ev, where P = P and s = s] f(1)
  obtain s' where s': "store_Append P (mem_repo P) now newid ?ev s =
      (Inr (link_event P (tail_hash [] (im_events s (sa_TenantID e))) ev), s')"
    "im_events s' = (im_events s)(sa_TenantID e := im_events s (sa_TenantID e) @
      [link_event P (tail_hash [] (im_events s (sa_TenantID e))) ev])"
    by auto
  let ?l = "link_event P (tail_hash [] (im_events s (sa_TenantID e))) ev"
  have l: "ev_CaseID ?l = ev_CaseID ev" "ev_Detail ?l = ev_Detail ev" "ev_Target ?l = ev_Target ev"
    "ev_Actor ?l = ev_Actor ev"
    by (simp_all add: link_event_def Let_def)
  show ?thesis
    using s' same f l by (intro exI [of _ ?l] exI [of _ s']) (simp add: RecordSignoffEntry_def)
qed

lemma signoff_entry_is_recorded_witness:
  "\<exists>e ev s'. ss_audit approved_signoff 1 = [e] \<and>
     RecordSignoffEntry ref_platform (mem_repo ref_platform) 3 30 (Some e) im_empty = (Inr ev, s') \<and>
     im_events s' 7 = [ev]"
proof -
  obtain e where e: "ss_audit approved_signoff 1 = [e]" "sa_TenantID e = 7" "sa_Actor e = 11"
    using sample_approved by blast
  have "TrimSpace (uuid_text 11) \<noteq> []" by code_simp
  then have t: "TrimSpace (uuid_str ref_platform (sa_Actor e)) \<noteq> []" using e by (simp add: ref_platform_def)
  have n: "sa_TenantID e \<noteq> uuid_Nil" using e by (simp add: uuid_Nil_def)
  from signoff_entry_is_recorded [OF n t, of 3 30 im_empty] e show ?thesis
    by (auto simp: im_empty_def)
qed

end
