(* ===== verification/Breaker.thy ===== *)
theory Breaker
  imports Prelude "HOL-Library.Mapping"
begin

text \<open>
  \<open>packages/reliability\<close>, the call wrappers: the circuit breaker and its registry
  (\<open>circuit_breaker.go\<close>), retries with exponential backoff (\<open>retry.go\<close>) and graceful
  degradation (\<open>degradation.go\<close>). A protected function is a step on a state \<open>'w\<close> of the
  outside world that answers with an error or not.
\<close>

section \<open>The circuit breaker\<close>

datatype BreakerState = StateClosed | StateOpen | StateHalfOpen

record CircuitBreakerConfig =
  cc_FailureThreshold :: int
  cc_Cooldown :: duration

record CircuitBreaker =
  cb_name :: string
  cb_cfg :: CircuitBreakerConfig
  cb_state :: BreakerState
  cb_failures :: int
  cb_openedAt :: time

text \<open>\<open>'e\<close> is the type of the protected function's own errors.\<close>

datatype 'e rel_error = ErrNilFunc | ErrCircuitOpen | ErrInvalidRetryPolicy
  | ErrNoHealthyBackends
  | RetriesExhausted nat 'e | ContextDone | FnError 'e | rel_Wrapf string "'e rel_error"

definition rel_wrapf :: "string \<Rightarrow> 'e rel_error \<Rightarrow> 'e rel_error" where
  "rel_wrapf fn err = rel_Wrapf fn err"

definition DefaultFailureThreshold :: int where
  "DefaultFailureThreshold = 5"

text \<open>Durations count nanoseconds.\<close>

definition DefaultCooldown :: duration where
  "DefaultCooldown = 30 * 1000000000"

definition failureThreshold :: "CircuitBreakerConfig \<Rightarrow> int" where
  "failureThreshold c =
     (if cc_FailureThreshold c \<le> 0 then DefaultFailureThreshold else cc_FailureThreshold c)"

definition cooldown :: "CircuitBreakerConfig \<Rightarrow> duration" where
  "cooldown c = (if cc_Cooldown c \<le> 0 then DefaultCooldown else cc_Cooldown c)"

definition NewCircuitBreaker :: "string \<Rightarrow> CircuitBreakerConfig \<Rightarrow> CircuitBreaker" where
  "NewCircuitBreaker name cfg =
     \<lparr>cb_name = name, cb_cfg = cfg, cb_state = StateClosed, cb_failures = 0,
      cb_openedAt = zero_time\<rparr>"

definition Allow :: "time \<Rightarrow> CircuitBreaker \<Rightarrow> bool \<times> CircuitBreaker" where
  "Allow now cb =
     (case cb_state cb of
        StateClosed \<Rightarrow> (True, cb)
      | StateOpen \<Rightarrow>
          if time_Sub now (cb_openedAt cb) \<ge> cooldown (cb_cfg cb)
          then (True, cb\<lparr>cb_state := StateHalfOpen\<rparr>)
          else (False, cb)
      | StateHalfOpen \<Rightarrow> (False, cb))"

definition RecordSuccess :: "CircuitBreaker \<Rightarrow> CircuitBreaker" where
  "RecordSuccess cb =
     (case cb_state cb of
        StateClosed \<Rightarrow> cb\<lparr>cb_failures := 0\<rparr>
      | StateHalfOpen \<Rightarrow> cb\<lparr>cb_state := StateClosed, cb_failures := 0\<rparr>
      | StateOpen \<Rightarrow> cb)"

definition trip :: "time \<Rightarrow> CircuitBreaker \<Rightarrow> CircuitBreaker" where
  "trip now cb = cb\<lparr>cb_state := StateOpen, cb_openedAt := now\<rparr>"

definition RecordFailure :: "time \<Rightarrow> CircuitBreaker \<Rightarrow> CircuitBreaker" where
  "RecordFailure now cb =
     (case cb_state cb of
        StateClosed \<Rightarrow>
          let cb = cb\<lparr>cb_failures := wrap64 (cb_failures cb + 1)\<rparr>
          in if cb_failures cb \<ge> failureThreshold (cb_cfg cb) then trip now cb else cb
      | StateHalfOpen \<Rightarrow> trip now cb
      | StateOpen \<Rightarrow> cb)"

text \<open>
  \<open>Execute\<close>: \<open>now\<close> is the clock at the admission, \<open>now'\<close> at the record of a failure; \<open>None\<close>
  is a nil function.
\<close>

definition Execute ::
  "time \<Rightarrow> time \<Rightarrow> ('w \<Rightarrow> 'e option \<times> 'w) option \<Rightarrow> CircuitBreaker \<times> 'w
    \<Rightarrow> 'e rel_error option \<times> CircuitBreaker \<times> 'w" where
  "Execute now now' fn cw =
     (case cw of
        (cb, w) \<Rightarrow>
          (case fn of
             None \<Rightarrow> (Some (rel_wrapf ''CircuitBreaker.Execute'' ErrNilFunc), cb, w)
           | Some fn \<Rightarrow>
               (case Allow now cb of
                  (False, cb) \<Rightarrow> (Some (rel_wrapf ''CircuitBreaker.Execute'' ErrCircuitOpen), cb, w)
                | (True, cb) \<Rightarrow>
                    (case fn w of
                       (Some err, w) \<Rightarrow> (Some (FnError err), RecordFailure now' cb, w)
                     | (None, w) \<Rightarrow> (None, RecordSuccess cb, w)))))"

record CircuitBreakerRegistry =
  br_cfg :: CircuitBreakerConfig
  br_breakers :: "(string, CircuitBreaker) mapping"

text \<open>\<open>Get\<close> returns the breaker's key in the registry: callers share the breaker by reference.\<close>

definition Registry_Get :: "string \<Rightarrow> CircuitBreakerRegistry \<Rightarrow> CircuitBreakerRegistry" where
  "Registry_Get name r =
     (case Mapping.lookup (br_breakers r) name of
        Some cb \<Rightarrow> r
      | None \<Rightarrow> r\<lparr>br_breakers :=
          Mapping.update name (NewCircuitBreaker name (br_cfg r)) (br_breakers r)\<rparr>)"

section \<open>Lemmas on the breaker\<close>

lemma threshold_pos: "0 < failureThreshold c"
  by (simp add: failureThreshold_def DefaultFailureThreshold_def)

lemma cooldown_pos: "0 < cooldown c"
  by (simp add: cooldown_def DefaultCooldown_def)

text \<open>A breaker as the code keeps it: below the threshold while closed.\<close>

definition breaker_ok :: "CircuitBreaker \<Rightarrow> bool" where
  "breaker_ok cb \<longleftrightarrow> cooldown (cb_cfg cb) \<le> max_duration \<and> failureThreshold (cb_cfg cb) < 2 ^ 63 \<and>
     (cb_state cb = StateClosed \<longrightarrow> 0 \<le> cb_failures cb \<and> cb_failures cb < failureThreshold (cb_cfg cb))"

lemma RecordFailure_closed:
  assumes "breaker_ok cb" "cb_state cb = StateClosed"
  shows "RecordFailure now cb =
    (if cb_failures cb + 1 = failureThreshold (cb_cfg cb)
     then cb\<lparr>cb_failures := cb_failures cb + 1, cb_state := StateOpen, cb_openedAt := now\<rparr>
     else cb\<lparr>cb_failures := cb_failures cb + 1\<rparr>)"
proof -
  have "wrap64 (cb_failures cb + 1) = cb_failures cb + 1"
    using assms by (intro wrap64_id) (auto simp: breaker_ok_def)
  then show ?thesis
    using assms by (auto simp: RecordFailure_def trip_def Let_def breaker_ok_def)
qed

text \<open>
  Serving one call after another, each with its instants and whether the function succeeds;
  the world counts how often the function runs.
\<close>

fun serve :: "'e \<Rightarrow> (time \<times> time \<times> bool) list \<Rightarrow> CircuitBreaker \<times> nat \<Rightarrow> CircuitBreaker \<times> nat" where
  "serve e [] cw = cw"
| "serve e ((t, t', ok) # calls) cw =
     serve e calls (snd (Execute t t' (Some (\<lambda>n. (if ok then None else Some e, Suc n))) cw))"

abbreviation serve_failing where
  "serve_failing e calls \<equiv> serve e (map (\<lambda>(t, t'). (t, t', False)) calls)"

fun in_order :: "time \<Rightarrow> (time \<times> time) list \<Rightarrow> time \<Rightarrow> bool" where
  "in_order k [] T \<longleftrightarrow> k \<le> T"
| "in_order k ((t, t') # calls) T \<longleftrightarrow> k \<le> t \<and> t \<le> t' \<and> in_order t' calls T"

lemma in_order_le: "in_order k calls T \<Longrightarrow> k \<le> T"
  by (induction calls arbitrary: k) fastforce+

lemma time_Sub_cooldown:
  "breaker_ok cb \<Longrightarrow> time_Sub t u \<ge> cooldown (cb_cfg cb) \<longleftrightarrow> t - u \<ge> cooldown (cb_cfg cb)"
  using time_Sub_ge_iff [of "cooldown (cb_cfg cb)" t u] cooldown_pos [of "cb_cfg cb"]
  by (simp add: breaker_ok_def min_duration_def)

lemma serve_open:
  assumes "breaker_ok cb" "cb_state cb = StateOpen" "cb_openedAt cb \<le> k" "in_order k calls T"
  shows "int (snd (serve_failing e calls (cb, n))) \<le> int n + (T - cb_openedAt cb) div cooldown (cb_cfg cb)"
  using assms
proof (induction calls arbitrary: k cb n)
  case Nil
  then show ?case
    using cooldown_pos [of "cb_cfg cb"] by (simp add: pos_imp_zdiv_nonneg_iff)
next
  case (Cons call calls)
  obtain t t' where call: "call = (t, t')" by (cases call)
  let ?c = "cooldown (cb_cfg cb)"
  have ord: "k \<le> t" "t \<le> t'" "in_order t' calls T" using Cons.prems(4) call by auto
  show ?case
  proof (cases "t - cb_openedAt cb \<ge> ?c")
    case True
    let ?cb = "cb\<lparr>cb_state := StateOpen, cb_openedAt := t'\<rparr>"
    have "snd (Execute t t' (Some (\<lambda>n. (Some e, Suc n))) (cb, n)) = (?cb, Suc n)"
      using True Cons.prems(1,2)
      by (simp add: Execute_def Allow_def time_Sub_cooldown RecordFailure_def trip_def)
    moreover have "breaker_ok ?cb" using Cons.prems(1) by (simp add: breaker_ok_def)
    ultimately have "int (snd (serve_failing e (call # calls) (cb, n))) \<le> int n + 1 + (T - t') div ?c"
      using Cons.IH [of ?cb t' "Suc n"] ord call by simp
    also have "(T - t') div ?c \<le> (T - cb_openedAt cb - ?c) div ?c"
      using True ord cooldown_pos [of "cb_cfg cb"] by (intro zdiv_mono1) auto
    also have "(T - cb_openedAt cb - ?c) div ?c = (T - cb_openedAt cb) div ?c - 1"
      using cooldown_pos [of "cb_cfg cb"] div_add_self2 [of ?c "T - cb_openedAt cb - ?c"] by simp
    finally show ?thesis by simp
  next
    case False
    then have "snd (Execute t t' (Some (\<lambda>n. (Some e, Suc n))) (cb, n)) = (cb, n)"
      using Cons.prems(1,2) by (simp add: Execute_def Allow_def time_Sub_cooldown)
    then show ?thesis
      using Cons.IH [OF Cons.prems(1,2), of t' n] Cons.prems(3) ord call by simp
  qed
qed

lemma serve_closed:
  assumes "breaker_ok cb" "cb_state cb = StateClosed" "in_order k calls T"
  shows "int (snd (serve_failing e calls (cb, n))) \<le>
    int n + (failureThreshold (cb_cfg cb) - cb_failures cb) + (T - k) div cooldown (cb_cfg cb)"
  using assms
proof (induction calls arbitrary: k cb n)
  case Nil
  then have "0 \<le> (T - k) div cooldown (cb_cfg cb)"
    using cooldown_pos [of "cb_cfg cb"] by (simp add: pos_imp_zdiv_nonneg_iff)
  with Nil show ?case by (simp add: breaker_ok_def)
next
  case (Cons call calls)
  obtain t t' where call: "call = (t, t')" by (cases call)
  let ?c = "cooldown (cb_cfg cb)"
  have ord: "k \<le> t" "t \<le> t'" "in_order t' calls T" using Cons.prems(3) call by auto
  have mono: "(T - t') div ?c \<le> (T - k) div ?c"
    using ord cooldown_pos [of "cb_cfg cb"] by (intro zdiv_mono1) auto
  have ex: "snd (Execute t t' (Some (\<lambda>n. (Some e, Suc n))) (cb, n)) = (RecordFailure t' cb, Suc n)"
    using Cons.prems(2) by (simp add: Execute_def Allow_def)
  show ?case
  proof (cases "cb_failures cb + 1 = failureThreshold (cb_cfg cb)")
    case True
    let ?cb = "cb\<lparr>cb_failures := cb_failures cb + 1, cb_state := StateOpen, cb_openedAt := t'\<rparr>"
    have "breaker_ok ?cb" using Cons.prems(1) by (simp add: breaker_ok_def)
    then have "int (snd (serve_failing e calls (?cb, Suc n))) \<le> int (Suc n) + (T - t') div ?c"
      using serve_open [of ?cb t' calls T e "Suc n"] ord by simp
    then show ?thesis
      using RecordFailure_closed [OF Cons.prems(1,2), of t'] True mono ex call by simp
  next
    case False
    let ?cb = "cb\<lparr>cb_failures := cb_failures cb + 1\<rparr>"
    have "breaker_ok ?cb" using Cons.prems(1,2) False by (auto simp: breaker_ok_def)
    then have "int (snd (serve_failing e calls (?cb, Suc n))) \<le>
        int (Suc n) + (failureThreshold (cb_cfg cb) - (cb_failures cb + 1)) + (T - t') div ?c"
      using Cons.IH [of ?cb t' "Suc n"] Cons.prems(2) ord by simp
    then show ?thesis
      using RecordFailure_closed [OF Cons.prems(1,2), of t'] False mono ex call by simp
  qed
qed

text \<open>A run of failures shorter than the threshold never opens a breaker.\<close>

fun trailing :: "nat \<Rightarrow> bool list \<Rightarrow> nat" where
  "trailing f [] = f"
| "trailing f (ok # oks) = trailing (if ok then 0 else Suc f) oks"

fun below :: "nat \<Rightarrow> nat \<Rightarrow> bool list \<Rightarrow> bool" where
  "below th f [] \<longleftrightarrow> f < th"
| "below th f (ok # oks) \<longleftrightarrow> f < th \<and> below th (if ok then 0 else Suc f) oks"

lemma below_start: "below th f oks \<Longrightarrow> f < th"
  by (cases oks) auto

lemma serve_below:
  assumes "breaker_ok cb" "cb_state cb = StateClosed" "cb_failures cb = int f"
    "failureThreshold (cb_cfg cb) = int th" "below th f (map (\<lambda>(t, t', ok). ok) calls)"
  shows "snd (serve e calls (cb, n)) = n + length calls \<and>
    cb_state (fst (serve e calls (cb, n))) = StateClosed \<and>
    cb_failures (fst (serve e calls (cb, n))) = int (trailing f (map (\<lambda>(t, t', ok). ok) calls))"
  using assms
proof (induction calls arbitrary: cb n f)
  case (Cons call calls)
  obtain t t' ok where call: "call = (t, t', ok)" by (cases call)
  show ?case
  proof (cases ok)
    case True
    have "snd (Execute t t' (Some (\<lambda>n. (if ok then None else Some e, Suc n))) (cb, n)) =
        (cb\<lparr>cb_failures := 0\<rparr>, Suc n)"
      using True Cons.prems(2) by (simp add: Execute_def Allow_def RecordSuccess_def)
    moreover have "breaker_ok (cb\<lparr>cb_failures := 0\<rparr>)"
      using Cons.prems(1) threshold_pos by (simp add: breaker_ok_def)
    ultimately show ?thesis
      using Cons.IH [of "cb\<lparr>cb_failures := 0\<rparr>" 0 "Suc n"] Cons.prems True call by simp
  next
    case False
    then have lt: "Suc f < th" using Cons.prems(5) call below_start by auto
    then have "RecordFailure t' cb = cb\<lparr>cb_failures := int (Suc f)\<rparr>"
      using RecordFailure_closed [OF Cons.prems(1,2), of t'] Cons.prems(3,4) by simp
    then have "snd (Execute t t' (Some (\<lambda>n. (if ok then None else Some e, Suc n))) (cb, n)) =
        (cb\<lparr>cb_failures := int (Suc f)\<rparr>, Suc n)"
      using False Cons.prems(2) by (simp add: Execute_def Allow_def)
    moreover have "breaker_ok (cb\<lparr>cb_failures := int (Suc f)\<rparr>)"
      using Cons.prems(1,4) lt by (simp add: breaker_ok_def)
    ultimately show ?thesis
      using Cons.IH [of "cb\<lparr>cb_failures := int (Suc f)\<rparr>" "Suc f" "Suc n"] Cons.prems False call by simp
  qed
qed (simp add: trailing.simps)

lemma New_ok:
  "cooldown cfg \<le> max_duration \<Longrightarrow> failureThreshold cfg < 2 ^ 63 \<Longrightarrow> breaker_ok (NewCircuitBreaker name cfg)"
  using threshold_pos by (simp add: breaker_ok_def NewCircuitBreaker_def)

text \<open>Admissions alone, with no outcome recorded in between.\<close>

fun allows :: "time list \<Rightarrow> CircuitBreaker \<Rightarrow> bool list" where
  "allows [] cb = []"
| "allows (t # ts) cb = (case Allow t cb of (ok, cb') \<Rightarrow> ok # allows ts cb')"

lemma allows_half_open: "cb_state cb = StateHalfOpen \<Longrightarrow> allows ts cb = replicate (length ts) False"
  by (induction ts) (simp_all add: Allow_def)

lemma allows_open:
  assumes "breaker_ok cb" "cb_state cb = StateOpen"
  shows "length (filter id (allows ts cb)) \<le> 1 \<and>
    (True \<in> set (allows ts cb) \<longleftrightarrow> (\<exists>t\<in>set ts. t - cb_openedAt cb \<ge> cooldown (cb_cfg cb)))"
proof (induction ts)
  case (Cons t ts)
  show ?case
  proof (cases "t - cb_openedAt cb \<ge> cooldown (cb_cfg cb)")
    case True
    then have "allows (t # ts) cb = True # replicate (length ts) False"
      using assms by (simp add: Allow_def time_Sub_cooldown allows_half_open)
    with True show ?thesis by simp
  next
    case False
    then have "allows (t # ts) cb = False # allows ts cb"
      using assms by (simp add: Allow_def time_Sub_cooldown)
    with False Cons show ?thesis by simp
  qed
qed simp

section \<open>Properties of the breaker\<close>

text \<open>
  C11: A dead dependency is hardly touched. Whatever calls are made one after another to a
  breaker around a function that always fails, the function runs at most threshold times
  plus once for each full cooldown that passes, however many calls there are.
\<close>

theorem breaker_bounds_failing_calls:
  assumes "cooldown cfg \<le> max_duration" and "failureThreshold cfg < 2 ^ 63" and "in_order k calls T"
  shows "int (snd (serve_failing e calls (NewCircuitBreaker name cfg, 0))) \<le>
    failureThreshold cfg + (T - k) div cooldown cfg"
  using serve_closed [OF New_ok [OF assms(1,2)] _ assms(3), of name e 0]
  by (simp add: NewCircuitBreaker_def)

definition quick_config :: CircuitBreakerConfig where
  "quick_config = \<lparr>cc_FailureThreshold = 2, cc_Cooldown = 10\<rparr>"

theorem breaker_bounds_failing_calls_witness:
  "int (snd (serve_failing () [(1, 1), (2, 2), (3, 3), (4, 4), (13, 13)] (NewCircuitBreaker ''db'' quick_config, 0))) \<le> 3"
  using breaker_bounds_failing_calls [of quick_config 1 "[(1, 1), (2, 2), (3, 3), (4, 4), (13, 13)]" 13 "()" "''db''"]
  by (simp add: quick_config_def cooldown_def failureThreshold_def max_duration_def)

text \<open>
  A live dependency is never cut off. As long as no threshold many calls fail in a row,
  every call reaches the function, the breaker stays closed, and its counter is the length
  of the current run of failures.
\<close>

lemma breaker_stays_closed_below_threshold:
  assumes "cooldown cfg \<le> max_duration" and "failureThreshold cfg < 2 ^ 63"
    and "below (nat (failureThreshold cfg)) 0 (map (\<lambda>(t, t', ok). ok) calls)"
  shows "snd (serve e calls (NewCircuitBreaker name cfg, 0)) = length calls \<and>
    cb_state (fst (serve e calls (NewCircuitBreaker name cfg, 0))) = StateClosed \<and>
    cb_failures (fst (serve e calls (NewCircuitBreaker name cfg, 0))) =
      int (trailing 0 (map (\<lambda>(t, t', ok). ok) calls))"
  using serve_below [OF New_ok [OF assms(1,2)] _ _ _ assms(3), of name e 0] threshold_pos [of cfg]
  by (simp add: NewCircuitBreaker_def)

lemma breaker_stays_closed_below_threshold_witness:
  "snd (serve () [(1, 1, False), (2, 2, True), (3, 3, False)] (NewCircuitBreaker ''db'' quick_config, 0)) = 3"
  using breaker_stays_closed_below_threshold [of quick_config "[(1, 1, False), (2, 2, True), (3, 3, False)]" "()" "''db''"]
  by (simp add: quick_config_def cooldown_def failureThreshold_def max_duration_def)

text \<open>
  One probe at a time. From an open breaker, of any number of admissions asked for before
  an outcome is recorded, at most one is granted, and one is exactly if some caller asks
  when the cooldown has passed.
\<close>

lemma one_probe_at_a_time:
  assumes "cooldown cfg \<le> max_duration" and "failureThreshold cfg < 2 ^ 63"
  shows "length (filter id (allows ts (trip t0 (NewCircuitBreaker name cfg)))) \<le> 1 \<and>
    (True \<in> set (allows ts (trip t0 (NewCircuitBreaker name cfg))) \<longleftrightarrow>
       (\<exists>t\<in>set ts. t - t0 \<ge> cooldown cfg))"
proof -
  let ?cb = "trip t0 (NewCircuitBreaker name cfg)"
  have "breaker_ok ?cb" using New_ok [OF assms, of name] by (simp add: trip_def breaker_ok_def)
  then show ?thesis using allows_open [of ?cb ts] by (simp add: trip_def NewCircuitBreaker_def)
qed

lemma one_probe_at_a_time_witness:
  "True \<in> set (allows [3, 12, 13] (trip 2 (NewCircuitBreaker ''db'' quick_config)))"
  using one_probe_at_a_time [of quick_config "[3, 12, 13]" 2 "''db''"]
  by (simp add: quick_config_def cooldown_def failureThreshold_def max_duration_def)

section \<open>Retries\<close>

definition DefaultMaxAttempts :: int where
  "DefaultMaxAttempts = 3"

record RetryPolicy =
  rp_MaxAttempts :: int
  rp_BaseDelay :: duration
  rp_MaxDelay :: duration
  rp_HasJitter :: bool

text \<open>
  The jitter is a floating-point fraction, clamped to [0,1]; all the model keeps of it is
  whether the clamped fraction is positive. The randomised delay that then results from a
  computed one is the argument \<open>jittered\<close>.
\<close>

definition maxAttempts :: "RetryPolicy \<Rightarrow> nat" where
  "maxAttempts p = nat (if rp_MaxAttempts p \<le> 0 then DefaultMaxAttempts else rp_MaxAttempts p)"

definition validate :: "RetryPolicy \<Rightarrow> 'e rel_error option" where
  "validate p = (if rp_BaseDelay p < 0 \<or> rp_MaxDelay p < 0 then Some ErrInvalidRetryPolicy else None)"

text \<open>The doubling loop; its first argument is the number of rounds left.\<close>

fun double_delay :: "nat \<Rightarrow> duration \<Rightarrow> duration \<Rightarrow> duration" where
  "double_delay 0 maxDelay delay = delay"
| "double_delay (Suc n) maxDelay delay =
     (let delay = wrap64 (delay * 2) in
      if maxDelay > 0 \<and> delay \<ge> maxDelay then maxDelay else double_delay n maxDelay delay)"

definition delayForAttempt :: "(duration \<Rightarrow> duration) \<Rightarrow> RetryPolicy \<Rightarrow> nat \<Rightarrow> duration" where
  "delayForAttempt jittered p attempt =
     (if rp_BaseDelay p \<le> 0 then 0
      else
        let delay = double_delay (attempt - 1) (rp_MaxDelay p) (rp_BaseDelay p);
            delay = (if rp_MaxDelay p > 0 \<and> delay > rp_MaxDelay p then rp_MaxDelay p else delay)
        in if \<not> rp_HasJitter p then delay else jittered delay)"

text \<open>
  The context and the timer act on the world: \<open>ctxErr\<close> is \<open>ctx.Err() != nil\<close>, and \<open>wait d\<close>
  waits for the timer or the context, whichever is first, and tells whether the context was
  done. \<open>fn\<close> gets the number of the attempt.
\<close>

function retry_loop ::
  "(duration \<Rightarrow> duration) \<Rightarrow> RetryPolicy \<Rightarrow> ('w \<Rightarrow> bool) \<Rightarrow> (duration \<Rightarrow> 'w \<Rightarrow> bool \<times> 'w)
    \<Rightarrow> (nat \<Rightarrow> 'w \<Rightarrow> 'e option \<times> 'w) \<Rightarrow> nat \<Rightarrow> nat \<Rightarrow> 'w \<Rightarrow> 'e rel_error option \<times> 'w" where
  "retry_loop jittered p ctxErr wait fn limit attempt w =
     (if ctxErr w then (Some ContextDone, w)
      else
        (case fn attempt w of
           (None, w) \<Rightarrow> (None, w)
         | (Some lastErr, w) \<Rightarrow>
             if attempt \<ge> limit
             then (Some (rel_wrapf ''Retry'' (RetriesExhausted limit lastErr)), w)
             else
               let delay = delayForAttempt jittered p attempt in
               if delay \<le> 0 then retry_loop jittered p ctxErr wait fn limit (Suc attempt) w
               else
                 (case wait delay w of
                    (True, w) \<Rightarrow> (Some ContextDone, w)
                  | (False, w) \<Rightarrow> retry_loop jittered p ctxErr wait fn limit (Suc attempt) w)))"
  by pat_completeness auto
termination
  by (relation "measure (\<lambda>(_, _, _, _, _, limit, attempt, _). limit - attempt)") auto

declare retry_loop.simps [simp del]

definition Retry ::
  "(duration \<Rightarrow> duration) \<Rightarrow> RetryPolicy \<Rightarrow> ('w \<Rightarrow> bool) \<Rightarrow> (duration \<Rightarrow> 'w \<Rightarrow> bool \<times> 'w)
    \<Rightarrow> (nat \<Rightarrow> 'w \<Rightarrow> 'e option \<times> 'w) option \<Rightarrow> 'w \<Rightarrow> 'e rel_error option \<times> 'w" where
  "Retry jittered p ctxErr wait fn w =
     (case fn of
        None \<Rightarrow> (Some (rel_wrapf ''Retry'' ErrNilFunc), w)
      | Some fn \<Rightarrow>
          (case validate p of
             Some err \<Rightarrow> (Some (rel_wrapf ''Retry'' err), w)
           | None \<Rightarrow> retry_loop jittered p ctxErr wait fn (maxAttempts p) 1 w))"

section \<open>Degradation\<close>

text \<open>The mode of a degraded result is that of its degrader; a primary result has none.\<close>

record ('a, 'm) Result =
  rs_Value :: "'a option"
  rs_Degraded :: bool
  rs_Mode :: "'m option"

definition Degrader_Run ::
  "'m \<Rightarrow> ('w \<Rightarrow> ('e + 'a) \<times> 'w) option \<Rightarrow> ('e \<Rightarrow> 'w \<Rightarrow> ('e + 'a) \<times> 'w) option \<Rightarrow> 'w
    \<Rightarrow> ('e rel_error option \<times> ('a, 'm) Result) \<times> 'w" where
  "Degrader_Run mode primary fallback w =
     (let zero = \<lparr>rs_Value = None, rs_Degraded = False, rs_Mode = None\<rparr> in
      case (primary, fallback) of
        (Some primary, Some fallback) \<Rightarrow>
          (case primary w of
             (Inr v, w) \<Rightarrow> ((None, zero\<lparr>rs_Value := Some v\<rparr>), w)
           | (Inl err, w) \<Rightarrow>
               (case fallback err w of
                  (Inl ferr, w) \<Rightarrow> ((Some (FnError ferr), zero), w)
                | (Inr v, w) \<Rightarrow>
                    ((None, \<lparr>rs_Value = Some v, rs_Degraded = True, rs_Mode = Some mode\<rparr>), w)))
      | _ \<Rightarrow> ((Some (rel_wrapf ''Degrader.Run'' ErrNilFunc), zero), w))"

section \<open>Lemmas on the schedule\<close>

lemma double_delay_capped:
  assumes "0 < m" "m < 2 ^ 62" "0 < d" "d \<le> m"
  shows "double_delay n m d = min m (d * 2 ^ n)"
  using assms(3,4)
proof (induction n arbitrary: d)
  case 0
  then show ?case by simp
next
  case (Suc n)
  have w: "wrap64 (d * 2) = d * 2"
    using Suc.prems assms(2) by (intro wrap64_id) auto
  show ?case
  proof (cases "d * 2 \<ge> m")
    case True
    have "d * 2 \<le> d * 2 * 2 ^ n" using Suc.prems(1) by (simp add: mult_le_cancel_left1)
    with True have "m \<le> d * 2 ^ Suc n" by simp
    with True assms(1) show ?thesis by (simp add: w min_def)
  next
    case False
    with Suc.IH [of "d * 2"] Suc.prems(1) show ?thesis
      using assms(1) by (simp add: w mult.assoc)
  qed
qed

lemma wrap64_wrap64_mult: "wrap64 (wrap64 x * k) = wrap64 (x * k)"
proof -
  let ?q = "(x + 2 ^ 63) div 2 ^ 64"
  have "wrap64 x = x - 2 ^ 64 * ?q"
    unfolding wrap64_def by (simp add: minus_mod_eq_mult_div [symmetric])
  then have "wrap64 x * k = (x - 2 ^ 64 * ?q) * k" by (rule arg_cong)
  also have "\<dots> = x * k + 2 ^ 64 * (- ?q * k)" by (simp add: left_diff_distrib)
  finally have "wrap64 x * k + 2 ^ 63 = (x * k + 2 ^ 63) + 2 ^ 64 * (- ?q * k)" by simp
  then show ?thesis
    unfolding wrap64_def [of "wrap64 x * k"] wrap64_def [of "x * k"] by (metis mod_mult_self2)
qed

lemma double_delay_uncapped: "wrap64 d = d \<Longrightarrow> double_delay n 0 d = wrap64 (d * 2 ^ n)"
proof (induction n arbitrary: d)
  case (Suc n)
  have "wrap64 (wrap64 (d * 2)) = wrap64 (d * 2)"
    using wrap64_bounds [of "d * 2"] by (simp add: wrap64_id)
  from Suc.IH [OF this] show ?case
    using wrap64_wrap64_mult [of "d * 2" "2 ^ n"] by (simp add: Let_def mult.assoc)
qed simp

text \<open>A world that logs the calls of a function whose outcomes are \<open>f\<close>, and the waits.\<close>

datatype retry_event = Called nat | Slept duration

definition logged_fn :: "(nat \<Rightarrow> 'e option) \<Rightarrow> nat \<Rightarrow> retry_event list \<Rightarrow> 'e option \<times> retry_event list" where
  "logged_fn f n w = (f n, w @ [Called n])"

definition logged_wait :: "duration \<Rightarrow> retry_event list \<Rightarrow> bool \<times> retry_event list" where
  "logged_wait d w = (False, w @ [Slept d])"

text \<open>The log of the attempts \<open>i\<close> to \<open>k\<close>, with the pause after each but the last.\<close>

definition pause :: "(duration \<Rightarrow> duration) \<Rightarrow> RetryPolicy \<Rightarrow> nat \<Rightarrow> retry_event list" where
  "pause jittered p n =
     (if delayForAttempt jittered p n \<le> 0 then [] else [Slept (delayForAttempt jittered p n)])"

definition schedule :: "(duration \<Rightarrow> duration) \<Rightarrow> RetryPolicy \<Rightarrow> nat \<Rightarrow> nat \<Rightarrow> retry_event list" where
  "schedule jittered p i k = concat (map (\<lambda>n. Called n # pause jittered p n) [i..<k]) @ [Called k]"

lemma schedule_rec:
  "i < k \<Longrightarrow> schedule jittered p i k = Called i # pause jittered p i @ schedule jittered p (Suc i) k"
  by (simp add: schedule_def upt_conv_Cons)

lemma retry_loop_success:
  assumes "f k = None" "\<And>n. i \<le> n \<Longrightarrow> n < k \<Longrightarrow> f n \<noteq> None" "i \<le> k" "k \<le> limit"
  shows "retry_loop jittered p (\<lambda>_. False) logged_wait (logged_fn f) limit i w =
    (None, w @ schedule jittered p i k)"
  using assms(2,3)
proof (induction "k - i" arbitrary: i w)
  case 0
  then show ?case using assms(1) by (simp add: retry_loop.simps logged_fn_def schedule_def)
next
  case (Suc m)
  then have i: "i < k" by simp
  then obtain e where e: "f i = Some e" using Suc.prems(1) by blast
  have "retry_loop jittered p (\<lambda>_. False) logged_wait (logged_fn f) limit (Suc i) v =
      (None, v @ schedule jittered p (Suc i) k)" for v
    using Suc i by simp
  then show ?case
    using i e assms(4)
    by (simp add: retry_loop.simps [of _ _ _ _ _ _ i] logged_fn_def logged_wait_def schedule_rec pause_def Let_def)
qed

lemma retry_loop_exhausted:
  assumes "\<And>n. i \<le> n \<Longrightarrow> n \<le> limit \<Longrightarrow> f n \<noteq> None" "i \<le> limit"
  shows "retry_loop jittered p (\<lambda>_. False) logged_wait (logged_fn f) limit i w =
    (Some (rel_wrapf ''Retry'' (RetriesExhausted limit (the (f limit)))), w @ schedule jittered p i limit)"
  using assms
proof (induction "limit - i" arbitrary: i w)
  case 0
  then obtain e where "i = limit" "f limit = Some e" by fastforce
  then show ?case by (simp add: retry_loop.simps logged_fn_def schedule_def)
next
  case (Suc m)
  then have i: "i < limit" by simp
  then obtain e where e: "f i = Some e" using Suc.prems(1) [of i] by auto
  have "retry_loop jittered p (\<lambda>_. False) logged_wait (logged_fn f) limit (Suc i) v =
      (Some (rel_wrapf ''Retry'' (RetriesExhausted limit (the (f limit)))), v @ schedule jittered p (Suc i) limit)" for v
    using Suc i by simp
  then show ?case
    using i e
    by (simp add: retry_loop.simps [of _ _ _ _ _ _ i] logged_fn_def logged_wait_def schedule_rec pause_def Let_def)
qed

section \<open>Properties of the schedule\<close>

lemma maxAttempts_pos: "1 \<le> maxAttempts p"
  by (auto simp: maxAttempts_def DefaultMaxAttempts_def Suc_le_eq)

text \<open>
  What \<open>Retry\<close> does when nobody cancels. With a valid policy it calls the function with
  the pauses of the schedule in between until the first success, which it reports, and if
  there is none within the limit it reports exhaustion with the last error after exactly
  the permitted number of calls.
\<close>

lemma Retry_follows_schedule:
  assumes "validate p = (None :: 'e rel_error option)"
  shows "(\<forall>k. 1 \<le> k \<and> k \<le> maxAttempts p \<and> f k = None \<and> (\<forall>n. 1 \<le> n \<and> n < k \<longrightarrow> f n \<noteq> None) \<longrightarrow>
       Retry jittered p (\<lambda>_. False) logged_wait (Some (logged_fn f)) [] = (None, schedule jittered p 1 k)) \<and>
    ((\<forall>n. 1 \<le> n \<and> n \<le> maxAttempts p \<longrightarrow> f n \<noteq> None) \<longrightarrow>
       Retry jittered p (\<lambda>_. False) logged_wait (Some (logged_fn f)) [] =
         (Some (rel_wrapf ''Retry'' (RetriesExhausted (maxAttempts p) (the (f (maxAttempts p) :: 'e option)))),
          schedule jittered p 1 (maxAttempts p)))"
  using assms retry_loop_success [of f _ 1 "maxAttempts p" jittered p "[]"]
    retry_loop_exhausted [of 1 "maxAttempts p" f jittered p "[]"] maxAttempts_pos [of p]
  by (auto simp: Retry_def)

definition doubling :: RetryPolicy where
  "doubling = \<lparr>rp_MaxAttempts = 4, rp_BaseDelay = 100, rp_MaxDelay = 150, rp_HasJitter = False\<rparr>"

lemma Retry_follows_schedule_witness:
  "Retry id doubling (\<lambda>_. False) logged_wait (Some (logged_fn (\<lambda>n. if n = 3 then None else Some ''down''))) [] =
     (None, [Called 1, Slept 100, Called 2, Slept 150, Called 3])"
proof -
  have v: "validate doubling = (None :: string rel_error option)" by (simp add: validate_def doubling_def)
  have s: "schedule id doubling 1 3 = [Called 1, Slept 100, Called 2, Slept 150, Called 3]"
    by (simp add: schedule_def pause_def delayForAttempt_def doubling_def wrap64_def upt_rec numeral_2_eq_2)
  note by_schedule = conjunct1 [OF Retry_follows_schedule [OF v, of "\<lambda>n. if n = 3 then None else Some ''down''" id]]
  show ?thesis
    unfolding s [symmetric]
    by (rule by_schedule [rule_format]) (simp add: maxAttempts_def doubling_def)
qed

text \<open>
  The backoff. With a cap below 2^62 ns and a base delay within it the pause after
  attempt n is the doubled base delay, capped, and never overflows. Without a cap the
  doubling wraps around in 64 bits: after attempt 65 and later there is no pause at all.
\<close>

lemma backoff_doubles_and_wraps:
  assumes "0 < rp_BaseDelay p" and "rp_BaseDelay p < 2 ^ 63" and "\<not> rp_HasJitter p" and "1 \<le> n"
  shows "(0 < rp_MaxDelay p \<and> rp_MaxDelay p < 2 ^ 62 \<and> rp_BaseDelay p \<le> rp_MaxDelay p \<longrightarrow>
       delayForAttempt jittered p n = min (rp_MaxDelay p) (rp_BaseDelay p * 2 ^ (n - 1))) \<and>
    (rp_MaxDelay p = 0 \<and> rp_BaseDelay p * 2 ^ (n - 1) < 2 ^ 63 \<longrightarrow>
       delayForAttempt jittered p n = rp_BaseDelay p * 2 ^ (n - 1)) \<and>
    (rp_MaxDelay p = 0 \<and> 65 \<le> n \<longrightarrow> delayForAttempt jittered p n = 0)"
proof (intro conjI impI)
  assume "0 < rp_MaxDelay p \<and> rp_MaxDelay p < 2 ^ 62 \<and> rp_BaseDelay p \<le> rp_MaxDelay p"
  then show "delayForAttempt jittered p n = min (rp_MaxDelay p) (rp_BaseDelay p * 2 ^ (n - 1))"
    using assms(1,3) double_delay_capped [of "rp_MaxDelay p" "rp_BaseDelay p" "n - 1"]
    by (simp add: delayForAttempt_def Let_def)
next
  have w: "wrap64 (rp_BaseDelay p) = rp_BaseDelay p" using assms(1,2) by (intro wrap64_id) auto
  assume small: "rp_MaxDelay p = 0 \<and> rp_BaseDelay p * 2 ^ (n - 1) < 2 ^ 63"
  have "0 \<le> rp_BaseDelay p * 2 ^ (n - 1)" using assms(1) by simp
  then have "wrap64 (rp_BaseDelay p * 2 ^ (n - 1)) = rp_BaseDelay p * 2 ^ (n - 1)"
    using small by (intro wrap64_id) linarith+
  then show "delayForAttempt jittered p n = rp_BaseDelay p * 2 ^ (n - 1)"
    using small assms(1,3) double_delay_uncapped [OF w, of "n - 1"]
    by (simp add: delayForAttempt_def Let_def)
next
  have w: "wrap64 (rp_BaseDelay p) = rp_BaseDelay p" using assms(1,2) by (intro wrap64_id) auto
  assume n: "rp_MaxDelay p = 0 \<and> 65 \<le> n"
  then have "n - 1 = 64 + (n - 65)" by linarith
  then have "(2 :: int) ^ (n - 1) = 2 ^ 64 * 2 ^ (n - 65)" by (simp only: power_add)
  then have "rp_BaseDelay p * 2 ^ (n - 1) + 2 ^ 63 = 2 ^ 63 + 2 ^ 64 * (rp_BaseDelay p * 2 ^ (n - 65))"
    by simp
  then have "wrap64 (rp_BaseDelay p * 2 ^ (n - 1)) = 0"
    unfolding wrap64_def by (simp only: mod_mult_self2) simp
  then show "delayForAttempt jittered p n = 0"
    using n assms(1,3) double_delay_uncapped [OF w, of "n - 1"]
    by (simp add: delayForAttempt_def Let_def)
qed

lemma backoff_doubles_and_wraps_witness:
  "delayForAttempt id doubling 2 = 150 \<and> delayForAttempt id (doubling\<lparr>rp_MaxDelay := 0\<rparr>) 65 = 0"
  using backoff_doubles_and_wraps [of doubling 2 id]
    backoff_doubles_and_wraps [of "doubling\<lparr>rp_MaxDelay := 0\<rparr>" 65 id]
  by (simp add: doubling_def)

end
