(* ===== verification/Dispatch.thy ===== *)
theory Dispatch
  imports Breaker "HOL-Library.Multiset" "HOL-Library.List_Lexorder" "HOL-Library.Char_ord"
begin

text \<open>
  \<open>packages/reliability\<close>, the dispatchers: the idempotency guard, which runs a function at
  most once per key and replays its result (\<open>idempotency.go\<close>), and the traffic shifter,
  which spreads calls over the healthy backends (\<open>traffic_shift.go\<close>).
\<close>

section \<open>The idempotency guard\<close>

definition DefaultIdempotencyTTL :: duration where
  "DefaultIdempotencyTTL = 600 * 1000000000"

text \<open>
  Entries are shared by reference between the map and the callers, so they live in a heap and
  the map holds addresses. \<open>en_result\<close> is the value or error, set when the call is done;
  until then \<open>expiresAt\<close> is the zero time. A Go map is a map of HOL here.
\<close>

record ('e, 'a) idempotencyEntry =
  en_result :: "('e + 'a) option"
  en_expiresAt :: time

record ('e, 'a) IdempotencyGuard =
  ig_ttl :: duration
  ig_entries :: "string \<rightharpoonup> nat"
  ig_heap :: "('e, 'a) idempotencyEntry list"

definition NewIdempotencyGuard :: "duration \<Rightarrow> ('e, 'a) IdempotencyGuard" where
  "NewIdempotencyGuard ttl =
     \<lparr>ig_ttl = (if ttl \<le> 0 then DefaultIdempotencyTTL else ttl), ig_entries = Map.empty, ig_heap = []\<rparr>"

text \<open>
  \<open>Execute\<close> holds the lock twice, before and after the call of the function, so it is two
  atomic steps. The first answers with the entry to wait for, with the entry whose call the
  caller now makes, or with the nil-function error.
\<close>

datatype admission = WaitFor nat | Run nat | NilFunc

definition Execute_begin ::
  "string \<Rightarrow> bool \<Rightarrow> time \<Rightarrow> ('e, 'a) IdempotencyGuard \<Rightarrow> admission \<times> ('e, 'a) IdempotencyGuard" where
  "Execute_begin key has_fn now g =
     (let start = (\<lambda>g. if \<not> has_fn then (NilFunc, g)
                       else (Run (length (ig_heap g)),
                             g\<lparr>ig_entries := (ig_entries g)(key \<mapsto> length (ig_heap g)),
                               ig_heap := ig_heap g @ [\<lparr>en_result = None, en_expiresAt = zero_time\<rparr>]\<rparr>))
      in case ig_entries g key of
           Some a \<Rightarrow>
             if en_expiresAt (ig_heap g ! a) > now \<or> en_expiresAt (ig_heap g ! a) = zero_time
             then (WaitFor a, g)
             else start (g\<lparr>ig_entries := (ig_entries g)(key := None)\<rparr>)
         | None \<Rightarrow> start g)"

definition Execute_finish ::
  "nat \<Rightarrow> 'e + 'a \<Rightarrow> time \<Rightarrow> ('e, 'a) IdempotencyGuard \<Rightarrow> ('e, 'a) IdempotencyGuard" where
  "Execute_finish a result now g =
     g\<lparr>ig_heap := (ig_heap g)[a := \<lparr>en_result = Some result, en_expiresAt = now + ig_ttl g\<rparr>]\<rparr>"

text \<open>
  \<open>waitForEntry\<close>: \<open>None\<close> while the caller blocks. A context that is done ends the wait; when
  both cases of the \<open>select\<close> are ready Go picks one at random, which \<open>picks_ctx\<close> stands for.
\<close>

definition waitForEntry ::
  "bool \<Rightarrow> bool \<Rightarrow> nat \<Rightarrow> ('e, 'a) IdempotencyGuard \<Rightarrow> ('e rel_error + 'a) option" where
  "waitForEntry ctx_done picks_ctx a g =
     (case en_result (ig_heap g ! a) of
        Some r \<Rightarrow>
          Some (if ctx_done \<and> picks_ctx then Inl ContextDone
                else case r of Inl err \<Rightarrow> Inl (FnError err) | Inr v \<Rightarrow> Inr v)
      | None \<Rightarrow> if ctx_done then Some (Inl ContextDone) else None)"

definition Forget :: "string \<Rightarrow> ('e, 'a) IdempotencyGuard \<Rightarrow> ('e, 'a) IdempotencyGuard" where
  "Forget key g = g\<lparr>ig_entries := (ig_entries g)(key := None)\<rparr>"

text \<open>
  Interleaved callers on an advancing clock. \<open>runs\<close> is the history of the calls made: the key,
  the entry, and once the call is done its result and the time its entry expires at.
\<close>

type_synonym ('e, 'a) guard_runs = "(string \<times> nat \<times> (('e + 'a) \<times> time) option) list"

definition finished :: "nat \<Rightarrow> ('e + 'a) \<times> time \<Rightarrow> ('e, 'a) guard_runs \<Rightarrow> ('e, 'a) guard_runs" where
  "finished a r runs = map (\<lambda>(key, b, o'). if b = a then (key, b, Some r) else (key, b, o')) runs"

inductive guard_reach ::
  "duration \<Rightarrow> ('e, 'a) IdempotencyGuard \<Rightarrow> ('e, 'a) guard_runs \<Rightarrow> time \<Rightarrow> bool" for ttl where
  start: "0 < k \<Longrightarrow> guard_reach ttl (NewIdempotencyGuard ttl) [] k"
| admit: "guard_reach ttl g runs k \<Longrightarrow> k \<le> now \<Longrightarrow> Execute_begin key has_fn now g = (adm, g') \<Longrightarrow>
    guard_reach ttl g' (case adm of Run a \<Rightarrow> runs @ [(key, a, None)] | _ \<Rightarrow> runs) now"
| finish: "guard_reach ttl g runs k \<Longrightarrow> k \<le> now \<Longrightarrow> (key, a, None) \<in> set runs \<Longrightarrow>
    guard_reach ttl (Execute_finish a result now g) (finished a (result, now + ig_ttl g) runs) now"

text \<open>
  The invariant: the history describes the heap, each run of a key that is in the map's entry
  or was replaced, and a replaced one had expired.
\<close>

definition run_ok :: "('e, 'a) IdempotencyGuard \<Rightarrow> time \<Rightarrow> string \<Rightarrow> nat \<Rightarrow> (('e + 'a) \<times> time) option \<Rightarrow> bool" where
  "run_ok g k key a o' \<longleftrightarrow>
     (case o' of
        None \<Rightarrow> ig_heap g ! a = \<lparr>en_result = None, en_expiresAt = zero_time\<rparr> \<and> ig_entries g key = Some a
      | Some rx \<Rightarrow> ig_heap g ! a = \<lparr>en_result = Some (fst rx), en_expiresAt = snd rx\<rparr> \<and> 0 < snd rx \<and>
          (ig_entries g key = Some a \<or> snd rx \<le> k))"

definition guard_inv :: "('e, 'a) IdempotencyGuard \<Rightarrow> ('e, 'a) guard_runs \<Rightarrow> time \<Rightarrow> bool" where
  "guard_inv g runs k \<longleftrightarrow>
     0 < k \<and> 0 < ig_ttl g \<and> map (\<lambda>(key, a, o'). a) runs = [0..<length (ig_heap g)] \<and>
     (\<forall>key a o'. (key, a, o') \<in> set runs \<longrightarrow> run_ok g k key a o') \<and>
     (\<forall>key a. ig_entries g key = Some a \<longrightarrow> (\<exists>o'. (key, a, o') \<in> set runs))"

lemma run_ok_mono: "run_ok g k key a o' \<Longrightarrow> k \<le> k' \<Longrightarrow> run_ok g k' key a o'"
  by (auto simp: run_ok_def split: option.splits)

text \<open>A run stays right when its entry stays and its key's mapping stays or it had expired.\<close>

lemma run_ok_frame:
  assumes "run_ok g k key a o'" "ig_heap g' ! a = ig_heap g ! a"
    "ig_entries g' key = ig_entries g key \<or> (\<exists>rx. o' = Some rx \<and> snd rx \<le> k)"
  shows "run_ok g' k key a o'"
  using assms by (auto simp: run_ok_def split: option.splits)

lemma guard_inv_start: "0 < k \<Longrightarrow> guard_inv (NewIdempotencyGuard ttl) [] k"
  by (simp add: guard_inv_def NewIdempotencyGuard_def DefaultIdempotencyTTL_def)

lemma guard_inv_mono: "guard_inv g runs k \<Longrightarrow> k \<le> k' \<Longrightarrow> guard_inv g runs k'"
  unfolding guard_inv_def by (elim conjE, intro conjI) (auto intro: run_ok_mono)

text \<open>A run's address determines the run.\<close>

lemma guard_inv_address:
  assumes "guard_inv g runs k" "(key, a, x) \<in> set runs" "(key', a, y) \<in> set runs"
  shows "key' = key \<and> y = x"
proof -
  have "distinct (map (\<lambda>(key, a, o'). a) runs)" using assms(1) by (simp add: guard_inv_def)
  then show ?thesis
    using assms(2,3) by (metis (mono_tags, lifting) case_prod_conv distinct_map inj_on_def prod.inject)
qed

lemma guard_inv_bound: "guard_inv g runs k \<Longrightarrow> (key, a, x) \<in> set runs \<Longrightarrow> a < length (ig_heap g)"
  by (metis (mono_tags, lifting) atLeastLessThan_iff case_prod_conv guard_inv_def image_eqI list.set_map
      set_upt)

text \<open>Expired or absent: what lets a caller start a run.\<close>

lemma guard_inv_fresh:
  assumes "guard_inv g runs k" "k \<le> now" "Execute_begin key has_fn now g = (Run a, g')"
  shows "has_fn \<and> a = length (ig_heap g) \<and>
    g' = g\<lparr>ig_entries := (ig_entries g)(key \<mapsto> a),
           ig_heap := ig_heap g @ [\<lparr>en_result = None, en_expiresAt = zero_time\<rparr>]\<rparr> \<and>
    (\<forall>b o'. (key, b, o') \<in> set runs \<longrightarrow> (\<exists>r x. o' = Some (r, x) \<and> x \<le> now))"
proof -
  have run: "has_fn \<and> a = length (ig_heap g) \<and>
    g' = g\<lparr>ig_entries := (ig_entries g)(key \<mapsto> a),
           ig_heap := ig_heap g @ [\<lparr>en_result = None, en_expiresAt = zero_time\<rparr>]\<rparr> \<and>
    (\<forall>b. ig_entries g key = Some b \<longrightarrow>
       en_expiresAt (ig_heap g ! b) \<le> now \<and> en_expiresAt (ig_heap g ! b) \<noteq> zero_time)"
    using assms(3) by (auto simp: Execute_begin_def Let_def split: option.splits if_splits)
  have "\<exists>r x. o' = Some (r, x) \<and> x \<le> now" if "(key, b, o') \<in> set runs" for b o'
  proof -
    have "run_ok g k key b o'" using assms(1) that by (simp add: guard_inv_def)
    then show ?thesis using run assms(2) by (cases o') (auto simp: run_ok_def)
  qed
  with run show ?thesis by blast
qed

lemma guard_inv_admit:
  assumes "guard_inv g runs k" "k \<le> now" "Execute_begin key has_fn now g = (adm, g')"
  shows "guard_inv g' (case adm of Run a \<Rightarrow> runs @ [(key, a, None)] | _ \<Rightarrow> runs) now"
proof -
  have old: "guard_inv g runs now" using guard_inv_mono [OF assms(1,2)] .
  have runs: "run_ok g now key' b o'" if "(key', b, o') \<in> set runs" for key' b o'
    using old that by (simp add: guard_inv_def)
  show ?thesis
  proof (cases adm)
    case (Run a)
    note fresh = guard_inv_fresh [OF assms(1,2) assms(3) [unfolded Run]]
    have "run_ok g' now key' b o'" if r: "(key', b, o') \<in> set runs" for key' b o'
    proof (rule run_ok_frame [OF runs [OF r]])
      show "ig_heap g' ! b = ig_heap g ! b"
        using fresh guard_inv_bound [OF old r] by (auto simp: nth_append)
      show "ig_entries g' key' = ig_entries g key' \<or> (\<exists>rx. o' = Some rx \<and> snd rx \<le> now)"
        using fresh r by (cases "key' = key") auto
    qed
    moreover have "run_ok g' now key a None"
      using fresh by (auto simp: run_ok_def nth_append)
    moreover have "\<exists>o'. (key', b, o') \<in> set (runs @ [(key, a, None)])" if "ig_entries g' key' = Some b" for key' b
      using that fresh old by (auto simp: guard_inv_def split: if_splits)
    ultimately show ?thesis
      using old fresh Run by (auto simp: guard_inv_def)
  next
    case (WaitFor a)
    then have "g' = g" using assms(3) by (auto simp: Execute_begin_def Let_def split: option.splits if_splits)
    with WaitFor old show ?thesis by simp
  next
    case NilFunc
    then consider "g' = g" | b where "g' = g\<lparr>ig_entries := (ig_entries g)(key := None)\<rparr>"
        "ig_entries g key = Some b" "en_expiresAt (ig_heap g ! b) \<le> now"
        "en_expiresAt (ig_heap g ! b) \<noteq> zero_time"
      using assms(3) by (auto simp: Execute_begin_def Let_def split: option.splits if_splits)
    then show ?thesis
    proof cases
      case 1
      with NilFunc old show ?thesis by simp
    next
      case 2
      have "run_ok g' now key' c o'" if r: "(key', c, o') \<in> set runs" for key' c o'
      proof (rule run_ok_frame [OF runs [OF r]])
        show "ig_heap g' ! c = ig_heap g ! c" using 2 by simp
        show "ig_entries g' key' = ig_entries g key' \<or> (\<exists>rx. o' = Some rx \<and> snd rx \<le> now)"
          using 2 runs [OF r] by (cases "key' = key"; cases o') (auto simp: run_ok_def)
      qed
      then show ?thesis using old 2 NilFunc by (auto simp: guard_inv_def)
    qed
  qed
qed

lemma set_finished:
  "(key, b, p) \<in> set (finished a r runs) \<longleftrightarrow>
     (\<exists>q. (key, b, q) \<in> set runs \<and> p = (if b = a then Some r else q))"
proof (induction runs)
  case Nil
  then show ?case by (simp add: finished_def)
next
  case (Cons run runs)
  obtain key' b' q' where run: "run = (key', b', q')" by (metis prod_cases3)
  have "finished a r (run # runs) = (key', b', if b' = a then Some r else q') # finished a r runs"
    by (simp add: finished_def run)
  then show ?case using Cons.IH run by auto
qed

lemma guard_inv_finish:
  assumes "guard_inv g runs k" "k \<le> now" "(key, a, None) \<in> set runs"
  shows "guard_inv (Execute_finish a result now g) (finished a (result, now + ig_ttl g) runs) now"
proof -
  have old: "guard_inv g runs now" using guard_inv_mono [OF assms(1,2)] .
  have a: "a < length (ig_heap g)" using guard_inv_bound [OF assms(1,3)] .
  let ?g = "Execute_finish a result now g"
  have addrs: "map (\<lambda>(key, a, o'). a) (finished a r runs) = map (\<lambda>(key, a, o'). a) runs" for r
    by (induction runs) (auto simp: finished_def)
  have "run_ok ?g now key' b p" if r: "(key', b, p) \<in> set (finished a (result, now + ig_ttl g) runs)" for key' b p
  proof -
    from r obtain q where q: "(key', b, q) \<in> set runs" "p = (if b = a then Some (result, now + ig_ttl g) else q)"
      by (auto simp: set_finished)
    show ?thesis
    proof (cases "b = a")
      case True
      then have "key' = key" using q guard_inv_address [OF assms(1,3)] by blast
      moreover have "run_ok g now key a None" "0 < now" "0 < ig_ttl g"
        using old assms(3) by (auto simp: guard_inv_def)
      ultimately show ?thesis
        using q True a by (simp add: run_ok_def Execute_finish_def)
    next
      case False
      have "run_ok g now key' b q" using old q(1) by (simp add: guard_inv_def)
      then show ?thesis
        using q False by (auto intro: run_ok_frame simp: Execute_finish_def)
    qed
  qed
  moreover have "\<exists>p. (key', b, p) \<in> set (finished a (result, now + ig_ttl g) runs)"
    if "ig_entries ?g key' = Some b" for key' b
    using that old by (fastforce simp: guard_inv_def set_finished Execute_finish_def)
  ultimately show ?thesis
    using old addrs by (auto simp: guard_inv_def Execute_finish_def)
qed

lemma guard_reach_inv: "guard_reach ttl g runs k \<Longrightarrow> guard_inv g runs k"
proof (induction rule: guard_reach.induct)
  case (start k)
  then show ?case by (rule guard_inv_start)
next
  case (admit g runs k now key has_fn adm g')
  then show ?case using guard_inv_admit by blast
next
  case (finish g runs k now key a result)
  then show ?case using guard_inv_finish by blast
qed

section \<open>Properties of the guard\<close>

text \<open>
  C12: At most one run of a key within its time to live. In every interleaving of callers on an
  advancing clock (none of which calls \<open>Forget\<close>), when a caller is told to run the function for a key, every earlier run
  of that key is done and its result has expired; a caller told to wait waits for a run of
  that very key, and while its context is live it is answered with that run's result as
  soon as the run is done.
\<close>

theorem guard_runs_once_per_ttl:
  assumes "guard_reach ttl g runs k" and "k \<le> now" and "Execute_begin key has_fn now g = (adm, g')"
  shows "(\<forall>a. adm = Run a \<longrightarrow>
       (\<forall>b o'. (key, b, o') \<in> set runs \<longrightarrow> (\<exists>r x. o' = Some (r, x) \<and> x \<le> now))) \<and>
    (\<forall>a. adm = WaitFor a \<longrightarrow> g' = g \<and>
       (\<exists>o'. (key, a, o') \<in> set runs \<and>
          (\<forall>r x. o' = Some (r, x) \<longrightarrow> waitForEntry False picks_ctx a g' =
             Some (case r of Inl err \<Rightarrow> Inl (FnError err) | Inr v \<Rightarrow> Inr v))))"
proof (intro conjI allI impI)
  note inv = guard_reach_inv [OF assms(1)]
  fix a b o'
  assume "adm = Run a" "(key, b, o') \<in> set runs"
  then show "\<exists>r x. o' = Some (r, x) \<and> x \<le> now"
    using guard_inv_fresh [OF inv assms(2)] assms(3) by blast
next
  note inv = guard_reach_inv [OF assms(1)]
  fix a
  assume "adm = WaitFor a"
  then have g': "g' = g" "ig_entries g key = Some a"
    using assms(3) by (auto simp: Execute_begin_def Let_def split: option.splits if_splits)
  then show "g' = g" by simp
  obtain o' where o': "(key, a, o') \<in> set runs" using inv g'(2) unfolding guard_inv_def by blast
  have "run_ok g k key a o'" using inv o' by (simp add: guard_inv_def)
  then have "en_result (ig_heap g ! a) = Some r" if "o' = Some (r, x)" for r x
    using that by (simp add: run_ok_def)
  then have "\<forall>r x. o' = Some (r, x) \<longrightarrow> waitForEntry False picks_ctx a g' =
      Some (case r of Inl err \<Rightarrow> Inl (FnError err) | Inr v \<Rightarrow> Inr v)"
    using g' by (auto simp: waitForEntry_def split: sum.splits)
  with o' show "\<exists>o'. (key, a, o') \<in> set runs \<and>
      (\<forall>r x. o' = Some (r, x) \<longrightarrow> waitForEntry False picks_ctx a g' =
         Some (case r of Inl err \<Rightarrow> Inl (FnError err) | Inr v \<Rightarrow> Inr v))" by blast
qed

lemma sample_guard:
  "guard_reach 10 (Execute_finish 0 (Inr True) 2 (snd (Execute_begin ''k'' True 1
       (NewIdempotencyGuard 10 :: (string, bool) IdempotencyGuard)))) [(''k'', 0, Some (Inr True, 12))] 2"
proof -
  have "guard_reach 10 (snd (Execute_begin ''k'' True 1 (NewIdempotencyGuard 10 :: (string, bool) IdempotencyGuard)))
      ([] @ [(''k'', 0, None)]) 1"
    using guard_reach.admit [OF guard_reach.start [of 1 10], of 1 "''k''" True "Run 0"]
    by (simp add: Execute_begin_def NewIdempotencyGuard_def)
  from guard_reach.finish [OF this, of 2 "''k''" 0 "Inr True"] show ?thesis
    by (simp add: finished_def Execute_begin_def NewIdempotencyGuard_def)
qed

theorem guard_runs_once_per_ttl_witness:
  "\<exists>g a. Execute_begin ''k'' True 5 (g :: (string, bool) IdempotencyGuard) = (WaitFor a, g) \<and>
     waitForEntry False False a g = Some (Inr True)"
proof -
  let ?g = "Execute_finish 0 (Inr True) 2 (snd (Execute_begin ''k'' True 1
       (NewIdempotencyGuard 10 :: (string, bool) IdempotencyGuard)))"
  have "Execute_begin ''k'' True 5 ?g = (WaitFor 0, ?g)"
    by (simp add: Execute_begin_def Execute_finish_def NewIdempotencyGuard_def)
  with guard_runs_once_per_ttl [OF sample_guard _ this, of False] show ?thesis by auto
qed

section \<open>The traffic shifter\<close>

datatype HealthStatus = HealthUnknown | HealthHealthy | HealthUnhealthy

record Backend =
  bk_Name :: string
  bk_Status :: HealthStatus

record TrafficShifter =
  ts_backends :: "string \<rightharpoonup> HealthStatus"
  ts_order :: "string list"
  ts_rrCursor :: int

text \<open>A read of a Go map answers with the zero value for an absent key.\<close>

definition status_of :: "TrafficShifter \<Rightarrow> string \<Rightarrow> HealthStatus" where
  "status_of ts name = (case ts_backends ts name of Some s \<Rightarrow> s | None \<Rightarrow> HealthUnknown)"

definition NewTrafficShifter :: "string list \<Rightarrow> TrafficShifter" where
  "NewTrafficShifter backendNames =
     fold (\<lambda>name ts. ts\<lparr>ts_backends := (ts_backends ts)(name \<mapsto> HealthUnknown),
                          ts_order := ts_order ts @ [name]\<rparr>) backendNames
       \<lparr>ts_backends = Map.empty, ts_order = [], ts_rrCursor = 0\<rparr>"

definition SetStatus :: "string \<Rightarrow> HealthStatus \<Rightarrow> TrafficShifter \<Rightarrow> TrafficShifter" where
  "SetStatus name status ts =
     (let ts = (if ts_backends ts name = None then ts\<lparr>ts_order := ts_order ts @ [name]\<rparr> else ts)
      in ts\<lparr>ts_backends := (ts_backends ts)(name \<mapsto> status)\<rparr>)"

definition Backends :: "TrafficShifter \<Rightarrow> Backend list" where
  "Backends ts = map (\<lambda>name. \<lparr>bk_Name = name, bk_Status = status_of ts name\<rparr>) (ts_order ts)"

text \<open>\<open>sort.Strings\<close> is lexicographic on bytes, as \<open>sort\<close> is on character lists here.\<close>

definition healthyNames :: "TrafficShifter \<Rightarrow> string list" where
  "healthyNames ts = sort (filter (\<lambda>name. status_of ts name = HealthHealthy) (ts_order ts))"

text \<open>Go's remainder has the sign of the dividend.\<close>

definition go_rem :: "int \<Rightarrow> int \<Rightarrow> int" where
  "go_rem a b = (if a < 0 then - ((- a) mod b) else a mod b)"

text \<open>\<open>None\<close> is the panic of an index out of range.\<close>

definition Select :: "TrafficShifter \<Rightarrow> ('e rel_error + string) option \<times> TrafficShifter" where
  "Select ts =
     (let healthy = healthyNames ts
      in if length healthy = 0
         then (Some (Inl (rel_wrapf ''TrafficShifter.Select'' ErrNoHealthyBackends)), ts)
         else
           (let cursor = wrap64 (ts_rrCursor ts + 1);
                idx = wrap64 (cursor - 1);
                i = go_rem idx (int (length healthy));
                ts = ts\<lparr>ts_rrCursor := cursor\<rparr>
            in if i < 0 then (None, ts) else (Some (Inr (healthy ! nat i)), ts)))"

definition SelectAll :: "TrafficShifter \<Rightarrow> 'e rel_error + string list" where
  "SelectAll ts =
     (let healthy = healthyNames ts
      in if length healthy = 0
         then Inl (rel_wrapf ''TrafficShifter.SelectAll'' ErrNoHealthyBackends)
         else Inr healthy)"

definition HealthyCount :: "TrafficShifter \<Rightarrow> nat" where
  "HealthyCount ts = length (healthyNames ts)"

text \<open>
  The checkers come in the order the map iteration has; a check runs on the outside world and
  answers whether it failed.
\<close>

fun RefreshFromCheckers ::
  "(string \<times> ('w \<Rightarrow> bool \<times> 'w) option) list \<Rightarrow> TrafficShifter \<times> 'w \<Rightarrow> TrafficShifter \<times> 'w" where
  "RefreshFromCheckers [] (ts, w) = (ts, w)"
| "RefreshFromCheckers ((name, None) # rest) (ts, w) =
     RefreshFromCheckers rest (SetStatus name HealthUnknown ts, w)"
| "RefreshFromCheckers ((name, Some check) # rest) (ts, w) =
     (case check w of (err, w) \<Rightarrow>
        RefreshFromCheckers rest
          (SetStatus name (if err then HealthUnhealthy else HealthHealthy) ts, w))"

text \<open>Every shifter a program can reach from distinct registered names.\<close>

inductive traffic_reach :: "TrafficShifter \<Rightarrow> bool" where
  start: "distinct names \<Longrightarrow> traffic_reach (NewTrafficShifter names)"
| status: "traffic_reach ts \<Longrightarrow> traffic_reach (SetStatus name s ts)"
| select: "traffic_reach ts \<Longrightarrow>
    traffic_reach (snd (Select ts :: (string rel_error + string) option \<times> TrafficShifter))"

text \<open>\<open>k\<close> calls of \<open>Select\<close> in a row.\<close>

fun selects :: "nat \<Rightarrow> TrafficShifter \<Rightarrow> ('e rel_error + string) option list \<times> TrafficShifter" where
  "selects 0 ts = ([], ts)"
| "selects (Suc k) ts = (case Select ts of (r, ts) \<Rightarrow> case selects k ts of (rs, ts) \<Rightarrow> (r # rs, ts))"

text \<open>The invariant: the order lists each registered backend once.\<close>

definition traffic_inv :: "TrafficShifter \<Rightarrow> bool" where
  "traffic_inv ts \<longleftrightarrow> distinct (ts_order ts) \<and> set (ts_order ts) = dom (ts_backends ts)"

lemma NewTrafficShifter_inv:
  assumes "distinct names"
  shows "traffic_inv (NewTrafficShifter names)"
proof -
  let ?add = "\<lambda>name ts. ts\<lparr>ts_backends := (ts_backends ts)(name \<mapsto> HealthUnknown),
                              ts_order := ts_order ts @ [name]\<rparr>"
  have "traffic_inv (fold ?add names ts)" if "traffic_inv ts" "set names \<inter> set (ts_order ts) = {}" for ts :: TrafficShifter
    using assms that by (induction names arbitrary: ts) (auto simp: traffic_inv_def)
  then show ?thesis by (simp add: NewTrafficShifter_def traffic_inv_def)
qed

lemma SetStatus_inv: "traffic_inv ts \<Longrightarrow> traffic_inv (SetStatus name s ts)"
  by (auto simp: traffic_inv_def SetStatus_def Let_def)

lemma Select_inv: "traffic_inv ts \<Longrightarrow> traffic_inv (snd (Select ts))"
  by (simp add: traffic_inv_def Select_def Let_def)

text \<open>A refresh is a sequence of \<open>SetStatus\<close> calls.\<close>

lemma RefreshFromCheckers_reach: "traffic_reach ts \<Longrightarrow> traffic_reach (fst (RefreshFromCheckers cs (ts, w)))"
proof (induction cs "(ts, w)" arbitrary: ts w rule: RefreshFromCheckers.induct)
  case (3 name check rest ts w)
  then show ?case by (cases "check w") (simp add: traffic_reach.status)
qed (simp_all add: traffic_reach.status)

lemma traffic_reach_inv: "traffic_reach ts \<Longrightarrow> traffic_inv ts"
  by (induction rule: traffic_reach.induct)
    (simp_all add: NewTrafficShifter_inv SetStatus_inv Select_inv)

lemma mset_healthyNames:
  "mset (healthyNames ts) = mset (filter (\<lambda>name. status_of ts name = HealthHealthy) (ts_order ts))"
  by (simp add: healthyNames_def)

lemma distinct_healthyNames: "traffic_inv ts \<Longrightarrow> distinct (healthyNames ts)"
  by (simp add: healthyNames_def traffic_inv_def)

lemma set_healthyNames:
  assumes "traffic_inv ts"
  shows "set (healthyNames ts) = {b. ts_backends ts b = Some HealthHealthy}"
  using assms by (auto simp: healthyNames_def traffic_inv_def status_of_def split: option.splits)

lemma healthyNames_cursor [simp]: "healthyNames (ts\<lparr>ts_rrCursor := c\<rparr>) = healthyNames ts"
  by (simp add: healthyNames_def status_of_def)

text \<open>One selection, before the cursor wraps.\<close>

lemma Select_step:
  assumes "healthyNames ts \<noteq> []" "0 \<le> ts_rrCursor ts" "ts_rrCursor ts + 1 < 2 ^ 63"
  shows "Select ts =
    (Some (Inr (healthyNames ts ! (nat (ts_rrCursor ts) mod length (healthyNames ts)))),
     ts\<lparr>ts_rrCursor := ts_rrCursor ts + 1\<rparr>)"
proof -
  have w: "wrap64 (ts_rrCursor ts + 1) = ts_rrCursor ts + 1" "wrap64 (ts_rrCursor ts) = ts_rrCursor ts"
    using assms by (auto intro: wrap64_id)
  have "nat (ts_rrCursor ts mod int (length (healthyNames ts))) = nat (ts_rrCursor ts) mod length (healthyNames ts)"
    using assms(2) by (simp add: nat_mod_distrib)
  moreover have "\<not> ts_rrCursor ts mod int (length (healthyNames ts)) < 0"
    using assms(1) by (simp add: not_less)
  ultimately show ?thesis
    using assms w by (simp add: Select_def Let_def go_rem_def)
qed

lemma selects_run:
  assumes "healthyNames ts \<noteq> []" "0 \<le> ts_rrCursor ts" "ts_rrCursor ts + int k < 2 ^ 63"
  shows "selects k ts =
    (map (\<lambda>i. Some (Inr (healthyNames ts ! ((nat (ts_rrCursor ts) + i) mod length (healthyNames ts)))
       :: 'e rel_error + string)) [0..<k],
     ts\<lparr>ts_rrCursor := ts_rrCursor ts + int k\<rparr>)"
  using assms
proof (induction k arbitrary: ts)
  case 0
  then show ?case by simp
next
  case (Suc k)
  let ?ts = "ts\<lparr>ts_rrCursor := ts_rrCursor ts + 1\<rparr>"
  have "Select ts = (Some (Inr (healthyNames ts ! (nat (ts_rrCursor ts) mod length (healthyNames ts)))
      :: 'e rel_error + string), ?ts)"
    using Suc.prems by (intro Select_step) auto
  moreover have "selects k ?ts =
    (map (\<lambda>i. Some (Inr (healthyNames ts ! ((nat (ts_rrCursor ts) + Suc i) mod length (healthyNames ts)))
       :: 'e rel_error + string)) [0..<k],
     ts\<lparr>ts_rrCursor := ts_rrCursor ts + int (Suc k)\<rparr>)"
  proof -
    have "nat (ts_rrCursor ts + 1) = Suc (nat (ts_rrCursor ts))" using Suc.prems by simp
    with Suc.IH [of ?ts] Suc.prems show ?thesis by (simp add: add_ac)
  qed
  ultimately show ?case
    by (simp add: upt_conv_Cons map_Suc_upt [symmetric] comp_def del: upt_Suc)
qed

text \<open>A round of as many picks as there are names picks each name once, wherever it starts.\<close>

lemma round_is_rotation: "map (\<lambda>i. xs ! ((c + i) mod length xs)) [0..<length xs] = rotate c xs"
  by (rule nth_equalityI) (auto simp: nth_rotate)

lemma mset_rotate1: "mset (rotate1 xs) = mset xs"
  by (cases xs) simp_all

lemma mset_rounds:
  assumes "xs \<noteq> []"
  shows "mset (map (\<lambda>i. xs ! ((c + i) mod length xs)) [0..<m * length xs]) = repeat_mset m (mset xs)"
proof (induction m)
  case 0
  then show ?case by simp
next
  case (Suc m)
  have "[0..<Suc m * length xs] = [0..<m * length xs] @ map (\<lambda>i. i + m * length xs) [0..<length xs]"
    using upt_add_eq_append [of 0 "m * length xs" "length xs"] by (simp add: map_add_upt add.commute)
  moreover have "map (\<lambda>i. xs ! ((c + (i + m * length xs)) mod length xs)) [0..<length xs] = rotate c xs"
    by (simp add: round_is_rotation [symmetric] add.assoc [symmetric])
  moreover have "mset (rotate c xs) = mset xs"
    by (induction c) (simp_all add: mset_rotate1)
  ultimately show ?case using Suc.IH by (simp add: comp_def)
qed

section \<open>Properties of the shifter\<close>

text \<open>
  Fair round robin. From every reachable shifter with \<open>n\<close> healthy backends, \<open>m * n\<close>
  selections in a row all succeed and return each healthy backend exactly \<open>m\<close> times and no
  other backend, wherever the rotation stood.
\<close>

lemma round_robin_is_fair:
  assumes "traffic_reach ts" and "0 < HealthyCount ts"
    and "0 \<le> ts_rrCursor ts" and "ts_rrCursor ts + int (m * HealthyCount ts) < 2 ^ 63"
  shows "\<exists>picks. fst (selects (m * HealthyCount ts) ts) = map (\<lambda>b. Some (Inr b :: 'e rel_error + string)) picks \<and>
    (\<forall>b. count (mset picks) b = (if ts_backends ts b = Some HealthHealthy then m else 0))"
proof -
  let ?h = "healthyNames ts" and ?c = "nat (ts_rrCursor ts)"
  let ?picks = "map (\<lambda>i. ?h ! ((?c + i) mod length ?h)) [0..<m * length ?h]"
  have inv: "traffic_inv ts" using assms(1) by (rule traffic_reach_inv)
  have h: "?h \<noteq> []" using assms(2) by (simp add: HealthyCount_def)
  have "fst (selects (m * length ?h) ts) = map (\<lambda>b. Some (Inr b :: 'e rel_error + string)) ?picks"
    using assms(4) by (simp add: HealthyCount_def comp_def selects_run [OF h assms(3)])
  moreover have "count (mset ?picks) b = (if ts_backends ts b = Some HealthHealthy then m else 0)" for b
    unfolding mset_rounds [OF h] using distinct_healthyNames [OF inv] set_healthyNames [OF inv]
    by (auto simp: distinct_count_atmost_1)
  ultimately show ?thesis unfolding HealthyCount_def by blast
qed

lemma round_robin_is_fair_witness:
  "\<exists>picks. fst (selects 2 (SetStatus ''b'' HealthHealthy (SetStatus ''a'' HealthHealthy (NewTrafficShifter [''a'', ''c'']))))
       = map (\<lambda>b. Some (Inr b :: string rel_error + string)) picks \<and> count (mset picks) ''b'' = 1"
proof -
  let ?ts = "SetStatus ''b'' HealthHealthy (SetStatus ''a'' HealthHealthy (NewTrafficShifter [''a'', ''c'']))"
  have r: "traffic_reach ?ts" by (intro traffic_reach.intros) simp
  have b: "ts_backends ?ts ''b'' = Some HealthHealthy" "ts_rrCursor ?ts = 0" "HealthyCount ?ts = 2"
    by (simp_all add: SetStatus_def NewTrafficShifter_def HealthyCount_def healthyNames_def status_of_def)
  from round_robin_is_fair [OF r, of 1] b show ?thesis by auto
qed

text \<open>
  Fail closed. When no backend's last report was healthy, every selection, single or
  fan-out, is refused with \<open>ErrNoHealthyBackends\<close> and leaves the rotation as it was;
  otherwise the fan-out answers with exactly the healthy backends, each once and sorted.
\<close>

lemma traffic_fails_closed:
  assumes "traffic_reach ts"
  shows "((\<forall>b. ts_backends ts b \<noteq> Some HealthHealthy) \<longrightarrow>
      Select ts = (Some (Inl (rel_Wrapf ''TrafficShifter.Select'' ErrNoHealthyBackends)), ts) \<and>
      SelectAll ts = Inl (rel_Wrapf ''TrafficShifter.SelectAll'' ErrNoHealthyBackends)) \<and>
    ((\<exists>b. ts_backends ts b = Some HealthHealthy) \<longrightarrow>
      (\<exists>names. SelectAll ts = Inr names \<and> sorted names \<and> distinct names \<and>
         set names = {b. ts_backends ts b = Some HealthHealthy}))"
proof -
  note inv = traffic_reach_inv [OF assms]
  note healthy = set_healthyNames [OF inv] distinct_healthyNames [OF inv]
  show ?thesis
  proof (intro conjI impI)
    assume "\<forall>b. ts_backends ts b \<noteq> Some HealthHealthy"
    then have "healthyNames ts = []" using healthy by auto
    then show "Select ts = (Some (Inl (rel_Wrapf ''TrafficShifter.Select'' ErrNoHealthyBackends)), ts)"
      "SelectAll ts = Inl (rel_Wrapf ''TrafficShifter.SelectAll'' ErrNoHealthyBackends)"
      by (simp_all add: Select_def SelectAll_def rel_wrapf_def)
  next
    assume "\<exists>b. ts_backends ts b = Some HealthHealthy"
    then have "healthyNames ts \<noteq> []" using healthy by auto
    moreover have "sorted (healthyNames ts)" by (simp add: healthyNames_def)
    ultimately show "\<exists>names. SelectAll ts = Inr names \<and> sorted names \<and> distinct names \<and>
        set names = {b. ts_backends ts b = Some HealthHealthy}"
      using healthy by (simp add: SelectAll_def Let_def)
  qed
qed

lemma traffic_fails_closed_witness:
  "Select (SetStatus ''a'' HealthUnhealthy (NewTrafficShifter [''a''])) =
     (Some (Inl (rel_Wrapf ''TrafficShifter.Select'' ErrNoHealthyBackends) :: string rel_error + string),
      SetStatus ''a'' HealthUnhealthy (NewTrafficShifter [''a'']))"
proof -
  let ?ts = "SetStatus ''a'' HealthUnhealthy (NewTrafficShifter [''a''])"
  have r: "traffic_reach ?ts" by (intro traffic_reach.intros) simp
  have "\<forall>b. ts_backends ?ts b \<noteq> Some HealthHealthy"
    by (simp add: SetStatus_def NewTrafficShifter_def)
  with traffic_fails_closed [OF r] show ?thesis by blast
qed

end
