(* ===== verification/Irac.thy ===== *)
theory Irac
  imports Complex_Main "HOL-Library.Product_Lexorder" Guardrail
begin

text \<open>
  \<open>packages/irac\<close>: the reasoning tree of a case. Nodes, edges and the table of legal edges
  (\<open>node.go\<close>, \<open>edge.go\<close>, \<open>provenance.go\<close>, \<open>span.go\<close>, \<open>jurisdiction.go\<close>), revisions
  (\<open>version.go\<close>) and the structural validation (\<open>validate.go\<close>).
\<close>

section \<open>Nodes\<close>

text \<open>The Go types are strings; the last constructor stands for every string not named by a constant.\<close>

datatype NodeType = NodeIssue | NodeRule | NodeFact | NodeApplication | NodeConclusion
  | OtherNodeType string

definition NodeType_IsValid :: "NodeType \<Rightarrow> bool" where
  "NodeType_IsValid t = (case t of OtherNodeType _ \<Rightarrow> False | _ \<Rightarrow> True)"

record SourceSpan =
  sp_Start :: int
  sp_End :: int
  sp_Page :: int
  sp_StartMS :: int
  sp_EndMS :: int

definition SourceSpan_Len :: "SourceSpan \<Rightarrow> int" where
  "SourceSpan_Len s = (if sp_End s \<le> sp_Start s then 0 else wrap64 (sp_End s - sp_Start s))"

definition SourceSpan_IsValid :: "SourceSpan \<Rightarrow> bool" where
  "SourceSpan_IsValid s \<longleftrightarrow> sp_Start s \<ge> 0 \<and> sp_End s \<ge> sp_Start s"

record Provenance =
  pv_GeneratedBy :: string
  pv_GeneratedAt :: time
  pv_UpstreamNodeIDs :: "string list"

definition Provenance_IsValid :: "Provenance \<Rightarrow> bool" where
  "Provenance_IsValid p \<longleftrightarrow> pv_GeneratedBy p \<noteq> [] \<and> pv_GeneratedAt p \<noteq> zero_time"

text \<open>
  A confidence is a finite \<open>float64\<close>, hence a rational; the code only compares them, which is
  exact. NaN and the infinities, which JSON cannot carry, are left out.
\<close>

definition ValidConfidence :: "rat \<Rightarrow> bool" where
  "ValidConfidence c \<longleftrightarrow> c \<ge> 0 \<and> c \<le> 1"

record Node =
  nd_ID :: string
  nd_Type :: NodeType
  nd_CaseID :: string
  nd_Text :: string
  nd_CreatedAt :: time
  nd_Confidence :: rat
  nd_Provenance :: Provenance

text \<open>Sets of nodes have an order to be listed in, by their fields in turn.\<close>

fun NodeType_key :: "NodeType \<Rightarrow> nat \<times> string" where
  "NodeType_key NodeIssue = (0, [])"
| "NodeType_key NodeRule = (1, [])"
| "NodeType_key NodeFact = (2, [])"
| "NodeType_key NodeApplication = (3, [])"
| "NodeType_key NodeConclusion = (4, [])"
| "NodeType_key (OtherNodeType s) = (5, s)"

definition Node_key where
  "Node_key n = (nd_ID n, NodeType_key (nd_Type n), nd_CaseID n, nd_Text n, nd_CreatedAt n, nd_Confidence n,
     pv_GeneratedBy (nd_Provenance n), pv_GeneratedAt (nd_Provenance n), pv_UpstreamNodeIDs (nd_Provenance n),
     Node.more n)"

lemma NodeType_key_inject: "NodeType_key s = NodeType_key t \<Longrightarrow> s = t"
  by (cases s; cases t) simp_all

lemma Node_key_inject: "Node_key m = Node_key n \<Longrightarrow> m = n"
  by (cases m; cases n) (auto simp: Node_key_def dest: NodeType_key_inject)

instantiation Node_ext :: (linorder) linorder
begin

definition less_eq_Node_ext :: "'a Node_scheme \<Rightarrow> 'a Node_scheme \<Rightarrow> bool" where
  "less_eq_Node_ext m n \<longleftrightarrow> Node_key m \<le> Node_key n"

definition less_Node_ext :: "'a Node_scheme \<Rightarrow> 'a Node_scheme \<Rightarrow> bool" where
  "less_Node_ext m n \<longleftrightarrow> Node_key m < Node_key n"

instance
  by standard (auto simp: less_eq_Node_ext_def less_Node_ext_def intro: Node_key_inject)

end

text \<open>
  The interface \<open>NodeLike\<close> is implemented by the five typed wrappers and by \<open>Node\<close> itself.
  Each wrapper embeds a \<open>Node\<close> and adds its own fields: a rule its jurisdiction code and legal
  family, a conclusion its label.
\<close>

datatype NodeLike =
    IssueNode Node "SourceSpan list"
  | RuleNode Node string string "SourceSpan list"
  | FactNode Node "SourceSpan list"
  | ApplicationNode Node "SourceSpan list"
  | ConclusionNode Node string "SourceSpan list"
  | BareNode Node

fun node_of :: "NodeLike \<Rightarrow> Node" where
  "node_of (IssueNode n _) = n"
| "node_of (RuleNode n _ _ _) = n"
| "node_of (FactNode n _) = n"
| "node_of (ApplicationNode n _) = n"
| "node_of (ConclusionNode n _ _) = n"
| "node_of (BareNode n) = n"

definition GetID :: "NodeLike \<Rightarrow> string" where
  "GetID n = nd_ID (node_of n)"

definition GetType :: "NodeLike \<Rightarrow> NodeType" where
  "GetType n = nd_Type (node_of n)"

text \<open>The provenance's upstream list, which the code reads through the embedded \<open>Node\<close>.\<close>

definition upstream :: "NodeLike \<Rightarrow> string list" where
  "upstream n = pv_UpstreamNodeIDs (nd_Provenance (node_of n))"

definition NewNode ::
  "NodeType \<Rightarrow> string \<Rightarrow> string \<Rightarrow> string \<Rightarrow> time \<Rightarrow> rat \<Rightarrow> Provenance \<Rightarrow> Node" where
  "NewNode t ident caseID txt createdAt confidence provenance =
     \<lparr>nd_ID = ident, nd_Type = t, nd_CaseID = caseID, nd_Text = txt, nd_CreatedAt = createdAt,
      nd_Confidence = confidence, nd_Provenance = provenance\<rparr>"

definition NewIssueNode where
  "NewIssueNode ident caseID txt createdAt confidence provenance spans =
     IssueNode (NewNode NodeIssue ident caseID txt createdAt confidence provenance) spans"

definition NewRuleNode where
  "NewRuleNode ident caseID txt jurisdictionCode legalFamily createdAt confidence provenance spans =
     RuleNode (NewNode NodeRule ident caseID txt createdAt confidence provenance)
       jurisdictionCode legalFamily spans"

definition NewFactNode where
  "NewFactNode ident caseID txt createdAt confidence provenance spans =
     FactNode (NewNode NodeFact ident caseID txt createdAt confidence provenance) spans"

definition NewApplicationNode where
  "NewApplicationNode ident caseID txt createdAt confidence provenance spans =
     ApplicationNode (NewNode NodeApplication ident caseID txt createdAt confidence provenance) spans"

definition NewConclusionNode where
  "NewConclusionNode ident caseID txt createdAt confidence provenance spans =
     ConclusionNode (NewNode NodeConclusion ident caseID txt createdAt confidence provenance)
       DraftAnalysisLabel spans"

fun HasGuardrailLabel :: "NodeLike \<Rightarrow> bool" where
  "HasGuardrailLabel (ConclusionNode _ label _) = (label = DraftAnalysisLabel)"
| "HasGuardrailLabel _ = False"

fun HasJurisdictionTag :: "NodeLike \<Rightarrow> bool" where
  "HasJurisdictionTag (RuleNode _ code _ _) = (code \<noteq> [])"
| "HasJurisdictionTag _ = False"

fun HasLegalFamilyTag :: "NodeLike \<Rightarrow> bool" where
  "HasLegalFamilyTag (RuleNode _ _ family _) = (family \<noteq> [])"
| "HasLegalFamilyTag _ = False"

definition IsFullyJurisdictionTagged :: "NodeLike \<Rightarrow> bool" where
  "IsFullyJurisdictionTagged r \<longleftrightarrow> HasJurisdictionTag r \<and> HasLegalFamilyTag r"

text \<open>A node whose Go type is the one its \<open>Type\<close> field names, as every constructor makes it.\<close>

fun well_typed :: "NodeLike \<Rightarrow> bool" where
  "well_typed (IssueNode n _) = (nd_Type n = NodeIssue)"
| "well_typed (RuleNode n _ _ _) = (nd_Type n = NodeRule)"
| "well_typed (FactNode n _) = (nd_Type n = NodeFact)"
| "well_typed (ApplicationNode n _) = (nd_Type n = NodeApplication)"
| "well_typed (ConclusionNode n _ _) = (nd_Type n = NodeConclusion)"
| "well_typed (BareNode n) = False"

section \<open>Edges\<close>

datatype EdgeType = EdgeGoverns | EdgeAppliesTo | EdgeSupports | EdgeConcludesFrom | OtherEdgeType string

definition EdgeType_IsValid :: "EdgeType \<Rightarrow> bool" where
  "EdgeType_IsValid t = (case t of OtherEdgeType _ \<Rightarrow> False | _ \<Rightarrow> True)"

record Edge =
  ed_FromID :: string
  ed_ToID :: string
  ed_Type :: EdgeType

definition legalEdgeTriples :: "(NodeType \<times> EdgeType \<times> NodeType) list" where
  "legalEdgeTriples =
     [(NodeRule, EdgeGoverns, NodeIssue),
      (NodeApplication, EdgeAppliesTo, NodeFact),
      (NodeApplication, EdgeAppliesTo, NodeRule),
      (NodeFact, EdgeSupports, NodeApplication),
      (NodeConclusion, EdgeConcludesFrom, NodeApplication)]"

definition IsLegalEdgeTriple :: "NodeType \<Rightarrow> EdgeType \<Rightarrow> NodeType \<Rightarrow> bool" where
  "IsLegalEdgeTriple fromType edgeType toType \<longleftrightarrow> (fromType, edgeType, toType) \<in> set legalEdgeTriples"

section \<open>Revisions\<close>

record TreeRevision =
  tr_RevisionNumber :: int
  tr_CaseID :: string
  tr_CreatedAt :: time
  tr_ParentRevision :: "int option"

definition IsInitial :: "TreeRevision \<Rightarrow> bool" where
  "IsInitial r \<longleftrightarrow> tr_ParentRevision r = None"

definition NewInitialRevision :: "string \<Rightarrow> time \<Rightarrow> TreeRevision" where
  "NewInitialRevision caseID createdAt =
     \<lparr>tr_RevisionNumber = 1, tr_CaseID = caseID, tr_CreatedAt = createdAt, tr_ParentRevision = None\<rparr>"

definition NextRevision :: "TreeRevision \<Rightarrow> time \<Rightarrow> TreeRevision" where
  "NextRevision prev createdAt =
     \<lparr>tr_RevisionNumber = wrap64 (tr_RevisionNumber prev + 1), tr_CaseID = tr_CaseID prev,
      tr_CreatedAt = createdAt, tr_ParentRevision = Some (tr_RevisionNumber prev)\<rparr>"

definition IsValidSuccessorOf :: "TreeRevision \<Rightarrow> TreeRevision \<Rightarrow> bool" where
  "IsValidSuccessorOf r prev =
     (if tr_CaseID r \<noteq> tr_CaseID prev then False
      else if tr_RevisionNumber r \<noteq> wrap64 (tr_RevisionNumber prev + 1) then False
      else case tr_ParentRevision r of None \<Rightarrow> False | Some p \<Rightarrow> p = tr_RevisionNumber prev)"

lemma NextRevision_successor: "IsValidSuccessorOf (NextRevision prev t) prev"
  by (simp add: IsValidSuccessorOf_def NextRevision_def)

section \<open>Structural validation\<close>

datatype irac_error = ErrDanglingEdge | ErrIllegalEdgeTriple | ErrMissingGuardrailLabel
  | ErrSelfLoop | ErrUnknownNodeType | ErrUnknownEdgeType

text \<open>The messages, which only repeat the fields in words, are left out.\<close>

record ValidationIssue =
  vi_Err :: irac_error
  vi_EdgeIndex :: int
  vi_NodeID :: string

text \<open>A Go map filled from a list: a later node replaces an earlier one of the same ID.\<close>

definition by_ID :: "NodeLike list \<Rightarrow> string \<rightharpoonup> NodeLike" where
  "by_ID nodes = fold (\<lambda>n m. m(GetID n \<mapsto> n)) nodes Map.empty"

definition edge_issues :: "(string \<rightharpoonup> NodeLike) \<Rightarrow> nat \<Rightarrow> Edge \<Rightarrow> ValidationIssue list" where
  "edge_issues byID i e =
     (let issue = (\<lambda>err nid. \<lparr>vi_Err = err, vi_EdgeIndex = int i, vi_NodeID = nid\<rparr>) in
      (if ed_FromID e = ed_ToID e then [issue ErrSelfLoop (ed_FromID e)] else []) @
      (if byID (ed_FromID e) = None then [issue ErrDanglingEdge (ed_FromID e)] else []) @
      (if byID (ed_ToID e) = None then [issue ErrDanglingEdge (ed_ToID e)] else []) @
      (if \<not> EdgeType_IsValid (ed_Type e) then [issue ErrUnknownEdgeType []]
       else
         (case (byID (ed_FromID e), byID (ed_ToID e)) of
            (Some fromNode, Some toNode) \<Rightarrow>
              if \<not> IsLegalEdgeTriple (GetType fromNode) (ed_Type e) (GetType toNode)
              then [issue ErrIllegalEdgeTriple []] else []
          | _ \<Rightarrow> [])))"

definition node_issues :: "NodeLike \<Rightarrow> ValidationIssue list" where
  "node_issues n =
     (let issue = (\<lambda>err. \<lparr>vi_Err = err, vi_EdgeIndex = -1, vi_NodeID = GetID n\<rparr>) in
      if \<not> NodeType_IsValid (GetType n) then [issue ErrUnknownNodeType]
      else
        (case n of
           ConclusionNode _ _ _ \<Rightarrow>
             if \<not> HasGuardrailLabel n then [issue ErrMissingGuardrailLabel] else []
         | _ \<Rightarrow> []))"

definition ValidateTree :: "NodeLike list \<Rightarrow> Edge list \<Rightarrow> ValidationIssue list" where
  "ValidateTree nodes edges =
     concat (map (\<lambda>(i, e). edge_issues (by_ID nodes) i e) (enumerate 0 edges)) @
     concat (map node_issues nodes)"

section \<open>Lemmas on validation\<close>

text \<open>What a clean edge and a clean node are.\<close>

definition edge_ok :: "(string \<rightharpoonup> NodeLike) \<Rightarrow> Edge \<Rightarrow> bool" where
  "edge_ok byID e \<longleftrightarrow> ed_FromID e \<noteq> ed_ToID e \<and>
     (\<exists>fromNode toNode. byID (ed_FromID e) = Some fromNode \<and> byID (ed_ToID e) = Some toNode \<and>
        IsLegalEdgeTriple (GetType fromNode) (ed_Type e) (GetType toNode))"

fun node_ok :: "NodeLike \<Rightarrow> bool" where
  "node_ok (ConclusionNode n label spans) \<longleftrightarrow> NodeType_IsValid (nd_Type n) \<and> label = DraftAnalysisLabel"
| "node_ok n \<longleftrightarrow> NodeType_IsValid (GetType n)"

lemma legal_triple_valid:
  "IsLegalEdgeTriple f t t' \<Longrightarrow> EdgeType_IsValid t \<and> NodeType_IsValid f \<and> NodeType_IsValid t'"
  by (auto simp: IsLegalEdgeTriple_def legalEdgeTriples_def EdgeType_IsValid_def NodeType_IsValid_def)

lemma edge_issues_clean: "edge_issues byID i e = [] \<longleftrightarrow> edge_ok byID e"
  by (auto simp: edge_issues_def edge_ok_def Let_def dest: legal_triple_valid split: option.splits)

lemma node_issues_clean: "node_issues n = [] \<longleftrightarrow> node_ok n"
  by (cases n) (auto simp: node_issues_def GetType_def)

lemma ValidateTree_clean:
  "ValidateTree nodes edges = [] \<longleftrightarrow>
     (\<forall>e\<in>set edges. edge_ok (by_ID nodes) e) \<and> (\<forall>n\<in>set nodes. node_ok n)"
proof -
  have "snd ` set (enumerate 0 edges) = set edges"
    by (metis map_snd_enumerate set_map)
  then have "(\<forall>e\<in>set edges. edge_ok (by_ID nodes) e) \<longleftrightarrow>
      (\<forall>p\<in>set (enumerate 0 edges). edge_ok (by_ID nodes) (snd p))"
    by (metis (no_types, lifting) imageE imageI)
  then show ?thesis
    by (simp add: ValidateTree_def node_issues_clean edge_issues_clean split_beta)
qed

text \<open>Distinct IDs make the map of the nodes exact.\<close>

lemma by_ID_append: "by_ID (xs @ [n]) = (by_ID xs)(GetID n \<mapsto> n)"
  by (simp add: by_ID_def)

lemma by_ID_dom: "dom (by_ID nodes) = GetID ` set nodes"
proof (induction nodes rule: rev_induct)
  case Nil
  then show ?case by (simp add: by_ID_def)
next
  case (snoc x xs)
  then show ?case by (simp add: by_ID_append dom_fun_upd del: fun_upd_apply)
qed

lemma by_ID_SomeD: "by_ID nodes k = Some n \<Longrightarrow> n \<in> set nodes \<and> GetID n = k"
  by (induction nodes rule: rev_induct) (auto simp: by_ID_append by_ID_def [of "[]"] split: if_splits)

lemma by_ID_distinct:
  "distinct (map GetID nodes) \<Longrightarrow> by_ID nodes k = Some n \<longleftrightarrow> n \<in> set nodes \<and> GetID n = k"
proof (induction nodes rule: rev_induct)
  case Nil
  then show ?case by (simp add: by_ID_def)
next
  case (snoc x xs)
  then show ?case by (auto simp: by_ID_append rev_image_eqI)
qed

end
