(* ===== verification/GraphStore.thy ===== *)
theory GraphStore
  imports Irac "HOL-Library.Finite_Map"
begin

text \<open>
  \<open>packages/graph\<close>: the store of reasoning trees. The in-memory store with its two indexes
  (\<open>inmemory.go\<close>, \<open>index.go\<close>), the interface of \<open>store.go\<close> with its contract, and transactions
  by snapshot (\<open>tx.go\<close>).
\<close>

section \<open>The in-memory store\<close>

datatype graph_error = ErrNodeNotFound | ErrCrossTenantAccess | ErrEmptyCaseID | ErrEmptyNodeID

text \<open>The zero value of a filter field is \<open>None\<close> (a type) or the empty string (an ID).\<close>

record TraversalQuery =
  tq_CaseID :: string
  tq_NodeType :: "NodeType option"
  tq_FromNodeID :: string
  tq_MaxDepth :: int

text \<open>
  Go maps are maps; a map to \<open>struct\<close>-valued maps is a map to sets. Absent sets and slices
  behave as empty ones, which \<open>the_set\<close> and \<open>the_edges\<close> say.
\<close>

record InMemoryGraphStore =
  gs_nodes :: "string \<rightharpoonup> Node"
  gs_edges :: "string \<rightharpoonup> Edge list"
  gs_byCase :: "string \<rightharpoonup> string set"
  gs_byType :: "NodeType \<rightharpoonup> string set"

definition the_set :: "'a set option \<Rightarrow> 'a set" where
  "the_set x = (case x of None \<Rightarrow> {} | Some s \<Rightarrow> s)"

definition the_edges :: "Edge list option \<Rightarrow> Edge list" where
  "the_edges x = (case x of None \<Rightarrow> [] | Some es \<Rightarrow> es)"

definition NewInMemoryGraphStore :: InMemoryGraphStore where
  "NewInMemoryGraphStore =
     \<lparr>gs_nodes = Map.empty, gs_edges = Map.empty, gs_byCase = Map.empty, gs_byType = Map.empty\<rparr>"

definition addType :: "NodeType \<Rightarrow> string \<Rightarrow> InMemoryGraphStore \<Rightarrow> InMemoryGraphStore" where
  "addType t k s = s\<lparr>gs_byType := (gs_byType s)(t \<mapsto> insert k (the_set (gs_byType s t)))\<rparr>"

definition removeType :: "NodeType \<Rightarrow> string \<Rightarrow> InMemoryGraphStore \<Rightarrow> InMemoryGraphStore" where
  "removeType t k s =
     (case gs_byType s t of None \<Rightarrow> s | Some ids \<Rightarrow> s\<lparr>gs_byType := (gs_byType s)(t \<mapsto> ids - {k})\<rparr>)"

definition addToCaseIndex :: "Node \<Rightarrow> InMemoryGraphStore \<Rightarrow> InMemoryGraphStore" where
  "addToCaseIndex n s =
     s\<lparr>gs_byCase := (gs_byCase s)(nd_CaseID n \<mapsto> insert (nd_ID n) (the_set (gs_byCase s (nd_CaseID n))))\<rparr>"

definition removeFromCaseIndex :: "Node \<Rightarrow> InMemoryGraphStore \<Rightarrow> InMemoryGraphStore" where
  "removeFromCaseIndex n s =
     (case gs_byCase s (nd_CaseID n) of None \<Rightarrow> s
      | Some ids \<Rightarrow> s\<lparr>gs_byCase := (gs_byCase s)(nd_CaseID n \<mapsto> ids - {nd_ID n})\<rparr>)"

definition mem_CreateNode :: "Node \<Rightarrow> InMemoryGraphStore \<Rightarrow> graph_error option \<times> InMemoryGraphStore" where
  "mem_CreateNode node s =
     (if nd_ID node = [] then (Some ErrEmptyNodeID, s)
      else
        let s = (case gs_nodes s (nd_ID node) of None \<Rightarrow> s
                 | Some existing \<Rightarrow>
                     let s = (if nd_CaseID existing \<noteq> nd_CaseID node then removeFromCaseIndex existing s else s)
                     in if nd_Type existing \<noteq> nd_Type node then removeType (nd_Type existing) (nd_ID existing) s else s);
            s = s\<lparr>gs_nodes := (gs_nodes s)(nd_ID node \<mapsto> node)\<rparr>;
            s = addToCaseIndex node s
        in (None, addType (nd_Type node) (nd_ID node) s))"

definition mem_CreateEdge :: "Edge \<Rightarrow> InMemoryGraphStore \<Rightarrow> graph_error option \<times> InMemoryGraphStore" where
  "mem_CreateEdge e s =
     (case gs_nodes s (ed_FromID e) of None \<Rightarrow> (Some ErrNodeNotFound, s)
      | Some from \<Rightarrow>
          (case gs_nodes s (ed_ToID e) of None \<Rightarrow> (Some ErrNodeNotFound, s)
           | Some to \<Rightarrow>
               let caseID = nd_CaseID from in
               if nd_CaseID to \<noteq> caseID then (Some ErrNodeNotFound, s)
               else (None, s\<lparr>gs_edges := (gs_edges s)(caseID \<mapsto> the_edges (gs_edges s caseID) @ [e])\<rparr>)))"

definition mem_GetNode :: "string \<Rightarrow> InMemoryGraphStore \<Rightarrow> graph_error + Node" where
  "mem_GetNode k s =
     (if k = [] then Inl ErrEmptyNodeID
      else case gs_nodes s k of None \<Rightarrow> Inl ErrNodeNotFound | Some n \<Rightarrow> Inr n)"

text \<open>
  The breadth-first walk. One round goes over the frontier and, for each of its nodes, over
  the edges, marking and collecting the targets not seen yet.
\<close>

fun scan_edges :: "string \<Rightarrow> Edge list \<Rightarrow> string set \<times> string list \<Rightarrow> string set \<times> string list" where
  "scan_edges k [] acc = acc"
| "scan_edges k (e # es) (visited, next) =
     (if ed_FromID e \<noteq> k then scan_edges k es (visited, next)
      else if ed_ToID e \<in> visited then scan_edges k es (visited, next)
      else scan_edges k es (insert (ed_ToID e) visited, next @ [ed_ToID e]))"

definition bfs_round :: "Edge list \<Rightarrow> string list \<Rightarrow> string set \<Rightarrow> string set \<times> string list" where
  "bfs_round edges frontier visited = fold (\<lambda>k. scan_edges k edges) frontier (visited, [])"

text \<open>What a round does: the new nodes are exactly the unvisited successors of the frontier.\<close>

lemma scan_edges_spec:
  "scan_edges k es (visited, next) = (visited', next') \<Longrightarrow>
     visited' = visited \<union> {ed_ToID e |e. e \<in> set es \<and> ed_FromID e = k} \<and>
     set next' = set next \<union> (visited' - visited)"
proof (induction es arbitrary: visited "next")
  case Nil
  then show ?case by simp
next
  case (Cons e es)
  show ?case
  proof (cases "ed_FromID e = k \<and> ed_ToID e \<notin> visited")
    case True
    then have "scan_edges k es (insert (ed_ToID e) visited, next @ [ed_ToID e]) = (visited', next')"
      using Cons.prems by simp
    from Cons.IH [OF this] True show ?thesis by auto
  next
    case False
    then have "scan_edges k es (visited, next) = (visited', next')"
      using Cons.prems by (auto split: if_splits)
    from Cons.IH [OF this] False show ?thesis by auto
  qed
qed

lemma bfs_round_spec:
  assumes "bfs_round edges frontier visited = (visited', next)"
  shows "visited' = visited \<union> {ed_ToID e |e. e \<in> set edges \<and> ed_FromID e \<in> set frontier} \<and>
    set next = visited' - visited"
proof -
  have "fold (\<lambda>k. scan_edges k edges) frontier (v, nx) = (v', nx') \<Longrightarrow>
      v' = v \<union> {ed_ToID e |e. e \<in> set edges \<and> ed_FromID e \<in> set frontier} \<and>
      set nx' = set nx \<union> (v' - v)" for v nx v' nx'
  proof (induction frontier arbitrary: v nx)
    case Nil
    then show ?case by simp
  next
    case (Cons k ks)
    obtain v1 nx1 where scan: "scan_edges k edges (v, nx) = (v1, nx1)" by fastforce
    with Cons.prems have "fold (\<lambda>k. scan_edges k edges) ks (v1, nx1) = (v', nx')" by simp
    from Cons.IH [OF this] scan_edges_spec [OF scan] show ?case by auto
  qed
  from this [of visited "[]"] assms show ?thesis by (simp add: bfs_round_def)
qed

text \<open>The loop ends: each round with a next frontier marks a target that was not marked.\<close>

function bfs_loop :: "Edge list \<Rightarrow> int \<Rightarrow> int \<Rightarrow> string list \<Rightarrow> string set \<Rightarrow> string set" where
  "bfs_loop edges maxDepth depth frontier visited =
     (if frontier = [] then visited
      else if maxDepth > 0 \<and> depth \<ge> maxDepth then visited
      else case bfs_round edges frontier visited of
             (visited', next) \<Rightarrow> bfs_loop edges maxDepth (depth + 1) next visited')"
  by pat_completeness auto
termination
proof (relation "inv_image (less_than <*lex*> less_than)
    (\<lambda>(edges, _, _, frontier, visited). (card (ed_ToID ` set edges - visited), if frontier = [] then 0 else 1))")
  fix edges :: "Edge list" and maxDepth depth :: int and frontier and visited :: "string set"
  fix visited' "next"
  assume "frontier \<noteq> []" "\<not> (0 < maxDepth \<and> maxDepth \<le> depth)"
    and x: "(visited', next) = bfs_round edges frontier visited"
  have r: "visited \<subseteq> visited'" "set next = visited' - visited" "visited' - visited \<subseteq> ed_ToID ` set edges"
    using bfs_round_spec [OF x [symmetric]] by auto
  show "((edges, maxDepth, depth + 1, next, visited'), (edges, maxDepth, depth, frontier, visited))
      \<in> inv_image (less_than <*lex*> less_than)
        (\<lambda>(edges, _, _, frontier, visited). (card (ed_ToID ` set edges - visited), if frontier = [] then 0 else 1))"
  proof (cases "next = []")
    case True
    then have "visited' = visited" using r by auto
    with True \<open>frontier \<noteq> []\<close> show ?thesis by simp
  next
    case False
    then obtain k where "k \<in> set next" by (cases "next") auto
    then have "k \<in> visited'" "k \<notin> visited" "k \<in> ed_ToID ` set edges" using r by auto
    then have "ed_ToID ` set edges - visited' \<subset> ed_ToID ` set edges - visited" using r(1) by blast
    then have "card (ed_ToID ` set edges - visited') < card (ed_ToID ` set edges - visited)"
      by (intro psubset_card_mono) auto
    then show ?thesis by simp
  qed
qed auto

declare bfs_loop.simps [simp del]

definition reachableIDs :: "string \<Rightarrow> string \<Rightarrow> int \<Rightarrow> InMemoryGraphStore \<Rightarrow> string set" where
  "reachableIDs caseID from maxDepth s = bfs_loop (the_edges (gs_edges s caseID)) maxDepth 0 [from] {from}"

text \<open>
  A traversal collects the candidates in the order of a Go map iteration, which is random: the
  model keeps their set.
\<close>

definition mem_Traverse :: "TraversalQuery \<Rightarrow> InMemoryGraphStore \<Rightarrow> graph_error + Node set" where
  "mem_Traverse q s =
     (if tq_CaseID q = [] then Inl ErrEmptyCaseID
      else
        let ids = the_set (gs_byCase s (tq_CaseID q));
            ids = (case tq_NodeType q of None \<Rightarrow> ids | Some t \<Rightarrow> ids \<inter> the_set (gs_byType s t));
            ids = (if tq_FromNodeID q = [] then ids
                   else ids \<inter> reachableIDs (tq_CaseID q) (tq_FromNodeID q) (tq_MaxDepth q) s)
        in Inr (\<Union>k\<in>ids. set_option (gs_nodes s k)))"

text \<open>\<open>DeleteTree\<close> goes over the IDs of the case in the order of a map iteration, given as \<open>ids\<close>.\<close>

definition delete_node :: "string \<Rightarrow> InMemoryGraphStore \<Rightarrow> InMemoryGraphStore" where
  "delete_node k s =
     (let s = (case gs_nodes s k of None \<Rightarrow> s | Some n \<Rightarrow> removeType (nd_Type n) k s)
      in s\<lparr>gs_nodes := (gs_nodes s)(k := None)\<rparr>)"

definition mem_DeleteTree :: "string list \<Rightarrow> string \<Rightarrow> InMemoryGraphStore \<Rightarrow> graph_error option \<times> InMemoryGraphStore" where
  "mem_DeleteTree ids caseID s =
     (if caseID = [] then (Some ErrEmptyCaseID, s)
      else
        let s = fold delete_node ids s
        in (None, s\<lparr>gs_byCase := (gs_byCase s)(caseID := None), gs_edges := (gs_edges s)(caseID := None)\<rparr>))"

definition EdgesForCase :: "string \<Rightarrow> InMemoryGraphStore \<Rightarrow> Edge list" where
  "EdgesForCase caseID s = the_edges (gs_edges s caseID)"

section \<open>Lemmas on the walk\<close>

definition edge_rel :: "Edge list \<Rightarrow> (string \<times> string) set" where
  "edge_rel es = {(ed_FromID e, ed_ToID e) |e. e \<in> set es}"

text \<open>The nodes within a number of hops.\<close>

definition hops :: "(string \<times> string) set \<Rightarrow> nat \<Rightarrow> string \<Rightarrow> string set" where
  "hops R n a = {k. \<exists>m\<le>n. (a, k) \<in> R ^^ m}"

lemma hops_0 [simp]: "hops R 0 a = {a}"
  by (auto simp: hops_def)

lemma hops_Suc: "hops R (Suc n) a = hops R n a \<union> R `` hops R n a"
proof (intro equalityI subsetI)
  fix k assume "k \<in> hops R (Suc n) a"
  then obtain m where m: "m \<le> Suc n" "(a, k) \<in> R ^^ m" by (auto simp: hops_def)
  show "k \<in> hops R n a \<union> R `` hops R n a"
  proof (cases m)
    case 0
    with m show ?thesis by (auto simp: hops_def)
  next
    case (Suc m')
    with m obtain j where "(a, j) \<in> R ^^ m'" "(j, k) \<in> R" by auto
    with m Suc show ?thesis by (auto simp: hops_def)
  qed
next
  fix k assume "k \<in> hops R n a \<union> R `` hops R n a"
  then show "k \<in> hops R (Suc n) a"
  proof
    assume "k \<in> hops R n a"
    then show ?thesis unfolding hops_def by (auto intro: le_SucI)
  next
    assume "k \<in> R `` hops R n a"
    then obtain j m where "m \<le> n" "(a, j) \<in> R ^^ m" "(j, k) \<in> R" by (auto simp: hops_def)
    then have "(a, k) \<in> R ^^ Suc m" "Suc m \<le> Suc n" by auto
    then show ?thesis unfolding hops_def by blast
  qed
qed

lemma hops_closed:
  assumes "R `` hops R n a \<subseteq> hops R n a"
  shows "hops R n a = {k. (a, k) \<in> R\<^sup>*}" and "n \<le> m \<Longrightarrow> hops R m a = hops R n a"
proof -
  have sub: "hops R i a \<subseteq> {k. (a, k) \<in> R\<^sup>*}" for i
    by (auto simp: hops_def intro: relpow_imp_rtrancl)
  have "k \<in> hops R n a" if "(a, k) \<in> R\<^sup>*" for k
    using that
  proof (induction rule: rtrancl_induct)
    case base
    have "(a, a) \<in> R ^^ 0" by simp
    then show ?case unfolding hops_def by blast
  next
    case (step y z)
    with assms show ?case by blast
  qed
  then show eq: "hops R n a = {k. (a, k) \<in> R\<^sup>*}" using sub by blast
  assume "n \<le> m"
  then have "hops R n a \<subseteq> hops R m a" unfolding hops_def by (blast intro: le_trans)
  with eq sub show "hops R m a = hops R n a" by blast
qed

text \<open>The loop computes the nodes within its depth, or all reachable ones when there is no bound.\<close>

definition in_depth :: "(string \<times> string) set \<Rightarrow> int \<Rightarrow> string \<Rightarrow> string set" where
  "in_depth R maxDepth a = (if maxDepth > 0 then hops R (nat maxDepth) a else {k. (a, k) \<in> R\<^sup>*})"

lemma bfs_loop_correct:
  assumes "visited = hops (edge_rel es) i a" "set frontier \<subseteq> visited"
    "edge_rel es `` (visited - set frontier) \<subseteq> visited" "maxDepth > 0 \<longrightarrow> int i \<le> maxDepth"
  shows "bfs_loop es maxDepth (int i) frontier visited = in_depth (edge_rel es) maxDepth a"
  using assms
proof (induction es maxDepth "int i" frontier visited arbitrary: i rule: bfs_loop.induct)
  case (1 edges maxDepth frontier visited)
  let ?R = "edge_rel edges"
  show ?case
  proof (cases "frontier = []")
    case True
    then have closed: "?R `` hops ?R i a \<subseteq> hops ?R i a" using 1(2,4) by simp
    show ?thesis
    proof (cases "maxDepth > 0")
      case False
      with True 1(2) hops_closed(1) [OF closed] show ?thesis
        by (subst bfs_loop.simps) (simp add: in_depth_def)
    next
      case pos: True
      then have "i \<le> nat maxDepth" using 1(5) by simp
      with pos True 1(2) hops_closed(2) [OF closed, of "nat maxDepth"] show ?thesis
        by (subst bfs_loop.simps) (simp add: in_depth_def)
    qed
  next
    case ne: False
    show ?thesis
    proof (cases "maxDepth > 0 \<and> int i \<ge> maxDepth")
      case True
      with 1(5) have "nat maxDepth = i" by simp
      with True ne 1(2) show ?thesis by (subst bfs_loop.simps) (simp add: in_depth_def)
    next
      case False
      obtain visited' nxt where round: "bfs_round edges frontier visited = (visited', nxt)" by fastforce
      have v': "visited' = visited \<union> ?R `` set frontier" "set nxt = visited' - visited"
        using bfs_round_spec [OF round] by (auto simp: edge_rel_def)
      have sucs: "?R `` visited \<subseteq> visited'" "visited' = visited \<union> ?R `` visited"
        using v'(1) 1(3,4) by blast+
      have step: "visited' = hops ?R (Suc i) a" "set nxt \<subseteq> visited'"
        "?R `` (visited' - set nxt) \<subseteq> visited'" "maxDepth > 0 \<longrightarrow> int (Suc i) \<le> maxDepth"
        using sucs v'(2) 1(2) False by (auto simp: hops_Suc)
      have "bfs_loop edges maxDepth (int i + 1) nxt visited' = in_depth ?R maxDepth a"
        using 1(1) [OF ne False round [symmetric] _ step] by (simp add: add.commute)
      with ne False round show ?thesis by (subst bfs_loop.simps) auto
    qed
  qed
qed

lemma reachableIDs_exact:
  "reachableIDs c from d s = in_depth (edge_rel (EdgesForCase c s)) d from"
  using bfs_loop_correct [of "{from}" "EdgesForCase c s" 0 "from" "[from]" d]
  by (auto simp: reachableIDs_def EdgesForCase_def)

section \<open>The abstract store\<close>

text \<open>
  What a store promises, without indexes: the nodes by ID and the edges of each case in the
  order they came.
\<close>

record forest =
  fo_nodes :: "string \<rightharpoonup> Node"
  fo_edges :: "string \<Rightarrow> Edge list"

definition abs_store :: "InMemoryGraphStore \<Rightarrow> forest" where
  "abs_store s = \<lparr>fo_nodes = gs_nodes s, fo_edges = (\<lambda>c. the_edges (gs_edges s c))\<rparr>"

definition spec_CreateNode :: "Node \<Rightarrow> forest \<Rightarrow> graph_error option \<times> forest" where
  "spec_CreateNode n f =
     (if nd_ID n = [] then (Some ErrEmptyNodeID, f)
      else (None, f\<lparr>fo_nodes := (fo_nodes f)(nd_ID n \<mapsto> n)\<rparr>))"

definition spec_CreateEdge :: "Edge \<Rightarrow> forest \<Rightarrow> graph_error option \<times> forest" where
  "spec_CreateEdge e f =
     (case (fo_nodes f (ed_FromID e), fo_nodes f (ed_ToID e)) of
        (Some n, Some m) \<Rightarrow>
          if nd_CaseID n = nd_CaseID m
          then (None, f\<lparr>fo_edges := (fo_edges f)(nd_CaseID n := fo_edges f (nd_CaseID n) @ [e])\<rparr>)
          else (Some ErrNodeNotFound, f)
      | _ \<Rightarrow> (Some ErrNodeNotFound, f))"

definition spec_GetNode :: "string \<Rightarrow> forest \<Rightarrow> graph_error + Node" where
  "spec_GetNode k f =
     (if k = [] then Inl ErrEmptyNodeID
      else case fo_nodes f k of None \<Rightarrow> Inl ErrNodeNotFound | Some n \<Rightarrow> Inr n)"

definition spec_Traverse :: "TraversalQuery \<Rightarrow> forest \<Rightarrow> graph_error + Node set" where
  "spec_Traverse q f =
     (if tq_CaseID q = [] then Inl ErrEmptyCaseID
      else Inr {n \<in> ran (fo_nodes f). nd_CaseID n = tq_CaseID q \<and>
        (\<forall>t. tq_NodeType q = Some t \<longrightarrow> nd_Type n = t) \<and>
        (tq_FromNodeID q \<noteq> [] \<longrightarrow>
           nd_ID n \<in> in_depth (edge_rel (fo_edges f (tq_CaseID q))) (tq_MaxDepth q) (tq_FromNodeID q))})"

definition spec_DeleteTree :: "string \<Rightarrow> forest \<Rightarrow> graph_error option \<times> forest" where
  "spec_DeleteTree c f =
     (if c = [] then (Some ErrEmptyCaseID, f)
      else (None, \<lparr>fo_nodes = (\<lambda>k. case fo_nodes f k of None \<Rightarrow> None
                                 | Some n \<Rightarrow> if nd_CaseID n = c then None else Some n),
                   fo_edges = (fo_edges f)(c := [])\<rparr>))"

text \<open>The interface \<open>GraphStore\<close> of \<open>store.go\<close>.\<close>

record 's GraphStore =
  g_CreateNode :: "Node \<Rightarrow> 's \<Rightarrow> graph_error option \<times> 's"
  g_CreateEdge :: "Edge \<Rightarrow> 's \<Rightarrow> graph_error option \<times> 's"
  g_GetNode :: "string \<Rightarrow> 's \<Rightarrow> graph_error + Node"
  g_Traverse :: "TraversalQuery \<Rightarrow> 's \<Rightarrow> graph_error + Node set"
  g_DeleteTree :: "string \<Rightarrow> 's \<Rightarrow> graph_error option \<times> 's"

text \<open>
  The in-memory store as such an interface. \<open>order\<close> is the order in which a map iteration
  delivers a set of IDs.
\<close>

definition mem_store :: "(string set \<Rightarrow> string list) \<Rightarrow> InMemoryGraphStore GraphStore" where
  "mem_store order =
     \<lparr>g_CreateNode = mem_CreateNode, g_CreateEdge = mem_CreateEdge, g_GetNode = mem_GetNode,
      g_Traverse = mem_Traverse,
      g_DeleteTree = (\<lambda>c s. mem_DeleteTree (order (the_set (gs_byCase s c))) c s)\<rparr>"

section \<open>The indexes\<close>

text \<open>Both indexes agree with the nodes, and every node is stored under its own ID.\<close>

definition store_inv :: "InMemoryGraphStore \<Rightarrow> bool" where
  "store_inv s \<longleftrightarrow>
     (\<forall>c. the_set (gs_byCase s c) = {k. \<exists>n. gs_nodes s k = Some n \<and> nd_CaseID n = c}) \<and>
     (\<forall>t. the_set (gs_byType s t) = {k. \<exists>n. gs_nodes s k = Some n \<and> nd_Type n = t}) \<and>
     (\<forall>k n. gs_nodes s k = Some n \<longrightarrow> nd_ID n = k \<and> k \<noteq> []) \<and> finite (dom (gs_nodes s))"

lemma the_set_simps [simp]: "the_set None = {}" "the_set (Some x) = x"
  by (simp_all add: the_set_def)

lemma the_edges_simps [simp]: "the_edges None = []" "the_edges (Some es) = es"
  by (simp_all add: the_edges_def)

text \<open>The helper operations in terms of the two views of the indexes.\<close>

lemma index_ops [simp]:
  "gs_nodes (addType t k s) = gs_nodes s" "gs_nodes (removeType t k s) = gs_nodes s"
  "gs_nodes (addToCaseIndex n s) = gs_nodes s" "gs_nodes (removeFromCaseIndex n s) = gs_nodes s"
  "gs_edges (addType t k s) = gs_edges s" "gs_edges (removeType t k s) = gs_edges s"
  "gs_edges (addToCaseIndex n s) = gs_edges s" "gs_edges (removeFromCaseIndex n s) = gs_edges s"
  "gs_byCase (addType t k s) = gs_byCase s" "gs_byCase (removeType t k s) = gs_byCase s"
  "gs_byType (addToCaseIndex n s) = gs_byType s" "gs_byType (removeFromCaseIndex n s) = gs_byType s"
  by (simp_all add: addType_def removeType_def addToCaseIndex_def removeFromCaseIndex_def split: option.splits)

lemma index_sets [simp]:
  "the_set (gs_byType (addType t k s) t') = (if t' = t then insert k else id) (the_set (gs_byType s t'))"
  "the_set (gs_byType (removeType t k s) t') = the_set (gs_byType s t') - (if t' = t then {k} else {})"
  "the_set (gs_byCase (addToCaseIndex n s) c) =
     (if c = nd_CaseID n then insert (nd_ID n) else id) (the_set (gs_byCase s c))"
  "the_set (gs_byCase (removeFromCaseIndex n s) c) =
     the_set (gs_byCase s c) - (if c = nd_CaseID n then {nd_ID n} else {})"
  by (auto simp: addType_def removeType_def addToCaseIndex_def removeFromCaseIndex_def the_set_def
      split: option.splits if_splits)

lemma mem_CreateNode_parts:
  assumes "nd_ID n \<noteq> []" "mem_CreateNode n s = (e, s')"
  shows "e = None" "gs_nodes s' = (gs_nodes s)(nd_ID n \<mapsto> n)" "gs_edges s' = gs_edges s"
    "the_set (gs_byCase s' c) = the_set (gs_byCase s c)
       - (case gs_nodes s (nd_ID n) of None \<Rightarrow> {}
          | Some m \<Rightarrow> if nd_CaseID m \<noteq> nd_CaseID n \<and> c = nd_CaseID m then {nd_ID m} else {})
       \<union> (if c = nd_CaseID n then {nd_ID n} else {})"
    "the_set (gs_byType s' t) = the_set (gs_byType s t)
       - (case gs_nodes s (nd_ID n) of None \<Rightarrow> {}
          | Some m \<Rightarrow> if nd_Type m \<noteq> nd_Type n \<and> t = nd_Type m then {nd_ID m} else {})
       \<union> (if t = nd_Type n then {nd_ID n} else {})"
  using assms by (auto simp: mem_CreateNode_def Let_def split: option.splits if_splits)

lemma store_inv_CreateNode:
  assumes "store_inv s" "mem_CreateNode n s = (e, s')"
  shows "store_inv s' \<and> (e, abs_store s') = spec_CreateNode n (abs_store s)"
proof (cases "nd_ID n = []")
  case True
  then show ?thesis using assms by (auto simp: mem_CreateNode_def spec_CreateNode_def)
next
  case False
  note parts = mem_CreateNode_parts [OF False assms(2)]
  have old: "nd_ID m = nd_ID n" if "gs_nodes s (nd_ID n) = Some m" for m
    using assms(1) that by (simp add: store_inv_def)
  have c: "the_set (gs_byCase s' c) = {k. \<exists>m. gs_nodes s' k = Some m \<and> nd_CaseID m = c}" for c
    using assms(1) old unfolding parts store_inv_def by (auto split: option.splits if_splits)
  have t: "the_set (gs_byType s' t) = {k. \<exists>m. gs_nodes s' k = Some m \<and> nd_Type m = t}" for t
    using assms(1) old unfolding parts store_inv_def by (auto split: option.splits if_splits)
  have "store_inv s'"
    unfolding store_inv_def using c t assms(1) False by (simp add: parts(2) store_inv_def)
  then show ?thesis
    using False parts by (simp add: abs_store_def spec_CreateNode_def)
qed

lemma store_inv_CreateEdge:
  assumes "store_inv s" "mem_CreateEdge x s = (e, s')"
  shows "store_inv s' \<and> (e, abs_store s') = spec_CreateEdge x (abs_store s)"
proof -
  have edges: "store_inv (s\<lparr>gs_edges := es\<rparr>) = store_inv s" for es by (simp add: store_inv_def)
  show ?thesis
    using assms
    by (auto simp: mem_CreateEdge_def spec_CreateEdge_def abs_store_def Let_def fun_eq_iff edges
        split: option.splits if_splits)
qed

lemma mem_GetNode_spec: "mem_GetNode k s = spec_GetNode k (abs_store s)"
  by (simp add: mem_GetNode_def spec_GetNode_def abs_store_def)

lemma mem_Traverse_spec:
  assumes "store_inv s"
  shows "mem_Traverse q s = spec_Traverse q (abs_store s)"
proof (cases "tq_CaseID q = []")
  case True
  then show ?thesis by (simp add: mem_Traverse_def spec_Traverse_def)
next
  case False
  let ?reach = "in_depth (edge_rel (the_edges (gs_edges s (tq_CaseID q)))) (tq_MaxDepth q) (tq_FromNodeID q)"
  define ids where "ids = {k. \<exists>n. gs_nodes s k = Some n \<and> nd_CaseID n = tq_CaseID q \<and>
      (\<forall>t. tq_NodeType q = Some t \<longrightarrow> nd_Type n = t) \<and> (tq_FromNodeID q \<noteq> [] \<longrightarrow> k \<in> ?reach)}"
  have byType: "(case tq_NodeType q of None \<Rightarrow> ks | Some t \<Rightarrow> ks \<inter> the_set (gs_byType s t)) =
      {k \<in> ks. \<forall>t. tq_NodeType q = Some t \<longrightarrow> (\<exists>n. gs_nodes s k = Some n \<and> nd_Type n = t)}" for ks
    using assms by (auto simp: store_inv_def split: option.splits)
  have byCase: "the_set (gs_byCase s (tq_CaseID q)) = {k. \<exists>n. gs_nodes s k = Some n \<and> nd_CaseID n = tq_CaseID q}"
    using assms by (simp add: store_inv_def)
  have reach: "reachableIDs (tq_CaseID q) (tq_FromNodeID q) (tq_MaxDepth q) s = ?reach"
    by (simp add: reachableIDs_exact EdgesForCase_def)
  have "ids = (if tq_FromNodeID q = []
      then {k \<in> {k. \<exists>n. gs_nodes s k = Some n \<and> nd_CaseID n = tq_CaseID q}.
              \<forall>t. tq_NodeType q = Some t \<longrightarrow> (\<exists>n. gs_nodes s k = Some n \<and> nd_Type n = t)}
      else {k \<in> {k. \<exists>n. gs_nodes s k = Some n \<and> nd_CaseID n = tq_CaseID q}.
              \<forall>t. tq_NodeType q = Some t \<longrightarrow> (\<exists>n. gs_nodes s k = Some n \<and> nd_Type n = t)} \<inter> ?reach)"
    unfolding ids_def by auto
  then have "mem_Traverse q s = Inr (\<Union>k\<in>ids. set_option (gs_nodes s k))"
    using False unfolding mem_Traverse_def Let_def byType byCase reach by simp
  moreover have "(\<Union>k\<in>ids. set_option (gs_nodes s k)) = {n \<in> ran (gs_nodes s). nd_CaseID n = tq_CaseID q \<and>
      (\<forall>t. tq_NodeType q = Some t \<longrightarrow> nd_Type n = t) \<and> (tq_FromNodeID q \<noteq> [] \<longrightarrow> nd_ID n \<in> ?reach)}"
  proof -
    have key: "nd_ID n = k" if "gs_nodes s k = Some n" for k n
      using assms that by (simp add: store_inv_def)
    have "(\<exists>k\<in>ids. gs_nodes s k = Some n) \<longleftrightarrow> n \<in> ran (gs_nodes s) \<and> nd_CaseID n = tq_CaseID q \<and>
        (\<forall>t. tq_NodeType q = Some t \<longrightarrow> nd_Type n = t) \<and> (tq_FromNodeID q \<noteq> [] \<longrightarrow> nd_ID n \<in> ?reach)" for n
      unfolding ids_def ran_def using key [of _ n] by auto
    then show ?thesis by (auto simp: set_eq_iff)
  qed
  ultimately show ?thesis using False by (simp add: spec_Traverse_def abs_store_def)
qed

lemma fold_delete_nodes:
  "gs_nodes (fold delete_node ids s) = (\<lambda>k. if k \<in> set ids then None else gs_nodes s k)"
  "gs_edges (fold delete_node ids s) = gs_edges s" "gs_byCase (fold delete_node ids s) = gs_byCase s"
  by (induction ids arbitrary: s) (auto simp: delete_node_def Let_def fun_eq_iff split: option.splits)

lemma fold_delete_types:
  "the_set (gs_byType (fold delete_node ids s) t) =
     the_set (gs_byType s t) - {k \<in> set ids. \<exists>n. gs_nodes s k = Some n \<and> nd_Type n = t}"
proof (induction ids arbitrary: s)
  case Nil
  then show ?case by simp
next
  case (Cons k ids)
  have "the_set (gs_byType (delete_node k s) t) =
      the_set (gs_byType s t) - {j \<in> {k}. \<exists>n. gs_nodes s j = Some n \<and> nd_Type n = t}"
    "gs_nodes (delete_node k s) = (gs_nodes s)(k := None)"
    by (auto simp: delete_node_def Let_def split: option.splits if_splits)
  then show ?case by (auto simp: Cons.IH)
qed

lemma store_inv_DeleteTree:
  assumes "store_inv s" "mem_DeleteTree ids c s = (e, s')" "set ids = the_set (gs_byCase s c)"
  shows "store_inv s' \<and> (e, abs_store s') = spec_DeleteTree c (abs_store s)"
proof (cases "c = []")
  case True
  then show ?thesis using assms by (auto simp: mem_DeleteTree_def spec_DeleteTree_def)
next
  case False
  let ?s = "fold delete_node ids s"
  have s': "e = None" "s' = ?s\<lparr>gs_byCase := (gs_byCase ?s)(c := None), gs_edges := (gs_edges ?s)(c := None)\<rparr>"
    using False assms(2) by (simp_all add: mem_DeleteTree_def Let_def)
  have ids: "k \<in> set ids \<longleftrightarrow> (\<exists>n. gs_nodes s k = Some n \<and> nd_CaseID n = c)" for k
    using assms(1,3) by (simp add: store_inv_def)
  have nodes: "gs_nodes s' = (\<lambda>k. case gs_nodes s k of None \<Rightarrow> None
      | Some n \<Rightarrow> if nd_CaseID n = c then None else Some n)"
    by (auto simp: s' fold_delete_nodes ids fun_eq_iff split: option.splits)
  have byCase: "gs_byCase s' = (gs_byCase s)(c := None)"
    and byType: "the_set (gs_byType s' t) = the_set (gs_byType s t) - {k \<in> set ids. \<exists>n. gs_nodes s k = Some n \<and> nd_Type n = t}"
    for t by (simp_all add: s' fold_delete_nodes(3) fold_delete_types)
  have "the_set (gs_byCase s' d) = {k. \<exists>n. gs_nodes s' k = Some n \<and> nd_CaseID n = d}" for d
    using assms(1) by (auto simp: byCase nodes store_inv_def split: option.splits if_splits)
  moreover have "the_set (gs_byType s' t) = {k. \<exists>n. gs_nodes s' k = Some n \<and> nd_Type n = t}" for t
    using assms(1) by (auto simp: byType nodes ids store_inv_def split: option.splits if_splits)
  moreover have "dom (gs_nodes s') \<subseteq> dom (gs_nodes s)"
    by (auto simp: nodes split: option.splits if_splits)
  ultimately have "store_inv s'"
    using assms(1) by (auto simp: store_inv_def nodes intro: finite_subset split: option.splits if_splits)
  moreover have "gs_edges s' = (gs_edges s)(c := None)" by (simp add: s' fold_delete_nodes(2))
  ultimately show ?thesis
    using False by (simp add: spec_DeleteTree_def abs_store_def nodes s'(1) fun_eq_iff)
qed

section \<open>The contract of a store\<close>

text \<open>
  A store keeps its invariant and each of its operations is that of the abstract store, seen
  through \<open>view\<close>.
\<close>

locale graph_store =
  fixes G :: "'s GraphStore" and inv :: "'s \<Rightarrow> bool" and view :: "'s \<Rightarrow> forest" and start :: 's
  assumes start: "inv start" "view start = \<lparr>fo_nodes = Map.empty, fo_edges = (\<lambda>_. [])\<rparr>"
    and CreateNode: "inv s \<Longrightarrow> g_CreateNode G n s = (e, s') \<Longrightarrow> inv s' \<and> (e, view s') = spec_CreateNode n (view s)"
    and CreateEdge: "inv s \<Longrightarrow> g_CreateEdge G x s = (e, s') \<Longrightarrow> inv s' \<and> (e, view s') = spec_CreateEdge x (view s)"
    and GetNode: "inv s \<Longrightarrow> g_GetNode G k s = spec_GetNode k (view s)"
    and Traverse: "inv s \<Longrightarrow> g_Traverse G q s = spec_Traverse q (view s)"
    and DeleteTree: "inv s \<Longrightarrow> g_DeleteTree G c s = (e, s') \<Longrightarrow> inv s' \<and> (e, view s') = spec_DeleteTree c (view s)"
    and keyed: "inv s \<Longrightarrow> fo_nodes (view s) k = Some n \<Longrightarrow> nd_ID n = k \<and> k \<noteq> []"
begin

text \<open>What a stored node becomes under each operation.\<close>

lemma view_CreateNode:
  assumes "inv s" "g_CreateNode G n s = (None, s')"
  shows "inv s'" "nd_ID n \<noteq> []" "fo_nodes (view s') = (fo_nodes (view s))(nd_ID n \<mapsto> n)"
  using CreateNode [OF assms] by (auto simp: spec_CreateNode_def split: if_splits)

lemma view_failed:
  assumes "inv s"
  shows "g_CreateNode G n s = (Some e, s') \<Longrightarrow> inv s' \<and> view s' = view s"
    "g_DeleteTree G c s = (Some e, s') \<Longrightarrow> inv s' \<and> view s' = view s"
  using CreateNode [OF assms, of n "Some e" s'] DeleteTree [OF assms, of c "Some e" s']
  by (auto simp: spec_CreateNode_def spec_DeleteTree_def split: if_splits)

lemma view_CreateEdge:
  assumes "inv s" "g_CreateEdge G x s = (e, s')"
  shows "inv s'" "fo_nodes (view s') = fo_nodes (view s)"
  using CreateEdge [OF assms] by (auto simp: spec_CreateEdge_def split: option.splits if_splits)

lemma view_DeleteTree:
  assumes "inv s" "g_DeleteTree G c s = (None, s')"
  shows "inv s'" "fo_nodes (view s') k = Some n \<longleftrightarrow> fo_nodes (view s) k = Some n \<and> nd_CaseID n \<noteq> c"
    "c \<noteq> []"
  using DeleteTree [OF assms] by (auto simp: spec_DeleteTree_def split: option.splits if_splits)

lemma whole_case:
  assumes "inv s" "g_Traverse G \<lparr>tq_CaseID = c, tq_NodeType = None, tq_FromNodeID = [], tq_MaxDepth = 0\<rparr> s = r"
  shows "r = (if c = [] then Inl ErrEmptyCaseID else Inr {n \<in> ran (fo_nodes (view s)). nd_CaseID n = c})"
  using Traverse [OF assms(1)] assms(2) by (auto simp: spec_Traverse_def)

lemma traversed_are_stored:
  assumes "inv s" "g_Traverse G q s = Inr ns" "n \<in> ns"
  shows "fo_nodes (view s) (nd_ID n) = Some n"
  using Traverse [OF assms(1), of q] assms(2,3) keyed [OF assms(1)]
  by (fastforce simp: spec_Traverse_def ran_def split: if_splits)

end

definition order_ok :: "(string set \<Rightarrow> string list) \<Rightarrow> bool" where
  "order_ok order \<longleftrightarrow> (\<forall>S. finite S \<longrightarrow> set (order S) = S)"

lemma finite_byCase: "store_inv s \<Longrightarrow> finite (the_set (gs_byCase s c))"
  by (rule finite_subset [of _ "dom (gs_nodes s)"]) (auto simp: store_inv_def)

lemma mem_store_contract:
  assumes "order_ok order"
  shows "graph_store (mem_store order) store_inv abs_store NewInMemoryGraphStore"
proof
  show "store_inv NewInMemoryGraphStore" by (simp add: store_inv_def NewInMemoryGraphStore_def)
  show "abs_store NewInMemoryGraphStore = \<lparr>fo_nodes = Map.empty, fo_edges = (\<lambda>_. [])\<rparr>"
    by (simp add: abs_store_def NewInMemoryGraphStore_def)
  fix s :: InMemoryGraphStore
  assume s: "store_inv s"
  show "g_CreateNode (mem_store order) n s = (e, s') \<Longrightarrow>
      store_inv s' \<and> (e, abs_store s') = spec_CreateNode n (abs_store s)" for n e s'
    using store_inv_CreateNode [OF s] by (simp add: mem_store_def)
  show "g_CreateEdge (mem_store order) x s = (e, s') \<Longrightarrow>
      store_inv s' \<and> (e, abs_store s') = spec_CreateEdge x (abs_store s)" for x e s'
    using store_inv_CreateEdge [OF s] by (simp add: mem_store_def)
  show "g_GetNode (mem_store order) k s = spec_GetNode k (abs_store s)" for k
    by (simp add: mem_store_def mem_GetNode_spec)
  show "g_Traverse (mem_store order) q s = spec_Traverse q (abs_store s)" for q
    by (simp add: mem_store_def mem_Traverse_spec [OF s])
  show "g_DeleteTree (mem_store order) c s = (e, s') \<Longrightarrow>
      store_inv s' \<and> (e, abs_store s') = spec_DeleteTree c (abs_store s)" for c e s'
    using store_inv_DeleteTree [OF s, of _ c e s'] finite_byCase [OF s] assms
    by (simp add: mem_store_def order_ok_def)
  show "fo_nodes (abs_store s) k = Some n \<Longrightarrow> nd_ID n = k \<and> k \<noteq> []" for k n
    using s by (simp add: abs_store_def store_inv_def)
qed

text \<open>One order a map iteration can have; it makes the model executable.\<close>

definition sorted_order :: "string set \<Rightarrow> string list" where
  "sorted_order S = sorted_list_of_set S"

lemma sorted_order_ok: "order_ok sorted_order"
  by (simp add: order_ok_def sorted_order_def)

interpretation mem: graph_store "mem_store sorted_order" store_inv abs_store NewInMemoryGraphStore
  by (rule mem_store_contract [OF sorted_order_ok])

section \<open>Runs of a store\<close>

datatype store_op = OpCreateNode Node | OpCreateEdge Edge | OpDeleteTree string

fun store_step :: "'s GraphStore \<Rightarrow> store_op \<Rightarrow> 's \<Rightarrow> graph_error option \<times> 's" where
  "store_step G (OpCreateNode n) s = g_CreateNode G n s"
| "store_step G (OpCreateEdge e) s = g_CreateEdge G e s"
| "store_step G (OpDeleteTree c) s = g_DeleteTree G c s"

fun spec_step :: "store_op \<Rightarrow> forest \<Rightarrow> graph_error option \<times> forest" where
  "spec_step (OpCreateNode n) f = spec_CreateNode n f"
| "spec_step (OpCreateEdge e) f = spec_CreateEdge e f"
| "spec_step (OpDeleteTree c) f = spec_DeleteTree c f"

fun run_steps :: "('o \<Rightarrow> 's \<Rightarrow> 'e \<times> 's) \<Rightarrow> 'o list \<Rightarrow> 's \<Rightarrow> 'e list \<times> 's" where
  "run_steps step [] s = ([], s)"
| "run_steps step (op # ops) s =
     (case step op s of (e, s) \<Rightarrow> case run_steps step ops s of (es, s) \<Rightarrow> (e # es, s))"

context graph_store
begin

lemma step_refines:
  assumes "inv s" "store_step G op s = (e, s')"
  shows "inv s' \<and> spec_step op (view s) = (e, view s')"
proof (cases op)
  case (OpCreateNode n)
  with CreateNode [OF assms(1), of n e s'] assms(2) show ?thesis by simp
next
  case (OpCreateEdge x)
  with CreateEdge [OF assms(1), of x e s'] assms(2) show ?thesis by simp
next
  case (OpDeleteTree c)
  with DeleteTree [OF assms(1), of c e s'] assms(2) show ?thesis by simp
qed

lemma run_refines:
  "inv s \<Longrightarrow> run_steps (store_step G) ops s = (es, s') \<Longrightarrow>
     inv s' \<and> run_steps spec_step ops (view s) = (es, view s')"
proof (induction ops arbitrary: s es)
  case Nil
  then show ?case by simp
next
  case (Cons op ops)
  obtain e s1 where step: "store_step G op s = (e, s1)" by fastforce
  obtain es1 where run: "run_steps (store_step G) ops s1 = (es1, s')" and es: "es = e # es1"
    using Cons.prems(2) step by (auto split: prod.splits)
  have r: "inv s1" "spec_step op (view s) = (e, view s1)"
    using step_refines [OF Cons.prems(1) step] by simp_all
  from Cons.IH [OF r(1) run] show ?case using r(2) es by simp
qed

end

section \<open>Properties of the store\<close>

text \<open>
  C18: The in-memory store with its two indexes refines the abstract forest. After any sequence
  of calls the errors returned are those of the abstract store and so is every answer: a
  lookup, and a traversal, which gives exactly the nodes of the case that have the type asked
  for and are within the depth asked for of the start node (all that are reachable when the
  depth is not positive), whatever the order of map iterations.
\<close>

theorem store_refines_forest:
  assumes "order_ok order"
    and "run_steps (store_step (mem_store order)) ops NewInMemoryGraphStore = (es, s)"
  shows "\<exists>f. run_steps spec_step ops \<lparr>fo_nodes = Map.empty, fo_edges = (\<lambda>_. [])\<rparr> = (es, f) \<and>
    (\<forall>k. mem_GetNode k s = spec_GetNode k f) \<and> (\<forall>q. mem_Traverse q s = spec_Traverse q f) \<and>
    (\<forall>c. EdgesForCase c s = fo_edges f c)"
proof -
  note contract = mem_store_contract [OF assms(1)]
  note start = graph_store.start [OF contract]
  have "store_inv s \<and> run_steps spec_step ops (abs_store NewInMemoryGraphStore) = (es, abs_store s)"
    using graph_store.run_refines [OF contract start(1) assms(2)] .
  then show ?thesis
    using start(2) mem_GetNode_spec mem_Traverse_spec
    by (intro exI [of _ "abs_store s"]) (simp add: abs_store_def EdgesForCase_def)
qed

definition sample_node :: "string \<Rightarrow> NodeType \<Rightarrow> Node" where
  "sample_node k t = NewNode t k ''c'' ''text'' 1 1 \<lparr>pv_GeneratedBy = ''x'', pv_GeneratedAt = 1, pv_UpstreamNodeIDs = []\<rparr>"

definition sample_ops :: "store_op list" where
  "sample_ops =
     [OpCreateNode (sample_node ''r'' NodeRule), OpCreateNode (sample_node ''i'' NodeIssue),
      OpCreateEdge \<lparr>ed_FromID = ''r'', ed_ToID = ''i'', ed_Type = EdgeGoverns\<rparr>,
      OpCreateEdge \<lparr>ed_FromID = ''r'', ed_ToID = ''x'', ed_Type = EdgeGoverns\<rparr>]"

theorem store_refines_forest_witness:
  "\<exists>es s. run_steps (store_step (mem_store sorted_order)) sample_ops NewInMemoryGraphStore = (es, s) \<and>
     es = [None, None, None, Some ErrNodeNotFound] \<and> mem_GetNode ''r'' s = Inr (sample_node ''r'' NodeRule)"
proof -
  obtain es s where run: "run_steps (store_step (mem_store sorted_order)) sample_ops NewInMemoryGraphStore = (es, s)"
    by fastforce
  from store_refines_forest [OF sorted_order_ok run] run show ?thesis
    by (auto simp: sample_ops_def sample_node_def NewNode_def spec_CreateNode_def spec_CreateEdge_def spec_GetNode_def)
qed

section \<open>Transactions\<close>

text \<open>
  \<open>WithTransaction\<close> for the in-memory store. The function runs on the store itself and returns
  an error or none, or panics; \<open>None\<close> is a nil store or function. The snapshot is a deep copy,
  hence a value here.
\<close>

datatype 'e fn_outcome = Returned "'e option" | Panicked

datatype 'e tx_error = NilStore | NilFn | TransactionFailed 'e

definition snapshot :: "InMemoryGraphStore \<Rightarrow> InMemoryGraphStore" where
  "snapshot s = \<lparr>gs_nodes = gs_nodes s, gs_edges = gs_edges s, gs_byCase = gs_byCase s, gs_byType = gs_byType s\<rparr>"

definition restore :: "InMemoryGraphStore \<Rightarrow> InMemoryGraphStore \<Rightarrow> InMemoryGraphStore" where
  "restore snap s =
     s\<lparr>gs_nodes := gs_nodes snap, gs_edges := gs_edges snap, gs_byCase := gs_byCase snap, gs_byType := gs_byType snap\<rparr>"

definition WithTransaction ::
  "(InMemoryGraphStore \<Rightarrow> 'e fn_outcome \<times> InMemoryGraphStore) option \<Rightarrow> InMemoryGraphStore option
    \<Rightarrow> 'e tx_error fn_outcome \<times> InMemoryGraphStore option" where
  "WithTransaction fn store =
     (case store of None \<Rightarrow> (Returned (Some NilStore), None)
      | Some s \<Rightarrow>
          (case fn of None \<Rightarrow> (Returned (Some NilFn), Some s)
           | Some fn \<Rightarrow>
               let snap = snapshot s in
               (case fn s of
                  (Panicked, s) \<Rightarrow> (Panicked, Some (restore snap s))
                | (Returned (Some err), s) \<Rightarrow> (Returned (Some (TransactionFailed err)), Some (restore snap s))
                | (Returned None, s) \<Rightarrow> (Returned None, Some s))))"

lemma restore_snapshot [simp]: "restore (snapshot s) s' = s"
  by (simp add: restore_def snapshot_def)

text \<open>All or nothing: the store is the function's result exactly when there is no error.\<close>

lemma WithTransaction_atomic:
  "WithTransaction (Some fn) (Some s) = (r, Some s') \<Longrightarrow>
     (r = Returned None \<and> fst (fn s) = Returned None \<and> s' = snd (fn s)) \<or> (r \<noteq> Returned None \<and> s' = s)"
  by (auto simp: WithTransaction_def Let_def split: prod.splits fn_outcome.splits option.splits)

text \<open>
  But the snapshot does not isolate: a call of somebody else that succeeds while the function
  runs is undone by the rollback as well. The function below makes no call of its own; the
  other caller's \<open>CreateNode\<close> falls between its start and its failure.
\<close>

lemma rollback_erases_other_writes:
  assumes "mem_GetNode (nd_ID n) s = Inl ErrNodeNotFound" "mem_CreateNode n s = (None, s1)"
    "WithTransaction (Some (\<lambda>s. (Returned (Some err), snd (mem_CreateNode n s)))) (Some s) = (r, Some s')"
  shows "mem_GetNode (nd_ID n) s1 = Inr n \<and> mem_GetNode (nd_ID n) s' = Inl ErrNodeNotFound"
proof -
  have k: "nd_ID n \<noteq> []" using assms(1) by (auto simp: mem_GetNode_def split: if_splits)
  have "s' = s" using assms(3) by (simp add: WithTransaction_def Let_def)
  moreover have "mem_GetNode (nd_ID n) s1 = Inr n"
    using k mem_CreateNode_parts(2) [OF k assms(2)] by (simp add: mem_GetNode_def)
  ultimately show ?thesis using assms(1) by simp
qed

text \<open>
  Writing a node again under another case leaves its old edges where they were: the first case
  then has an edge whose end belongs to the second.
\<close>

lemma moved_node_leaves_edges:
  "\<exists>es s. run_steps (store_step (mem_store sorted_order))
       (take 3 sample_ops @ [OpCreateNode ((sample_node ''r'' NodeRule)\<lparr>nd_CaseID := ''d''\<rparr>)])
       NewInMemoryGraphStore = (es, s) \<and>
     EdgesForCase ''c'' s = [\<lparr>ed_FromID = ''r'', ed_ToID = ''i'', ed_Type = EdgeGoverns\<rparr>] \<and>
     mem_GetNode ''r'' s = Inr ((sample_node ''r'' NodeRule)\<lparr>nd_CaseID := ''d''\<rparr>)"
proof -
  let ?ops = "take 3 sample_ops @ [OpCreateNode ((sample_node ''r'' NodeRule)\<lparr>nd_CaseID := ''d''\<rparr>)]"
  obtain es s where run: "run_steps (store_step (mem_store sorted_order)) ?ops NewInMemoryGraphStore = (es, s)"
    by fastforce
  have f: "abs_store s = snd (run_steps spec_step ?ops \<lparr>fo_nodes = Map.empty, fo_edges = (\<lambda>_. [])\<rparr>)"
    using mem.run_refines [OF mem.start(1) run] mem.start(2) by simp
  have "EdgesForCase ''c'' s = fo_edges (abs_store s) ''c''" by (simp add: EdgesForCase_def abs_store_def)
  also have "\<dots> = [\<lparr>ed_FromID = ''r'', ed_ToID = ''i'', ed_Type = EdgeGoverns\<rparr>]"
    unfolding f by (simp add: sample_ops_def sample_node_def NewNode_def spec_CreateNode_def spec_CreateEdge_def)
  finally have e: "EdgesForCase ''c'' s = [\<lparr>ed_FromID = ''r'', ed_ToID = ''i'', ed_Type = EdgeGoverns\<rparr>]" .
  have n: "mem_GetNode ''r'' s = Inr ((sample_node ''r'' NodeRule)\<lparr>nd_CaseID := ''d''\<rparr>)"
    unfolding mem_GetNode_spec f
    by (simp add: sample_ops_def sample_node_def NewNode_def spec_CreateNode_def spec_CreateEdge_def spec_GetNode_def)
  show ?thesis using run e n by blast
qed

end
