(* ===== verification/TenantGraph.thy ===== *)
theory TenantGraph
  imports GraphStore
begin

text \<open>
  \<open>packages/graph/tenant.go\<close>: the views of several tenants over one shared store, stated over
  the interface of \<open>store.go\<close> and its contract.
\<close>

section \<open>Tenants over a shared store\<close>

text \<open>
  The views of several tenants share the inner store and the map of owners, so the state is a
  pair. The code does not lock the map; a step here is one whole call.
\<close>

definition foreign :: "'t \<Rightarrow> (string \<rightharpoonup> 't) \<Rightarrow> string \<Rightarrow> bool" where
  "foreign tenant owners k \<longleftrightarrow> (case owners k of None \<Rightarrow> False | Some owner \<Rightarrow> owner \<noteq> tenant)"

definition tn_CreateNode ::
  "'s GraphStore \<Rightarrow> 't \<Rightarrow> Node \<Rightarrow> 's \<times> (string \<rightharpoonup> 't) \<Rightarrow> graph_error option \<times> 's \<times> (string \<rightharpoonup> 't)" where
  "tn_CreateNode G tenant node st =
     (case st of (s, owners) \<Rightarrow>
        if foreign tenant owners (nd_ID node) then (Some ErrCrossTenantAccess, s, owners)
        else
          (case g_CreateNode G node s of
             (Some err, s) \<Rightarrow> (Some err, s, owners)
           | (None, s) \<Rightarrow> (None, s, owners(nd_ID node \<mapsto> tenant))))"

definition tn_CreateEdge ::
  "'s GraphStore \<Rightarrow> 't \<Rightarrow> Edge \<Rightarrow> 's \<times> (string \<rightharpoonup> 't) \<Rightarrow> graph_error option \<times> 's \<times> (string \<rightharpoonup> 't)" where
  "tn_CreateEdge G tenant e st =
     (case st of (s, owners) \<Rightarrow>
        if foreign tenant owners (ed_FromID e) then (Some ErrCrossTenantAccess, s, owners)
        else if foreign tenant owners (ed_ToID e) then (Some ErrCrossTenantAccess, s, owners)
        else (case g_CreateEdge G e s of (err, s) \<Rightarrow> (err, s, owners)))"

definition tn_GetNode ::
  "'s GraphStore \<Rightarrow> 't \<Rightarrow> string \<Rightarrow> 's \<times> (string \<rightharpoonup> 't) \<Rightarrow> graph_error + Node" where
  "tn_GetNode G tenant k st =
     (case st of (s, owners) \<Rightarrow>
        if foreign tenant owners k then Inl ErrCrossTenantAccess else g_GetNode G k s)"

definition tn_Traverse ::
  "'s GraphStore \<Rightarrow> 't \<Rightarrow> TraversalQuery \<Rightarrow> 's \<times> (string \<rightharpoonup> 't) \<Rightarrow> graph_error + Node set" where
  "tn_Traverse G tenant q st =
     (case st of (s, owners) \<Rightarrow>
        (case g_Traverse G q s of
           Inl err \<Rightarrow> Inl err
         | Inr nodes \<Rightarrow> Inr {n \<in> nodes. \<not> foreign tenant owners (nd_ID n)}))"

definition tn_DeleteTree ::
  "'s GraphStore \<Rightarrow> 't \<Rightarrow> string \<Rightarrow> 's \<times> (string \<rightharpoonup> 't) \<Rightarrow> graph_error option \<times> 's \<times> (string \<rightharpoonup> 't)" where
  "tn_DeleteTree G tenant caseID st =
     (case st of (s, owners) \<Rightarrow>
        (case g_Traverse G \<lparr>tq_CaseID = caseID, tq_NodeType = None, tq_FromNodeID = [], tq_MaxDepth = 0\<rparr> s of
           Inl err \<Rightarrow> (Some err, s, owners)
         | Inr nodes \<Rightarrow>
             if \<exists>n\<in>nodes. foreign tenant owners (nd_ID n) then (Some ErrCrossTenantAccess, s, owners)
             else
               (case g_DeleteTree G caseID s of
                  (Some err, s) \<Rightarrow> (Some err, s, owners)
                | (None, s) \<Rightarrow> (None, s, \<lambda>k. if k \<in> nd_ID ` nodes then None else owners k))))"

fun tenant_step ::
  "'s GraphStore \<Rightarrow> 't \<times> store_op \<Rightarrow> 's \<times> (string \<rightharpoonup> 't) \<Rightarrow> graph_error option \<times> 's \<times> (string \<rightharpoonup> 't)" where
  "tenant_step G (t, OpCreateNode n) st = tn_CreateNode G t n st"
| "tenant_step G (t, OpCreateEdge e) st = tn_CreateEdge G t e st"
| "tenant_step G (t, OpDeleteTree c) st = tn_DeleteTree G t c st"

text \<open>
  What a tenant's call does to the nodes and their owners: nothing, or it writes one node that
  is not another tenant's, or it removes nodes of which none is.
\<close>

definition tenant_effect ::
  "'t \<Rightarrow> (string \<rightharpoonup> Node) \<Rightarrow> (string \<rightharpoonup> 't) \<Rightarrow> (string \<rightharpoonup> Node) \<Rightarrow> (string \<rightharpoonup> 't) \<Rightarrow> bool" where
  "tenant_effect t nodes owners nodes' owners' \<longleftrightarrow>
     (nodes' = nodes \<and> owners' = owners) \<or>
     (\<exists>n. \<not> foreign t owners (nd_ID n) \<and> nodes' = nodes(nd_ID n \<mapsto> n) \<and> owners' = owners(nd_ID n \<mapsto> t)) \<or>
     (\<exists>D. (\<forall>k\<in>D. \<not> foreign t owners k) \<and> nodes' = nodes |` (- D) \<and> owners' = owners |` (- D))"

lemma tenant_effect_none [simp]: "tenant_effect t nodes owners nodes owners"
  by (simp add: tenant_effect_def)

lemma effect_dom: "tenant_effect t nodes owners nodes' owners' \<Longrightarrow> dom owners = dom nodes \<Longrightarrow> dom owners' = dom nodes'"
  unfolding tenant_effect_def by (elim disjE conjE exE) (simp_all del: fun_upd_apply)

context graph_store
begin

lemma CreateNode_effect:
  assumes "inv s" "tn_CreateNode G t n (s, owners) = (e, s', owners')"
  shows "inv s' \<and> tenant_effect t (fo_nodes (view s)) owners (fo_nodes (view s')) owners'"
proof (cases "foreign t owners (nd_ID n)")
  case True
  then show ?thesis using assms by (auto simp: tn_CreateNode_def)
next
  case False
  obtain r s1 where g: "g_CreateNode G n s = (r, s1)" by fastforce
  show ?thesis
  proof (cases r)
    case None
    then show ?thesis
      using assms(2) False g view_CreateNode [OF assms(1), of n s1]
      by (auto simp: tn_CreateNode_def tenant_effect_def)
  next
    case (Some err)
    then show ?thesis
      using assms(2) False g view_failed(1) [OF assms(1), of n err s1] by (auto simp: tn_CreateNode_def)
  qed
qed

lemma CreateEdge_effect:
  assumes "inv s" "tn_CreateEdge G t x (s, owners) = (e, s', owners')"
  shows "inv s' \<and> fo_nodes (view s') = fo_nodes (view s) \<and> owners' = owners"
proof -
  obtain r s1 where g: "g_CreateEdge G x s = (r, s1)" by fastforce
  then show ?thesis
    using assms view_CreateEdge [OF assms(1) g] by (auto simp: tn_CreateEdge_def split: if_splits)
qed

lemma DeleteTree_effect:
  assumes "inv s" "tn_DeleteTree G t c (s, owners) = (e, s', owners')"
  shows "inv s' \<and> tenant_effect t (fo_nodes (view s)) owners (fo_nodes (view s')) owners'"
proof -
  let ?nodes = "{n \<in> ran (fo_nodes (view s)). nd_CaseID n = c}"
  note whole = whole_case [OF assms(1) refl, of c]
  consider "s' = s" "owners' = owners"
    | err s1 where "g_DeleteTree G c s = (Some err, s1)" "s' = s1" "owners' = owners"
    | s1 where "g_DeleteTree G c s = (None, s1)" "s' = s1" "\<not> (\<exists>n\<in>?nodes. foreign t owners (nd_ID n))"
        "owners' = (\<lambda>k. if k \<in> nd_ID ` ?nodes then None else owners k)"
    using assms(2) unfolding tn_DeleteTree_def
    by (simp only: whole prod.case sum.case split: if_splits prod.splits option.splits) auto
  then show ?thesis
  proof cases
    case 1
    with assms(1) show ?thesis by simp
  next
    case 2
    with view_failed(2) [OF assms(1)] show ?thesis by simp
  next
    case 3
    note del = view_DeleteTree [OF assms(1) 3(1)]
    have D: "k \<in> nd_ID ` ?nodes \<longleftrightarrow> (\<exists>n. fo_nodes (view s) k = Some n \<and> nd_CaseID n = c)" for k
      using keyed [OF assms(1)] unfolding ran_def by blast
    have "fo_nodes (view s1) k = (fo_nodes (view s) |` (- (nd_ID ` ?nodes))) k" for k
    proof (cases "fo_nodes (view s1) k")
      case None
      then have "\<not> (\<exists>n. fo_nodes (view s) k = Some n \<and> nd_CaseID n \<noteq> c)" using del(2) [of k] by simp
      with None show ?thesis using D [of k] by (cases "fo_nodes (view s) k") (auto simp: restrict_map_def)
    next
      case (Some n)
      then have "fo_nodes (view s) k = Some n" "nd_CaseID n \<noteq> c" using del(2) by auto
      with Some show ?thesis using D [of k] by (auto simp: restrict_map_def)
    qed
    then have "fo_nodes (view s1) = fo_nodes (view s) |` (- (nd_ID ` ?nodes))" by blast
    moreover have "owners' = owners |` (- (nd_ID ` ?nodes))"
      using 3(4) by (auto simp: restrict_map_def fun_eq_iff)
    moreover have "\<forall>k\<in>nd_ID ` ?nodes. \<not> foreign t owners k" using 3(3) by blast
    ultimately show ?thesis
      using del(1) 3(2) unfolding tenant_effect_def by blast
  qed
qed

lemma step_effect:
  assumes "inv s" "tenant_step G (t, op) (s, owners) = (e, s', owners')"
  shows "inv s' \<and> tenant_effect t (fo_nodes (view s)) owners (fo_nodes (view s')) owners'"
proof (cases op)
  case (OpCreateEdge x)
  with CreateEdge_effect [OF assms(1)] assms(2) show ?thesis by fastforce
qed (use assms CreateNode_effect DeleteTree_effect in simp_all)

text \<open>Runs of several tenants: every stored node has an owner, and no other ID has.\<close>

lemma tenants_run:
  "inv s \<Longrightarrow> dom owners = dom (fo_nodes (view s)) \<Longrightarrow>
     run_steps (tenant_step G) ops (s, owners) = (es, s', owners') \<Longrightarrow>
     inv s' \<and> dom owners' = dom (fo_nodes (view s'))"
proof (induction ops arbitrary: s owners es)
  case Nil
  then show ?case by simp
next
  case (Cons op ops)
  obtain t o' where op: "op = (t, o')" by (cases op)
  obtain e s1 owners1 where step: "tenant_step G op (s, owners) = (e, s1, owners1)" by (metis prod_cases3)
  obtain es1 where run: "run_steps (tenant_step G) ops (s1, owners1) = (es1, s', owners')"
    using Cons.prems(3) step by (auto split: prod.splits)
  have eff: "inv s1" "tenant_effect t (fo_nodes (view s)) owners (fo_nodes (view s1)) owners1"
    using step_effect [OF Cons.prems(1) step [unfolded op]] by simp_all
  then have "dom owners1 = dom (fo_nodes (view s1))"
    using effect_dom Cons.prems(2) by metis
  from Cons.IH [OF eff(1) this run] show ?case .
qed

end

text \<open>Another tenant's node stays as it is.\<close>

lemma effect_keeps_foreign:
  assumes "tenant_effect t nodes owners nodes' owners'" "foreign t owners k"
  shows "nodes' k = nodes k \<and> owners' k = owners k"
  using assms by (auto simp: tenant_effect_def)

section \<open>Properties of the tenants\<close>

text \<open>
  C19: Isolation of tenants. Whatever calls any tenants made before on a shared store, a node
  that one tenant owns cannot be read, linked, overwritten or removed by any call of another
  tenant: the call leaves it and its ownership as they are, answers a lookup with
  \<open>ErrCrossTenantAccess\<close> and leaves it out of every traversal; its owner still reads it.
\<close>

theorem tenants_are_isolated:
  assumes "order_ok order"
    and "run_steps (tenant_step (mem_store order)) ops (NewInMemoryGraphStore, Map.empty) = (es, s, owners)"
    and "gs_nodes s k = Some n" and "owners k = Some owner" and "t \<noteq> owner"
  shows "(\<forall>op e s' owners'. tenant_step (mem_store order) (t, op) (s, owners) = (e, s', owners') \<longrightarrow>
       gs_nodes s' k = Some n \<and> owners' k = Some owner) \<and>
    (\<forall>x. k = ed_FromID x \<or> k = ed_ToID x \<longrightarrow>
       tn_CreateEdge (mem_store order) t x (s, owners) = (Some ErrCrossTenantAccess, s, owners)) \<and>
    tn_GetNode (mem_store order) t k (s, owners) = Inl ErrCrossTenantAccess \<and>
    (\<forall>q ns. tn_Traverse (mem_store order) t q (s, owners) = Inr ns \<longrightarrow> n \<notin> ns) \<and>
    tn_GetNode (mem_store order) owner k (s, owners) = Inr n"
proof -
  note contract = mem_store_contract [OF assms(1)]
  have inv: "store_inv s"
    using graph_store.tenants_run [OF contract _ _ assms(2)] graph_store.start [OF contract] by simp
  have f: "foreign t owners k" "\<not> foreign owner owners k" using assms(4,5) by (simp_all add: foreign_def)
  have k: "nd_ID n = k" "k \<noteq> []" using inv assms(3) by (simp_all add: store_inv_def)
  have step: "gs_nodes s' k = Some n \<and> owners' k = Some owner"
    if "tenant_step (mem_store order) (t, op) (s, owners) = (e, s', owners')" for op e s' owners'
  proof -
    have "tenant_effect t (gs_nodes s) owners (gs_nodes s') owners'"
      using graph_store.step_effect [OF contract inv that] by (simp add: abs_store_def)
    from effect_keeps_foreign [OF this f(1)] assms(3,4) show ?thesis by simp
  qed
  have "n \<notin> ns" if "tn_Traverse (mem_store order) t q (s, owners) = Inr ns" for q ns
    using that f(1) k(1) by (auto simp: tn_Traverse_def split: sum.splits)
  with step show ?thesis
    using f k assms(3) by (auto simp: tn_CreateEdge_def tn_GetNode_def mem_store_def mem_GetNode_def)
qed

theorem tenants_are_isolated_witness:
  "\<exists>es s owners. run_steps (tenant_step (mem_store sorted_order))
       [(''A'', OpCreateNode (sample_node ''r'' NodeRule)), (''B'', OpCreateNode (sample_node ''r'' NodeFact))]
       (NewInMemoryGraphStore, Map.empty) = (es, s, owners) \<and>
     tn_GetNode (mem_store sorted_order) ''B'' ''r'' (s, owners) = Inl ErrCrossTenantAccess"
proof -
  obtain es s owners where run: "run_steps (tenant_step (mem_store sorted_order))
       [(''A'', OpCreateNode (sample_node ''r'' NodeRule)), (''B'', OpCreateNode (sample_node ''r'' NodeFact))]
       (NewInMemoryGraphStore, Map.empty) = (es, s, owners)" by (metis prod_cases3)
  then have "gs_nodes s ''r'' = Some (sample_node ''r'' NodeRule)" "owners ''r'' = Some ''A''"
    by (auto simp: tn_CreateNode_def foreign_def mem_store_def mem_CreateNode_def Let_def sample_node_def
        NewNode_def NewInMemoryGraphStore_def addToCaseIndex_def addType_def)
  with tenants_are_isolated [OF sorted_order_ok run this, of "''B''"] run show ?thesis by simp
qed

end
