(* ===== verification/TreeAssembly.thy ===== *)
theory TreeAssembly
  imports Irac "HOL-Library.Multiset"
begin

text \<open>
  \<open>packages/treeassembly\<close>, the parts without a store: composing a tree from the nodes other
  packages extracted (\<open>compose.go\<close>), the gaps in it (\<open>gap.go\<close>), its integrity check
  (\<open>integrity.go\<close>) and its extension by new evidence (\<open>incremental.go\<close>, \<open>revision.go\<close>).
\<close>

section \<open>Composition\<close>

datatype 'e ta_error = ErrEmptyInput | ErrNilPrevTree | ErrNilStore | ErrCriticalIntegrityFailure
  | ProviderError 'e

text \<open>
  The Go slices are typed; here each holds nodes of the one constructor, which \<open>typed_input\<close>
  states.
\<close>

record AssemblyInput =
  ai_CaseID :: string
  ai_Issues :: "NodeLike list"
  ai_Rules :: "NodeLike list"
  ai_Facts :: "NodeLike list"
  ai_Applications :: "NodeLike list"

record Tree =
  t_Nodes :: "NodeLike list"
  t_Edges :: "Edge list"
  t_Revision :: TreeRevision

type_synonym 'e ConclusionProvider = "AssemblyInput \<Rightarrow> 'e + NodeLike list"

definition NoOpConclusionProvider :: "'e ConclusionProvider" where
  "NoOpConclusionProvider _ = Inr []"

abbreviation edge :: "string \<Rightarrow> string \<Rightarrow> EdgeType \<Rightarrow> Edge" where
  "edge f t ty \<equiv> \<lparr>ed_FromID = f, ed_ToID = t, ed_Type = ty\<rparr>"

definition has_ID :: "NodeLike list \<Rightarrow> string \<Rightarrow> bool" where
  "has_ID nodes k \<longleftrightarrow> k \<in> set (map GetID nodes)"

definition governs_edges :: "NodeLike list \<Rightarrow> NodeLike \<Rightarrow> Edge list" where
  "governs_edges issues r =
     concat (map (\<lambda>up. if has_ID issues up then [edge (GetID r) up EdgeGoverns] else []) (upstream r))"

definition applies_edges :: "NodeLike list \<Rightarrow> NodeLike list \<Rightarrow> NodeLike \<Rightarrow> Edge list" where
  "applies_edges rules facts a =
     concat (map (\<lambda>up.
       if has_ID rules up then [edge (GetID a) up EdgeAppliesTo]
       else if has_ID facts up
       then [edge (GetID a) up EdgeAppliesTo, edge up (GetID a) EdgeSupports] else []) (upstream a))"

definition concludes_edges :: "NodeLike list \<Rightarrow> NodeLike \<Rightarrow> Edge list" where
  "concludes_edges apps c =
     concat (map (\<lambda>up. if has_ID apps up then [edge (GetID c) up EdgeConcludesFrom] else []) (upstream c))"

definition deriveEdges :: "AssemblyInput \<Rightarrow> NodeLike list \<Rightarrow> Edge list" where
  "deriveEdges input conclusions =
     concat (map (governs_edges (ai_Issues input)) (ai_Rules input)) @
     concat (map (applies_edges (ai_Rules input) (ai_Facts input)) (ai_Applications input)) @
     concat (map (concludes_edges (ai_Applications input)) conclusions)"

definition ComposeTree ::
  "time \<Rightarrow> AssemblyInput \<Rightarrow> 'e ConclusionProvider option \<Rightarrow> 'e ta_error + Tree" where
  "ComposeTree now input conclusions =
     (if ai_CaseID input = [] then Inl ErrEmptyInput
      else if ai_Issues input = [] \<and> ai_Facts input = [] \<and> ai_Applications input = []
      then Inl ErrEmptyInput
      else
        (case (case conclusions of None \<Rightarrow> NoOpConclusionProvider | Some p \<Rightarrow> p) input of
           Inl err \<Rightarrow> Inl (ProviderError err)
         | Inr conclusionNodes \<Rightarrow>
             Inr \<lparr>t_Nodes = ai_Issues input @ ai_Rules input @ ai_Facts input @
                            ai_Applications input @ conclusionNodes,
                  t_Edges = deriveEdges input conclusionNodes,
                  t_Revision = NewInitialRevision (ai_CaseID input) now\<rparr>))"

text \<open>\<open>ValidateIntegrity\<close> and \<open>NextRevision\<close> of this package accept a nil tree.\<close>

definition ValidateIntegrity :: "Tree option \<Rightarrow> ValidationIssue list" where
  "ValidateIntegrity tree =
     (case tree of None \<Rightarrow> ValidateTree [] [] | Some t \<Rightarrow> ValidateTree (t_Nodes t) (t_Edges t))"

definition HasCriticalIntegrityFailure :: "ValidationIssue list \<Rightarrow> bool" where
  "HasCriticalIntegrityFailure issues \<longleftrightarrow> length issues > 0"

definition ta_NextRevision :: "time \<Rightarrow> Tree \<Rightarrow> TreeRevision" where
  "ta_NextRevision now tree = Irac.NextRevision (t_Revision tree) now"

section \<open>Gaps\<close>

datatype GapKind = GapUnaddressedIssue | GapUnresolvedApplication

text \<open>The description, which repeats the fields in words, is left out.\<close>

record Gap =
  gp_Kind :: GapKind
  gp_NodeID :: string

definition is_issue :: "NodeLike \<Rightarrow> bool" where "is_issue n = (case n of IssueNode _ _ \<Rightarrow> True | _ \<Rightarrow> False)"
definition is_rule :: "NodeLike \<Rightarrow> bool" where "is_rule n = (case n of RuleNode _ _ _ _ \<Rightarrow> True | _ \<Rightarrow> False)"
definition is_fact :: "NodeLike \<Rightarrow> bool" where "is_fact n = (case n of FactNode _ _ \<Rightarrow> True | _ \<Rightarrow> False)"
definition is_application :: "NodeLike \<Rightarrow> bool" where
  "is_application n = (case n of ApplicationNode _ _ \<Rightarrow> True | _ \<Rightarrow> False)"
definition is_conclusion :: "NodeLike \<Rightarrow> bool" where
  "is_conclusion n = (case n of ConclusionNode _ _ _ \<Rightarrow> True | _ \<Rightarrow> False)"

definition partitionNodes ::
  "NodeLike list \<Rightarrow> NodeLike list \<times> NodeLike list \<times> NodeLike list \<times> NodeLike list" where
  "partitionNodes nodes =
     (filter is_issue nodes, filter is_rule nodes, filter is_application nodes, filter is_conclusion nodes)"

text \<open>The two maps of sets, as the lists of the edges that fill them.\<close>

definition rulesGoverningIssue :: "Edge list \<Rightarrow> string \<Rightarrow> string list" where
  "rulesGoverningIssue edges issueID =
     map ed_FromID (filter (\<lambda>e. ed_Type e = EdgeGoverns \<and> ed_ToID e = issueID) edges)"

definition rulesAppliedByApplication :: "NodeLike list \<Rightarrow> Edge list \<Rightarrow> string \<Rightarrow> string list" where
  "rulesAppliedByApplication rules edges appID =
     map ed_ToID (filter (\<lambda>e. ed_Type e = EdgeAppliesTo \<and> has_ID rules (ed_ToID e) \<and> ed_FromID e = appID)
       edges)"

definition issueIsAddressed ::
  "string \<Rightarrow> NodeLike list \<Rightarrow> (string \<Rightarrow> string list) \<Rightarrow> (string \<Rightarrow> string list) \<Rightarrow> bool" where
  "issueIsAddressed issueID applications governing applied \<longleftrightarrow>
     (\<exists>app\<in>set applications. issueID \<in> set (upstream app) \<or>
        (\<exists>ruleID\<in>set (applied (GetID app)). ruleID \<in> set (governing issueID)))"

definition DetectGaps :: "Tree option \<Rightarrow> Gap list" where
  "DetectGaps tree =
     (case tree of None \<Rightarrow> []
      | Some tree \<Rightarrow>
          (case partitionNodes (t_Nodes tree) of
             (issues, rules, applications, conclusions) \<Rightarrow>
               map (\<lambda>issue. \<lparr>gp_Kind = GapUnaddressedIssue, gp_NodeID = GetID issue\<rparr>)
                 (filter (\<lambda>issue. \<not> issueIsAddressed (GetID issue) applications
                    (rulesGoverningIssue (t_Edges tree))
                    (rulesAppliedByApplication rules (t_Edges tree))) issues) @
               (if length conclusions > 0
                then map (\<lambda>app. \<lparr>gp_Kind = GapUnresolvedApplication, gp_NodeID = GetID app\<rparr>)
                  (filter (\<lambda>app. GetID app \<notin>
                     set (map ed_ToID (filter (\<lambda>e. ed_Type e = EdgeConcludesFrom) (t_Edges tree))))
                     applications)
                else [])))"

section \<open>Incremental reassembly\<close>

record IncrementalResult =
  ir_Tree :: Tree
  ir_ValidationIssues :: "ValidationIssue list"
  ir_Gaps :: "Gap list"

text \<open>
  The state of the loops: all nodes, the map \<open>existingByID\<close>, the nodes of the delta, all edges
  and the edges of the delta. The code's \<open>factByID\<close> is written and never read.
\<close>

record reassembly =
  ra_nodes :: "NodeLike list"
  ra_existing :: "string \<rightharpoonup> NodeLike"
  ra_deltaNodes :: "NodeLike list"
  ra_edges :: "Edge list"
  ra_deltaEdges :: "Edge list"

definition add_node :: "NodeLike \<Rightarrow> reassembly \<Rightarrow> reassembly" where
  "add_node n st = st\<lparr>ra_nodes := ra_nodes st @ [n], ra_deltaNodes := ra_deltaNodes st @ [n],
                      ra_existing := (ra_existing st)(GetID n \<mapsto> n)\<rparr>"

definition add_edges :: "Edge list \<Rightarrow> reassembly \<Rightarrow> reassembly" where
  "add_edges es st = st\<lparr>ra_edges := ra_edges st @ es, ra_deltaEdges := ra_deltaEdges st @ es\<rparr>"

definition add_fact :: "NodeLike \<Rightarrow> reassembly \<Rightarrow> reassembly" where
  "add_fact f st = (if ra_existing st (GetID f) \<noteq> None then st else add_node f st)"

definition upstream_edges :: "string \<Rightarrow> (string \<rightharpoonup> NodeLike) \<Rightarrow> string \<Rightarrow> Edge list" where
  "upstream_edges aID existing up =
     (case existing up of
        None \<Rightarrow> []
      | Some target \<Rightarrow>
          (case GetType target of
             NodeRule \<Rightarrow> [edge aID up EdgeAppliesTo]
           | NodeFact \<Rightarrow> [edge aID up EdgeAppliesTo, edge up aID EdgeSupports]
           | _ \<Rightarrow> []))"

definition add_application :: "NodeLike \<Rightarrow> reassembly \<Rightarrow> reassembly" where
  "add_application a st =
     (if ra_existing st (GetID a) \<noteq> None then st
      else
        let st = add_node a st
        in add_edges (concat (map (upstream_edges (GetID a) (ra_existing st)) (upstream a))) st)"

text \<open>New facts are connected to the applications of the previous tree that cite them.\<close>

definition late_edges :: "NodeLike list \<Rightarrow> NodeLike \<Rightarrow> Edge list" where
  "late_edges prevNodes f =
     concat (map (\<lambda>n. if is_application n
                      then concat (map (\<lambda>up. if up \<noteq> GetID f then []
                             else [edge (GetID n) (GetID f) EdgeAppliesTo, edge (GetID f) (GetID n) EdgeSupports])
                           (upstream n))
                      else []) prevNodes)"

text \<open>The affected subset: the delta's nodes and the old nodes its edges touch.\<close>

definition touch :: "(string \<rightharpoonup> NodeLike) \<Rightarrow> string \<Rightarrow> NodeLike list \<times> string set \<Rightarrow> NodeLike list \<times> string set" where
  "touch existing k acc =
     (case acc of
        (affected, ids) \<Rightarrow>
          if k \<in> ids then (affected, ids)
          else (case existing k of
                  Some n \<Rightarrow> (affected @ [n], insert k ids)
                | None \<Rightarrow> (affected, ids)))"

definition affected_nodes :: "reassembly \<Rightarrow> NodeLike list" where
  "affected_nodes st =
     fst (fold (\<lambda>e acc. touch (ra_existing st) (ed_ToID e) (touch (ra_existing st) (ed_FromID e) acc))
            (ra_deltaEdges st) (ra_deltaNodes st, set (map GetID (ra_deltaNodes st))))"

definition ReassembleIncremental ::
  "time \<Rightarrow> Tree option \<Rightarrow> NodeLike list \<Rightarrow> NodeLike list \<Rightarrow> 'e ta_error + IncrementalResult" where
  "ReassembleIncremental now prev newFacts newApplications =
     (case prev of None \<Rightarrow> Inl ErrNilPrevTree
      | Some prev \<Rightarrow>
          let st = \<lparr>ra_nodes = t_Nodes prev, ra_existing = by_ID (t_Nodes prev), ra_deltaNodes = [],
                    ra_edges = t_Edges prev, ra_deltaEdges = []\<rparr>;
              st = fold add_fact newFacts st;
              st = fold add_application newApplications st;
              st = fold (\<lambda>f. add_edges (late_edges (t_Nodes prev) f)) newFacts st;
              updated = \<lparr>t_Nodes = ra_nodes st, t_Edges = ra_edges st, t_Revision = t_Revision prev\<rparr>;
              updated = updated\<lparr>t_Revision := ta_NextRevision now updated\<rparr>;
              affected = affected_nodes st;
              deltaTree = \<lparr>t_Nodes = affected, t_Edges = ra_deltaEdges st, t_Revision = t_Revision updated\<rparr>
          in Inr \<lparr>ir_Tree = updated, ir_ValidationIssues = ValidateTree affected (ra_deltaEdges st),
                  ir_Gaps = DetectGaps (Some deltaTree)\<rparr>)"

section \<open>Lemmas on composition\<close>

lemmas node_kinds = is_issue_def is_rule_def is_fact_def is_application_def is_conclusion_def

text \<open>What the constructors of \<open>packages/irac\<close> guarantee of the nodes of an input.\<close>

definition input_nodes :: "AssemblyInput \<Rightarrow> NodeLike list" where
  "input_nodes input = ai_Issues input @ ai_Rules input @ ai_Facts input @ ai_Applications input"

definition typed_input :: "AssemblyInput \<Rightarrow> bool" where
  "typed_input input \<longleftrightarrow>
     (\<forall>n\<in>set (ai_Issues input). is_issue n) \<and> (\<forall>n\<in>set (ai_Rules input). is_rule n) \<and>
     (\<forall>n\<in>set (ai_Facts input). is_fact n) \<and> (\<forall>n\<in>set (ai_Applications input). is_application n) \<and>
     (\<forall>n\<in>set (input_nodes input). well_typed n)"

definition labelled_conclusions :: "NodeLike list \<Rightarrow> bool" where
  "labelled_conclusions cs \<longleftrightarrow> (\<forall>n\<in>set cs. is_conclusion n \<and> well_typed n \<and> HasGuardrailLabel n)"

lemma GetType_by_kind:
  assumes "well_typed n"
  shows "is_issue n \<Longrightarrow> GetType n = NodeIssue" "is_rule n \<Longrightarrow> GetType n = NodeRule"
    "is_fact n \<Longrightarrow> GetType n = NodeFact" "is_application n \<Longrightarrow> GetType n = NodeApplication"
    "is_conclusion n \<Longrightarrow> GetType n = NodeConclusion"
  using assms by (cases n; simp add: node_kinds GetType_def)+

lemma has_ID_D: "has_ID nodes k \<Longrightarrow> \<exists>n\<in>set nodes. GetID n = k"
  by (auto simp: has_ID_def)

lemma in_governs:
  "e \<in> set (governs_edges issues r) \<longleftrightarrow>
     (\<exists>up\<in>set (upstream r). has_ID issues up \<and> e = edge (GetID r) up EdgeGoverns)"
  by (auto simp: governs_edges_def split: if_splits)

lemma in_concludes:
  "e \<in> set (concludes_edges apps c) \<longleftrightarrow>
     (\<exists>up\<in>set (upstream c). has_ID apps up \<and> e = edge (GetID c) up EdgeConcludesFrom)"
  by (auto simp: concludes_edges_def split: if_splits)

lemma in_applies:
  "e \<in> set (applies_edges rules facts a) \<longleftrightarrow>
     (\<exists>up\<in>set (upstream a).
        (has_ID rules up \<and> e = edge (GetID a) up EdgeAppliesTo) \<or>
        (\<not> has_ID rules up \<and> has_ID facts up \<and>
           (e = edge (GetID a) up EdgeAppliesTo \<or> e = edge up (GetID a) EdgeSupports)))"
  by (auto simp: applies_edges_def split: if_splits)

text \<open>An edge between two different nodes whose types are in the table is clean.\<close>

lemma edge_okI:
  assumes "distinct (map GetID nodes)" "n \<in> set nodes" "m \<in> set nodes" "n \<noteq> m"
    "IsLegalEdgeTriple (GetType n) t (GetType m)"
  shows "edge_ok (by_ID nodes) (edge (GetID n) (GetID m) t)"
proof -
  have "GetID n \<noteq> GetID m" using assms(1-4) by (metis distinct_map inj_onD)
  moreover have "by_ID nodes (GetID n) = Some n" "by_ID nodes (GetID m) = Some m"
    using assms(1-3) by (simp_all add: by_ID_distinct)
  ultimately show ?thesis using assms(5) by (simp add: edge_ok_def)
qed

lemma legal_triples [simp]:
  "IsLegalEdgeTriple NodeRule EdgeGoverns NodeIssue"
  "IsLegalEdgeTriple NodeApplication EdgeAppliesTo NodeFact"
  "IsLegalEdgeTriple NodeApplication EdgeAppliesTo NodeRule"
  "IsLegalEdgeTriple NodeFact EdgeSupports NodeApplication"
  "IsLegalEdgeTriple NodeConclusion EdgeConcludesFrom NodeApplication"
  by (simp_all add: IsLegalEdgeTriple_def legalEdgeTriples_def)

lemma typed_edge_ok:
  assumes "distinct (map GetID nodes)" "n \<in> set nodes" "m \<in> set nodes"
    "IsLegalEdgeTriple (GetType n) t (GetType m)"
  shows "edge_ok (by_ID nodes) (edge (GetID n) (GetID m) t)"
proof (rule edge_okI [OF assms(1-3) _ assms(4)])
  show "n \<noteq> m" using assms(4) by (auto simp: IsLegalEdgeTriple_def legalEdgeTriples_def)
qed

lemma deriveEdges_ok:
  assumes "typed_input input" "labelled_conclusions cs" "distinct (map GetID (input_nodes input @ cs))"
    "e \<in> set (deriveEdges input cs)"
  shows "edge_ok (by_ID (input_nodes input @ cs)) e"
proof -
  let ?N = "input_nodes input @ cs"
  have issue: "GetType n = NodeIssue \<and> n \<in> set ?N" if "n \<in> set (ai_Issues input)" for n
    using assms(1) that by (auto simp: typed_input_def input_nodes_def GetType_by_kind)
  have rule_node: "GetType n = NodeRule \<and> n \<in> set ?N" if "n \<in> set (ai_Rules input)" for n
    using assms(1) that by (auto simp: typed_input_def input_nodes_def GetType_by_kind)
  have fact: "GetType n = NodeFact \<and> n \<in> set ?N" if "n \<in> set (ai_Facts input)" for n
    using assms(1) that by (auto simp: typed_input_def input_nodes_def GetType_by_kind)
  have app: "GetType n = NodeApplication \<and> n \<in> set ?N" if "n \<in> set (ai_Applications input)" for n
    using assms(1) that by (auto simp: typed_input_def input_nodes_def GetType_by_kind)
  have concl: "GetType n = NodeConclusion \<and> n \<in> set ?N" if "n \<in> set cs" for n
    using assms(2) that by (auto simp: labelled_conclusions_def GetType_by_kind)
  note ok = typed_edge_ok [OF assms(3)]
  from assms(4) consider
      r up where "r \<in> set (ai_Rules input)" "has_ID (ai_Issues input) up" "e = edge (GetID r) up EdgeGoverns"
    | a up where "a \<in> set (ai_Applications input)" "has_ID (ai_Rules input) up"
        "e = edge (GetID a) up EdgeAppliesTo"
    | a up where "a \<in> set (ai_Applications input)" "has_ID (ai_Facts input) up"
        "e = edge (GetID a) up EdgeAppliesTo \<or> e = edge up (GetID a) EdgeSupports"
    | c up where "c \<in> set cs" "has_ID (ai_Applications input) up" "e = edge (GetID c) up EdgeConcludesFrom"
    by (fastforce simp: deriveEdges_def in_governs in_applies in_concludes)
  then show ?thesis
  proof cases
    case 1
    then obtain i where "i \<in> set (ai_Issues input)" "GetID i = up" using has_ID_D by blast
    then show ?thesis using ok [of r i EdgeGoverns] issue rule_node 1 by auto
  next
    case 2
    then obtain r where "r \<in> set (ai_Rules input)" "GetID r = up" using has_ID_D by blast
    then show ?thesis using ok [of a r EdgeAppliesTo] app rule_node 2 by auto
  next
    case 3
    then obtain f where "f \<in> set (ai_Facts input)" "GetID f = up" using has_ID_D by blast
    then show ?thesis using ok [of a f EdgeAppliesTo] ok [of f a EdgeSupports] app fact 3 by auto
  next
    case 4
    then obtain a where "a \<in> set (ai_Applications input)" "GetID a = up" using has_ID_D by blast
    then show ?thesis using ok [of c a EdgeConcludesFrom] app concl 4 by auto
  qed
qed

lemma typed_node_ok:
  assumes "typed_input input" "labelled_conclusions cs" "n \<in> set (input_nodes input @ cs)"
  shows "node_ok n"
proof (cases "n \<in> set cs")
  case True
  then have "is_conclusion n" "well_typed n" "HasGuardrailLabel n"
    using assms(2) by (auto simp: labelled_conclusions_def)
  then show ?thesis by (cases n) (simp_all add: node_kinds NodeType_IsValid_def)
next
  case False
  then have "well_typed n \<and> \<not> is_conclusion n"
    using assms(1,3) unfolding typed_input_def
    by (auto simp: input_nodes_def node_kinds split: NodeLike.splits)
  then show ?thesis by (cases n) (simp_all add: node_kinds NodeType_IsValid_def GetType_def)
qed

lemma ComposeTree_result:
  assumes "ai_CaseID input \<noteq> []" "ai_Issues input \<noteq> [] \<or> ai_Facts input \<noteq> [] \<or> ai_Applications input \<noteq> []"
    "provider input = Inr cs"
  shows "ComposeTree now input (Some provider) =
    Inr \<lparr>t_Nodes = input_nodes input @ cs, t_Edges = deriveEdges input cs,
         t_Revision = NewInitialRevision (ai_CaseID input) now\<rparr>"
  using assms by (auto simp: ComposeTree_def input_nodes_def)

section \<open>Lemmas on incremental reassembly\<close>

lemma by_ID_append_map: "by_ID (xs @ ys) = by_ID xs ++ by_ID ys"
proof (induction ys rule: rev_induct)
  case Nil
  then show ?case by (simp add: by_ID_def [of "[]"])
next
  case (snoc y ys)
  have "by_ID (xs @ ys @ [y]) = (by_ID (xs @ ys))(GetID y \<mapsto> y)"
    using by_ID_append [of "xs @ ys" y] by simp
  with snoc show ?case by (simp add: by_ID_append del: fun_upd_apply)
qed

lemma fold_add_fact:
  assumes "ra_existing st = by_ID (ra_nodes st)" "distinct (map GetID (ra_nodes st @ nf))"
  shows "fold add_fact nf st =
    st\<lparr>ra_nodes := ra_nodes st @ nf, ra_existing := by_ID (ra_nodes st @ nf),
       ra_deltaNodes := ra_deltaNodes st @ nf\<rparr>"
  using assms
proof (induction nf arbitrary: st)
  case Nil
  then show ?case by simp
next
  case (Cons f nf)
  have "GetID f \<notin> dom (by_ID (ra_nodes st))" using Cons.prems(2) by (auto simp: by_ID_dom)
  then have step: "add_fact f st = add_node f st"
    using Cons.prems(1) by (simp add: add_fact_def domIff)
  have "ra_existing (add_node f st) = by_ID (ra_nodes (add_node f st))"
    using Cons.prems(1) by (simp add: add_node_def by_ID_append)
  from Cons.IH [OF this] Cons.prems show ?case
    by (simp add: step) (simp add: add_node_def)
qed

text \<open>What a new application contributes, in terms of the rules and facts the tree then has.\<close>

definition new_edges :: "NodeLike list \<Rightarrow> NodeLike \<Rightarrow> Edge list" where
  "new_edges nodes a = concat (map (upstream_edges (GetID a) (by_ID nodes)) (upstream a))"

lemma new_edges_apps:
  assumes "distinct (map GetID (nodes @ apps))" "\<forall>a\<in>set apps. is_application a \<and> well_typed a"
  shows "new_edges (nodes @ apps) a = new_edges nodes a"
proof -
  have "upstream_edges k (by_ID (nodes @ apps)) up = upstream_edges k (by_ID nodes) up" for k up
  proof (cases "by_ID apps up")
    case None
    then show ?thesis by (simp add: by_ID_append_map upstream_edges_def map_add_def)
  next
    case (Some n)
    then have n: "n \<in> set apps" "GetID n = up" using by_ID_SomeD by blast+
    then have "up \<notin> dom (by_ID nodes)" using assms(1) by (auto simp: by_ID_dom)
    then have "by_ID nodes up = None" by (simp add: domIff)
    moreover have "GetType n = NodeApplication" using assms(2) n(1) by (simp add: GetType_by_kind)
    ultimately show ?thesis using Some by (simp add: by_ID_append_map upstream_edges_def)
  qed
  then have "upstream_edges k (by_ID (nodes @ apps)) = upstream_edges k (by_ID nodes)" for k by blast
  then show ?thesis by (simp add: new_edges_def)
qed

lemma fold_add_application:
  assumes "ra_existing st = by_ID (ra_nodes st)" "ra_nodes st = nodes @ apps"
    "distinct (map GetID (nodes @ apps @ na))" "\<forall>a\<in>set (apps @ na). is_application a \<and> well_typed a"
  shows "fold add_application na st =
    st\<lparr>ra_nodes := ra_nodes st @ na, ra_existing := by_ID (ra_nodes st @ na),
       ra_deltaNodes := ra_deltaNodes st @ na, ra_edges := ra_edges st @ concat (map (new_edges nodes) na),
       ra_deltaEdges := ra_deltaEdges st @ concat (map (new_edges nodes) na)\<rparr>"
  using assms
proof (induction na arbitrary: st apps)
  case Nil
  then show ?case by simp
next
  case (Cons a na)
  let ?st = "add_edges (new_edges nodes a) (add_node a st)"
  have "GetID a \<notin> dom (by_ID (ra_nodes st))" using Cons.prems(2,3) by (auto simp: by_ID_dom)
  then have fresh: "ra_existing st (GetID a) = None" using Cons.prems(1) by (simp add: domIff)
  have ex: "ra_existing (add_node a st) = by_ID (nodes @ apps @ [a])"
    using Cons.prems(1,2) by_ID_append [of "nodes @ apps" a] by (simp add: add_node_def)
  have "new_edges (nodes @ apps @ [a]) a = new_edges nodes a"
    using Cons.prems(3,4) by (intro new_edges_apps) auto
  then have step: "add_application a st = ?st"
    using fresh by (simp add: add_application_def Let_def ex new_edges_def)
  have "ra_existing ?st = by_ID (ra_nodes ?st)" "ra_nodes ?st = nodes @ apps @ [a]"
    using ex Cons.prems(2) by (simp_all add: add_edges_def add_node_def)
  from Cons.IH [OF this(1), of "apps @ [a]"] this Cons.prems show ?case
    by (simp add: step) (simp add: add_edges_def add_node_def)
qed

lemma fold_late_edges:
  "fold (\<lambda>f. add_edges (g f)) fs st =
     st\<lparr>ra_edges := ra_edges st @ concat (map g fs), ra_deltaEdges := ra_deltaEdges st @ concat (map g fs)\<rparr>"
  by (induction fs arbitrary: st) (simp_all add: add_edges_def)

text \<open>The two ways of finding an application's edges agree.\<close>

lemma new_edges_applies:
  assumes "distinct (map GetID nodes)" "\<forall>n\<in>set nodes. well_typed n"
    "\<And>n. n \<in> set rules \<longleftrightarrow> n \<in> set nodes \<and> is_rule n" "\<And>n. n \<in> set facts \<longleftrightarrow> n \<in> set nodes \<and> is_fact n"
  shows "new_edges nodes a = applies_edges rules facts a"
proof -
  have "upstream_edges (GetID a) (by_ID nodes) up =
      (if has_ID rules up then [edge (GetID a) up EdgeAppliesTo]
       else if has_ID facts up
       then [edge (GetID a) up EdgeAppliesTo, edge up (GetID a) EdgeSupports] else [])" for up
  proof (cases "by_ID nodes up")
    case None
    then have "up \<notin> GetID ` set nodes" by (metis by_ID_dom domIff)
    then have "\<not> has_ID rules up" "\<not> has_ID facts up" using assms(3,4) by (auto simp: has_ID_def)
    with None show ?thesis by (simp add: upstream_edges_def)
  next
    case (Some n)
    then have n: "n \<in> set nodes" "GetID n = up" using by_ID_SomeD by blast+
    have unique: "m = n" if "m \<in> set nodes" "GetID m = up" for m
      using assms(1) n that by (metis distinct_map inj_onD)
    have "has_ID ks up \<longleftrightarrow> n \<in> set ks" if "set ks \<subseteq> set nodes" for ks
      unfolding has_ID_def using n unique that by (metis (no_types, lifting) image_iff list.set_map subsetD)
    then have "has_ID rules up \<longleftrightarrow> is_rule n" "has_ID facts up \<longleftrightarrow> is_fact n"
      using assms(3,4) n(1) by (simp_all add: subset_iff)
    moreover have "well_typed n" using assms(2) n by blast
    ultimately show ?thesis
      using Some by (cases n) (simp_all add: upstream_edges_def node_kinds GetType_def)
  qed
  then show ?thesis by (simp add: new_edges_def applies_edges_def cong: map_cong)
qed

section \<open>Edges as multisets\<close>

lemma mset_concat_map: "mset (concat (map g xs)) = (\<Sum>x\<leftarrow>xs. mset (g x))"
  by (induction xs) simp_all

lemma sum_list_swap:
  "(\<Sum>x\<leftarrow>xs. \<Sum>y\<leftarrow>ys. g x y) = (\<Sum>y\<leftarrow>ys. \<Sum>x\<leftarrow>xs. (g x y :: 'b multiset))"
  by (induction xs) (simp_all add: sum_list_addf)

definition late_edges_of :: "NodeLike \<Rightarrow> NodeLike \<Rightarrow> Edge list" where
  "late_edges_of n f =
     concat (map (\<lambda>up. if up \<noteq> GetID f then []
        else [edge (GetID n) (GetID f) EdgeAppliesTo, edge (GetID f) (GetID n) EdgeSupports]) (upstream n))"

lemma late_edges_apps:
  assumes "\<And>n. n \<in> set nodes \<Longrightarrow> \<not> is_application n" "\<And>n. n \<in> set apps \<Longrightarrow> is_application n"
    "\<And>n. n \<in> set cs \<Longrightarrow> \<not> is_application n"
  shows "late_edges (nodes @ apps @ cs) f = concat (map (\<lambda>n. late_edges_of n f) apps)"
proof -
  have "late_edges xs f = []" if "\<And>n. n \<in> set xs \<Longrightarrow> \<not> is_application n" for xs
    using that by (induction xs) (simp_all add: late_edges_def)
  moreover have "late_edges xs f = concat (map (\<lambda>n. late_edges_of n f) xs)"
    if "\<And>n. n \<in> set xs \<Longrightarrow> is_application n" for xs
    using that by (induction xs) (simp_all add: late_edges_def late_edges_of_def)
  moreover have "late_edges (xs @ ys) f = late_edges xs f @ late_edges ys f" for xs ys
    by (simp add: late_edges_def)
  ultimately show ?thesis using assms by simp
qed

text \<open>An ID is found in the new facts by at most one of them.\<close>

lemma one_late_edge:
  assumes "distinct (map GetID nf)"
  shows "(\<Sum>f\<leftarrow>nf. mset (if up \<noteq> GetID f then []
       else [edge k (GetID f) EdgeAppliesTo, edge (GetID f) k EdgeSupports])) =
    (if has_ID nf up then {#edge k up EdgeAppliesTo, edge up k EdgeSupports#} else {#})"
  using assms by (induction nf) (auto simp: has_ID_def)

lemma applies_edges_more_facts:
  assumes "distinct (map GetID nf)" "\<And>f. f \<in> set nf \<Longrightarrow> \<not> has_ID rules (GetID f) \<and> \<not> has_ID facts (GetID f)"
  shows "mset (applies_edges rules (facts @ nf) a) =
    mset (applies_edges rules facts a) + (\<Sum>f\<leftarrow>nf. mset (late_edges_of a f))"
proof -
  let ?late = "\<lambda>up f. mset (if up \<noteq> GetID f then []
       else [edge (GetID a) (GetID f) EdgeAppliesTo, edge (GetID f) (GetID a) EdgeSupports])"
  let ?app = "\<lambda>facts up. mset (if has_ID rules up then [edge (GetID a) up EdgeAppliesTo]
       else if has_ID facts up
       then [edge (GetID a) up EdgeAppliesTo, edge up (GetID a) EdgeSupports] else [])"
  have "?app (facts @ nf) up = ?app facts up + (\<Sum>f\<leftarrow>nf. ?late up f)" for up
  proof (cases "has_ID nf up")
    case True
    then obtain f where "f \<in> set nf" "GetID f = up" using has_ID_D by blast
    then have "\<not> has_ID rules up" "\<not> has_ID facts up" using assms(2) by blast+
    with True show ?thesis unfolding one_late_edge [OF assms(1)] by (simp add: has_ID_def)
  next
    case False
    then show ?thesis unfolding one_late_edge [OF assms(1)] by (simp add: has_ID_def)
  qed
  then have "(\<Sum>up\<leftarrow>upstream a. ?app (facts @ nf) up) =
      (\<Sum>up\<leftarrow>upstream a. ?app facts up) + (\<Sum>up\<leftarrow>upstream a. \<Sum>f\<leftarrow>nf. ?late up f)"
    by (simp add: sum_list_addf)
  then show ?thesis
    unfolding applies_edges_def late_edges_of_def mset_concat_map
    by (simp add: sum_list_swap [of _ nf])
qed

lemma concludes_edges_cong:
  "\<forall>up\<in>set (upstream c). \<not> has_ID na up \<Longrightarrow> concludes_edges (apps @ na) c = concludes_edges apps c"
  by (auto simp: concludes_edges_def has_ID_def intro!: arg_cong [where f = concat])

text \<open>The enlarged input.\<close>

definition extend_input :: "NodeLike list \<Rightarrow> NodeLike list \<Rightarrow> AssemblyInput \<Rightarrow> AssemblyInput" where
  "extend_input nf na input =
     input\<lparr>ai_Facts := ai_Facts input @ nf, ai_Applications := ai_Applications input @ na\<rparr>"

lemma extend_input_sel [simp]:
  "ai_CaseID (extend_input nf na input) = ai_CaseID input"
  "ai_Issues (extend_input nf na input) = ai_Issues input"
  "ai_Rules (extend_input nf na input) = ai_Rules input"
  "ai_Facts (extend_input nf na input) = ai_Facts input @ nf"
  "ai_Applications (extend_input nf na input) = ai_Applications input @ na"
  by (simp_all add: extend_input_def)

lemma mset_input_nodes_extend:
  "mset (input_nodes (extend_input nf na input) @ cs) = mset ((input_nodes input @ cs) @ nf @ na)"
  by (simp add: input_nodes_def)

lemma typed_extend:
  assumes "typed_input (extend_input nf na input)"
  shows "typed_input input" "\<forall>f\<in>set nf. is_fact f \<and> well_typed f" "\<forall>a\<in>set na. is_application a \<and> well_typed a"
  using assms by (auto simp: typed_input_def input_nodes_def)

lemma mset_deriveEdges_extend:
  assumes typed: "typed_input (extend_input nf na input)" and concl: "labelled_conclusions cs"
    and dist: "distinct (map GetID ((input_nodes input @ cs) @ nf @ na))"
    and old: "\<forall>c\<in>set cs. \<forall>up\<in>set (upstream c). \<not> has_ID na up"
  shows "mset (deriveEdges (extend_input nf na input) cs) =
    mset (deriveEdges input cs @ concat (map (new_edges ((input_nodes input @ cs) @ nf)) na) @
      concat (map (late_edges (input_nodes input @ cs)) nf))"
proof -
  let ?P = "input_nodes input @ cs" and ?R = "ai_Rules input" and ?F = "ai_Facts input" and ?A = "ai_Applications input"
  note ti = typed_extend [OF typed]
  have kinds: "\<forall>n\<in>set (ai_Issues input). is_issue n" "\<forall>n\<in>set ?R. is_rule n" "\<forall>n\<in>set ?F. is_fact n"
    "\<forall>n\<in>set ?A. is_application n" "\<forall>n\<in>set cs. is_conclusion n" "\<forall>n\<in>set ?P. well_typed n"
    using ti(1) concl by (auto simp: typed_input_def labelled_conclusions_def)
  have disj: "\<not> (is_rule n \<and> (is_issue n \<or> is_fact n \<or> is_application n \<or> is_conclusion n))"
    "\<not> (is_fact n \<and> (is_issue n \<or> is_application n \<or> is_conclusion n))"
    "\<not> (is_application n \<and> (is_issue n \<or> is_conclusion n))" for n
    by (cases n; simp add: node_kinds)+
  have new: "new_edges (?P @ nf) = applies_edges ?R (?F @ nf)"
  proof (rule ext, rule new_edges_applies)
    show "distinct (map GetID (?P @ nf))" using dist by auto
    show "\<forall>n\<in>set (?P @ nf). well_typed n" using kinds(6) ti(2) by auto
    show "n \<in> set ?R \<longleftrightarrow> n \<in> set (?P @ nf) \<and> is_rule n" for n
      using kinds ti(2) disj unfolding input_nodes_def by auto
    show "n \<in> set (?F @ nf) \<longleftrightarrow> n \<in> set (?P @ nf) \<and> is_fact n" for n
      using kinds ti(2) disj unfolding input_nodes_def by auto
  qed
  have more: "mset (applies_edges ?R (?F @ nf) a) =
      mset (applies_edges ?R ?F a) + (\<Sum>f\<leftarrow>nf. mset (late_edges_of a f))" for a
  proof (rule applies_edges_more_facts)
    show "distinct (map GetID nf)" using dist by auto
    have "GetID f \<notin> GetID ` set ?P" if "f \<in> set nf" for f using dist that by auto
    then show "\<not> has_ID ?R (GetID f) \<and> \<not> has_ID ?F (GetID f)" if "f \<in> set nf" for f
      using that unfolding has_ID_def input_nodes_def by auto
  qed
  have late: "late_edges ?P f = concat (map (\<lambda>n. late_edges_of n f) ?A)" for f
  proof -
    have P: "?P = (ai_Issues input @ ?R @ ?F) @ ?A @ cs" by (simp add: input_nodes_def)
    show ?thesis unfolding P by (rule late_edges_apps) (use kinds(1-5) disj in auto)
  qed
  have "concat (map (concludes_edges (?A @ na)) cs) = concat (map (concludes_edges ?A) cs)"
    using old by (intro arg_cong [where f = concat] map_cong) (simp_all add: concludes_edges_cong)
  then show ?thesis
    unfolding deriveEdges_def extend_input_sel new
    by (simp add: mset_concat_map more late sum_list_addf sum_list_swap [of _ nf] add_ac)
qed

lemma ReassembleIncremental_result:
  assumes "distinct (map GetID (t_Nodes tree @ nf @ na))" "\<forall>a\<in>set na. is_application a \<and> well_typed a"
    "ReassembleIncremental now (Some tree) nf na = Inr r"
  shows "ir_Tree r = \<lparr>t_Nodes = t_Nodes tree @ nf @ na,
      t_Edges = t_Edges tree @ concat (map (new_edges (t_Nodes tree @ nf)) na) @
        concat (map (late_edges (t_Nodes tree)) nf),
      t_Revision = Irac.NextRevision (t_Revision tree) now\<rparr>"
proof -
  let ?st = "\<lparr>ra_nodes = t_Nodes tree, ra_existing = by_ID (t_Nodes tree), ra_deltaNodes = [],
      ra_edges = t_Edges tree, ra_deltaEdges = []\<rparr>"
  let ?st' = "\<lparr>ra_nodes = t_Nodes tree @ nf, ra_existing = by_ID (t_Nodes tree @ nf), ra_deltaNodes = nf,
      ra_edges = t_Edges tree, ra_deltaEdges = []\<rparr>"
  have "fold add_fact nf ?st = ?st'" using assms(1) by (subst fold_add_fact) auto
  moreover have "fold add_application na ?st' = ?st'\<lparr>ra_nodes := t_Nodes tree @ nf @ na,
      ra_existing := by_ID (t_Nodes tree @ nf @ na), ra_deltaNodes := nf @ na,
      ra_edges := t_Edges tree @ concat (map (new_edges (t_Nodes tree @ nf)) na),
      ra_deltaEdges := concat (map (new_edges (t_Nodes tree @ nf)) na)\<rparr>"
    using assms(1,2) by (subst fold_add_application [where nodes = "t_Nodes tree @ nf" and apps = "[]"]) auto
  ultimately show ?thesis
    using assms(3) by (auto simp: ReassembleIncremental_def Let_def fold_late_edges ta_NextRevision_def)
qed

section \<open>Properties of composition\<close>


definition sample_provenance :: "string list \<Rightarrow> Provenance" where
  "sample_provenance ids = \<lparr>pv_GeneratedBy = ''extractor'', pv_GeneratedAt = 1, pv_UpstreamNodeIDs = ids\<rparr>"

definition sample_input :: AssemblyInput where
  "sample_input =
     \<lparr>ai_CaseID = ''c'',
      ai_Issues = [NewIssueNode ''i'' ''c'' ''breach?'' 1 (9/10) (sample_provenance []) []],
      ai_Rules = [NewRuleNode ''r'' ''c'' ''perform'' ''ny'' ''common_law'' 1 (9/10) (sample_provenance [''i'']) []],
      ai_Facts = [NewFactNode ''f'' ''c'' ''no delivery'' 1 (9/10) (sample_provenance []) []],
      ai_Applications = [NewApplicationNode ''a'' ''c'' ''so'' 1 (9/10) (sample_provenance [''r'', ''f'', ''g'']) []]\<rparr>"

definition sample_conclusion :: NodeLike where
  "sample_conclusion = NewConclusionNode ''z'' ''c'' ''likely'' 1 (8/10) (sample_provenance [''a'']) []"

lemmas sample_defs = sample_input_def sample_conclusion_def sample_provenance_def NewIssueNode_def
  NewRuleNode_def NewFactNode_def NewApplicationNode_def NewConclusionNode_def NewNode_def

lemmas sample_checks = typed_input_def input_nodes_def node_kinds labelled_conclusions_def GetID_def
  upstream_def has_ID_def


text \<open>
  C14: Growing a tree is the same as composing it anew. When a composed tree is extended by
  new facts and applications, the result has the nodes and the edges, with multiplicity,
  of the tree composed from all the evidence at once, also where an old application already
  cited a fact that arrives only now; and its revision succeeds the old one. The provider's
  conclusions are taken to be the same, and none to cite an application that is new.
\<close>

theorem incremental_equals_full:
  assumes "typed_input (extend_input nf na input)" and "labelled_conclusions cs"
    and "provider input = Inr cs" and "provider (extend_input nf na input) = Inr cs"
    and "distinct (map GetID ((input_nodes input @ cs) @ nf @ na))"
    and "\<forall>c\<in>set cs. \<forall>up\<in>set (upstream c). \<not> has_ID na up"
    and "ComposeTree now input (Some provider) = Inr tree"
    and "ReassembleIncremental later (Some tree) nf na = Inr r"
  shows "\<exists>full. ComposeTree later (extend_input nf na input) (Some provider) = Inr full \<and>
    mset (t_Nodes (ir_Tree r)) = mset (t_Nodes full) \<and>
    mset (t_Edges (ir_Tree r)) = mset (t_Edges full) \<and>
    IsValidSuccessorOf (t_Revision (ir_Tree r)) (t_Revision tree)"
proof -
  have ne: "ai_CaseID input \<noteq> []" "ai_Issues input \<noteq> [] \<or> ai_Facts input \<noteq> [] \<or> ai_Applications input \<noteq> []"
    using assms(7) by (auto simp: ComposeTree_def split: if_splits)
  from assms(7) have tree: "t_Nodes tree = input_nodes input @ cs" "t_Edges tree = deriveEdges input cs"
    by (auto simp: ComposeTree_result [of input provider cs now, OF ne assms(3)])
  have r: "ir_Tree r = \<lparr>t_Nodes = (input_nodes input @ cs) @ nf @ na,
      t_Edges = deriveEdges input cs @ concat (map (new_edges ((input_nodes input @ cs) @ nf)) na) @
        concat (map (late_edges (input_nodes input @ cs)) nf),
      t_Revision = Irac.NextRevision (t_Revision tree) later\<rparr>"
    using ReassembleIncremental_result [OF _ typed_extend(3) [OF assms(1)] assms(8)] assms(5)
    unfolding tree by simp
  have "ComposeTree later (extend_input nf na input) (Some provider) =
      Inr \<lparr>t_Nodes = input_nodes (extend_input nf na input) @ cs, t_Edges = deriveEdges (extend_input nf na input) cs,
           t_Revision = NewInitialRevision (ai_CaseID input) later\<rparr>"
    using ne ComposeTree_result [of "extend_input nf na input" provider cs later] assms(4) by auto
  then show ?thesis
    using mset_input_nodes_extend [of nf na input cs] mset_deriveEdges_extend [OF assms(1,2,5,6)]
    by (simp add: r NextRevision_successor del: mset_append)
qed

definition sample_facts :: "NodeLike list" where
  "sample_facts = [NewFactNode ''g'' ''c'' ''notice'' 3 (7/10) (sample_provenance []) []]"

definition sample_applications :: "NodeLike list" where
  "sample_applications = [NewApplicationNode ''b'' ''c'' ''also'' 3 (7/10) (sample_provenance [''r'', ''g'']) []]"

theorem incremental_equals_full_witness:
  "\<exists>tree r full. ComposeTree 2 sample_input (None :: string ConclusionProvider option) = Inr tree \<and>
     (ReassembleIncremental 3 (Some tree) sample_facts sample_applications :: string ta_error + _) = Inr r \<and>
     ComposeTree 3 (extend_input sample_facts sample_applications sample_input) (Some (NoOpConclusionProvider :: string ConclusionProvider)) = Inr full \<and>
     length (t_Edges (ir_Tree r)) = 9 \<and> mset (t_Edges (ir_Tree r)) = mset (t_Edges full)"
proof -
  let ?p = "NoOpConclusionProvider :: string ConclusionProvider"
  obtain tree where tree: "ComposeTree 2 sample_input (Some ?p) = Inr tree"
    by (simp add: ComposeTree_def NoOpConclusionProvider_def sample_input_def)
  moreover obtain r where r: "(ReassembleIncremental 3 (Some tree) sample_facts sample_applications :: string ta_error + _) = Inr r"
    by (simp add: ReassembleIncremental_def Let_def)
  moreover have "length (t_Edges (ir_Tree r)) = 9"
    using tree r
    by (auto simp: ComposeTree_def NoOpConclusionProvider_def ReassembleIncremental_def Let_def sample_defs
        sample_facts_def sample_applications_def sample_checks deriveEdges_def governs_edges_def
        applies_edges_def add_fact_def add_application_def add_node_def add_edges_def upstream_edges_def
        late_edges_def by_ID_def GetType_def)
  moreover have "ComposeTree 2 sample_input (None :: string ConclusionProvider option) = ComposeTree 2 sample_input (Some ?p)"
    by (simp add: ComposeTree_def)
  ultimately show ?thesis
    using incremental_equals_full [of sample_facts sample_applications sample_input "[]" ?p 2 tree 3 r]
    by (auto simp: NoOpConclusionProvider_def sample_defs sample_facts_def sample_applications_def
        sample_checks extend_input_def)
qed

text \<open>
  A fact that the tree already has is skipped as a node, but the last loop does not look: the
  edges between it and the applications that cite it are added once more.
\<close>

lemma resent_fact_duplicates_edges:
  assumes "ComposeTree 2 sample_input (None :: string ConclusionProvider option) = Inr tree"
    and "(ReassembleIncremental 3 (Some tree) (ai_Facts sample_input) [] :: string ta_error + _) = Inr r"
  shows "t_Nodes (ir_Tree r) = t_Nodes tree \<and>
    count (mset (t_Edges tree)) (edge ''f'' ''a'' EdgeSupports) = 1 \<and>
    count (mset (t_Edges (ir_Tree r))) (edge ''f'' ''a'' EdgeSupports) = 2"
  using assms
  by (auto simp: ComposeTree_def NoOpConclusionProvider_def ReassembleIncremental_def Let_def sample_defs
      sample_checks deriveEdges_def governs_edges_def applies_edges_def add_fact_def add_edges_def
      late_edges_def by_ID_def)

end
