(* ===== verification/Serialize.thy ===== *)
theory Serialize
  imports Irac "HOL-Library.Monad_Syntax"
begin

text \<open>
  \<open>packages/irac/serialize.go\<close>: the JSON envelope of a tree. \<open>encoding/json\<close> is modelled
  between Go values and JSON values; the text of a JSON value, and of a time inside it, is
  left as it is.
\<close>

section \<open>JSON values and struct tags\<close>

datatype json = JNull | JBool bool | JNum rat | JStr string | JTime time
  | JArr "json list" | JObj "(string \<times> json) list"

text \<open>
  A struct field takes the value of the last key that equals its name under the folding of
  \<open>encoding/json\<close>, which of all runes takes the ASCII capitals, the Kelvin sign and the long s
  to ASCII letters. A missing key and \<open>null\<close> leave the zero value; a value of another kind is
  an error, \<open>None\<close>.
\<close>

fun fold_key :: "string \<Rightarrow> string" where
  "fold_key [] = []"
| "fold_key (c # cs) =
     (if c = CHR 0xC5 \<and> take 1 cs = [CHR 0xBF] then CHR ''s'' # fold_key (drop 1 cs)
      else if c = CHR 0xE2 \<and> take 2 cs = [CHR 0x84, CHR 0xAA] then CHR ''k'' # fold_key (drop 2 cs)
      else lower_ascii c # fold_key cs)"

type_synonym 'a decoder = "json option \<Rightarrow> 'a option"

definition field :: "string \<Rightarrow> (string \<times> json) list \<Rightarrow> json option" where
  "field name kvs = map_of (rev (map (\<lambda>(k, v). (fold_key k, v)) kvs)) name"

fun dec_string :: "string decoder" where
  "dec_string (Some (JStr s)) = Some s"
| "dec_string None = Some []"
| "dec_string (Some JNull) = Some []"
| "dec_string (Some _) = None"

fun dec_float :: "rat decoder" where
  "dec_float (Some (JNum r)) = Some r"
| "dec_float None = Some 0"
| "dec_float (Some JNull) = Some 0"
| "dec_float (Some _) = None"

fun dec_int :: "int decoder" where
  "dec_int (Some (JNum r)) =
     (if of_int \<lfloor>r\<rfloor> = r \<and> - (2 ^ 63) \<le> \<lfloor>r\<rfloor> \<and> \<lfloor>r\<rfloor> < 2 ^ 63 then Some \<lfloor>r\<rfloor> else None)"
| "dec_int None = Some 0"
| "dec_int (Some JNull) = Some 0"
| "dec_int (Some _) = None"

fun dec_int_ptr :: "int option decoder" where
  "dec_int_ptr None = Some None"
| "dec_int_ptr (Some JNull) = Some None"
| "dec_int_ptr v = map_option Some (dec_int v)"

fun dec_time :: "time decoder" where
  "dec_time (Some (JTime t)) = Some t"
| "dec_time None = Some zero_time"
| "dec_time (Some JNull) = Some zero_time"
| "dec_time (Some _) = None"

fun dec_list :: "'a decoder \<Rightarrow> 'a list decoder" where
  "dec_list d (Some (JArr xs)) = those (map (\<lambda>x. d (Some x)) xs)"
| "dec_list d None = Some []"
| "dec_list d (Some JNull) = Some []"
| "dec_list d (Some _) = None"

fun dec_object :: "((string \<times> json) list \<Rightarrow> 'a option) \<Rightarrow> 'a decoder" where
  "dec_object d (Some (JObj kvs)) = d kvs"
| "dec_object d None = d []"
| "dec_object d (Some JNull) = d []"
| "dec_object d (Some _) = None"

text \<open>\<open>omitempty\<close> drops a field that is zero, empty or nil.\<close>

definition omitempty :: "bool \<Rightarrow> string \<Rightarrow> json \<Rightarrow> (string \<times> json) list" where
  "omitempty is_zero name v = (if is_zero then [] else [(name, v)])"

section \<open>The structs\<close>

fun NodeType_text :: "NodeType \<Rightarrow> string" where
  "NodeType_text NodeIssue = ''issue''"
| "NodeType_text NodeRule = ''rule''"
| "NodeType_text NodeFact = ''fact''"
| "NodeType_text NodeApplication = ''application''"
| "NodeType_text NodeConclusion = ''conclusion''"
| "NodeType_text (OtherNodeType s) = s"

definition NodeType_of :: "string \<Rightarrow> NodeType" where
  "NodeType_of s =
     (if s = ''issue'' then NodeIssue else if s = ''rule'' then NodeRule else if s = ''fact'' then NodeFact
      else if s = ''application'' then NodeApplication else if s = ''conclusion'' then NodeConclusion
      else OtherNodeType s)"

fun EdgeType_text :: "EdgeType \<Rightarrow> string" where
  "EdgeType_text EdgeGoverns = ''governs''"
| "EdgeType_text EdgeAppliesTo = ''applies_to''"
| "EdgeType_text EdgeSupports = ''supports''"
| "EdgeType_text EdgeConcludesFrom = ''concludes_from''"
| "EdgeType_text (OtherEdgeType s) = s"

definition EdgeType_of :: "string \<Rightarrow> EdgeType" where
  "EdgeType_of s =
     (if s = ''governs'' then EdgeGoverns else if s = ''applies_to'' then EdgeAppliesTo
      else if s = ''supports'' then EdgeSupports else if s = ''concludes_from'' then EdgeConcludesFrom
      else OtherEdgeType s)"

definition enc_span :: "SourceSpan \<Rightarrow> json" where
  "enc_span s = JObj ([(''start'', JNum (of_int (sp_Start s))), (''end'', JNum (of_int (sp_End s)))] @
     omitempty (sp_Page s = 0) ''page'' (JNum (of_int (sp_Page s))) @
     omitempty (sp_StartMS s = 0) ''start_ms'' (JNum (of_int (sp_StartMS s))) @
     omitempty (sp_EndMS s = 0) ''end_ms'' (JNum (of_int (sp_EndMS s))))"

definition dec_span :: "SourceSpan decoder" where
  "dec_span = dec_object (\<lambda>o'. do {
     a \<leftarrow> dec_int (field ''start'' o'); b \<leftarrow> dec_int (field ''end'' o'); p \<leftarrow> dec_int (field ''page'' o');
     sm \<leftarrow> dec_int (field ''start_ms'' o'); em \<leftarrow> dec_int (field ''end_ms'' o');
     Some \<lparr>sp_Start = a, sp_End = b, sp_Page = p, sp_StartMS = sm, sp_EndMS = em\<rparr> })"

definition enc_provenance :: "Provenance \<Rightarrow> json" where
  "enc_provenance p = JObj ([(''generated_by'', JStr (pv_GeneratedBy p)), (''generated_at'', JTime (pv_GeneratedAt p))] @
     omitempty (pv_UpstreamNodeIDs p = []) ''upstream_node_ids'' (JArr (map JStr (pv_UpstreamNodeIDs p))))"

definition dec_provenance :: "Provenance decoder" where
  "dec_provenance = dec_object (\<lambda>o'. do {
     g \<leftarrow> dec_string (field ''generated_by'' o'); t \<leftarrow> dec_time (field ''generated_at'' o');
     u \<leftarrow> dec_list dec_string (field ''upstream_node_ids'' o');
     Some \<lparr>pv_GeneratedBy = g, pv_GeneratedAt = t, pv_UpstreamNodeIDs = u\<rparr> })"

text \<open>The fields of the embedded \<open>Node\<close> are promoted into the object of its wrapper.\<close>

definition node_fields :: "Node \<Rightarrow> (string \<times> json) list" where
  "node_fields n =
     [(''id'', JStr (nd_ID n)), (''type'', JStr (NodeType_text (nd_Type n))), (''case_id'', JStr (nd_CaseID n)),
      (''text'', JStr (nd_Text n)), (''created_at'', JTime (nd_CreatedAt n)),
      (''confidence'', JNum (nd_Confidence n)), (''provenance'', enc_provenance (nd_Provenance n))]"

definition dec_node :: "(string \<times> json) list \<Rightarrow> Node option" where
  "dec_node o' = do {
     i \<leftarrow> dec_string (field ''id'' o'); t \<leftarrow> dec_string (field ''type'' o'); c \<leftarrow> dec_string (field ''case_id'' o');
     x \<leftarrow> dec_string (field ''text'' o'); a \<leftarrow> dec_time (field ''created_at'' o');
     f \<leftarrow> dec_float (field ''confidence'' o'); p \<leftarrow> dec_provenance (field ''provenance'' o');
     Some (NewNode (NodeType_of t) i c x a f p) }"

definition enc_spans :: "SourceSpan list \<Rightarrow> (string \<times> json) list" where
  "enc_spans ss = omitempty (ss = []) ''spans'' (JArr (map enc_span ss))"

definition dec_spans :: "(string \<times> json) list \<Rightarrow> SourceSpan list option" where
  "dec_spans o' = dec_list dec_span (field ''spans'' o')"

definition enc_edge :: "Edge \<Rightarrow> json" where
  "enc_edge e = JObj [(''from_id'', JStr (ed_FromID e)), (''to_id'', JStr (ed_ToID e)),
     (''type'', JStr (EdgeType_text (ed_Type e)))]"

definition dec_edge :: "Edge decoder" where
  "dec_edge = dec_object (\<lambda>o'. do {
     f \<leftarrow> dec_string (field ''from_id'' o'); t \<leftarrow> dec_string (field ''to_id'' o');
     ty \<leftarrow> dec_string (field ''type'' o');
     Some \<lparr>ed_FromID = f, ed_ToID = t, ed_Type = EdgeType_of ty\<rparr> })"

definition enc_revision :: "TreeRevision \<Rightarrow> json" where
  "enc_revision r = JObj ([(''revision_number'', JNum (of_int (tr_RevisionNumber r))),
      (''case_id'', JStr (tr_CaseID r)), (''created_at'', JTime (tr_CreatedAt r))] @
     (case tr_ParentRevision r of None \<Rightarrow> [] | Some p \<Rightarrow> [(''parent_revision'', JNum (of_int p))]))"

definition dec_revision :: "TreeRevision decoder" where
  "dec_revision = dec_object (\<lambda>o'. do {
     n \<leftarrow> dec_int (field ''revision_number'' o'); c \<leftarrow> dec_string (field ''case_id'' o');
     t \<leftarrow> dec_time (field ''created_at'' o'); p \<leftarrow> dec_int_ptr (field ''parent_revision'' o');
     Some \<lparr>tr_RevisionNumber = n, tr_CaseID = c, tr_CreatedAt = t, tr_ParentRevision = p\<rparr> })"

section \<open>Nodes and trees\<close>

datatype serialize_error = TypeMismatch string NodeType | MissingLabel string | UnknownType NodeType
  | JSONError

definition marshalNode :: "NodeLike \<Rightarrow> serialize_error + json" where
  "marshalNode n =
     (case GetType n of
        NodeIssue \<Rightarrow>
          (case n of IssueNode b ss \<Rightarrow> Inr (JObj (node_fields b @ enc_spans ss))
           | _ \<Rightarrow> Inl (TypeMismatch (GetID n) (GetType n)))
      | NodeRule \<Rightarrow>
          (case n of RuleNode b code family ss \<Rightarrow>
               Inr (JObj (node_fields b @
                 [(''jurisdiction_code'', JStr code), (''legal_family'', JStr family)] @ enc_spans ss))
           | _ \<Rightarrow> Inl (TypeMismatch (GetID n) (GetType n)))
      | NodeFact \<Rightarrow>
          (case n of FactNode b ss \<Rightarrow> Inr (JObj (node_fields b @ enc_spans ss))
           | _ \<Rightarrow> Inl (TypeMismatch (GetID n) (GetType n)))
      | NodeApplication \<Rightarrow>
          (case n of ApplicationNode b ss \<Rightarrow> Inr (JObj (node_fields b @ enc_spans ss))
           | _ \<Rightarrow> Inl (TypeMismatch (GetID n) (GetType n)))
      | NodeConclusion \<Rightarrow>
          (case n of ConclusionNode b label ss \<Rightarrow>
               if \<not> HasGuardrailLabel n then Inl (MissingLabel (GetID n))
               else Inr (JObj (node_fields b @ [(''label'', JStr label)] @ enc_spans ss))
           | _ \<Rightarrow> Inl (TypeMismatch (GetID n) (GetType n)))
      | OtherNodeType _ \<Rightarrow> Inl (UnknownType (GetType n)))"

text \<open>The node part of an envelope is kept raw until its kind is known; here it is the JSON value.\<close>

fun marshalNodes :: "NodeLike list \<Rightarrow> serialize_error + json list" where
  "marshalNodes [] = Inr []"
| "marshalNodes (n # ns) =
     (case marshalNode n of
        Inl err \<Rightarrow> Inl err
      | Inr raw \<Rightarrow>
          (case marshalNodes ns of
             Inl err \<Rightarrow> Inl err
           | Inr rest \<Rightarrow>
               Inr (JObj [(''kind'', JStr (NodeType_text (GetType n))), (''node'', raw)] # rest)))"

definition treeEnvelopeVersion :: int where
  "treeEnvelopeVersion = 1"

text \<open>A nil slice of edges is \<open>null\<close>; \<open>nil_edges\<close> tells it from an empty one.\<close>

definition MarshalTree :: "NodeLike list \<Rightarrow> bool \<Rightarrow> Edge list \<Rightarrow> TreeRevision \<Rightarrow> serialize_error + json" where
  "MarshalTree nodes nil_edges edges revision =
     (case marshalNodes nodes of
        Inl err \<Rightarrow> Inl err
      | Inr envelopes \<Rightarrow>
          Inr (JObj [(''version'', JNum (of_int treeEnvelopeVersion)), (''revision'', enc_revision revision),
            (''nodes'', JArr envelopes),
            (''edges'', if nil_edges then JNull else JArr (map enc_edge edges))]))"

definition unmarshalNode :: "NodeType \<times> json option \<Rightarrow> serialize_error + NodeLike" where
  "unmarshalNode ne =
     (case ne of (kind, raw) \<Rightarrow>
        let dec = (\<lambda>d. case raw of None \<Rightarrow> Inl JSONError
                    | Some _ \<Rightarrow> (case dec_object d raw of None \<Rightarrow> Inl JSONError | Some v \<Rightarrow> Inr v)) in
        (case kind of
           NodeIssue \<Rightarrow> dec (\<lambda>o'. do { b \<leftarrow> dec_node o'; ss \<leftarrow> dec_spans o'; Some (IssueNode b ss) })
         | NodeRule \<Rightarrow> dec (\<lambda>o'. do { b \<leftarrow> dec_node o'; c \<leftarrow> dec_string (field ''jurisdiction_code'' o');
               f \<leftarrow> dec_string (field ''legal_family'' o'); ss \<leftarrow> dec_spans o'; Some (RuleNode b c f ss) })
         | NodeFact \<Rightarrow> dec (\<lambda>o'. do { b \<leftarrow> dec_node o'; ss \<leftarrow> dec_spans o'; Some (FactNode b ss) })
         | NodeApplication \<Rightarrow> dec (\<lambda>o'. do { b \<leftarrow> dec_node o'; ss \<leftarrow> dec_spans o'; Some (ApplicationNode b ss) })
         | NodeConclusion \<Rightarrow>
             (case dec (\<lambda>o'. do { b \<leftarrow> dec_node o'; l \<leftarrow> dec_string (field ''label'' o');
                 ss \<leftarrow> dec_spans o'; Some (ConclusionNode b l ss) }) of
                Inl err \<Rightarrow> Inl err
              | Inr v \<Rightarrow> if \<not> HasGuardrailLabel v then Inl (MissingLabel (GetID v)) else Inr v)
         | OtherNodeType s \<Rightarrow> Inl (UnknownType kind)))"

fun unmarshalNodes :: "(NodeType \<times> json option) list \<Rightarrow> serialize_error + NodeLike list" where
  "unmarshalNodes [] = Inr []"
| "unmarshalNodes (ne # rest) =
     (case unmarshalNode ne of
        Inl err \<Rightarrow> Inl err
      | Inr n \<Rightarrow> (case unmarshalNodes rest of Inl err \<Rightarrow> Inl err | Inr ns \<Rightarrow> Inr (n # ns)))"

text \<open>
  The envelope of a node: its kind and the raw value, which is kept as it is (\<open>null\<close> too); a
  missing one is empty text, which does not parse.
\<close>

definition dec_envelope_node :: "(NodeType \<times> json option) decoder" where
  "dec_envelope_node = dec_object (\<lambda>o'. do {
     k \<leftarrow> dec_string (field ''kind'' o'); Some (NodeType_of k, field ''node'' o') })"

definition UnmarshalTree :: "json \<Rightarrow> serialize_error + NodeLike list \<times> Edge list \<times> TreeRevision" where
  "UnmarshalTree data =
     (case dec_object (\<lambda>o'. do {
        v \<leftarrow> dec_int (field ''version'' o'); r \<leftarrow> dec_revision (field ''revision'' o');
        ns \<leftarrow> dec_list dec_envelope_node (field ''nodes'' o'); es \<leftarrow> dec_list dec_edge (field ''edges'' o');
        Some (r, ns, es) }) (Some data) of
        None \<Rightarrow> Inl JSONError
      | Some (r, ns, es) \<Rightarrow>
          (case unmarshalNodes ns of Inl err \<Rightarrow> Inl err | Inr nodes \<Rightarrow> Inr (nodes, es, r)))"

section \<open>Lemmas on the codec\<close>

definition in_int64 :: "int \<Rightarrow> bool" where
  "in_int64 n \<longleftrightarrow> - (2 ^ 63) \<le> n \<and> n < 2 ^ 63"

definition span_fits :: "SourceSpan \<Rightarrow> bool" where
  "span_fits s \<longleftrightarrow> in_int64 (sp_Start s) \<and> in_int64 (sp_End s) \<and> in_int64 (sp_Page s) \<and>
     in_int64 (sp_StartMS s) \<and> in_int64 (sp_EndMS s)"

text \<open>A type that is not one of the constants has another text.\<close>

definition canonical_edge :: "Edge \<Rightarrow> bool" where
  "canonical_edge e \<longleftrightarrow> EdgeType_of (EdgeType_text (ed_Type e)) = ed_Type e"

fun spans_of :: "NodeLike \<Rightarrow> SourceSpan list" where
  "spans_of (IssueNode _ ss) = ss"
| "spans_of (RuleNode _ _ _ ss) = ss"
| "spans_of (FactNode _ ss) = ss"
| "spans_of (ApplicationNode _ ss) = ss"
| "spans_of (ConclusionNode _ _ ss) = ss"
| "spans_of (BareNode _) = []"

definition revision_fits :: "TreeRevision \<Rightarrow> bool" where
  "revision_fits r \<longleftrightarrow> in_int64 (tr_RevisionNumber r) \<and> (\<forall>p. tr_ParentRevision r = Some p \<longrightarrow> in_int64 p)"

lemma dec_int_enc [simp]: "in_int64 n \<Longrightarrow> dec_int (Some (JNum (of_int n))) = Some n"
  by (simp add: in_int64_def)

lemma those_map: "(\<And>x. x \<in> set xs \<Longrightarrow> f x = Some (g x)) \<Longrightarrow> those (map f xs) = Some (map g xs)"
  by (induction xs) auto

lemma dec_list_enc: "(\<And>x. x \<in> set xs \<Longrightarrow> d (Some (e x)) = Some x) \<Longrightarrow> dec_list d (Some (JArr (map e xs))) = Some xs"
  using those_map [of xs "\<lambda>x. d (Some (e x))" id] by (simp add: comp_def)

lemma field_Nil [simp]: "field name [] = None"
  by (simp add: field_def)

lemma field_append: "field name (xs @ ys) = (case field name ys of None \<Rightarrow> field name xs | Some v \<Rightarrow> Some v)"
  by (simp add: field_def map_add_def split: option.split)

lemma field_one: "field name [(k, v)] = (if fold_key k = name then Some v else None)"
  by (simp add: field_def)

lemma field_Cons:
  "field name ((k, v) # kvs) = (case field name kvs of None \<Rightarrow> (if fold_key k = name then Some v else None) | Some v \<Rightarrow> Some v)"
  using field_append [of name "[(k, v)]" kvs] by (simp add: field_one split: option.split)

lemma field_omitempty:
  "field name (omitempty z k v) = (if \<not> z \<and> fold_key k = name then Some v else None)"
  by (simp add: omitempty_def field_one)

lemmas field_simps = field_append field_Cons field_omitempty

lemma lower_ascii_simps [simp]:
  "lower_ascii (CHR ''_'') = CHR ''_''" "lower_ascii (CHR ''a'') = CHR ''a''" "lower_ascii (CHR ''b'') = CHR ''b''"
  "lower_ascii (CHR ''c'') = CHR ''c''" "lower_ascii (CHR ''d'') = CHR ''d''" "lower_ascii (CHR ''e'') = CHR ''e''"
  "lower_ascii (CHR ''f'') = CHR ''f''" "lower_ascii (CHR ''g'') = CHR ''g''" "lower_ascii (CHR ''i'') = CHR ''i''"
  "lower_ascii (CHR ''j'') = CHR ''j''" "lower_ascii (CHR ''k'') = CHR ''k''" "lower_ascii (CHR ''l'') = CHR ''l''"
  "lower_ascii (CHR ''m'') = CHR ''m''" "lower_ascii (CHR ''n'') = CHR ''n''" "lower_ascii (CHR ''o'') = CHR ''o''"
  "lower_ascii (CHR ''p'') = CHR ''p''" "lower_ascii (CHR ''r'') = CHR ''r''" "lower_ascii (CHR ''s'') = CHR ''s''"
  "lower_ascii (CHR ''t'') = CHR ''t''" "lower_ascii (CHR ''u'') = CHR ''u''" "lower_ascii (CHR ''v'') = CHR ''v''"
  "lower_ascii (CHR ''x'') = CHR ''x''" "lower_ascii (CHR ''y'') = CHR ''y''"
  by (simp_all add: lower_ascii_def)

lemma dec_span_enc: "span_fits s \<Longrightarrow> dec_span (Some (enc_span s)) = Some s"
  by (cases s) (simp add: span_fits_def dec_span_def enc_span_def field_simps del: dec_int.simps(1))

lemma dec_provenance_enc: "dec_provenance (Some (enc_provenance p)) = Some p"
  using dec_list_enc [of "pv_UpstreamNodeIDs p" dec_string JStr]
  by (cases p) (simp add: dec_provenance_def enc_provenance_def field_simps)

lemma NodeType_text_of: "NodeType_IsValid t \<Longrightarrow> NodeType_of (NodeType_text t) = t"
  by (cases t) (simp_all add: NodeType_of_def NodeType_IsValid_def)


lemma dec_node_enc:
  assumes "NodeType_IsValid (nd_Type n)"
    "\<And>k. k \<in> {''id'', ''type'', ''case_id'', ''text'', ''created_at'', ''confidence'', ''provenance''} \<Longrightarrow> field k rest = None"
  shows "dec_node (node_fields n @ rest) = Some n"
  using assms
  by (cases n) (simp add: dec_node_def node_fields_def NewNode_def field_simps dec_provenance_enc NodeType_text_of)

lemma dec_spans_enc:
  assumes "\<forall>s\<in>set ss. span_fits s" "field ''spans'' pre = None"
  shows "dec_spans (pre @ enc_spans ss) = Some ss"
  using assms dec_list_enc [of ss dec_span enc_span] dec_span_enc
  by (cases "ss = []") (simp_all add: dec_spans_def enc_spans_def field_simps)

lemma field_enc_spans: "name \<noteq> ''spans'' \<Longrightarrow> field name (enc_spans ss) = None"
  by (simp add: enc_spans_def field_omitempty)

lemma field_node_fields:
  "name \<notin> {''id'', ''type'', ''case_id'', ''text'', ''created_at'', ''confidence'', ''provenance''} \<Longrightarrow>
     field name (node_fields n) = None"
  by (auto simp: node_fields_def field_Cons)

text \<open>A node that is encoded is decoded again by its kind.\<close>

lemma unmarshal_marshalNode:
  assumes "marshalNode n = Inr raw" "\<forall>s\<in>set (spans_of n). span_fits s"
  shows "unmarshalNode (GetType n, Some raw) = Inr n"
proof -
  have node: "dec_node (node_fields b @ extra @ enc_spans ss) = Some b"
    if "NodeType_IsValid (nd_Type b)"
      "\<And>k. k \<in> {''id'', ''type'', ''case_id'', ''text'', ''created_at'', ''confidence'', ''provenance''} \<Longrightarrow> field k extra = None"
    for b extra ss
  proof (rule dec_node_enc [OF that(1)])
    fix k assume k: "k \<in> {''id'', ''type'', ''case_id'', ''text'', ''created_at'', ''confidence'', ''provenance''}"
    then have "k \<noteq> ''spans''" by auto
    with that(2) [OF k] show "field k (extra @ enc_spans ss) = None"
      by (simp add: field_append field_enc_spans)
  qed
  have spans: "dec_spans (node_fields b @ extra @ enc_spans ss) = Some ss"
    if "\<forall>s\<in>set ss. span_fits s" "field ''spans'' extra = None" for b extra ss
    using dec_spans_enc [of ss "node_fields b @ extra"] that
    by (simp add: field_append field_node_fields)
  have marshalled: "GetType n \<noteq> t" if "\<not> (well_typed n)" "NodeType_IsValid t" for t
    using that assms(1) by (cases n; cases t) (auto simp: marshalNode_def GetType_def NodeType_IsValid_def split: NodeType.splits)
  have valid: "NodeType_IsValid (GetType n)"
    using assms(1) by (auto simp: marshalNode_def NodeType_IsValid_def split: NodeType.splits)
  then have wt: "well_typed n" using marshalled by blast
  show ?thesis
  proof (cases n)
    case (IssueNode b ss)
    have "dec_node (node_fields b @ [] @ enc_spans ss) = Some b"
      by (rule node) (use valid IssueNode in \<open>simp_all add: GetType_def\<close>)
    with IssueNode assms wt spans [of ss "[]" b] show ?thesis
      by (auto simp: marshalNode_def unmarshalNode_def GetType_def)
  next
    case (RuleNode b c f ss)
    let ?x = "[(''jurisdiction_code'', JStr c), (''legal_family'', JStr f)]"
    have "field ''jurisdiction_code'' (node_fields b @ ?x @ enc_spans ss) = Some (JStr c)"
      "field ''legal_family'' (node_fields b @ ?x @ enc_spans ss) = Some (JStr f)"
      by (simp_all add: field_append field_Cons field_enc_spans)
    moreover have "dec_node (node_fields b @ ?x @ enc_spans ss) = Some b"
      by (rule node) (use valid RuleNode in \<open>auto simp: GetType_def field_Cons\<close>)
    moreover have "dec_spans (node_fields b @ ?x @ enc_spans ss) = Some ss"
      by (rule spans) (use assms(2) RuleNode in \<open>simp_all add: field_Cons\<close>)
    ultimately show ?thesis
      using RuleNode assms(1) wt by (auto simp: marshalNode_def unmarshalNode_def GetType_def)
  next
    case (FactNode b ss)
    have "dec_node (node_fields b @ [] @ enc_spans ss) = Some b"
      by (rule node) (use valid FactNode in \<open>simp_all add: GetType_def\<close>)
    with FactNode assms wt spans [of ss "[]" b] show ?thesis
      by (auto simp: marshalNode_def unmarshalNode_def GetType_def)
  next
    case (ApplicationNode b ss)
    have "dec_node (node_fields b @ [] @ enc_spans ss) = Some b"
      by (rule node) (use valid ApplicationNode in \<open>simp_all add: GetType_def\<close>)
    with ApplicationNode assms wt spans [of ss "[]" b] show ?thesis
      by (auto simp: marshalNode_def unmarshalNode_def GetType_def)
  next
    case (ConclusionNode b l ss)
    let ?x = "[(''label'', JStr l)]"
    have "field ''label'' (node_fields b @ ?x @ enc_spans ss) = Some (JStr l)"
      by (simp add: field_append field_Cons field_enc_spans)
    moreover have "dec_node (node_fields b @ ?x @ enc_spans ss) = Some b"
      by (rule node) (use valid ConclusionNode in \<open>auto simp: GetType_def field_Cons\<close>)
    moreover have "dec_spans (node_fields b @ ?x @ enc_spans ss) = Some ss"
      by (rule spans) (use assms(2) ConclusionNode in \<open>simp_all add: field_Cons\<close>)
    ultimately show ?thesis
      using ConclusionNode assms(1) wt
      by (auto simp: marshalNode_def unmarshalNode_def GetType_def split: if_splits)
  next
    case (BareNode b)
    with wt show ?thesis by simp
  qed
qed

lemma marshalNode_valid: "marshalNode n = Inr raw \<Longrightarrow> NodeType_IsValid (GetType n)"
  by (auto simp: marshalNode_def NodeType_IsValid_def split: NodeType.splits)

lemma dec_envelopes:
  "marshalNodes nodes = Inr es \<Longrightarrow>
     \<exists>nes. dec_list dec_envelope_node (Some (JArr es)) = Some nes \<and>
       ((\<forall>n\<in>set nodes. \<forall>s\<in>set (spans_of n). span_fits s) \<longrightarrow> unmarshalNodes nes = Inr nodes)"
proof (induction nodes arbitrary: es)
  case Nil
  then show ?case by simp
next
  case (Cons n nodes)
  obtain raw rest where n: "marshalNode n = Inr raw" "marshalNodes nodes = Inr rest"
    and es: "es = JObj [(''kind'', JStr (NodeType_text (GetType n))), (''node'', raw)] # rest"
    using Cons.prems by (auto split: sum.splits)
  obtain nes where nes: "dec_list dec_envelope_node (Some (JArr rest)) = Some nes"
    "(\<forall>n\<in>set nodes. \<forall>s\<in>set (spans_of n). span_fits s) \<longrightarrow> unmarshalNodes nes = Inr nodes"
    using Cons.IH [OF n(2)] by blast
  have "dec_envelope_node (Some (JObj [(''kind'', JStr (NodeType_text (GetType n))), (''node'', raw)])) =
      Some (GetType n, Some raw)"
    using marshalNode_valid [OF n(1)] by (simp add: dec_envelope_node_def field_Cons NodeType_text_of)
  then show ?case
    using nes unmarshal_marshalNode [OF n(1)] es by auto
qed

lemma dec_edge_enc: "canonical_edge e \<Longrightarrow> dec_edge (Some (enc_edge e)) = Some e"
  by (cases e) (simp add: dec_edge_def enc_edge_def field_Cons canonical_edge_def)

lemma dec_revision_enc: "revision_fits r \<Longrightarrow> dec_revision (Some (enc_revision r)) = Some r"
  by (cases r; cases "tr_ParentRevision r")
    (simp_all add: dec_revision_def enc_revision_def field_simps revision_fits_def del: dec_int.simps(1))

text \<open>The label check of the decoder.\<close>

definition labelled :: "NodeLike \<Rightarrow> bool" where
  "labelled n \<longleftrightarrow> (case n of ConclusionNode _ _ _ \<Rightarrow> HasGuardrailLabel n | _ \<Rightarrow> True)"

lemma dec_object_SomeD: "dec_object d v = Some n \<Longrightarrow> \<exists>kvs. d kvs = Some n"
  by (cases "(d, v)" rule: dec_object.cases) auto

lemma unmarshalNode_labelled:
  assumes "unmarshalNode (kind, raw) = Inr n"
  shows "labelled n"
proof (cases kind)
  case NodeConclusion
  with assms show ?thesis
    by (auto simp: unmarshalNode_def labelled_def Let_def split: option.splits if_splits NodeLike.splits)
qed (use assms in \<open>auto simp: unmarshalNode_def labelled_def Let_def bind_eq_Some_conv
    dest!: dec_object_SomeD split: option.splits\<close>)

lemma unmarshalNodes_labelled: "unmarshalNodes nes = Inr nodes \<Longrightarrow> n \<in> set nodes \<Longrightarrow> labelled n"
proof (induction nes arbitrary: nodes)
  case Nil
  then show ?case by simp
next
  case (Cons ne nes)
  obtain kind raw where ne: "ne = (kind, raw)" by (cases ne)
  from Cons.prems(1) obtain m ms where "unmarshalNode (kind, raw) = Inr m" "unmarshalNodes nes = Inr ms"
    "nodes = m # ms"
    by (auto simp: ne split: sum.splits)
  with Cons.IH Cons.prems(2) unmarshalNode_labelled show ?case by auto
qed

section \<open>Properties of the envelope\<close>

lemma UnmarshalTree_MarshalTree:
  assumes "MarshalTree nodes nil_edges edges revision = Inr data" and "nil_edges \<longrightarrow> edges = []"
    and "\<forall>n\<in>set nodes. \<forall>s\<in>set (spans_of n). span_fits s" and "\<forall>e\<in>set edges. canonical_edge e"
    and "revision_fits revision"
  shows "UnmarshalTree data = Inr (nodes, edges, revision)"
proof -
  obtain es where es: "marshalNodes nodes = Inr es"
    and data: "data = JObj [(''version'', JNum (of_int treeEnvelopeVersion)), (''revision'', enc_revision revision),
            (''nodes'', JArr es), (''edges'', if nil_edges then JNull else JArr (map enc_edge edges))]"
    using assms(1) by (auto simp: MarshalTree_def split: sum.splits)
  obtain nes where nes: "dec_list dec_envelope_node (Some (JArr es)) = Some nes" "unmarshalNodes nes = Inr nodes"
    using dec_envelopes [OF es] assms(3) by blast
  have "dec_list dec_edge (Some (if nil_edges then JNull else JArr (map enc_edge edges))) = Some edges"
    using assms(2,4) dec_list_enc [of edges dec_edge enc_edge] dec_edge_enc by auto
  then show ?thesis
    using nes dec_revision_enc [OF assms(5)]
    by (simp add: UnmarshalTree_def data field_Cons treeEnvelopeVersion_def del: dec_list.simps(1))
qed


definition sample_fact :: NodeLike where
  "sample_fact = NewFactNode ''f'' ''c'' ''no delivery'' 1 (1/2)
     \<lparr>pv_GeneratedBy = ''x'', pv_GeneratedAt = 1, pv_UpstreamNodeIDs = [''d'']\<rparr>
     [\<lparr>sp_Start = 0, sp_End = 4, sp_Page = 0, sp_StartMS = 0, sp_EndMS = 9\<rparr>]"


text \<open>
  What \<open>UnmarshalTree\<close> lets through. From any input, a node it decodes as a conclusion
  carries the guardrail label; but it looks at the kind of the envelope only, so a fact
  whose own \<open>type\<close> says conclusion passes without a label, and so does it pass the
  structural validation.
\<close>

lemma label_check_reads_kind_only:
  "(\<forall>data nodes edges revision n. UnmarshalTree data = Inr (nodes, edges, revision) \<longrightarrow> n \<in> set nodes \<longrightarrow>
      (case n of ConclusionNode _ _ _ \<Rightarrow> HasGuardrailLabel n | _ \<Rightarrow> True)) \<and>
   (\<exists>data n. UnmarshalTree data = Inr ([n], [], \<lparr>tr_RevisionNumber = 0, tr_CaseID = [], tr_CreatedAt = zero_time,
        tr_ParentRevision = None\<rparr>) \<and>
      GetType n = NodeConclusion \<and> \<not> HasGuardrailLabel n \<and> ValidateTree [n] [] = [])"
proof (intro conjI allI impI)
  fix data nodes edges revision n
  assume u: "UnmarshalTree data = Inr (nodes, edges, revision)" and n: "n \<in> set nodes"
  from u obtain nes where "unmarshalNodes nes = Inr nodes"
    by (auto simp: UnmarshalTree_def split: option.splits sum.splits)
  then show "case n of ConclusionNode _ _ _ \<Rightarrow> HasGuardrailLabel n | _ \<Rightarrow> True"
    using n unmarshalNodes_labelled by (simp add: labelled_def)
next
  let ?n = "FactNode (NewNode NodeConclusion ''z'' [] [] zero_time 0 \<lparr>pv_GeneratedBy = [], pv_GeneratedAt = zero_time, pv_UpstreamNodeIDs = []\<rparr>) []"
  let ?data = "JObj [(''nodes'', JArr [JObj [(''kind'', JStr ''fact''),
      (''node'', JObj [(''id'', JStr ''z''), (''type'', JStr ''conclusion'')])]])]"
  have "UnmarshalTree ?data = Inr ([?n], [], \<lparr>tr_RevisionNumber = 0, tr_CaseID = [], tr_CreatedAt = zero_time,
        tr_ParentRevision = None\<rparr>)"
    by (simp add: UnmarshalTree_def field_Cons dec_envelope_node_def unmarshalNode_def NodeType_of_def dec_node_def
        dec_spans_def dec_provenance_def dec_revision_def)
  moreover have "GetType ?n = NodeConclusion \<and> \<not> HasGuardrailLabel ?n \<and> ValidateTree [?n] [] = []"
    by (simp add: GetType_def NewNode_def ValidateTree_def node_issues_def NodeType_IsValid_def)
  ultimately show "\<exists>data n. UnmarshalTree data = Inr ([n], [], \<lparr>tr_RevisionNumber = 0, tr_CaseID = [],
        tr_CreatedAt = zero_time, tr_ParentRevision = None\<rparr>) \<and>
      GetType n = NodeConclusion \<and> \<not> HasGuardrailLabel n \<and> ValidateTree [n] [] = []"
    by blast
qed

lemma label_check_reads_kind_only_witness:
  "\<exists>n. UnmarshalTree (JObj [(''nodes'', JArr [JObj [(''kind'', JStr ''conclusion''),
        (''node'', JObj [(''label'', JStr DraftAnalysisLabel)])]])]) =
      Inr ([n], [], \<lparr>tr_RevisionNumber = 0, tr_CaseID = [], tr_CreatedAt = zero_time, tr_ParentRevision = None\<rparr>) \<and>
    HasGuardrailLabel n"
proof -
  let ?data = "JObj [(''nodes'', JArr [JObj [(''kind'', JStr ''conclusion''),
        (''node'', JObj [(''label'', JStr DraftAnalysisLabel)])]])]"
  let ?b = "NewNode (OtherNodeType []) [] [] [] zero_time 0 \<lparr>pv_GeneratedBy = [], pv_GeneratedAt = zero_time, pv_UpstreamNodeIDs = []\<rparr>"
  have u: "UnmarshalTree ?data = Inr ([ConclusionNode ?b DraftAnalysisLabel []], [],
      \<lparr>tr_RevisionNumber = 0, tr_CaseID = [], tr_CreatedAt = zero_time, tr_ParentRevision = None\<rparr>)"
    by (simp add: UnmarshalTree_def field_Cons dec_envelope_node_def unmarshalNode_def NodeType_of_def dec_node_def
        dec_spans_def dec_provenance_def dec_revision_def)
  have "case ConclusionNode ?b DraftAnalysisLabel [] of ConclusionNode _ _ _ \<Rightarrow>
      HasGuardrailLabel (ConclusionNode ?b DraftAnalysisLabel []) | _ \<Rightarrow> True"
    using conjunct1 [OF label_check_reads_kind_only, rule_format, OF u] by simp
  with u show ?thesis by auto
qed

end
