(* ===== verification/TreeService.thy ===== *)
theory TreeService
  imports TreeAssembly GraphStore Serialize
begin

text \<open>
  The tree-assembly service: backups of a case (\<open>packages/graph/backup.go\<close>), and in
  \<open>packages/treeassembly\<close> the persistence of a tree with its snapshot (\<open>persist.go\<close>), the
  telemetry (\<open>telemetry.go\<close>) and the pipeline over all of it (\<open>service.go\<close>).
\<close>

section \<open>Backups\<close>

text \<open>The store keeps bare nodes; a backup rebuilds the wrapper that the type implies.\<close>

definition toNodeLike :: "Node \<Rightarrow> NodeLike" where
  "toNodeLike n =
     (case nd_Type n of
        NodeIssue \<Rightarrow> NewIssueNode (nd_ID n) (nd_CaseID n) (nd_Text n) (nd_CreatedAt n) (nd_Confidence n) (nd_Provenance n) []
      | NodeRule \<Rightarrow> NewRuleNode (nd_ID n) (nd_CaseID n) (nd_Text n) [] [] (nd_CreatedAt n) (nd_Confidence n) (nd_Provenance n) []
      | NodeFact \<Rightarrow> NewFactNode (nd_ID n) (nd_CaseID n) (nd_Text n) (nd_CreatedAt n) (nd_Confidence n) (nd_Provenance n) []
      | NodeApplication \<Rightarrow> NewApplicationNode (nd_ID n) (nd_CaseID n) (nd_Text n) (nd_CreatedAt n) (nd_Confidence n) (nd_Provenance n) []
      | NodeConclusion \<Rightarrow> NewConclusionNode (nd_ID n) (nd_CaseID n) (nd_Text n) (nd_CreatedAt n) (nd_Confidence n) (nd_Provenance n) []
      | OtherNodeType _ \<Rightarrow> BareNode n)"

text \<open>\<open>toNode\<close>, and the copy of it in \<open>persist.go\<close>, \<open>toBaseNode\<close>; no other implementation of the interface exists.\<close>

definition toNode :: "NodeLike \<Rightarrow> Node" where
  "toNode n = node_of n"

definition latestCreatedAt :: "Node list \<Rightarrow> time" where
  "latestCreatedAt nodes = fold (\<lambda>n latest. if nd_CreatedAt n > latest then nd_CreatedAt n else latest) nodes zero_time"

definition collectEdges :: "InMemoryGraphStore \<Rightarrow> Node list \<Rightarrow> Edge list" where
  "collectEdges s nodes = (if nodes = [] then [] else EdgesForCase (nd_CaseID (hd nodes)) s)"

datatype backup_error = StoreError graph_error | CodecError serialize_error

text \<open>\<open>norder\<close> is the order in which the traversal delivers the nodes.\<close>

definition Export :: "(Node set \<Rightarrow> Node list) \<Rightarrow> InMemoryGraphStore \<Rightarrow> string \<Rightarrow> backup_error + json" where
  "Export norder s caseID =
     (if caseID = [] then Inl (StoreError ErrEmptyCaseID)
      else
        (case mem_Traverse \<lparr>tq_CaseID = caseID, tq_NodeType = None, tq_FromNodeID = [], tq_MaxDepth = 0\<rparr> s of
           Inl err \<Rightarrow> Inl (StoreError err)
         | Inr ns \<Rightarrow>
             let nodes = norder ns;
                 edges = collectEdges s nodes;
                 revision = NewInitialRevision caseID (latestCreatedAt nodes)
             in (case MarshalTree (map toNodeLike nodes) (nodes = []) edges revision of
                   Inl err \<Rightarrow> Inl (CodecError err)
                 | Inr data \<Rightarrow> Inr data)))"

fun create_nodes :: "Node list \<Rightarrow> InMemoryGraphStore \<Rightarrow> graph_error option \<times> InMemoryGraphStore" where
  "create_nodes [] s = (None, s)"
| "create_nodes (n # ns) s =
     (case mem_CreateNode n s of (Some err, s) \<Rightarrow> (Some err, s) | (None, s) \<Rightarrow> create_nodes ns s)"

fun create_edges :: "Edge list \<Rightarrow> InMemoryGraphStore \<Rightarrow> graph_error option \<times> InMemoryGraphStore" where
  "create_edges [] s = (None, s)"
| "create_edges (e # es) s =
     (case mem_CreateEdge e s of (Some err, s) \<Rightarrow> (Some err, s) | (None, s) \<Rightarrow> create_edges es s)"

definition Import :: "json \<Rightarrow> InMemoryGraphStore \<Rightarrow> backup_error option \<times> InMemoryGraphStore" where
  "Import data s =
     (case UnmarshalTree data of
        Inl err \<Rightarrow> (Some (CodecError err), s)
      | Inr (nodes, edges, revision) \<Rightarrow>
          (case create_nodes (map toNode nodes) s of
             (Some err, s) \<Rightarrow> (Some (StoreError err), s)
           | (None, s) \<Rightarrow>
               (case create_edges edges s of
                  (Some err, s) \<Rightarrow> (Some (StoreError err), s)
                | (None, s) \<Rightarrow> (None, s))))"

section \<open>Persistence\<close>

record SnapshotKey =
  sk_CaseID :: string
  sk_RevisionNumber :: int

type_synonym InMemorySnapshotStore = "SnapshotKey \<rightharpoonup> json"

definition PutSnapshot :: "SnapshotKey \<Rightarrow> json \<Rightarrow> InMemorySnapshotStore \<Rightarrow> InMemorySnapshotStore" where
  "PutSnapshot key data snaps = snaps(key \<mapsto> data)"

definition GetSnapshot :: "SnapshotKey \<Rightarrow> InMemorySnapshotStore \<Rightarrow> unit + json" where
  "GetSnapshot key snaps = (case snaps key of None \<Rightarrow> Inl () | Some data \<Rightarrow> Inr data)"

definition PersistTree ::
  "(Node set \<Rightarrow> Node list) \<Rightarrow> Tree \<Rightarrow> InMemoryGraphStore \<times> InMemorySnapshotStore
    \<Rightarrow> backup_error option \<times> InMemoryGraphStore \<times> InMemorySnapshotStore" where
  "PersistTree norder tree st =
     (case st of (s, snaps) \<Rightarrow>
        (case create_nodes (map toNode (t_Nodes tree)) s of
           (Some err, s) \<Rightarrow> (Some (StoreError err), s, snaps)
         | (None, s) \<Rightarrow>
             (case create_edges (t_Edges tree) s of
                (Some err, s) \<Rightarrow> (Some (StoreError err), s, snaps)
              | (None, s) \<Rightarrow>
                  (case Export norder s (tr_CaseID (t_Revision tree)) of
                     Inl err \<Rightarrow> (Some err, s, snaps)
                   | Inr data \<Rightarrow>
                       (None, s, PutSnapshot \<lparr>sk_CaseID = tr_CaseID (t_Revision tree),
                          sk_RevisionNumber = tr_RevisionNumber (t_Revision tree)\<rparr> data snaps)))))"

section \<open>The service\<close>

record AssemblyTelemetry =
  te_CaseID :: string
  te_RevisionNumber :: int
  te_NodeCount :: nat
  te_EdgeCount :: nat
  te_ValidationIssueCount :: nat
  te_GapCount :: nat
  te_Duration :: duration
  te_RecordedAt :: time

text \<open>The recorder is the list of its entries, in recorded order.\<close>

definition Record :: "AssemblyTelemetry \<Rightarrow> AssemblyTelemetry list \<Rightarrow> AssemblyTelemetry list" where
  "Record entry es = es @ [entry]"

definition ForCase :: "string \<Rightarrow> AssemblyTelemetry list \<Rightarrow> AssemblyTelemetry list" where
  "ForCase caseID es = filter (\<lambda>e. te_CaseID e = caseID) es"

definition NewAssemblyTelemetry :: "Tree \<Rightarrow> nat \<Rightarrow> nat \<Rightarrow> duration \<Rightarrow> time \<Rightarrow> AssemblyTelemetry" where
  "NewAssemblyTelemetry tree issues gaps elapsed now =
     \<lparr>te_CaseID = tr_CaseID (t_Revision tree), te_RevisionNumber = tr_RevisionNumber (t_Revision tree),
      te_NodeCount = length (t_Nodes tree), te_EdgeCount = length (t_Edges tree),
      te_ValidationIssueCount = issues, te_GapCount = gaps, te_Duration = elapsed, te_RecordedAt = now\<rparr>"

text \<open>
  The collaborators of the service are set once; each is \<open>None\<close> when nil, and a call then uses
  a fresh one that is dropped with the call. \<open>prevRevisions\<close> holds the last tree of each case.
\<close>

record 'e TreeAssemblyService =
  sv_Store :: "InMemoryGraphStore option"
  sv_Snapshots :: "InMemorySnapshotStore option"
  sv_Conclusions :: "'e ConclusionProvider option"
  sv_Recorder :: "AssemblyTelemetry list option"
  sv_prevRevisions :: "string \<rightharpoonup> Tree"

record AssembleResult =
  ar_Tree :: Tree
  ar_ValidationIssues :: "ValidationIssue list"
  ar_Gaps :: "Gap list"

datatype 'e assemble_error = ComposeError "'e ta_error" | CriticalIntegrityFailure | PersistError backup_error

text \<open>\<open>clock i\<close> is the \<open>i\<close>-th reading of the clock in the call.\<close>

definition Assemble ::
  "(nat \<Rightarrow> time) \<Rightarrow> (Node set \<Rightarrow> Node list) \<Rightarrow> AssemblyInput \<Rightarrow> 'e TreeAssemblyService
    \<Rightarrow> (AssembleResult option \<times> 'e assemble_error option) \<times> 'e TreeAssemblyService" where
  "Assemble clock norder input sv =
     (let store = (case sv_Store sv of None \<Rightarrow> NewInMemoryGraphStore | Some s \<Rightarrow> s);
          snaps = (case sv_Snapshots sv of None \<Rightarrow> Map.empty | Some s \<Rightarrow> s);
          entries = (case sv_Recorder sv of None \<Rightarrow> [] | Some es \<Rightarrow> es);
          conclusions = (case sv_Conclusions sv of None \<Rightarrow> NoOpConclusionProvider | Some p \<Rightarrow> p)
      in case ComposeTree (clock 1) input (Some conclusions) of
           Inl err \<Rightarrow> ((None, Some (ComposeError err)), sv)
         | Inr tree \<Rightarrow>
             let tree = (case sv_prevRevisions sv (ai_CaseID input) of
                           None \<Rightarrow> tree
                         | Some prev \<Rightarrow> tree\<lparr>t_Revision := ta_NextRevision (clock 2) prev\<rparr>);
                 sv = sv\<lparr>sv_prevRevisions := (sv_prevRevisions sv)(ai_CaseID input \<mapsto> tree)\<rparr>;
                 issues = ValidateIntegrity (Some tree);
                 gaps = DetectGaps (Some tree);
                 res = \<lparr>ar_Tree = tree, ar_ValidationIssues = issues, ar_Gaps = gaps\<rparr>;
                 entry = NewAssemblyTelemetry tree (length issues) (length gaps) (time_Sub (clock 3) (clock 0)) (clock 4);
                 sv = sv\<lparr>sv_Recorder := map_option (\<lambda>_. Record entry entries) (sv_Recorder sv)\<rparr>
             in if HasCriticalIntegrityFailure issues then ((Some res, Some CriticalIntegrityFailure), sv)
                else
                  (case PersistTree norder tree (store, snaps) of
                     (err, store, snaps) \<Rightarrow>
                       ((Some res, map_option PersistError err),
                        sv\<lparr>sv_Store := map_option (\<lambda>_. store) (sv_Store sv),
                           sv_Snapshots := map_option (\<lambda>_. snaps) (sv_Snapshots sv)\<rparr>)))"

section \<open>Lemmas on backups\<close>

lemma toNode_toNodeLike [simp]: "toNode (toNodeLike n) = n"
  by (cases n; cases "nd_Type n")
    (simp_all add: toNode_def toNodeLike_def NewIssueNode_def NewRuleNode_def NewFactNode_def
      NewApplicationNode_def NewConclusionNode_def NewNode_def)

lemma spans_toNodeLike [simp]: "spans_of (toNodeLike n) = []"
  by (simp add: toNodeLike_def NewIssueNode_def NewRuleNode_def NewFactNode_def
      NewApplicationNode_def NewConclusionNode_def split: NodeType.splits)

lemma GetID_toNodeLike [simp]: "GetID (toNodeLike n) = nd_ID n"
  using toNode_toNodeLike [of n] by (simp add: GetID_def toNode_def)

text \<open>What the loops of a persistence do to a store.\<close>

lemma create_nodes_ok:
  assumes "store_inv s" "create_nodes ns s = (None, s')"
  shows "store_inv s' \<and> gs_edges s' = gs_edges s \<and> (\<forall>n\<in>set ns. nd_ID n \<noteq> []) \<and>
    gs_nodes s' = fold (\<lambda>n m. m(nd_ID n \<mapsto> n)) ns (gs_nodes s)"
  using assms
proof (induction ns arbitrary: s)
  case Nil
  then show ?case by simp
next
  case (Cons n ns)
  obtain s1 where s1: "mem_CreateNode n s = (None, s1)" "create_nodes ns s1 = (None, s')"
    using Cons.prems(2) by (auto split: prod.splits option.splits)
  have n: "nd_ID n \<noteq> []" using s1(1) by (auto simp: mem_CreateNode_def split: if_splits)
  have "store_inv s1" using store_inv_CreateNode [OF Cons.prems(1) s1(1)] by simp
  with Cons.IH s1(2) mem_CreateNode_parts(2,3) [OF n s1(1)] n show ?case by simp
qed

lemma create_nodes_succeeds: "\<forall>n\<in>set ns. nd_ID n \<noteq> [] \<Longrightarrow> \<exists>s'. create_nodes ns s = (None, s')"
proof (induction ns arbitrary: s)
  case Nil
  then show ?case by simp
next
  case (Cons n ns)
  obtain e s1 where s1: "mem_CreateNode n s = (e, s1)" by fastforce
  then have "e = None" using mem_CreateNode_parts(1) [of n s e s1] Cons.prems by simp
  with s1 Cons.IH [of s1] Cons.prems show ?case by simp
qed

text \<open>Edges whose ends are both of one case.\<close>

definition in_case :: "(string \<rightharpoonup> Node) \<Rightarrow> string \<Rightarrow> Edge \<Rightarrow> bool" where
  "in_case nodes c e \<longleftrightarrow>
     (\<exists>f t. nodes (ed_FromID e) = Some f \<and> nodes (ed_ToID e) = Some t \<and> nd_CaseID f = c \<and> nd_CaseID t = c)"

lemma create_edges_in_case:
  assumes "\<forall>e\<in>set es. in_case (gs_nodes s) c e"
  shows "\<exists>s'. create_edges es s = (None, s') \<and> gs_nodes s' = gs_nodes s \<and>
    EdgesForCase c s' = EdgesForCase c s @ es \<and> (store_inv s \<longrightarrow> store_inv s')"
  using assms
proof (induction es arbitrary: s)
  case Nil
  then show ?case by simp
next
  case (Cons e es)
  let ?s = "s\<lparr>gs_edges := (gs_edges s)(c \<mapsto> the_edges (gs_edges s c) @ [e])\<rparr>"
  have step: "mem_CreateEdge e s = (None, ?s)"
    using Cons.prems by (auto simp: in_case_def mem_CreateEdge_def Let_def)
  then have inv: "store_inv s \<longrightarrow> store_inv ?s" using store_inv_CreateEdge by blast
  have "EdgesForCase c ?s = EdgesForCase c s @ [e]" by (simp add: EdgesForCase_def)
  with Cons.IH [of ?s] Cons.prems step inv show ?case by (auto simp: in_case_def)
qed

definition norder_ok :: "(Node set \<Rightarrow> Node list) \<Rightarrow> bool" where
  "norder_ok norder \<longleftrightarrow> (\<forall>S. finite S \<longrightarrow> set (norder S) = S \<and> distinct (norder S))"

text \<open>The nodes of a case.\<close>

definition case_nodes :: "InMemoryGraphStore \<Rightarrow> string \<Rightarrow> Node set" where
  "case_nodes s c = {n \<in> ran (gs_nodes s). nd_CaseID n = c}"

lemma finite_case_nodes: "store_inv s \<Longrightarrow> finite (case_nodes s c)"
proof -
  assume "store_inv s"
  then have "finite (ran (gs_nodes s))" by (simp add: store_inv_def finite_ran)
  then show ?thesis by (simp add: case_nodes_def)
qed

lemma mem_Traverse_case:
  assumes "store_inv s" "c \<noteq> []"
  shows "mem_Traverse \<lparr>tq_CaseID = c, tq_NodeType = None, tq_FromNodeID = [], tq_MaxDepth = 0\<rparr> s = Inr (case_nodes s c)"
  using mem_Traverse_spec [OF assms(1)] assms(2) by (simp add: spec_Traverse_def case_nodes_def abs_store_def)

lemma collectEdges_case:
  assumes "store_inv s" "norder_ok norder" "case_nodes s c \<noteq> {}"
  shows "collectEdges s (norder (case_nodes s c)) = EdgesForCase c s"
proof -
  have set: "set (norder (case_nodes s c)) = case_nodes s c"
    using assms(2) finite_case_nodes [OF assms(1)] by (simp add: norder_ok_def)
  then have "norder (case_nodes s c) \<noteq> []" using assms(3) by auto
  moreover from this have "hd (norder (case_nodes s c)) \<in> case_nodes s c" using set by (metis hd_in_set)
  ultimately show ?thesis by (simp add: collectEdges_def case_nodes_def)
qed

text \<open>A backup that succeeds decodes to what the store holds for the case.\<close>

lemma Export_content:
  assumes "store_inv s" "norder_ok norder" "Export norder s c = Inr data" "case_nodes s c \<noteq> {}"
    "\<forall>e\<in>set (EdgesForCase c s). canonical_edge e"
  shows "\<exists>nodes. set nodes = case_nodes s c \<and> distinct nodes \<and>
    UnmarshalTree data = Inr (map toNodeLike nodes, EdgesForCase c s, NewInitialRevision c (latestCreatedAt nodes))"
proof -
  let ?nodes = "norder (case_nodes s c)"
  have c: "c \<noteq> []" using assms(3) by (auto simp: Export_def)
  have set: "set ?nodes = case_nodes s c" "distinct ?nodes"
    using assms(2) finite_case_nodes [OF assms(1)] by (simp_all add: norder_ok_def)
  then have ne: "?nodes \<noteq> []" using assms(4) by auto
  note edges = collectEdges_case [OF assms(1,2,4)]
  have m: "MarshalTree (map toNodeLike ?nodes) False (EdgesForCase c s) (NewInitialRevision c (latestCreatedAt ?nodes)) = Inr data"
    using assms(3) c ne by (auto simp: Export_def mem_Traverse_case [OF assms(1) c] Let_def edges split: sum.splits)
  have "UnmarshalTree data = Inr (map toNodeLike ?nodes, EdgesForCase c s, NewInitialRevision c (latestCreatedAt ?nodes))"
    by (rule UnmarshalTree_MarshalTree [OF m])
      (use assms(5) in \<open>auto simp: revision_fits_def NewInitialRevision_def in_int64_def\<close>)
  with set show ?thesis by blast
qed

lemma marshal_toNodeLike: "NodeType_IsValid (nd_Type n) \<Longrightarrow> \<exists>raw. marshalNode (toNodeLike n) = Inr raw"
  by (cases "nd_Type n") (simp_all add: NodeType_IsValid_def toNodeLike_def marshalNode_def GetType_def
      NewIssueNode_def NewRuleNode_def NewFactNode_def NewApplicationNode_def NewConclusionNode_def NewNode_def)

lemma marshalNodes_toNodeLike:
  "\<forall>n\<in>set ns. NodeType_IsValid (nd_Type n) \<Longrightarrow> \<exists>es. marshalNodes (map toNodeLike ns) = Inr es"
proof (induction ns)
  case Nil
  then show ?case by simp
next
  case (Cons n ns)
  then obtain es raw where "marshalNodes (map toNodeLike ns) = Inr es" "marshalNode (toNodeLike n) = Inr raw"
    using marshal_toNodeLike [of n] by auto
  then show ?case by simp
qed

lemma Export_succeeds:
  assumes "store_inv s" "norder_ok norder" "c \<noteq> []" "\<forall>n\<in>case_nodes s c. NodeType_IsValid (nd_Type n)"
  shows "\<exists>data. Export norder s c = Inr data"
proof -
  have "set (norder (case_nodes s c)) = case_nodes s c"
    using assms(2) finite_case_nodes [OF assms(1)] by (simp add: norder_ok_def)
  then obtain es where "marshalNodes (map toNodeLike (norder (case_nodes s c))) = Inr es"
    using marshalNodes_toNodeLike assms(4) by metis
  then show ?thesis
    using assms(3) by (simp add: Export_def mem_Traverse_case [OF assms(1,3)] Let_def MarshalTree_def)
qed

lemma fold_nodes_by_ID:
  "fold (\<lambda>n m. m(nd_ID n \<mapsto> n)) (map toNode nodes) N k =
     (case by_ID nodes k of None \<Rightarrow> N k | Some n \<Rightarrow> Some (toNode n))"
proof (induction nodes rule: rev_induct)
  case Nil
  then show ?case by (simp add: by_ID_def)
next
  case (snoc n nodes)
  then show ?case by (simp add: by_ID_append toNode_def GetID_def)
qed

text \<open>The nodes of the case after a tree of it was written.\<close>

lemma case_nodes_written:
  assumes "store_inv s" "gs_nodes s1 = fold (\<lambda>n m. m(nd_ID n \<mapsto> n)) (map toNode nodes) (gs_nodes s)"
    "distinct (map GetID nodes)" "\<forall>n\<in>set nodes. nd_CaseID (toNode n) = c"
  shows "case_nodes s1 c = toNode ` set nodes \<union> {n \<in> case_nodes s c. nd_ID n \<notin> GetID ` set nodes}"
proof -
  have key: "nd_ID n = k" if "gs_nodes s k = Some n" for k n
    using assms(1) that by (simp add: store_inv_def)
  have stored: "gs_nodes s1 k = (case by_ID nodes k of None \<Rightarrow> gs_nodes s k | Some n \<Rightarrow> Some (toNode n))" for k
    unfolding assms(2) by (rule fold_nodes_by_ID)
  have none: "by_ID nodes k = None \<longleftrightarrow> k \<notin> GetID ` set nodes" for k
    using by_ID_dom [of nodes] by (auto simp: domIff)
  show ?thesis
  proof (intro equalityI subsetI)
    fix n assume "n \<in> case_nodes s1 c"
    then obtain k where k: "gs_nodes s1 k = Some n" "nd_CaseID n = c" by (auto simp: case_nodes_def ran_def)
    show "n \<in> toNode ` set nodes \<union> {n \<in> case_nodes s c. nd_ID n \<notin> GetID ` set nodes}"
    proof (cases "by_ID nodes k")
      case None
      then have "gs_nodes s k = Some n" using k stored by simp
      with None k none key show ?thesis by (auto simp: case_nodes_def ran_def)
    next
      case (Some m)
      with k(1) stored [of k] by_ID_SomeD [OF Some] show ?thesis by auto
    qed
  next
    fix n assume "n \<in> toNode ` set nodes \<union> {n \<in> case_nodes s c. nd_ID n \<notin> GetID ` set nodes}"
    then show "n \<in> case_nodes s1 c"
    proof
      assume "n \<in> toNode ` set nodes"
      then obtain m where m: "m \<in> set nodes" "n = toNode m" by blast
      then have "gs_nodes s1 (GetID m) = Some n" using stored [of "GetID m"] by_ID_distinct [OF assms(3), of "GetID m" m] by simp
      with m assms(4) show ?thesis by (auto simp: case_nodes_def ran_def)
    next
      assume "n \<in> {n \<in> case_nodes s c. nd_ID n \<notin> GetID ` set nodes}"
      then obtain k where "gs_nodes s k = Some n" "nd_CaseID n = c" "nd_ID n \<notin> GetID ` set nodes"
        by (auto simp: case_nodes_def ran_def)
      then show ?thesis using stored [of k] none [of k] key [of k n] by (auto simp: case_nodes_def ran_def)
    qed
  qed
qed

lemma node_ok_type: "node_ok n \<Longrightarrow> NodeType_IsValid (nd_Type (node_of n))"
  by (cases n) (simp_all add: GetType_def)

lemma edge_ok_canonical: "edge_ok byID e \<Longrightarrow> canonical_edge e"
  by (auto simp: edge_ok_def IsLegalEdgeTriple_def legalEdgeTriples_def canonical_edge_def EdgeType_of_def)

text \<open>The ends of a clean edge are stored once the nodes of its tree are.\<close>

lemma edge_ok_in_case:
  assumes "edge_ok (by_ID nodes) e" "\<forall>n\<in>set nodes. nd_CaseID (toNode n) = c"
  shows "in_case (fold (\<lambda>n m. m(nd_ID n \<mapsto> n)) (map toNode nodes) N) c e"
proof -
  obtain f t where ends: "by_ID nodes (ed_FromID e) = Some f" "by_ID nodes (ed_ToID e) = Some t"
    using assms(1) by (auto simp: edge_ok_def)
  with assms(2) show ?thesis
    using by_ID_SomeD [OF ends(1)] by_ID_SomeD [OF ends(2)] by (simp add: in_case_def fold_nodes_by_ID)
qed

text \<open>One order a traversal can have; it makes the model executable.\<close>

definition sorted_nodes :: "Node set \<Rightarrow> Node list" where
  "sorted_nodes S = sorted_list_of_set S"

lemma sorted_nodes_ok: "norder_ok sorted_nodes"
  by (simp add: norder_ok_def sorted_nodes_def)

lemma fold_distinct_nodes:
  "distinct (map nd_ID nodes) \<Longrightarrow>
     fold (\<lambda>n m. m(nd_ID n \<mapsto> n)) nodes Map.empty k = Some n \<longleftrightarrow> n \<in> set nodes \<and> nd_ID n = k"
  by (induction nodes rule: rev_induct) (auto simp: rev_image_eqI)

section \<open>Lemmas on the service\<close>

lemma Assemble_revision:
  assumes "Assemble clock norder input sv = ((res, err), sv')"
  shows "(res = None \<and> sv' = sv) \<or>
    (\<exists>r. res = Some r \<and> sv_prevRevisions sv' = (sv_prevRevisions sv)(ai_CaseID input \<mapsto> ar_Tree r) \<and>
       t_Revision (ar_Tree r) =
         (case sv_prevRevisions sv (ai_CaseID input) of
            None \<Rightarrow> NewInitialRevision (ai_CaseID input) (clock 1)
          | Some prev \<Rightarrow> Irac.NextRevision (t_Revision prev) (clock 2)))"
proof (cases "ComposeTree (clock 1) input (Some (case sv_Conclusions sv of None \<Rightarrow> NoOpConclusionProvider | Some p \<Rightarrow> p))")
  case (Inl e)
  with assms show ?thesis by (simp add: Assemble_def Let_def)
next
  case (Inr tree)
  then have "t_Revision tree = NewInitialRevision (ai_CaseID input) (clock 1)"
    by (auto simp: ComposeTree_def split: if_splits sum.splits)
  with assms Inr show ?thesis
    by (auto simp: Assemble_def Let_def ta_NextRevision_def split: if_splits option.splits prod.splits)
qed

text \<open>The revisions of one case among the results of several calls.\<close>

definition revisions_of :: "string \<Rightarrow> (AssembleResult option \<times> 'x) list \<Rightarrow> TreeRevision list" where
  "revisions_of c outs =
     filter (\<lambda>r. tr_CaseID r = c) (map (\<lambda>r. t_Revision (ar_Tree r)) (List.map_filter fst outs))"

definition revision_history :: "TreeRevision list \<Rightarrow> bool" where
  "revision_history rs \<longleftrightarrow>
     (\<forall>i<length rs. tr_RevisionNumber (rs ! i) = int i + 1 \<and>
        tr_ParentRevision (rs ! i) = (if i = 0 then None else Some (int i)))"

lemma revision_history_snoc:
  "revision_history (rs @ [r]) \<longleftrightarrow> revision_history rs \<and> tr_RevisionNumber r = int (length rs) + 1 \<and>
     tr_ParentRevision r = (if rs = [] then None else Some (int (length rs)))"
  by (auto simp: revision_history_def nth_append less_Suc_eq all_conj_distrib)

lemma revisions_of_snoc:
  "revisions_of c (outs @ [out]) =
     revisions_of c outs @ (case fst out of None \<Rightarrow> []
       | Some r \<Rightarrow> if tr_CaseID (t_Revision (ar_Tree r)) = c then [t_Revision (ar_Tree r)] else [])"
  by (simp add: revisions_of_def List.map_filter_def split: option.splits)

definition prev_ok :: "(string \<rightharpoonup> Tree) \<Rightarrow> (AssembleResult option \<times> 'x) list \<Rightarrow> bool" where
  "prev_ok prev outs \<longleftrightarrow>
     (\<forall>c. case prev c of None \<Rightarrow> revisions_of c outs = []
        | Some t \<Rightarrow> tr_CaseID (t_Revision t) = c \<and> revisions_of c outs \<noteq> [] \<and>
            tr_RevisionNumber (t_Revision t) = int (length (revisions_of c outs)))"

lemma Assemble_history:
  assumes "Assemble clock norder input sv = ((res, err), sv')" "prev_ok (sv_prevRevisions sv) outs"
    "\<forall>c. revision_history (revisions_of c outs)" "length outs < 2 ^ 62"
  shows "prev_ok (sv_prevRevisions sv') (outs @ [(res, err)]) \<and> (\<forall>c. revision_history (revisions_of c (outs @ [(res, err)])))"
proof (cases res)
  case None
  then have "sv' = sv" using Assemble_revision [OF assms(1)] by auto
  moreover have "revisions_of c (outs @ [(res, err)]) = revisions_of c outs" for c
    using None by (simp add: revisions_of_snoc)
  ultimately show ?thesis using assms(2,3) unfolding prev_ok_def by metis
next
  case (Some r)
  let ?c = "ai_CaseID input" and ?rs = "revisions_of (ai_CaseID input) outs"
  have sv': "sv_prevRevisions sv' = (sv_prevRevisions sv)(?c \<mapsto> ar_Tree r)"
    and rev: "t_Revision (ar_Tree r) = (case sv_prevRevisions sv ?c of
            None \<Rightarrow> NewInitialRevision ?c (clock 1)
          | Some prev \<Rightarrow> Irac.NextRevision (t_Revision prev) (clock 2))"
    using Assemble_revision [OF assms(1)] Some by auto
  have "length ?rs \<le> length outs"
    by (simp add: revisions_of_def List.map_filter_def length_filter_le le_trans [OF length_filter_le])
  then have small: "wrap64 (int (length ?rs) + 1) = int (length ?rs) + 1"
    using assms(4) by (intro wrap64_id) auto
  have new: "tr_CaseID (t_Revision (ar_Tree r)) = ?c"
    "tr_RevisionNumber (t_Revision (ar_Tree r)) = int (length ?rs) + 1"
    "tr_ParentRevision (t_Revision (ar_Tree r)) = (if ?rs = [] then None else Some (int (length ?rs)))"
    using assms(2) [unfolded prev_ok_def, rule_format, of ?c] rev small
    by (auto simp: NewInitialRevision_def Irac.NextRevision_def split: option.splits)
  have snoc: "revisions_of c (outs @ [(res, err)]) = (if c = ?c then ?rs @ [t_Revision (ar_Tree r)] else revisions_of c outs)" for c
    using Some new(1) by (simp add: revisions_of_snoc)
  have "prev_ok (sv_prevRevisions sv') (outs @ [(res, err)])"
    unfolding prev_ok_def
  proof
    fix c
    show "case sv_prevRevisions sv' c of None \<Rightarrow> revisions_of c (outs @ [(res, err)]) = []
        | Some t \<Rightarrow> tr_CaseID (t_Revision t) = c \<and> revisions_of c (outs @ [(res, err)]) \<noteq> [] \<and>
            tr_RevisionNumber (t_Revision t) = int (length (revisions_of c (outs @ [(res, err)])))"
      using assms(2) new unfolding snoc sv' prev_ok_def by (cases "c = ?c") auto
  qed
  moreover have "\<forall>c. revision_history (revisions_of c (outs @ [(res, err)]))"
    using assms(3) new by (simp add: snoc revision_history_snoc)
  ultimately show ?thesis by blast
qed

lemma run_history:
  assumes "run_steps (\<lambda>(clock, input). Assemble clock norder input) calls sv = (outs, sv')"
    "prev_ok (sv_prevRevisions sv) before" "\<forall>c. revision_history (revisions_of c before)"
    "length before + length calls < 2 ^ 62"
  shows "prev_ok (sv_prevRevisions sv') (before @ outs) \<and> (\<forall>c. revision_history (revisions_of c (before @ outs)))"
  using assms
proof (induction calls arbitrary: sv outs before)
  case Nil
  then show ?case by simp
next
  case (Cons call calls)
  obtain clock input where call: "call = (clock, input)" by fastforce
  obtain res err sv1 where step: "Assemble clock norder input sv = ((res, err), sv1)" by (metis prod.collapse)
  obtain outs1 where run: "run_steps (\<lambda>(clock, input). Assemble clock norder input) calls sv1 = (outs1, sv')"
    and outs: "outs = (res, err) # outs1"
    using Cons.prems(1) step by (auto simp: call split: prod.splits)
  have "prev_ok (sv_prevRevisions sv1) (before @ [(res, err)]) \<and>
      (\<forall>c. revision_history (revisions_of c (before @ [(res, err)])))"
    using Assemble_history [OF step Cons.prems(2,3)] Cons.prems(4) by simp
  then show ?case using Cons.IH [OF run, of "before @ [(res, err)]"] Cons.prems(4) outs by simp
qed

section \<open>Properties\<close>

text \<open>
  Revisions count the assemblies of a case. Over any sequence of calls of a new
  service, for whatever cases and with whatever errors in between, the trees handed out for
  one case are numbered 1, 2, 3, ... without a gap, the first has no parent and each other
  one names its predecessor; and the service keeps the last of them.
\<close>

lemma revisions_count_assemblies:
  assumes "sv_prevRevisions sv = Map.empty"
    and "run_steps (\<lambda>(clock, input). Assemble clock norder input) calls sv = (outs, sv')"
    and "length calls < 2 ^ 62"
  shows "revision_history (revisions_of c outs) \<and>
    (case sv_prevRevisions sv' c of
       None \<Rightarrow> revisions_of c outs = []
     | Some t \<Rightarrow> tr_RevisionNumber (t_Revision t) = int (length (revisions_of c outs)))"
proof -
  have "prev_ok (sv_prevRevisions sv) [] \<and> (\<forall>c. revision_history (revisions_of c []))"
    using assms(1) by (simp add: prev_ok_def revisions_of_def revision_history_def List.map_filter_def)
  then have last: "prev_ok (sv_prevRevisions sv') outs \<and> (\<forall>c. revision_history (revisions_of c outs))"
    using run_history [OF assms(2), of "[]"] assms(3) by (metis append_Nil list.size(3) plus_nat.add_0)
  then have "case sv_prevRevisions sv' c of None \<Rightarrow> revisions_of c outs = []
     | Some t \<Rightarrow> tr_CaseID (t_Revision t) = c \<and> revisions_of c outs \<noteq> [] \<and>
        tr_RevisionNumber (t_Revision t) = int (length (revisions_of c outs))"
    unfolding prev_ok_def by blast
  with last show ?thesis by (auto split: option.splits)
qed

definition new_service :: "string TreeAssemblyService" where
  "new_service = \<lparr>sv_Store = Some NewInMemoryGraphStore, sv_Snapshots = Some Map.empty, sv_Conclusions = None,
     sv_Recorder = Some [], sv_prevRevisions = Map.empty\<rparr>"

lemma revisions_count_assemblies_witness:
  "\<exists>outs sv'. run_steps (\<lambda>(clock, input). Assemble clock sorted_nodes input)
       [(\<lambda>i. int i, sample_input), (\<lambda>i. int i, sample_input)] new_service = (outs, sv') \<and>
     revision_history (revisions_of ''c'' outs)"
proof -
  obtain outs sv' where run: "run_steps (\<lambda>(clock, input). Assemble clock sorted_nodes input)
       [(\<lambda>i. int i, sample_input), (\<lambda>i. int i, sample_input)] new_service = (outs, sv')" by fastforce
  have "sv_prevRevisions new_service = Map.empty" by (simp add: new_service_def)
  from revisions_count_assemblies [OF this run] run show ?thesis by simp
qed

text \<open>
  What a snapshot holds. Persisting a valid tree of a case succeeds, and the snapshot
  filed under its revision decodes to the whole case as the store has it afterwards: the
  nodes of the tree without their spans and jurisdictions, every older node of the case
  that the tree does not replace, the older edges before those of the tree; and the
  revision it carries is number 1, whatever the number of the tree.
\<close>

lemma snapshot_is_stored_case:
  assumes "store_inv s" and "norder_ok norder" and "ValidateTree (t_Nodes tree) (t_Edges tree) = []"
    and "distinct (map GetID (t_Nodes tree))" and "t_Nodes tree \<noteq> []" and "c = tr_CaseID (t_Revision tree)"
    and "c \<noteq> []" and "\<forall>n\<in>set (t_Nodes tree). GetID n \<noteq> [] \<and> nd_CaseID (toNode n) = c"
    and "\<forall>n\<in>case_nodes s c. NodeType_IsValid (nd_Type n)" and "\<forall>e\<in>set (EdgesForCase c s). canonical_edge e"
  shows "\<exists>s' data nodes. PersistTree norder tree (s, snaps) =
      (None, s', snaps(\<lparr>sk_CaseID = c, sk_RevisionNumber = tr_RevisionNumber (t_Revision tree)\<rparr> \<mapsto> data)) \<and>
    set nodes = toNode ` set (t_Nodes tree) \<union> {n \<in> case_nodes s c. nd_ID n \<notin> GetID ` set (t_Nodes tree)} \<and>
    UnmarshalTree data = Inr (map toNodeLike nodes, EdgesForCase c s @ t_Edges tree,
      NewInitialRevision c (latestCreatedAt nodes))"
proof -
  let ?ns = "t_Nodes tree" and ?es = "t_Edges tree"
  have clean: "\<forall>e\<in>set ?es. edge_ok (by_ID ?ns) e" "\<forall>n\<in>set ?ns. node_ok n"
    using assms(3) by (simp_all add: ValidateTree_clean)
  obtain s1 where s1: "create_nodes (map toNode ?ns) s = (None, s1)"
    using create_nodes_succeeds [of "map toNode ?ns" s] assms(8) by (auto simp: toNode_def GetID_def)
  then have s1_inv: "store_inv s1" "gs_edges s1 = gs_edges s"
    and s1_nodes: "gs_nodes s1 = fold (\<lambda>n m. m(nd_ID n \<mapsto> n)) (map toNode ?ns) (gs_nodes s)"
    using create_nodes_ok [OF assms(1) s1] by simp_all
  have "in_case (gs_nodes s1) c e" if "e \<in> set ?es" for e
    using edge_ok_in_case [OF bspec [OF clean(1) that], of c "gs_nodes s"] assms(8) by (simp add: s1_nodes)
  then obtain s2 where s2: "create_edges ?es s1 = (None, s2)" "gs_nodes s2 = gs_nodes s1"
      "EdgesForCase c s2 = EdgesForCase c s1 @ ?es" "store_inv s2"
    using create_edges_in_case [of ?es s1 c] s1_inv(1) by blast
  have nodes: "case_nodes s2 c = toNode ` set ?ns \<union> {n \<in> case_nodes s c. nd_ID n \<notin> GetID ` set ?ns}"
    using case_nodes_written [OF assms(1) s1_nodes assms(4)] assms(8) s2(2) by (simp add: case_nodes_def)
  have edges: "EdgesForCase c s2 = EdgesForCase c s @ ?es" using s2(3) s1_inv(2) by (simp add: EdgesForCase_def)
  have "\<forall>n\<in>case_nodes s2 c. NodeType_IsValid (nd_Type n)"
    using assms(9) clean(2) node_ok_type by (auto simp: nodes toNode_def)
  then obtain data where data: "Export norder s2 c = Inr data"
    using Export_succeeds [OF s2(4) assms(2,7)] by blast
  have "case_nodes s2 c \<noteq> {}" using assms(5) by (simp add: nodes)
  moreover have "\<forall>e\<in>set (EdgesForCase c s2). canonical_edge e"
    using assms(10) clean(1) edge_ok_canonical by (auto simp: edges)
  ultimately obtain ns where "set ns = case_nodes s2 c"
      "UnmarshalTree data = Inr (map toNodeLike ns, EdgesForCase c s2, NewInitialRevision c (latestCreatedAt ns))"
    using Export_content [OF s2(4) assms(2) data] by blast
  moreover have "PersistTree norder tree (s, snaps) =
      (None, s2, snaps(\<lparr>sk_CaseID = c, sk_RevisionNumber = tr_RevisionNumber (t_Revision tree)\<rparr> \<mapsto> data))"
    using s1 s2(1) data by (simp add: PersistTree_def PutSnapshot_def assms(6) [symmetric])
  ultimately show ?thesis unfolding nodes edges by blast
qed

definition sample_tree :: Tree where
  "sample_tree =
     \<lparr>t_Nodes = [NewIssueNode ''i'' ''c'' ''breach?'' 1 (9/10) (sample_provenance []) [],
                 NewRuleNode ''r'' ''c'' ''perform'' ''ny'' ''common_law'' 1 (9/10) (sample_provenance [''i'']) []],
      t_Edges = [\<lparr>ed_FromID = ''r'', ed_ToID = ''i'', ed_Type = EdgeGoverns\<rparr>],
      t_Revision = \<lparr>tr_RevisionNumber = 7, tr_CaseID = ''c'', tr_CreatedAt = 3, tr_ParentRevision = Some 6\<rparr>\<rparr>"

lemma snapshot_is_stored_case_witness:
  "\<exists>s' data nodes. PersistTree sorted_nodes sample_tree (NewInMemoryGraphStore, Map.empty) =
      (None, s', [\<lparr>sk_CaseID = ''c'', sk_RevisionNumber = 7\<rparr> \<mapsto> data]) \<and>
    UnmarshalTree data = Inr (nodes, t_Edges sample_tree, NewInitialRevision ''c'' (latestCreatedAt (map toNode nodes)))"
proof -
  have clean: "ValidateTree (t_Nodes sample_tree) (t_Edges sample_tree) = []"
    by (simp add: ValidateTree_clean sample_tree_def sample_defs edge_ok_def by_ID_def GetID_def GetType_def
        IsLegalEdgeTriple_def legalEdgeTriples_def NodeType_IsValid_def)
  have empty: "case_nodes NewInMemoryGraphStore c = {}" "EdgesForCase c NewInMemoryGraphStore = []" for c
    by (simp_all add: case_nodes_def EdgesForCase_def NewInMemoryGraphStore_def)
  have more: "distinct (map GetID (t_Nodes sample_tree))" "t_Nodes sample_tree \<noteq> []"
    "''c'' = tr_CaseID (t_Revision sample_tree)"
    "\<forall>n\<in>set (t_Nodes sample_tree). GetID n \<noteq> [] \<and> nd_CaseID (toNode n) = ''c''"
    by (simp_all add: sample_tree_def sample_defs GetID_def toNode_def)
  have "tr_RevisionNumber (t_Revision sample_tree) = 7" by (simp add: sample_tree_def)
  with snapshot_is_stored_case [OF mem.start(1) sorted_nodes_ok clean more(1-3) _ more(4), of Map.empty]
  show ?thesis by (fastforce simp: empty comp_def)
qed


lemma sample_node_fields [simp]:
  "nd_ID (sample_node k t) = k" "nd_Type (sample_node k t) = t" "nd_CaseID (sample_node k t) = ''c''"
  by (simp_all add: sample_node_def NewNode_def)


end
