(* ===== verification/TreeValidation.thy ===== *)
theory TreeValidation
  imports TreeService
begin

text \<open>
  \<open>packages/treevalidation\<close>: the checks that a reasoning tree passes before it is used, and the
  gate over them. The findings are translated without the texts of their messages.
\<close>

section \<open>Reports\<close>

datatype Severity = SeverityCritical | SeverityWarning | SeverityInfo | OtherSeverity string

record Finding =
  fd_Severity :: Severity
  fd_Code :: string
  fd_NodeID :: string

record Report =
  rp_CaseID :: string
  rp_Findings :: "Finding list"

definition CodeGraphCycle :: string where "CodeGraphCycle = ''graph_cycle''"
definition CodeOrphanNode :: string where "CodeOrphanNode = ''orphan_node''"
definition CodeConclusionNotTraceable :: string where "CodeConclusionNotTraceable = ''conclusion_not_traceable''"
definition CodeMissingSourceSpans :: string where "CodeMissingSourceSpans = ''missing_source_spans''"
definition CodeLowConfidence :: string where "CodeLowConfidence = ''low_confidence''"
definition CodeConfidenceExceedsChain :: string where "CodeConfidenceExceedsChain = ''confidence_exceeds_chain''"
definition CodeJurisdictionMismatch :: string where "CodeJurisdictionMismatch = ''jurisdiction_mismatch''"
definition CodeStructuralIssue :: string where "CodeStructuralIssue = ''structural_issue''"
definition CodeSemanticGap :: string where "CodeSemanticGap = ''semantic_gap''"

definition HasCritical :: "Report \<Rightarrow> bool" where
  "HasCritical r \<longleftrightarrow> (\<exists>f\<in>set (rp_Findings r). fd_Severity f = SeverityCritical)"

definition CountBySeverity :: "Severity \<Rightarrow> Report \<Rightarrow> nat" where
  "CountBySeverity s r = length (filter (\<lambda>f. fd_Severity f = s) (rp_Findings r))"

text \<open>The numbers of the summary: critical, warning, info, total.\<close>

definition Summary :: "Report \<Rightarrow> nat \<times> nat \<times> nat \<times> nat" where
  "Summary r = (CountBySeverity SeverityCritical r, CountBySeverity SeverityWarning r,
     CountBySeverity SeverityInfo r, length (rp_Findings r))"

datatype tv_error = ErrCriticalFindings string nat "nat \<times> nat \<times> nat \<times> nat" | ErrEmptyTree

definition tv_CanFinalize :: "Report \<Rightarrow> bool \<times> tv_error option" where
  "tv_CanFinalize report =
     (if \<not> HasCritical report then (True, None)
      else (False, Some (ErrCriticalFindings (rp_CaseID report) (CountBySeverity SeverityCritical report) (Summary report))))"

section \<open>Cycles\<close>

datatype color = White | Gray | Black

record dfs_state =
  ds_color :: "string \<Rightarrow> color"
  ds_reportedCycleKeys :: "string set"
  ds_findings :: "Finding list"

definition adjacency :: "Edge list \<Rightarrow> string \<Rightarrow> string list" where
  "adjacency edges v =
     sort (map ed_ToID (filter (\<lambda>e. ed_Type e \<noteq> EdgeSupports \<and> ed_FromID e = v) edges))"

text \<open>Go starts the suffix at index 0 when the target is not on the stack.\<close>

definition cyclePortion :: "string list \<Rightarrow> string \<Rightarrow> string list" where
  "cyclePortion stack target =
     (if target \<in> set stack then dropWhile (\<lambda>v. v \<noteq> target) stack else stack) @ [target]"

definition cycleKey :: "string list \<Rightarrow> string" where
  "cycleKey cycle =
     (if length cycle \<le> 1 then ''['' @ concat cycle @ '']''
      else
        let body = butlast cycle;
            minIdx = fold (\<lambda>i m. if body ! i < body ! m then i else m) [0..<length body] 0
        in concat (map (\<lambda>v. v @ ''>'') (drop minIdx body @ take minIdx body)))"

definition report_cycle :: "string list \<Rightarrow> string \<Rightarrow> dfs_state \<Rightarrow> dfs_state" where
  "report_cycle stack next st =
     (let key = cycleKey (cyclePortion stack next)
      in if key \<in> ds_reportedCycleKeys st then st
         else st\<lparr>ds_reportedCycleKeys := insert key (ds_reportedCycleKeys st),
                 ds_findings := ds_findings st @
                   [\<lparr>fd_Severity = SeverityCritical, fd_Code = CodeGraphCycle, fd_NodeID = next\<rparr>]\<rparr>)"

text \<open>The loop of \<open>dfs\<close> over the successors, with the recursive call to \<open>dfs\<close> written out.\<close>

function dfs_loop :: "Edge list \<Rightarrow> string list \<Rightarrow> string list \<Rightarrow> dfs_state \<Rightarrow> dfs_state" where
  "dfs_loop edges [] stack st = st"
| "dfs_loop edges (next # rest) stack st =
     (case ds_color st next of
        White \<Rightarrow>
          (let st = dfs_loop edges (adjacency edges next) (stack @ [next]) (st\<lparr>ds_color := (ds_color st)(next := Gray)\<rparr>)
           in dfs_loop edges rest stack (st\<lparr>ds_color := (ds_color st)(next := Black)\<rparr>))
      | Gray \<Rightarrow> dfs_loop edges rest stack (report_cycle stack next st)
      | Black \<Rightarrow> dfs_loop edges rest stack st)"
  by pat_completeness auto

lemma report_cycle_color [simp]: "ds_color (report_cycle stack next st) = ds_color st"
  by (simp add: report_cycle_def Let_def)

definition whites :: "dfs_state \<Rightarrow> string set" where
  "whites st = {v. ds_color st v = White}"

lemma dfs_loop_whites: "dfs_loop_dom (edges, ws, stack, st) \<Longrightarrow> whites (dfs_loop edges ws stack st) \<subseteq> whites st"
proof (induction edges ws stack st rule: dfs_loop.pinduct)
  case (1 edges stack st)
  then show ?case by (simp add: dfs_loop.psimps)
next
  case (2 edges v rest stack st)
  show ?case
  proof (cases "ds_color st v")
    case White
    let ?st = "dfs_loop edges (adjacency edges v) (stack @ [v]) (st\<lparr>ds_color := (ds_color st)(v := Gray)\<rparr>)"
    let ?st' = "?st\<lparr>ds_color := (ds_color ?st)(v := Black)\<rparr>"
    have "whites ?st' \<subseteq> whites ?st" by (auto simp: whites_def)
    also have "\<dots> \<subseteq> whites (st\<lparr>ds_color := (ds_color st)(v := Gray)\<rparr>)" by (rule "2.IH"(1) [OF White])
    also have "\<dots> \<subseteq> whites st" by (auto simp: whites_def)
    finally show ?thesis
      using "2.IH"(2) [OF White refl] "2.hyps" White by (simp add: dfs_loop.psimps Let_def)
  next
    case Gray
    then show ?thesis using "2.IH"(3) "2.hyps" by (simp add: dfs_loop.psimps whites_def)
  next
    case Black
    then show ?thesis using "2.IH"(4) "2.hyps" by (simp add: dfs_loop.psimps)
  qed
qed

lemma set_adjacency: "set (adjacency edges v) = {ed_ToID e | e. e \<in> set edges \<and> ed_Type e \<noteq> EdgeSupports \<and> ed_FromID e = v}"
  by (auto simp: adjacency_def)

text \<open>The search ends: each call either turns a node that can be met grey, or shortens the loop.\<close>

definition still_white :: "Edge list \<Rightarrow> string list \<Rightarrow> dfs_state \<Rightarrow> string set" where
  "still_white edges ws st = (ed_ToID ` set edges \<union> set ws) \<inter> whites st"

lemma still_white_mono:
  "set ws' \<subseteq> ed_ToID ` set edges \<union> set ws \<Longrightarrow> whites st' \<subseteq> whites st \<Longrightarrow>
     card (still_white edges ws' st') \<le> card (still_white edges ws st)"
  by (rule card_mono) (auto simp: still_white_def)

lemma still_white_less:
  assumes "set ws' \<subseteq> ed_ToID ` set edges \<union> set ws" "whites st' \<subseteq> whites st - {v}" "v \<in> set ws" "v \<in> whites st"
  shows "card (still_white edges ws' st') < card (still_white edges ws st)"
  by (rule psubset_card_mono) (use assms in \<open>auto simp: still_white_def\<close>)

termination dfs_loop
proof (relation "measures [\<lambda>(edges, ws, stack, st). card (still_white edges ws st), \<lambda>(edges, ws, stack, st). length ws]",
    goal_cases)
  case 1
  then show ?case by simp
next
  case (2 edges v rest stack st)
  then have "card (still_white edges (adjacency edges v) (st\<lparr>ds_color := (ds_color st)(v := Gray)\<rparr>)) <
      card (still_white edges (v # rest) st)"
    by (intro still_white_less [of _ _ _ _ _ v]) (auto simp: set_adjacency whites_def)
  then show ?case by simp
next
  case (3 edges v rest stack st st')
  then have "whites (st'\<lparr>ds_color := (ds_color st')(v := Black)\<rparr>) \<subseteq> whites st - {v}"
    using dfs_loop_whites by (fastforce simp: whites_def split: if_splits)
  with 3 have "card (still_white edges rest (st'\<lparr>ds_color := (ds_color st')(v := Black)\<rparr>)) <
      card (still_white edges (v # rest) st)"
    by (intro still_white_less [of _ _ _ _ _ v]) (auto simp: whites_def)
  then show ?case by simp
next
  case (4 edges v rest stack st)
  have "card (still_white edges rest (report_cycle stack v st)) \<le> card (still_white edges (v # rest) st)"
    by (rule still_white_mono) (auto simp: whites_def)
  then show ?case by auto
next
  case (5 edges v rest stack st)
  have "card (still_white edges rest st) \<le> card (still_white edges (v # rest) st)"
    by (rule still_white_mono) (auto simp: whites_def)
  then show ?case by auto
qed

text \<open>\<open>dfs\<close> of the code, and the loop over the nodes that starts it with an empty stack.\<close>

definition dfs :: "Edge list \<Rightarrow> string \<Rightarrow> string list \<Rightarrow> dfs_state \<Rightarrow> dfs_state" where
  "dfs edges nodeID stack st =
     (let st = dfs_loop edges (adjacency edges nodeID) (stack @ [nodeID])
                 (st\<lparr>ds_color := (ds_color st)(nodeID := Gray)\<rparr>)
      in st\<lparr>ds_color := (ds_color st)(nodeID := Black)\<rparr>)"

definition search :: "Tree \<Rightarrow> dfs_state" where
  "search tree =
     fold (\<lambda>n st. if ds_color st (GetID n) = White then dfs (t_Edges tree) (GetID n) [] st else st) (t_Nodes tree)
       \<lparr>ds_color = (\<lambda>_. White), ds_reportedCycleKeys = {}, ds_findings = []\<rparr>"

definition DetectCycles :: "Tree \<Rightarrow> Finding list" where
  "DetectCycles tree = ds_findings (search tree)"

section \<open>The other checks\<close>

text \<open>The set a map from node ID to edge targets holds for an ID; Go iterates it in any order.\<close>

definition targets :: "EdgeType \<Rightarrow> Edge list \<Rightarrow> string \<Rightarrow> string list" where
  "targets t edges v = map ed_ToID (filter (\<lambda>e. ed_Type e = t \<and> ed_FromID e = v) edges)"

definition critical :: "string \<Rightarrow> string \<Rightarrow> Finding" where
  "critical code nodeID = \<lparr>fd_Severity = SeverityCritical, fd_Code = code, fd_NodeID = nodeID\<rparr>"

definition warning :: "string \<Rightarrow> string \<Rightarrow> Finding" where
  "warning code nodeID = \<lparr>fd_Severity = SeverityWarning, fd_Code = code, fd_NodeID = nodeID\<rparr>"

text \<open>The IDs that a conclusion reaches over \<open>concludes_from\<close> and \<open>applies_to\<close>.\<close>

definition applied :: "Edge list \<Rightarrow> string \<Rightarrow> string list" where
  "applied edges conclusionID =
     concat (map (targets EdgeAppliesTo edges) (targets EdgeConcludesFrom edges conclusionID))"

definition reaches :: "Tree \<Rightarrow> string \<Rightarrow> NodeType \<Rightarrow> bool" where
  "reaches tree conclusionID t \<longleftrightarrow>
     (\<exists>targetID\<in>set (applied (t_Edges tree) conclusionID).
        map_option GetType (by_ID (t_Nodes tree) targetID) = Some t)"

definition CheckConclusionTraceability :: "Tree \<Rightarrow> Finding list" where
  "CheckConclusionTraceability tree =
     concat (map (\<lambda>n. case n of
         ConclusionNode _ _ _ \<Rightarrow>
           (if \<not> reaches tree (GetID n) NodeFact \<or> \<not> reaches tree (GetID n) NodeRule
            then [critical CodeConclusionNotTraceable (GetID n)] else [])
       | _ \<Rightarrow> []) (t_Nodes tree))"

definition DetectOrphans :: "Tree \<Rightarrow> Finding list" where
  "DetectOrphans tree =
     (let connected = ed_FromID ` set (t_Edges tree) \<union> ed_ToID ` set (t_Edges tree)
      in map (\<lambda>n. critical CodeOrphanNode (GetID n)) (filter (\<lambda>n. GetID n \<notin> connected) (t_Nodes tree)))"

fun nodeSpans :: "NodeLike \<Rightarrow> SourceSpan list option" where
  "nodeSpans (BareNode n) = None"
| "nodeSpans n = Some (spans_of n)"

fun nodeConfidence :: "NodeLike \<Rightarrow> rat option" where
  "nodeConfidence (BareNode n) = None"
| "nodeConfidence n = Some (nd_Confidence (node_of n))"

definition FlagUnsupportedClaims :: "rat \<Rightarrow> Tree \<Rightarrow> Finding list" where
  "FlagUnsupportedClaims confidenceThreshold tree =
     concat (map (\<lambda>n.
         (case nodeSpans n of Some [] \<Rightarrow> [warning CodeMissingSourceSpans (GetID n)] | _ \<Rightarrow> []) @
         (case nodeConfidence n of
            Some c \<Rightarrow> if c < confidenceThreshold then [warning CodeLowConfidence (GetID n)] else []
          | None \<Rightarrow> [])) (t_Nodes tree))"

text \<open>The confidences found along the chain of a conclusion: its applications and what they apply.\<close>

definition chain_confidences :: "Tree \<Rightarrow> string \<Rightarrow> rat list" where
  "chain_confidences tree conclusionID =
     (let conf = (\<lambda>k. case by_ID (t_Nodes tree) k of None \<Rightarrow> None | Some n \<Rightarrow> nodeConfidence n)
      in concat (map (\<lambda>appID. List.map_filter conf (appID # targets EdgeAppliesTo (t_Edges tree) appID))
           (targets EdgeConcludesFrom (t_Edges tree) conclusionID)))"

definition CheckConfidencePropagation :: "Tree \<Rightarrow> Finding list" where
  "CheckConfidencePropagation tree =
     concat (map (\<lambda>n. case n of
         ConclusionNode v _ _ \<Rightarrow>
           (case chain_confidences tree (GetID n) of
              [] \<Rightarrow> []
            | c # cs \<Rightarrow> if nd_Confidence v > fold min cs c then [critical CodeConfidenceExceedsChain (GetID n)] else [])
       | _ \<Rightarrow> []) (t_Nodes tree))"

definition CheckJurisdictionConsistency :: "string \<Rightarrow> string list \<Rightarrow> Tree \<Rightarrow> Finding list" where
  "CheckJurisdictionConsistency caseJurisdictionCode allowedOverrides tree =
     (if caseJurisdictionCode = [] then []
      else concat (map (\<lambda>n. case n of
         RuleNode _ jurisdictionCode _ _ \<Rightarrow>
           (if jurisdictionCode = caseJurisdictionCode then []
            else if jurisdictionCode \<in> set allowedOverrides then []
            else [critical CodeJurisdictionMismatch (GetID n)])
       | _ \<Rightarrow> []) (t_Nodes tree)))"

section \<open>The gate\<close>

record TreeValidationService =
  tv_CaseJurisdictionCode :: string
  tv_AllowedJurisdictionOverrides :: "string list"
  tv_ConfidenceThreshold :: rat

definition DefaultConfidenceThreshold :: rat where "DefaultConfidenceThreshold = 1 / 2"

fun caseIDOf :: "NodeLike list \<Rightarrow> string" where
  "caseIDOf [] = []"
| "caseIDOf (BareNode _ # ns) = caseIDOf ns"
| "caseIDOf (n # ns) = nd_CaseID (node_of n)"

definition all_findings :: "TreeValidationService \<Rightarrow> Tree \<Rightarrow> Finding list" where
  "all_findings s tree =
     map (\<lambda>issue. critical CodeStructuralIssue (vi_NodeID issue)) (ValidateIntegrity (Some tree)) @
     map (\<lambda>gap. warning CodeSemanticGap (gp_NodeID gap)) (DetectGaps (Some tree)) @
     CheckConclusionTraceability tree @ DetectOrphans tree @ DetectCycles tree @
     (let threshold = (if tv_ConfidenceThreshold s = 0 then DefaultConfidenceThreshold else tv_ConfidenceThreshold s)
      in FlagUnsupportedClaims threshold tree) @
     CheckConfidencePropagation tree @
     (if tv_CaseJurisdictionCode s \<noteq> []
      then CheckJurisdictionConsistency (tv_CaseJurisdictionCode s) (tv_AllowedJurisdictionOverrides s) tree else [])"

definition Validate :: "TreeValidationService \<Rightarrow> Tree \<Rightarrow> Report \<times> tv_error option" where
  "Validate s tree =
     (let caseID = caseIDOf (t_Nodes tree)
      in if t_Nodes tree = [] then (\<lparr>rp_CaseID = caseID, rp_Findings = []\<rparr>, Some ErrEmptyTree)
         else
           let report = \<lparr>rp_CaseID = caseID, rp_Findings = all_findings s tree\<rparr>
           in (case tv_CanFinalize report of (True, _) \<Rightarrow> (report, None) | (False, err) \<Rightarrow> (report, err)))"

section \<open>Lemmas on the search\<close>

definition flow :: "Edge list \<Rightarrow> string rel" where
  "flow edges = {(ed_FromID e, ed_ToID e) | e. e \<in> set edges \<and> ed_Type e \<noteq> EdgeSupports}"

lemma adjacency_flow: "w \<in> set (adjacency edges v) \<longleftrightarrow> (v, w) \<in> flow edges"
  by (auto simp: set_adjacency flow_def)

text \<open>
  What holds whenever the search runs its loop: the stack is a path and its members are the
  grey nodes; \<open>S\<close> holds what is met; finished nodes lead only to met ones; every finding is
  on a cycle; and while there is none, no finished node leads into a cycle.
\<close>

definition dfs_inv :: "Edge list \<Rightarrow> string set \<Rightarrow> string list \<Rightarrow> dfs_state \<Rightarrow> bool" where
  "dfs_inv edges S stack st \<longleftrightarrow>
     successively (\<lambda>v w. (v, w) \<in> flow edges) stack \<and> set stack = {v. ds_color st v = Gray} \<and>
     {v. ds_color st v \<noteq> White} \<subseteq> S \<and>
     (\<forall>v w. ds_color st v = Black \<longrightarrow> (v, w) \<in> flow edges \<longrightarrow> ds_color st w \<noteq> White) \<and>
     (\<forall>f\<in>set (ds_findings st). fd_NodeID f \<in> S \<and> (fd_NodeID f, fd_NodeID f) \<in> (flow edges)\<^sup>+ \<and>
        fd_Severity f = SeverityCritical \<and> fd_Code f = CodeGraphCycle) \<and>
     (ds_findings st = [] \<longleftrightarrow> ds_reportedCycleKeys st = {}) \<and>
     (ds_findings st = [] \<longrightarrow> (\<forall>v. ds_color st v = Black \<longrightarrow> v \<in> Wellfounded.acc ((flow edges)\<inverse>)))"

lemma successively_trancl:
  "successively (\<lambda>v w. (v, w) \<in> r) (x # xs) \<Longrightarrow> y \<in> set xs \<Longrightarrow> (x, y) \<in> r\<^sup>+"
proof (induction xs arbitrary: x)
  case Nil
  then show ?case by simp
next
  case (Cons z xs)
  then have "(x, z) \<in> r" "successively (\<lambda>v w. (v, w) \<in> r) (z # xs)" by auto
  with Cons show ?case by (cases "y = z") (auto intro: trancl_into_trancl2)
qed

lemma stack_cycle:
  assumes "successively (\<lambda>v w. (v, w) \<in> r) stack" "next \<in> set stack" "(last stack, next) \<in> r"
  shows "(next, next) \<in> r\<^sup>+"
proof -
  obtain as bs where stack: "stack = as @ next # bs" using assms(2) by (meson split_list)
  have path: "successively (\<lambda>v w. (v, w) \<in> r) (next # bs)"
    using assms(1) by (simp add: stack successively_append_iff)
  show ?thesis
  proof (cases "bs = []")
    case True
    then show ?thesis using assms(3) stack by auto
  next
    case False
    then have "(next, last bs) \<in> r\<^sup>+" using successively_trancl [OF path] by simp
    then show ?thesis using assms(3) False stack by (simp add: trancl_into_trancl)
  qed
qed

lemma dfs_inv_report:
  assumes "dfs_inv edges S stack st" "next \<in> set stack" "(last stack, next) \<in> flow edges" "next \<in> S"
  shows "dfs_inv edges S stack (report_cycle stack next st) \<and> ds_findings (report_cycle stack next st) \<noteq> []"
  using assms stack_cycle [OF _ assms(2,3)] by (auto simp: dfs_inv_def report_cycle_def Let_def)

lemma dfs_inv_stack: "dfs_inv edges S stack st \<Longrightarrow> set stack \<subseteq> S"
proof
  fix v assume "dfs_inv edges S stack st" "v \<in> set stack"
  then have "ds_color st v = Gray" "{v. ds_color st v \<noteq> White} \<subseteq> S" by (simp_all add: dfs_inv_def)
  then show "v \<in> S" by (simp add: subset_iff)
qed

text \<open>Entering a white node, and leaving it when its successors are done.\<close>

lemma dfs_inv_enter:
  assumes "dfs_inv edges S stack st" "ds_color st v = White" "v \<in> S" "stack \<noteq> [] \<longrightarrow> (last stack, v) \<in> flow edges"
  shows "dfs_inv edges S (stack @ [v]) (st\<lparr>ds_color := (ds_color st)(v := Gray)\<rparr>)"
  using assms by (cases "stack = []") (auto simp: dfs_inv_def successively_append_iff)

lemma dfs_inv_leave:
  assumes "dfs_inv edges S (stack @ [v]) st" "v \<notin> set stack"
    "\<forall>w\<in>set (adjacency edges v). ds_color st w \<noteq> White \<and> (ds_findings st = [] \<longrightarrow> ds_color st w = Black)"
  shows "dfs_inv edges S stack (st\<lparr>ds_color := (ds_color st)(v := Black)\<rparr>)"
proof -
  have path: "successively (\<lambda>v w. (v, w) \<in> flow edges) stack"
    using assms(1) by (simp add: dfs_inv_def successively_append_iff)
  have gray: "set stack = {w. ((ds_color st)(v := Black)) w = Gray}"
    using assms(1,2) by (auto simp: dfs_inv_def)
  have "v \<in> Wellfounded.acc ((flow edges)\<inverse>)" if "ds_findings st = []"
  proof (rule accp.accI [to_set])
    fix w assume "(w, v) \<in> (flow edges)\<inverse>"
    then have "ds_color st w = Black" using assms(3) that by (auto simp: adjacency_flow)
    then show "w \<in> Wellfounded.acc ((flow edges)\<inverse>)" using assms(1) that by (simp add: dfs_inv_def)
  qed
  moreover have "{w. ((ds_color st)(v := Black)) w \<noteq> White} \<subseteq> S"
    using dfs_inv_stack [OF assms(1)] assms(1) by (auto simp: dfs_inv_def)
  moreover have "((ds_color st)(v := Black)) w \<noteq> White"
    if "((ds_color st)(v := Black)) u = Black" "(u, w) \<in> flow edges" for u w
    using that assms(1,3) by (cases "u = v") (auto simp: dfs_inv_def adjacency_flow)
  ultimately show ?thesis
    using assms(1) path gray by (simp add: dfs_inv_def)
qed

text \<open>What a run of the loop leaves: nothing grey or black changes, and its nodes are met.\<close>

definition dfs_post :: "dfs_state \<Rightarrow> string list \<Rightarrow> dfs_state \<Rightarrow> bool" where
  "dfs_post st ws st' \<longleftrightarrow>
     (\<forall>v. ds_color st v \<noteq> White \<longrightarrow> ds_color st' v = ds_color st v) \<and>
     (ds_findings st' = [] \<longrightarrow> ds_findings st = []) \<and>
     (\<forall>w\<in>set ws. ds_color st' w \<noteq> White \<and> (ds_findings st' = [] \<longrightarrow> ds_color st' w = Black))"

lemma dfs_loop_ok:
  assumes "dfs_inv edges S stack st" "\<forall>w\<in>set ws. (last stack, w) \<in> flow edges" "stack \<noteq> []" "flow edges `` S \<subseteq> S"
  shows "dfs_inv edges S stack (dfs_loop edges ws stack st) \<and> dfs_post st ws (dfs_loop edges ws stack st)"
  using assms
proof (induction edges ws stack st rule: dfs_loop.induct)
  case (1 edges stack st)
  then show ?case by (simp add: dfs_post_def)
next
  case (2 edges v rest stack st)
  have "last stack \<in> S" using dfs_inv_stack [OF "2.prems"(1)] last_in_set [OF "2.prems"(3)] by blast
  then have v: "v \<in> S" "(last stack, v) \<in> flow edges" using "2.prems"(2,4) by auto
  show ?case
  proof (cases "ds_color st v")
    case White
    let ?st1 = "st\<lparr>ds_color := (ds_color st)(v := Gray)\<rparr>"
    let ?st2 = "dfs_loop edges (adjacency edges v) (stack @ [v]) ?st1"
    let ?st3 = "?st2\<lparr>ds_color := (ds_color ?st2)(v := Black)\<rparr>"
    have inner: "dfs_inv edges S (stack @ [v]) ?st2" "dfs_post ?st1 (adjacency edges v) ?st2"
      using "2.IH"(1) [OF White dfs_inv_enter [OF "2.prems"(1) White v(1)]] v "2.prems"(4)
      by (simp_all add: adjacency_flow)
    have "v \<notin> set stack" using "2.prems"(1) White by (auto simp: dfs_inv_def)
    then have "dfs_inv edges S stack ?st3"
      using dfs_inv_leave [OF inner(1)] inner(2) by (simp add: dfs_post_def)
    then have "dfs_inv edges S stack (dfs_loop edges rest stack ?st3) \<and> dfs_post ?st3 rest (dfs_loop edges rest stack ?st3)"
      using "2.IH"(2) [OF White refl] "2.prems" by simp
    moreover have "dfs_loop edges (v # rest) stack st = dfs_loop edges rest stack ?st3"
      using White by (simp add: Let_def)
    ultimately show ?thesis
      using inner(2) White by (auto simp: dfs_post_def split: if_splits)
  next
    case Gray
    then have "v \<in> set stack" using "2.prems"(1) by (auto simp: dfs_inv_def)
    then have "dfs_inv edges S stack (report_cycle stack v st)" "ds_findings (report_cycle stack v st) \<noteq> []"
      using dfs_inv_report [OF "2.prems"(1) _ v(2,1)] by blast+
    then show ?thesis using "2.IH"(3) [OF Gray] "2.prems" Gray by (auto simp: dfs_post_def)
  next
    case Black
    then show ?thesis using "2.IH"(4) [OF Black] "2.prems" by (auto simp: dfs_post_def)
  qed
qed

lemma dfs_ok:
  assumes "dfs_inv edges S [] st" "ds_color st v = White" "v \<in> S" "flow edges `` S \<subseteq> S"
  shows "dfs_inv edges S [] (dfs edges v [] st) \<and> dfs_post st [v] (dfs edges v [] st)"
proof -
  let ?st1 = "st\<lparr>ds_color := (ds_color st)(v := Gray)\<rparr>"
  have "dfs_inv edges S [v] ?st1" using dfs_inv_enter [OF assms(1-3)] by simp
  then have "dfs_inv edges S [v] (dfs_loop edges (adjacency edges v) [v] ?st1)"
    "dfs_post ?st1 (adjacency edges v) (dfs_loop edges (adjacency edges v) [v] ?st1)"
    using dfs_loop_ok [of edges S "[v]" ?st1 "adjacency edges v"] assms(4) by (auto simp: adjacency_flow)
  then show ?thesis
    using dfs_inv_leave [of edges S "[]" v] assms(2) by (auto simp: dfs_def dfs_post_def Let_def)
qed

lemma dfs_post_trans: "dfs_post st ws st1 \<Longrightarrow> dfs_post st1 ws' st2 \<Longrightarrow> dfs_post st (ws @ ws') st2"
  by (auto simp: dfs_post_def)

lemma fold_dfs_ok:
  assumes "dfs_inv edges S [] st" "GetID ` set ns \<subseteq> S" "flow edges `` S \<subseteq> S"
  shows "dfs_inv edges S [] (fold (\<lambda>n st. if ds_color st (GetID n) = White then dfs edges (GetID n) [] st else st) ns st) \<and>
    dfs_post st (map GetID ns) (fold (\<lambda>n st. if ds_color st (GetID n) = White then dfs edges (GetID n) [] st else st) ns st)"
  using assms(1,2)
proof (induction ns arbitrary: st)
  case Nil
  then show ?case by (simp add: dfs_post_def)
next
  case (Cons n ns)
  let ?st = "if ds_color st (GetID n) = White then dfs edges (GetID n) [] st else st"
  have "ds_color st (GetID n) \<noteq> Gray" using Cons.prems(1) by (auto simp: dfs_inv_def)
  then have "dfs_inv edges S [] ?st \<and> dfs_post st [GetID n] ?st"
    using dfs_ok [OF Cons.prems(1) _ _ assms(3), of "GetID n"] Cons.prems
    by (cases "ds_color st (GetID n)") (auto simp: dfs_post_def)
  then show ?case
    using Cons.IH [of ?st] Cons.prems(2) dfs_post_trans [of st "[GetID n]" ?st "map GetID ns"] by simp
qed

text \<open>The nodes that a tree leads to.\<close>

definition reached :: "Tree \<Rightarrow> string set" where
  "reached tree = (flow (t_Edges tree))\<^sup>* `` (GetID ` set (t_Nodes tree))"

lemma search_ok:
  "dfs_inv (t_Edges tree) (reached tree) [] (search tree)"
  "n \<in> set (t_Nodes tree) \<Longrightarrow> ds_color (search tree) (GetID n) \<noteq> White"
proof -
  let ?st = "\<lparr>ds_color = (\<lambda>_. White), ds_reportedCycleKeys = {}, ds_findings = []\<rparr>"
  have "dfs_inv (t_Edges tree) (reached tree) [] ?st" by (simp add: dfs_inv_def)
  moreover have "GetID ` set (t_Nodes tree) \<subseteq> reached tree" by (auto simp: reached_def)
  moreover have "flow (t_Edges tree) `` reached tree \<subseteq> reached tree"
    by (auto simp: reached_def intro: rtrancl_into_rtrancl)
  ultimately have "dfs_inv (t_Edges tree) (reached tree) [] (search tree) \<and>
      dfs_post ?st (map GetID (t_Nodes tree)) (search tree)"
    unfolding search_def by (rule fold_dfs_ok)
  then show "dfs_inv (t_Edges tree) (reached tree) [] (search tree)"
    "n \<in> set (t_Nodes tree) \<Longrightarrow> ds_color (search tree) (GetID n) \<noteq> White"
    by (auto simp: dfs_post_def)
qed

lemma search_black:
  assumes "v \<in> reached tree"
  shows "ds_color (search tree) v = Black"
proof -
  obtain n where n: "n \<in> set (t_Nodes tree)" "(GetID n, v) \<in> (flow (t_Edges tree))\<^sup>*"
    using assms by (auto simp: reached_def)
  have black: "ds_color (search tree) w \<noteq> White \<Longrightarrow> ds_color (search tree) w = Black" for w
    using search_ok(1) [of tree] by (cases "ds_color (search tree) w") (auto simp: dfs_inv_def)
  from n(2) show ?thesis
  proof induction
    case base
    then show ?case using black search_ok(2) n(1) by blast
  next
    case (step u w)
    then show ?case using black search_ok(1) [of tree] unfolding dfs_inv_def by blast
  qed
qed

lemma acc_no_cycle:
  assumes "v \<in> Wellfounded.acc (r\<inverse>)"
  shows "(v, v) \<notin> r\<^sup>+"
proof
  assume cycle: "(v, v) \<in> r\<^sup>+"
  from assms have "\<forall>w. (w, w) \<in> r\<^sup>+ \<longrightarrow> w \<noteq> v"
  proof (rule acc_induct_rule)
    fix v assume IH: "\<And>u. (u, v) \<in> r\<inverse> \<Longrightarrow> \<forall>w. (w, w) \<in> r\<^sup>+ \<longrightarrow> w \<noteq> u"
    show "\<forall>w. (w, w) \<in> r\<^sup>+ \<longrightarrow> w \<noteq> v"
    proof (intro allI impI notI)
      fix w assume "(w, w) \<in> r\<^sup>+" "w = v"
      then obtain u where "(v, u) \<in> r" "(u, v) \<in> r\<^sup>*" by (auto dest: tranclD)
      then have "(u, u) \<in> r\<^sup>+" by (simp add: rtrancl_into_trancl1)
      with IH [of u] \<open>(v, u) \<in> r\<close> show False by blast
    qed
  qed
  with cycle show False by blast
qed

section \<open>Properties of the search\<close>

text \<open>
  C17: The search covers what the tree leads to. It ends for every tree, whatever its edges
  and however many cycles they make, with each ID that a node leads to explored and left,
  and every other ID never touched.
\<close>

theorem search_covers:
  "ds_color (search tree) v = (if v \<in> reached tree then Black else White)"
proof (cases "v \<in> reached tree")
  case True
  then show ?thesis by (simp add: search_black)
next
  case False
  then show ?thesis using search_ok(1) [of tree] by (auto simp: dfs_inv_def)
qed

text \<open>
  C16: Cycle detection is exact. A finding is on a cycle of edges other than \<open>supports\<close>, one
  that a node of the tree leads to, and it is critical; and there is a finding as soon as
  there is such a cycle: the deduplication by key never hides the last one.
\<close>

theorem cycles_exact:
  "(\<forall>f\<in>set (DetectCycles tree). fd_Severity f = SeverityCritical \<and> fd_Code f = CodeGraphCycle \<and>
      fd_NodeID f \<in> reached tree \<and> (fd_NodeID f, fd_NodeID f) \<in> (flow (t_Edges tree))\<^sup>+) \<and>
   (DetectCycles tree = [] \<longleftrightarrow> \<not> (\<exists>v\<in>reached tree. (v, v) \<in> (flow (t_Edges tree))\<^sup>+))"
proof -
  note inv = search_ok(1) [of tree, unfolded dfs_inv_def]
  have found: "\<forall>f\<in>set (DetectCycles tree). fd_Severity f = SeverityCritical \<and> fd_Code f = CodeGraphCycle \<and>
      fd_NodeID f \<in> reached tree \<and> (fd_NodeID f, fd_NodeID f) \<in> (flow (t_Edges tree))\<^sup>+"
    using inv by (simp add: DetectCycles_def)
  have "(v, v) \<notin> (flow (t_Edges tree))\<^sup>+" if "DetectCycles tree = []" "v \<in> reached tree" for v
  proof (rule acc_no_cycle)
    show "v \<in> Wellfounded.acc ((flow (t_Edges tree))\<inverse>)"
      using inv that search_black [OF that(2)] by (simp add: DetectCycles_def)
  qed
  then have "DetectCycles tree = [] \<longleftrightarrow> \<not> (\<exists>v\<in>reached tree. (v, v) \<in> (flow (t_Edges tree))\<^sup>+)"
    using found by (cases "DetectCycles tree") auto
  with found show ?thesis by blast
qed

text \<open>Two rules that govern each other.\<close>

definition cyclic_tree :: Tree where
  "cyclic_tree =
     \<lparr>t_Nodes = [NewRuleNode ''r'' ''c'' ''perform'' ''ny'' ''common_law'' 1 (9/10) (sample_provenance []) [],
                 NewRuleNode ''s'' ''c'' ''pay'' ''ny'' ''common_law'' 1 (9/10) (sample_provenance []) []],
      t_Edges = [edge ''r'' ''s'' EdgeGoverns, edge ''s'' ''r'' EdgeGoverns],
      t_Revision = NewInitialRevision ''c'' 2\<rparr>"

theorem cycles_exact_witness:
  "DetectCycles cyclic_tree \<noteq> [] \<and> fd_Severity (hd (DetectCycles cyclic_tree)) = SeverityCritical"
proof -
  have "(''r'', ''s'') \<in> flow (t_Edges cyclic_tree)" "(''s'', ''r'') \<in> flow (t_Edges cyclic_tree)"
    unfolding flow_def cyclic_tree_def by force+
  then have "(''r'', ''r'') \<in> (flow (t_Edges cyclic_tree))\<^sup>+" by (rule trancl_into_trancl2 [OF _ r_into_trancl])
  moreover have "''r'' \<in> reached cyclic_tree"
    by (auto simp: reached_def cyclic_tree_def sample_defs GetID_def Image_iff)
  ultimately have "DetectCycles cyclic_tree \<noteq> []" using cycles_exact [of cyclic_tree] by blast
  then show ?thesis using cycles_exact [of cyclic_tree] by simp
qed

section \<open>Lemmas on the checks\<close>

lemma critical_simps [simp]:
  "fd_Severity (critical code k) = SeverityCritical" "fd_Severity (warning code k) = SeverityWarning"
  by (simp_all add: critical_def warning_def)

definition is_critical :: "Finding \<Rightarrow> bool" where
  "is_critical f \<longleftrightarrow> fd_Severity f = SeverityCritical"

text \<open>What it takes for each list to have no critical finding.\<close>

definition traced :: "Tree \<Rightarrow> NodeLike \<Rightarrow> bool" where
  "traced tree n \<longleftrightarrow> reaches tree (GetID n) NodeFact \<and> reaches tree (GetID n) NodeRule"

definition on_edge :: "Tree \<Rightarrow> NodeLike \<Rightarrow> bool" where
  "on_edge tree n \<longleftrightarrow> (\<exists>e\<in>set (t_Edges tree). ed_FromID e = GetID n \<or> ed_ToID e = GetID n)"

definition modest :: "Tree \<Rightarrow> NodeLike \<Rightarrow> bool" where
  "modest tree n \<longleftrightarrow> (\<forall>c\<in>set (chain_confidences tree (GetID n)). nd_Confidence (node_of n) \<le> c)"

fun at_home :: "TreeValidationService \<Rightarrow> NodeLike \<Rightarrow> bool" where
  "at_home s (RuleNode _ jurisdictionCode _ _) \<longleftrightarrow> tv_CaseJurisdictionCode s = [] \<or>
     jurisdictionCode = tv_CaseJurisdictionCode s \<or> jurisdictionCode \<in> set (tv_AllowedJurisdictionOverrides s)"
| "at_home s n \<longleftrightarrow> True"

definition is_conclusion_node :: "NodeLike \<Rightarrow> bool" where
  "is_conclusion_node n = (case n of ConclusionNode _ _ _ \<Rightarrow> True | _ \<Rightarrow> False)"

lemma bex_concat: "(\<exists>f\<in>set (concat (map g ns)). P f) \<longleftrightarrow> (\<exists>n\<in>set ns. \<exists>f\<in>set (g n). P f)"
  by simp

lemma fold_min_le: "x \<le> fold min cs (c :: rat) \<longleftrightarrow> (\<forall>d\<in>set (c # cs). x \<le> d)"
  by (induction cs arbitrary: c) auto

lemma no_critical_traceability:
  "(\<exists>f\<in>set (CheckConclusionTraceability tree). is_critical f) \<longleftrightarrow>
     (\<exists>n\<in>set (t_Nodes tree). is_conclusion_node n \<and> \<not> traced tree n)"
  by (fastforce simp: CheckConclusionTraceability_def is_critical_def is_conclusion_node_def traced_def
      split: NodeLike.splits if_splits)

lemma no_critical_orphans:
  "(\<exists>f\<in>set (DetectOrphans tree). is_critical f) \<longleftrightarrow> (\<exists>n\<in>set (t_Nodes tree). \<not> on_edge tree n)"
proof -
  have "on_edge tree n \<longleftrightarrow> GetID n \<in> ed_FromID ` set (t_Edges tree) \<union> ed_ToID ` set (t_Edges tree)" for n
    unfolding on_edge_def Un_iff image_iff by metis
  then show ?thesis by (auto simp: DetectOrphans_def is_critical_def Let_def)
qed

lemma no_critical_unsupported: "\<not> (\<exists>f\<in>set (FlagUnsupportedClaims t tree). is_critical f)"
  by (auto simp: FlagUnsupportedClaims_def is_critical_def split: option.splits list.splits if_splits)

lemma no_critical_cycles: "(\<exists>f\<in>set (DetectCycles tree). is_critical f) \<longleftrightarrow> DetectCycles tree \<noteq> []"
proof -
  have "\<forall>f\<in>set (DetectCycles tree). is_critical f"
    using search_ok(1) [of tree] by (simp add: dfs_inv_def DetectCycles_def is_critical_def)
  then show ?thesis by (cases "DetectCycles tree") auto
qed

lemma no_critical_propagation:
  "(\<exists>f\<in>set (CheckConfidencePropagation tree). is_critical f) \<longleftrightarrow>
     (\<exists>n\<in>set (t_Nodes tree). is_conclusion_node n \<and> \<not> modest tree n)"
proof -
  have "(\<exists>f\<in>set (case n of ConclusionNode v _ _ \<Rightarrow>
           (case chain_confidences tree (GetID n) of
              [] \<Rightarrow> []
            | c # cs \<Rightarrow> if nd_Confidence v > fold min cs c then [critical CodeConfidenceExceedsChain (GetID n)] else [])
       | _ \<Rightarrow> []). is_critical f) \<longleftrightarrow> is_conclusion_node n \<and> \<not> modest tree n" for n
    by (cases n; cases "chain_confidences tree (GetID n)")
      (auto simp: is_conclusion_node_def modest_def is_critical_def fold_min_le simp flip: not_le)
  then show ?thesis unfolding CheckConfidencePropagation_def bex_concat by simp
qed

lemma no_critical_jurisdiction:
  "(\<exists>f\<in>set (if tv_CaseJurisdictionCode s \<noteq> []
      then CheckJurisdictionConsistency (tv_CaseJurisdictionCode s) (tv_AllowedJurisdictionOverrides s) tree else []).
      is_critical f) \<longleftrightarrow> (\<exists>n\<in>set (t_Nodes tree). \<not> at_home s n)"
proof -
  have "(\<exists>f\<in>set (case n of
         RuleNode _ jurisdictionCode _ _ \<Rightarrow>
           (if jurisdictionCode = tv_CaseJurisdictionCode s then []
            else if jurisdictionCode \<in> set (tv_AllowedJurisdictionOverrides s) then []
            else [critical CodeJurisdictionMismatch (GetID n)])
       | _ \<Rightarrow> []). is_critical f) \<longleftrightarrow> \<not> at_home s n" if "tv_CaseJurisdictionCode s \<noteq> []" for n
    using that by (cases n) (auto simp: is_critical_def)
  moreover have "at_home s n" if "tv_CaseJurisdictionCode s = []" for n
    using that by (cases n) simp_all
  ultimately show ?thesis
    by (cases "tv_CaseJurisdictionCode s = []") (simp_all add: CheckJurisdictionConsistency_def bex_concat del: set_concat)
qed

lemma HasCritical_all:
  "HasCritical \<lparr>rp_CaseID = c, rp_Findings = all_findings s tree\<rparr> \<longleftrightarrow>
     ValidateTree (t_Nodes tree) (t_Edges tree) \<noteq> [] \<or> DetectCycles tree \<noteq> [] \<or>
     (\<exists>n\<in>set (t_Nodes tree). \<not> on_edge tree n) \<or> (\<exists>n\<in>set (t_Nodes tree). \<not> at_home s n) \<or>
     (\<exists>n\<in>set (t_Nodes tree). is_conclusion_node n \<and> (\<not> traced tree n \<or> \<not> modest tree n))"
proof -
  have issues: "(\<exists>f\<in>set (map (\<lambda>issue. critical CodeStructuralIssue (vi_NodeID issue)) issues). is_critical f) \<longleftrightarrow> issues \<noteq> []" for issues
    by (cases issues) (auto simp: is_critical_def)
  have gaps: "\<not> (\<exists>f\<in>set (map (\<lambda>gap. warning CodeSemanticGap (gp_NodeID gap)) gaps). is_critical f)" for gaps
    by (auto simp: is_critical_def)
  have "HasCritical \<lparr>rp_CaseID = c, rp_Findings = all_findings s tree\<rparr> \<longleftrightarrow> (\<exists>f\<in>set (all_findings s tree). is_critical f)"
    by (simp add: HasCritical_def is_critical_def)
  also have "\<dots> \<longleftrightarrow> ValidateTree (t_Nodes tree) (t_Edges tree) \<noteq> [] \<or>
      (\<exists>n\<in>set (t_Nodes tree). is_conclusion_node n \<and> \<not> traced tree n) \<or>
      (\<exists>n\<in>set (t_Nodes tree). \<not> on_edge tree n) \<or> DetectCycles tree \<noteq> [] \<or>
      (\<exists>n\<in>set (t_Nodes tree). is_conclusion_node n \<and> \<not> modest tree n) \<or> (\<exists>n\<in>set (t_Nodes tree). \<not> at_home s n)"
    unfolding all_findings_def Let_def set_append bex_Un issues no_critical_traceability no_critical_orphans
      no_critical_cycles no_critical_propagation no_critical_jurisdiction
      gaps [THEN eq_False [THEN iffD2]] no_critical_unsupported [THEN eq_False [THEN iffD2]]
    by (simp add: ValidateIntegrity_def)
  finally show ?thesis by blast
qed

text \<open>A rank that every legal edge other than \<open>supports\<close> lowers.\<close>

fun rank :: "NodeType \<Rightarrow> nat" where
  "rank NodeConclusion = 3"
| "rank NodeApplication = 2"
| "rank NodeRule = 1"
| "rank _ = 0"

lemma legal_edge_rank: "IsLegalEdgeTriple f t t' \<Longrightarrow> t \<noteq> EdgeSupports \<Longrightarrow> rank t' < rank f"
  by (auto simp: IsLegalEdgeTriple_def legalEdgeTriples_def)

lemma clean_flow_rank:
  assumes "ValidateTree nodes edges = []" "(v, w) \<in> (flow edges)\<^sup>+"
  shows "rank (GetType (the (by_ID nodes w))) < rank (GetType (the (by_ID nodes v)))"
  using assms(2)
proof induction
  case (base w)
  then show ?case using assms(1) legal_edge_rank by (fastforce simp: flow_def ValidateTree_clean edge_ok_def)
next
  case (step u w)
  then have "rank (GetType (the (by_ID nodes w))) < rank (GetType (the (by_ID nodes u)))"
    using assms(1) legal_edge_rank by (fastforce simp: flow_def ValidateTree_clean edge_ok_def)
  with step show ?case by simp
qed

lemma clean_no_cycles: "ValidateTree (t_Nodes tree) (t_Edges tree) = [] \<Longrightarrow> DetectCycles tree = []"
proof (rule ccontr)
  assume clean: "ValidateTree (t_Nodes tree) (t_Edges tree) = []" and "DetectCycles tree \<noteq> []"
  then obtain f where "f \<in> set (DetectCycles tree)" by (cases "DetectCycles tree") auto
  then have "(fd_NodeID f, fd_NodeID f) \<in> (flow (t_Edges tree))\<^sup>+"
    using search_ok(1) [of tree] by (simp add: dfs_inv_def DetectCycles_def)
  then show False using clean_flow_rank [OF clean] by blast
qed

section \<open>Properties of the gate\<close>

text \<open>
  C15: The gate is exact. A tree passes just when it has nodes, is structurally valid, every
  node lies on an edge, every rule is of the case's jurisdiction or an allowed one, and
  every conclusion reaches a fact and a rule through its applications and claims no more
  confidence than any link of that chain; the cycle check rejects nothing that the
  structural one accepts, and gaps, missing spans and low confidence never reject.
\<close>

theorem gate_exact:
  "snd (Validate s tree) = None \<longleftrightarrow>
     t_Nodes tree \<noteq> [] \<and> ValidateTree (t_Nodes tree) (t_Edges tree) = [] \<and>
     (\<forall>n\<in>set (t_Nodes tree). on_edge tree n \<and> at_home s n \<and>
        (is_conclusion_node n \<longrightarrow> traced tree n \<and> modest tree n))"
proof -
  have "snd (Validate s tree) = None \<longleftrightarrow>
      t_Nodes tree \<noteq> [] \<and> \<not> HasCritical \<lparr>rp_CaseID = caseIDOf (t_Nodes tree), rp_Findings = all_findings s tree\<rparr>"
    by (simp add: Validate_def tv_CanFinalize_def Let_def)
  then show ?thesis
    unfolding HasCritical_all using clean_no_cycles [of tree] by blast
qed

definition good_tree :: Tree where
  "good_tree =
     \<lparr>t_Nodes = [NewRuleNode ''r'' ''c'' ''perform'' ''ny'' ''common_law'' 1 (9/10) (sample_provenance []) [],
                 NewFactNode ''f'' ''c'' ''no delivery'' 1 (9/10) (sample_provenance []) [],
                 NewApplicationNode ''a'' ''c'' ''so'' 1 (9/10) (sample_provenance [''r'', ''f'']) [],
                 NewConclusionNode ''z'' ''c'' ''likely'' 1 (8/10) (sample_provenance [''a'']) []],
      t_Edges = [\<lparr>ed_FromID = ''a'', ed_ToID = ''r'', ed_Type = EdgeAppliesTo\<rparr>,
                 \<lparr>ed_FromID = ''a'', ed_ToID = ''f'', ed_Type = EdgeAppliesTo\<rparr>,
                 \<lparr>ed_FromID = ''z'', ed_ToID = ''a'', ed_Type = EdgeConcludesFrom\<rparr>],
      t_Revision = NewInitialRevision ''c'' 2\<rparr>"

theorem gate_exact_witness:
  "snd (Validate \<lparr>tv_CaseJurisdictionCode = ''ny'', tv_AllowedJurisdictionOverrides = [], tv_ConfidenceThreshold = 0\<rparr>
     good_tree) = None"
  unfolding gate_exact
  by (simp add: good_tree_def sample_defs ValidateTree_clean edge_ok_def by_ID_def GetID_def GetType_def
      IsLegalEdgeTriple_def legalEdgeTriples_def NodeType_IsValid_def on_edge_def is_conclusion_node_def traced_def
      reaches_def applied_def targets_def modest_def chain_confidences_def List.map_filter_def)

text \<open>
  A restored case fails the gate. A backup does not carry the jurisdiction of a rule, so
  when the case has one and the service checks jurisdictions, the tree that the backup
  decodes to is rejected, whatever the rules said before.
\<close>

lemma restored_rules_are_rejected:
  assumes "store_inv s" and "norder_ok norder" and "Export norder s c = Inr data"
    and "n \<in> case_nodes s c" and "nd_Type n = NodeRule" and "\<forall>e\<in>set (EdgesForCase c s). canonical_edge e"
    and "tv_CaseJurisdictionCode v \<noteq> []" and "[] \<notin> set (tv_AllowedJurisdictionOverrides v)"
  shows "\<exists>nodes edges revision. UnmarshalTree data = Inr (nodes, edges, revision) \<and>
    snd (Validate v \<lparr>t_Nodes = nodes, t_Edges = edges, t_Revision = revision\<rparr>) \<noteq> None"
proof -
  obtain nodes where nodes: "set nodes = case_nodes s c" and u: "UnmarshalTree data =
      Inr (map toNodeLike nodes, EdgesForCase c s, NewInitialRevision c (latestCreatedAt nodes))"
    using Export_content [OF assms(1-3) _ assms(6)] assms(4) by blast
  let ?tree = "\<lparr>t_Nodes = map toNodeLike nodes, t_Edges = EdgesForCase c s,
      t_Revision = NewInitialRevision c (latestCreatedAt nodes)\<rparr>"
  have "\<not> at_home v (toNodeLike n)" using assms(5,7,8) by (simp add: toNodeLike_def NewRuleNode_def)
  then have "HasCritical \<lparr>rp_CaseID = caseIDOf (t_Nodes ?tree), rp_Findings = all_findings v ?tree\<rparr>"
    unfolding HasCritical_all using assms(4) nodes by auto
  then have "snd (Validate v ?tree) \<noteq> None"
    by (simp add: Validate_def tv_CanFinalize_def Let_def)
  with u show ?thesis by blast
qed

text \<open>A store with one rule.\<close>

definition rule_store :: InMemoryGraphStore where
  "rule_store = snd (mem_CreateNode (sample_node ''r'' NodeRule) NewInMemoryGraphStore)"

lemma restored_rules_are_rejected_witness:
  "\<exists>data nodes edges revision. Export sorted_nodes rule_store ''c'' = Inr data \<and>
     UnmarshalTree data = Inr (nodes, edges, revision) \<and>
     snd (Validate \<lparr>tv_CaseJurisdictionCode = ''ny'', tv_AllowedJurisdictionOverrides = [], tv_ConfidenceThreshold = 0\<rparr>
       \<lparr>t_Nodes = nodes, t_Edges = edges, t_Revision = revision\<rparr>) \<noteq> None"
proof -
  have run: "mem_CreateNode (sample_node ''r'' NodeRule) NewInMemoryGraphStore = (None, rule_store)"
    by (simp add: rule_store_def mem_CreateNode_def NewInMemoryGraphStore_def)
  have inv: "store_inv rule_store" using store_inv_CreateNode [OF mem.start(1) run] by simp
  have nodes: "case_nodes rule_store ''c'' = {sample_node ''r'' NodeRule}"
    using mem_CreateNode_parts(2) [OF _ run] by (auto simp: case_nodes_def NewInMemoryGraphStore_def)
  have edges: "EdgesForCase ''c'' rule_store = []"
    using mem_CreateNode_parts(3) [OF _ run] by (simp add: EdgesForCase_def NewInMemoryGraphStore_def)
  obtain data where data: "Export sorted_nodes rule_store ''c'' = Inr data"
    using Export_succeeds [OF inv sorted_nodes_ok, of "''c''"] by (auto simp: nodes NodeType_IsValid_def)
  let ?v = "\<lparr>tv_CaseJurisdictionCode = ''ny'', tv_AllowedJurisdictionOverrides = [], tv_ConfidenceThreshold = 0\<rparr>"
  from restored_rules_are_rejected [OF inv sorted_nodes_ok data, of "sample_node ''r'' NodeRule" ?v] data
  show ?thesis by (simp add: nodes edges)
qed

end
