(* ===== verification/Orchestration.thy ===== *)
theory Orchestration
  imports Irac
begin

text \<open>
  \<open>packages/reasoningorchestration\<close>: the pipeline that drives a case through the eight stages
  of its analysis, with a checkpoint after each (\<open>stage.go\<close>, \<open>stages.go\<close>, \<open>treeinputs.go\<close>,
  \<open>checkpoint.go\<close>, \<open>budget.go\<close>, \<open>config.go\<close>, \<open>telemetry.go\<close>, \<open>run.go\<close>).

  The agent packages that do the work of a stage are functions the model takes as argument,
  and their results are values of a type \<open>'v\<close> of which only the fields this package reads
  are written out.
\<close>

section \<open>Stages and states\<close>

datatype Stage = StageIssueFraming | StageFirstPartyArguments | StageSecondPartyArguments
  | StageEvidenceWeighing | StageLawApplication | StageSynthesis | StageUncertaintySurfacing
  | StageGuardrailCheck | StageComplete | OtherStage string

definition stageOrder :: "Stage list" where
  "stageOrder = [StageIssueFraming, StageFirstPartyArguments, StageSecondPartyArguments,
     StageEvidenceWeighing, StageLawApplication, StageSynthesis, StageUncertaintySurfacing, StageGuardrailCheck]"

fun index_of :: "'a \<Rightarrow> 'a list \<Rightarrow> nat option" where
  "index_of x [] = None"
| "index_of x (y # ys) = (if y = x then Some 0 else map_option Suc (index_of x ys))"

text \<open>\<open>None\<close> is the code's -1.\<close>

definition stageIndex :: "Stage \<Rightarrow> nat option" where
  "stageIndex stage = index_of stage stageOrder"

text \<open>The errors of the package; the text of an error of an agent package is a string.\<close>

datatype orch_error = ErrEmptyCaseID | ErrNilRunConfig | ErrNoFramedIssues | ErrCheckpointNotFound
  | ErrUnknownStage | ErrBudgetExhausted Stage duration | ErrRunNotFound
  | LoadCheckpoint Stage orch_error | StageError string | GuardrailFailed string gr_error

definition nextStage :: "Stage \<Rightarrow> orch_error + Stage" where
  "nextStage stage =
     (case stageIndex stage of
        None \<Rightarrow> Inl ErrUnknownStage
      | Some i \<Rightarrow> if i = length stageOrder - 1 then Inr StageComplete else Inr (stageOrder ! (i + 1)))"

definition isStageComplete :: "Stage list \<Rightarrow> Stage \<Rightarrow> bool" where
  "isStageComplete completed stage \<longleftrightarrow> stage \<in> set completed"

datatype TerminationReason = TerminationRunning | TerminationComplete | TerminationFailed
  | TerminationBudgetExhausted | OtherTermination string

text \<open>\<open>FailureReason\<close> is the error whose text the field holds.\<close>

record RunState =
  rs_CaseID :: string
  rs_CurrentStage :: Stage
  rs_CompletedStages :: "Stage list"
  rs_Termination :: TerminationReason
  rs_FailedStage :: Stage
  rs_FailureReason :: "orch_error option"
  rs_StartedAt :: time
  rs_UpdatedAt :: time

abbreviation zero_stage :: Stage where "zero_stage \<equiv> OtherStage []"

definition zero_RunState :: RunState where
  "zero_RunState = \<lparr>rs_CaseID = [], rs_CurrentStage = zero_stage, rs_CompletedStages = [],
     rs_Termination = OtherTermination [], rs_FailedStage = zero_stage, rs_FailureReason = None,
     rs_StartedAt = zero_time, rs_UpdatedAt = zero_time\<rparr>"

record StageTelemetry =
  st_Stage :: Stage
  st_Duration :: duration
  st_Err :: "orch_error option"

record Stats =
  ss_PerStage :: "StageTelemetry list"
  ss_TotalWallClock :: duration

definition telemetry_snapshot :: "StageTelemetry list \<Rightarrow> Stats" where
  "telemetry_snapshot stages =
     \<lparr>ss_PerStage = stages, ss_TotalWallClock = fold (\<lambda>s total. wrap64 (total + st_Duration s)) stages 0\<rparr>"

record RunResult =
  rr_State :: RunState
  rr_Telemetry :: Stats
  rr_Err :: "orch_error option"

section \<open>Configuration\<close>

definition DefaultMaxTotalWallClock :: duration where
  "DefaultMaxTotalWallClock = 15 * 60 * 1000000000"

record PipelineBudget =
  pb_MaxTotalWallClock :: duration

definition withDefaults :: "PipelineBudget \<Rightarrow> PipelineBudget" where
  "withDefaults b =
     (if pb_MaxTotalWallClock b \<le> 0 then b\<lparr>pb_MaxTotalWallClock := DefaultMaxTotalWallClock\<rparr> else b)"

record PartyConfig =
  pa_ID :: string
  pa_Label :: string

text \<open>
  The collaborators are only tested for nil here. The seed, the weights and the budget of a
  single stage are handed to the agents unread and left out.
\<close>

record RunConfig =
  cf_HasAPI :: bool
  cf_HasRouter :: bool
  cf_HasCheckpoints :: bool
  cf_FirstParty :: PartyConfig
  cf_SecondParty :: PartyConfig
  cf_Locale :: string
  cf_LegalFamily :: string
  cf_JurisdictionName :: string
  cf_JurisdictionCode :: string
  cf_SignoffGate :: "gr_error SignoffGate option"
  cf_Budget :: PipelineBudget
  cf_TenantID :: string

definition RunConfig_validate :: "RunConfig \<Rightarrow> orch_error option" where
  "RunConfig_validate c =
     (if \<not> cf_HasAPI c \<or> \<not> cf_HasRouter c \<or> \<not> cf_HasCheckpoints c then Some ErrNilRunConfig
      else if pa_ID (cf_FirstParty c) = [] \<or> pa_ID (cf_SecondParty c) = [] then Some ErrNilRunConfig
      else None)"

section \<open>Results of stages\<close>

record 'v FramedIssue =
  fi_SourceIssueNodeID :: string
  fi_Rest :: 'v

record 'v IssueAnalysisResult =
  ia_Issues :: "'v FramedIssue list"
  ia_Rest :: 'v

record TentativeConclusion =
  tc_IssueNodeID :: string
  tc_Text :: string

record 'v Opinion =
  op_Conclusions :: "TentativeConclusion list"
  op_Rest :: 'v

text \<open>\<open>None\<close> is the zero value of a result type.\<close>

record 'v pipelineContext =
  pc_issues :: "'v IssueAnalysisResult option"
  pc_firstParty :: "'v option"
  pc_secondParty :: "'v option"
  pc_evidence :: "'v option"
  pc_law :: "'v option"
  pc_opinion :: "'v Opinion option"
  pc_uncertainty :: "'v option"

definition zero_pc :: "'v pipelineContext" where
  "zero_pc = \<lparr>pc_issues = None, pc_firstParty = None, pc_secondParty = None, pc_evidence = None, pc_law = None,
     pc_opinion = None, pc_uncertainty = None\<rparr>"

record 'v Checkpoint =
  cp_Stage :: Stage
  cp_IssueAnalysis :: "'v IssueAnalysisResult option"
  cp_FirstPartyArguments :: "'v option"
  cp_SecondPartyArguments :: "'v option"
  cp_Evidence :: "'v option"
  cp_Law :: "'v option"
  cp_Opinion :: "'v Opinion option"
  cp_Uncertainty :: "'v option"
  cp_GuardrailApproved :: bool
  cp_IssueFramingRun :: "'v option"
  cp_FirstPartyRun :: "'v option"
  cp_SecondPartyRun :: "'v option"
  cp_SynthesisRun :: "'v option"

definition zero_cp :: "Stage \<Rightarrow> 'v Checkpoint" where
  "zero_cp stage = \<lparr>cp_Stage = stage, cp_IssueAnalysis = None, cp_FirstPartyArguments = None,
     cp_SecondPartyArguments = None, cp_Evidence = None, cp_Law = None, cp_Opinion = None, cp_Uncertainty = None,
     cp_GuardrailApproved = False, cp_IssueFramingRun = None, cp_FirstPartyRun = None, cp_SecondPartyRun = None,
     cp_SynthesisRun = None\<rparr>"

definition issues_of :: "'v pipelineContext \<Rightarrow> 'v FramedIssue list" where
  "issues_of pc = (case pc_issues pc of None \<Rightarrow> [] | Some r \<Rightarrow> ia_Issues r)"

definition conclusions_of :: "'v pipelineContext \<Rightarrow> TentativeConclusion list" where
  "conclusions_of pc = (case pc_opinion pc of None \<Rightarrow> [] | Some op \<Rightarrow> op_Conclusions op)"

section \<open>The tree a stage reads\<close>

record TreeNode =
  tn_ID :: string
  tn_Type :: NodeType
  tn_Text :: string
  tn_Confidence :: rat

record GetTreeResponse =
  gt_Nodes :: "TreeNode list"
  gt_Edges :: "Edge list"

record FactRef =
  fr_ID :: string
  fr_Text :: string
  fr_Confidence :: rat

record RuleRef =
  rf_ID :: string
  rf_Text :: string

record treeSnapshot =
  sn_facts :: "FactRef list"
  sn_rules :: "RuleRef list"
  sn_governingByIssue :: "string \<Rightarrow> string list"
  sn_allIssueNodeIDs :: "string list"

definition snapshot_node :: "TreeNode \<Rightarrow> treeSnapshot \<Rightarrow> treeSnapshot" where
  "snapshot_node n sn =
     (case tn_Type n of
        NodeFact \<Rightarrow> sn\<lparr>sn_facts := sn_facts sn @ [\<lparr>fr_ID = tn_ID n, fr_Text = tn_Text n, fr_Confidence = tn_Confidence n\<rparr>]\<rparr>
      | NodeRule \<Rightarrow> sn\<lparr>sn_rules := sn_rules sn @ [\<lparr>rf_ID = tn_ID n, rf_Text = tn_Text n\<rparr>]\<rparr>
      | NodeIssue \<Rightarrow> sn\<lparr>sn_allIssueNodeIDs := sn_allIssueNodeIDs sn @ [tn_ID n]\<rparr>
      | _ \<Rightarrow> sn)"

definition snapshot_edge :: "Edge \<Rightarrow> treeSnapshot \<Rightarrow> treeSnapshot" where
  "snapshot_edge e sn =
     (if ed_Type e = EdgeGoverns
      then sn\<lparr>sn_governingByIssue := (sn_governingByIssue sn)(ed_ToID e := sn_governingByIssue sn (ed_ToID e) @ [ed_FromID e])\<rparr>
      else sn)"

definition fetchTreeSnapshot :: "(string \<Rightarrow> string + GetTreeResponse) \<Rightarrow> string \<Rightarrow> orch_error + treeSnapshot" where
  "fetchTreeSnapshot getTree caseID =
     (case getTree caseID of
        Inl err \<Rightarrow> Inl (StageError err)
      | Inr resp \<Rightarrow>
          Inr (fold snapshot_edge (gt_Edges resp)
                (fold snapshot_node (gt_Nodes resp)
                   \<lparr>sn_facts = [], sn_rules = [], sn_governingByIssue = (\<lambda>_. []), sn_allIssueNodeIDs = []\<rparr>)))"

definition issueInputs :: "treeSnapshot \<Rightarrow> 'v FramedIssue list \<Rightarrow> ('v FramedIssue \<times> string list) list" where
  "issueInputs sn issues = map (\<lambda>fi. (fi, sn_governingByIssue sn (fi_SourceIssueNodeID fi))) issues"

section \<open>Running a stage\<close>

record 'v WeighRequest =
  wr_CaseID :: string
  wr_Facts :: "FactRef list"
  wr_IssueNodeIDs :: "string list"
  wr_FirstParty :: "'v option"
  wr_SecondParty :: "'v option"
  wr_LegalFamily :: string

record 'v LawRequest =
  lr_CaseID :: string
  lr_Issues :: "('v FramedIssue \<times> string list) list"
  lr_Rules :: "RuleRef list"
  lr_FirstParty :: "'v option"
  lr_SecondParty :: "'v option"
  lr_Evidence :: "'v option"
  lr_LegalFamily :: string

record 'v SurfaceRequest =
  sr_CaseID :: string
  sr_Issues :: "'v IssueAnalysisResult option"
  sr_Evidence :: "'v option"
  sr_Law :: "'v option"
  sr_Opinion :: "'v Opinion option"

text \<open>
  The entry points of the agent packages. An agent is constructed and run in one function,
  which reads its options from the configuration; the second part of an agent's result is
  its run.
\<close>

record 'v agents =
  ag_Analyze :: "RunConfig \<Rightarrow> string \<Rightarrow> string + 'v IssueAnalysisResult \<times> 'v"
  ag_FirstArgue :: "RunConfig \<Rightarrow> string \<Rightarrow> 'v FramedIssue list \<Rightarrow> string + 'v \<times> 'v"
  ag_SecondArgue :: "RunConfig \<Rightarrow> string \<Rightarrow> 'v FramedIssue list \<Rightarrow> 'v option \<Rightarrow> string + 'v \<times> 'v"
  ag_GetTree :: "string \<Rightarrow> string + GetTreeResponse"
  ag_Weigh :: "'v WeighRequest \<Rightarrow> string + 'v"
  ag_Apply :: "'v LawRequest \<Rightarrow> string + 'v"
  ag_Synthesize :: "RunConfig \<Rightarrow> string \<Rightarrow> 'v FramedIssue list \<Rightarrow> 'v option \<Rightarrow> 'v option \<Rightarrow> 'v option \<Rightarrow> 'v option
    \<Rightarrow> string + 'v Opinion \<times> 'v"
  ag_Surface :: "'v SurfaceRequest \<Rightarrow> string + 'v"

type_synonym 'v stage_result = "orch_error + 'v Checkpoint \<times> 'v pipelineContext"

definition runIssueFraming :: "'v agents \<Rightarrow> RunConfig \<Rightarrow> string \<Rightarrow> 'v pipelineContext \<Rightarrow> 'v stage_result" where
  "runIssueFraming ag cfg caseID pc =
     (case ag_Analyze ag cfg caseID of
        Inl err \<Rightarrow> Inl (StageError err)
      | Inr (result, run) \<Rightarrow>
          if ia_Issues result = [] then Inl ErrNoFramedIssues
          else Inr ((zero_cp StageIssueFraming)\<lparr>cp_IssueAnalysis := Some result, cp_IssueFramingRun := Some run\<rparr>,
                    pc\<lparr>pc_issues := Some result\<rparr>))"

definition runFirstPartyArguments :: "'v agents \<Rightarrow> RunConfig \<Rightarrow> string \<Rightarrow> 'v pipelineContext \<Rightarrow> 'v stage_result" where
  "runFirstPartyArguments ag cfg caseID pc =
     (case ag_FirstArgue ag cfg caseID (issues_of pc) of
        Inl err \<Rightarrow> Inl (StageError err)
      | Inr (result, run) \<Rightarrow>
          Inr ((zero_cp StageFirstPartyArguments)\<lparr>cp_FirstPartyArguments := Some result, cp_FirstPartyRun := Some run\<rparr>,
               pc\<lparr>pc_firstParty := Some result\<rparr>))"

definition runSecondPartyArguments :: "'v agents \<Rightarrow> RunConfig \<Rightarrow> string \<Rightarrow> 'v pipelineContext \<Rightarrow> 'v stage_result" where
  "runSecondPartyArguments ag cfg caseID pc =
     (case ag_SecondArgue ag cfg caseID (issues_of pc) (pc_firstParty pc) of
        Inl err \<Rightarrow> Inl (StageError err)
      | Inr (result, run) \<Rightarrow>
          Inr ((zero_cp StageSecondPartyArguments)\<lparr>cp_SecondPartyArguments := Some result, cp_SecondPartyRun := Some run\<rparr>,
               pc\<lparr>pc_secondParty := Some result\<rparr>))"

definition runEvidenceWeighing :: "'v agents \<Rightarrow> RunConfig \<Rightarrow> string \<Rightarrow> 'v pipelineContext \<Rightarrow> 'v stage_result" where
  "runEvidenceWeighing ag cfg caseID pc =
     (case fetchTreeSnapshot (ag_GetTree ag) caseID of
        Inl err \<Rightarrow> Inl err
      | Inr sn \<Rightarrow>
          (case ag_Weigh ag \<lparr>wr_CaseID = caseID, wr_Facts = sn_facts sn, wr_IssueNodeIDs = sn_allIssueNodeIDs sn,
                  wr_FirstParty = pc_firstParty pc, wr_SecondParty = pc_secondParty pc,
                  wr_LegalFamily = cf_LegalFamily cfg\<rparr> of
             Inl err \<Rightarrow> Inl (StageError err)
           | Inr result \<Rightarrow>
               Inr ((zero_cp StageEvidenceWeighing)\<lparr>cp_Evidence := Some result\<rparr>, pc\<lparr>pc_evidence := Some result\<rparr>)))"

definition runLawApplication :: "'v agents \<Rightarrow> RunConfig \<Rightarrow> string \<Rightarrow> 'v pipelineContext \<Rightarrow> 'v stage_result" where
  "runLawApplication ag cfg caseID pc =
     (case fetchTreeSnapshot (ag_GetTree ag) caseID of
        Inl err \<Rightarrow> Inl err
      | Inr sn \<Rightarrow>
          (case ag_Apply ag \<lparr>lr_CaseID = caseID, lr_Issues = issueInputs sn (issues_of pc), lr_Rules = sn_rules sn,
                  lr_FirstParty = pc_firstParty pc, lr_SecondParty = pc_secondParty pc,
                  lr_Evidence = pc_evidence pc, lr_LegalFamily = cf_LegalFamily cfg\<rparr> of
             Inl err \<Rightarrow> Inl (StageError err)
           | Inr result \<Rightarrow>
               Inr ((zero_cp StageLawApplication)\<lparr>cp_Law := Some result\<rparr>, pc\<lparr>pc_law := Some result\<rparr>)))"

definition runSynthesis :: "'v agents \<Rightarrow> RunConfig \<Rightarrow> string \<Rightarrow> 'v pipelineContext \<Rightarrow> 'v stage_result" where
  "runSynthesis ag cfg caseID pc =
     (case ag_Synthesize ag cfg caseID (issues_of pc) (pc_firstParty pc) (pc_secondParty pc) (pc_evidence pc) (pc_law pc) of
        Inl err \<Rightarrow> Inl (StageError err)
      | Inr (result, run) \<Rightarrow>
          Inr ((zero_cp StageSynthesis)\<lparr>cp_Opinion := Some result, cp_SynthesisRun := Some run\<rparr>,
               pc\<lparr>pc_opinion := Some result\<rparr>))"

definition runUncertaintySurfacing :: "'v agents \<Rightarrow> string \<Rightarrow> 'v pipelineContext \<Rightarrow> 'v stage_result" where
  "runUncertaintySurfacing ag caseID pc =
     (case ag_Surface ag \<lparr>sr_CaseID = caseID, sr_Issues = pc_issues pc, sr_Evidence = pc_evidence pc,
             sr_Law = pc_law pc, sr_Opinion = pc_opinion pc\<rparr> of
        Inl err \<Rightarrow> Inl (StageError err)
      | Inr report \<Rightarrow>
          Inr ((zero_cp StageUncertaintySurfacing)\<lparr>cp_Uncertainty := Some report\<rparr>, pc\<lparr>pc_uncertainty := Some report\<rparr>))"

fun check_conclusions :: "TentativeConclusion list \<Rightarrow> orch_error option" where
  "check_conclusions [] = None"
| "check_conclusions (tc # tcs) =
     (case CheckText (tc_Text tc) of
        Some err \<Rightarrow> Some (GuardrailFailed (tc_IssueNodeID tc) err)
      | None \<Rightarrow> check_conclusions tcs)"

definition runGuardrailCheck :: "RunConfig \<Rightarrow> string \<Rightarrow> 'v pipelineContext \<Rightarrow> 'v stage_result" where
  "runGuardrailCheck cfg caseID pc =
     (case check_conclusions (conclusions_of pc) of
        Some err \<Rightarrow> Inl err
      | None \<Rightarrow>
          let gate = (case cf_SignoffGate cfg of None \<Rightarrow> NoSignoffRecordedGate | Some g \<Rightarrow> g);
              approved = fst (CanFinalize caseID (Some gate))
          in Inr ((zero_cp StageGuardrailCheck)\<lparr>cp_GuardrailApproved := approved\<rparr>, pc))"

fun runStage :: "'v agents \<Rightarrow> RunConfig \<Rightarrow> string \<Rightarrow> Stage \<Rightarrow> 'v pipelineContext \<Rightarrow> 'v stage_result" where
  "runStage ag cfg caseID StageIssueFraming pc = runIssueFraming ag cfg caseID pc"
| "runStage ag cfg caseID StageFirstPartyArguments pc = runFirstPartyArguments ag cfg caseID pc"
| "runStage ag cfg caseID StageSecondPartyArguments pc = runSecondPartyArguments ag cfg caseID pc"
| "runStage ag cfg caseID StageEvidenceWeighing pc = runEvidenceWeighing ag cfg caseID pc"
| "runStage ag cfg caseID StageLawApplication pc = runLawApplication ag cfg caseID pc"
| "runStage ag cfg caseID StageSynthesis pc = runSynthesis ag cfg caseID pc"
| "runStage ag cfg caseID StageUncertaintySurfacing pc = runUncertaintySurfacing ag caseID pc"
| "runStage ag cfg caseID StageGuardrailCheck pc = runGuardrailCheck cfg caseID pc"
| "runStage ag cfg caseID _ pc = Inl ErrUnknownStage"

fun applyCheckpoint :: "'v Checkpoint \<Rightarrow> 'v pipelineContext \<Rightarrow> 'v pipelineContext" where
  "applyCheckpoint cp pc =
     (case cp_Stage cp of
        StageIssueFraming \<Rightarrow> pc\<lparr>pc_issues := cp_IssueAnalysis cp\<rparr>
      | StageFirstPartyArguments \<Rightarrow> pc\<lparr>pc_firstParty := cp_FirstPartyArguments cp\<rparr>
      | StageSecondPartyArguments \<Rightarrow> pc\<lparr>pc_secondParty := cp_SecondPartyArguments cp\<rparr>
      | StageEvidenceWeighing \<Rightarrow> pc\<lparr>pc_evidence := cp_Evidence cp\<rparr>
      | StageLawApplication \<Rightarrow> pc\<lparr>pc_law := cp_Law cp\<rparr>
      | StageSynthesis \<Rightarrow> pc\<lparr>pc_opinion := cp_Opinion cp\<rparr>
      | StageUncertaintySurfacing \<Rightarrow> pc\<lparr>pc_uncertainty := cp_Uncertainty cp\<rparr>
      | _ \<Rightarrow> pc)"

section \<open>Checkpoint stores\<close>

record ('s, 'v) CheckpointStore =
  c_SaveCheckpoint :: "string \<Rightarrow> 'v Checkpoint \<Rightarrow> 's \<Rightarrow> orch_error option \<times> 's"
  c_GetCheckpoint :: "string \<Rightarrow> Stage \<Rightarrow> 's \<Rightarrow> orch_error + 'v Checkpoint"
  c_SaveRunState :: "RunState \<Rightarrow> 's \<Rightarrow> orch_error option \<times> 's"
  c_GetRunState :: "string \<Rightarrow> 's \<Rightarrow> orch_error + RunState"
  c_DeleteByCase :: "string \<Rightarrow> 's \<Rightarrow> orch_error option \<times> 's"

record 'v caseCheckpoints =
  cc_byStage :: "Stage \<rightharpoonup> 'v Checkpoint"
  cc_state :: RunState
  cc_hasRun :: bool

type_synonym 'v InMemoryCheckpointStore = "string \<rightharpoonup> 'v caseCheckpoints"

definition case_entry :: "string \<Rightarrow> 'v InMemoryCheckpointStore \<Rightarrow> 'v caseCheckpoints" where
  "case_entry caseID s =
     (case s caseID of
        None \<Rightarrow> \<lparr>cc_byStage = Map.empty, cc_state = zero_RunState, cc_hasRun = False\<rparr>
      | Some c \<Rightarrow> c)"

definition ckpt_Save :: "string \<Rightarrow> 'v Checkpoint \<Rightarrow> 'v InMemoryCheckpointStore \<Rightarrow> orch_error option \<times> 'v InMemoryCheckpointStore" where
  "ckpt_Save caseID cp s =
     (if caseID = [] then (Some ErrEmptyCaseID, s)
      else let c = case_entry caseID s
           in (None, s(caseID \<mapsto> c\<lparr>cc_byStage := (cc_byStage c)(cp_Stage cp \<mapsto> cp)\<rparr>)))"

definition ckpt_Get :: "string \<Rightarrow> Stage \<Rightarrow> 'v InMemoryCheckpointStore \<Rightarrow> orch_error + 'v Checkpoint" where
  "ckpt_Get caseID stage s =
     (if caseID = [] then Inl ErrEmptyCaseID
      else
        (case s caseID of
           None \<Rightarrow> Inl ErrCheckpointNotFound
         | Some c \<Rightarrow> (case cc_byStage c stage of None \<Rightarrow> Inl ErrCheckpointNotFound | Some cp \<Rightarrow> Inr cp)))"

definition ckpt_SaveRunState :: "RunState \<Rightarrow> 'v InMemoryCheckpointStore \<Rightarrow> orch_error option \<times> 'v InMemoryCheckpointStore" where
  "ckpt_SaveRunState state s =
     (if rs_CaseID state = [] then (Some ErrEmptyCaseID, s)
      else let c = case_entry (rs_CaseID state) s
           in (None, s(rs_CaseID state \<mapsto> c\<lparr>cc_state := state, cc_hasRun := True\<rparr>)))"

definition ckpt_GetRunState :: "string \<Rightarrow> 'v InMemoryCheckpointStore \<Rightarrow> orch_error + RunState" where
  "ckpt_GetRunState caseID s =
     (if caseID = [] then Inl ErrEmptyCaseID
      else
        (case s caseID of
           None \<Rightarrow> Inl ErrRunNotFound
         | Some c \<Rightarrow> if \<not> cc_hasRun c then Inl ErrRunNotFound else Inr (cc_state c)))"

definition ckpt_DeleteByCase :: "string \<Rightarrow> 'v InMemoryCheckpointStore \<Rightarrow> orch_error option \<times> 'v InMemoryCheckpointStore" where
  "ckpt_DeleteByCase caseID s = (if caseID = [] then (Some ErrEmptyCaseID, s) else (None, s(caseID := None)))"

definition mem_checkpoints :: "('v InMemoryCheckpointStore, 'v) CheckpointStore" where
  "mem_checkpoints = \<lparr>c_SaveCheckpoint = ckpt_Save, c_GetCheckpoint = ckpt_Get, c_SaveRunState = ckpt_SaveRunState,
     c_GetRunState = ckpt_GetRunState, c_DeleteByCase = ckpt_DeleteByCase\<rparr>"

section \<open>Runs\<close>

text \<open>
  A run writes run states, in order, and checkpoints, each from a goroutine of its own that
  has ended when the run returns. The loop yields the writes in program order; they reach the
  store when the run returns, and those before a crash reach it in part.

  The readings of the clock: \<open>clock stage k\<close> is the \<open>k\<close>-th in the iteration for the stage, and
  \<open>clock StageComplete k\<close> one outside the loop.
\<close>

datatype 'v store_write = SaveState RunState | SaveCheckpointAsync "'v Checkpoint"

type_synonym clock = "Stage \<Rightarrow> nat \<Rightarrow> time"

definition failRun :: "time \<Rightarrow> RunState \<Rightarrow> StageTelemetry list \<Rightarrow> Stage \<Rightarrow> orch_error \<Rightarrow> RunResult \<times> 'v store_write list" where
  "failRun now state telemetry failedStage err =
     (let state = state\<lparr>rs_Termination := TerminationFailed, rs_FailedStage := failedStage,
                        rs_FailureReason := Some err, rs_UpdatedAt := now\<rparr>
      in (\<lparr>rr_State = state, rr_Telemetry = telemetry_snapshot telemetry, rr_Err = Some err\<rparr>, [SaveState state]))"

fun drive_loop ::
  "'v agents \<Rightarrow> RunConfig \<Rightarrow> clock \<Rightarrow> string \<Rightarrow> Stage list \<Rightarrow> 'v pipelineContext \<Rightarrow> RunState \<Rightarrow> StageTelemetry list
    \<Rightarrow> RunResult \<times> 'v store_write list" where
  "drive_loop ag cfg clock caseID [] pc state telemetry =
     (let state = state\<lparr>rs_Termination := TerminationComplete, rs_CurrentStage := StageComplete,
                        rs_UpdatedAt := clock StageComplete 2\<rparr>
      in (\<lparr>rr_State = state, rr_Telemetry = telemetry_snapshot telemetry, rr_Err = None\<rparr>, [SaveState state]))"
| "drive_loop ag cfg clock caseID (stage # rest) pc state telemetry =
     (if isStageComplete (rs_CompletedStages state) stage then drive_loop ag cfg clock caseID rest pc state telemetry
      else
        let elapsed = time_Sub (clock stage 0) (rs_StartedAt state) in
        if elapsed \<ge> pb_MaxTotalWallClock (withDefaults (cf_Budget cfg)) then
          let state = state\<lparr>rs_CurrentStage := stage, rs_Termination := TerminationBudgetExhausted,
                             rs_UpdatedAt := clock stage 1\<rparr>
          in (\<lparr>rr_State = state, rr_Telemetry = telemetry_snapshot telemetry,
               rr_Err = Some (ErrBudgetExhausted stage elapsed)\<rparr>, [SaveState state])
        else
          let duration = time_Sub (clock stage 2) (clock stage 1) in
          (case runStage ag cfg caseID stage pc of
             Inl err \<Rightarrow>
               failRun (clock stage 3) state
                 (telemetry @ [\<lparr>st_Stage = stage, st_Duration = duration, st_Err = Some err\<rparr>]) stage err
           | Inr (cp, pc) \<Rightarrow>
               let telemetry = telemetry @ [\<lparr>st_Stage = stage, st_Duration = duration, st_Err = None\<rparr>];
                   state = state\<lparr>rs_CompletedStages := rs_CompletedStages state @ [stage]\<rparr>
               in (case nextStage stage of
                     Inl err \<Rightarrow>
                       (case failRun (clock stage 3) state telemetry stage err of
                          (res, writes) \<Rightarrow> (res, SaveCheckpointAsync cp # writes))
                   | Inr next \<Rightarrow>
                       let state = state\<lparr>rs_CurrentStage := next, rs_UpdatedAt := clock stage 3\<rparr>
                       in (case drive_loop ag cfg clock caseID rest pc state telemetry of
                             (res, writes) \<Rightarrow> (res, SaveCheckpointAsync cp # SaveState state # writes)))))"

fun loadCompletedStageOutputs ::
  "('s, 'v) CheckpointStore \<Rightarrow> string \<Rightarrow> 's \<Rightarrow> Stage list \<Rightarrow> 'v pipelineContext \<Rightarrow> orch_error + 'v pipelineContext" where
  "loadCompletedStageOutputs C caseID s [] pc = Inr pc"
| "loadCompletedStageOutputs C caseID s (stage # completed) pc =
     (case c_GetCheckpoint C caseID stage s of
        Inl err \<Rightarrow> Inl (LoadCheckpoint stage err)
      | Inr cp \<Rightarrow> loadCompletedStageOutputs C caseID s completed (applyCheckpoint cp pc))"

definition drive ::
  "('s, 'v) CheckpointStore \<Rightarrow> 'v agents \<Rightarrow> RunConfig \<Rightarrow> clock \<Rightarrow> string \<Rightarrow> RunState \<Rightarrow> 's \<Rightarrow> RunResult \<times> 'v store_write list" where
  "drive C ag cfg clock caseID state s =
     (case loadCompletedStageOutputs C caseID s (rs_CompletedStages state) zero_pc of
        Inl err \<Rightarrow> failRun (clock StageComplete 1) state [] StageIssueFraming err
      | Inr pc \<Rightarrow> drive_loop ag cfg clock caseID stageOrder pc state [])"

text \<open>Errors of the store are dropped.\<close>

fun perform_write :: "('s, 'v) CheckpointStore \<Rightarrow> string \<Rightarrow> 'v store_write \<Rightarrow> 's \<Rightarrow> 's" where
  "perform_write C caseID (SaveState state) s = snd (c_SaveRunState C state s)"
| "perform_write C caseID (SaveCheckpointAsync cp) s = snd (c_SaveCheckpoint C caseID cp s)"

definition perform :: "('s, 'v) CheckpointStore \<Rightarrow> string \<Rightarrow> 'v store_write list \<Rightarrow> 's \<Rightarrow> 's" where
  "perform C caseID writes s = fold (perform_write C caseID) writes s"

definition error_result :: "orch_error \<Rightarrow> RunResult" where
  "error_result err = \<lparr>rr_State = zero_RunState, rr_Telemetry = telemetry_snapshot [], rr_Err = Some err\<rparr>"

definition initial_state :: "clock \<Rightarrow> string \<Rightarrow> RunState" where
  "initial_state clock caseID =
     zero_RunState\<lparr>rs_CaseID := caseID, rs_CurrentStage := StageIssueFraming, rs_Termination := TerminationRunning,
       rs_StartedAt := clock StageComplete 0, rs_UpdatedAt := clock StageComplete 1\<rparr>"

text \<open>What a call of \<open>Run\<close> or \<open>Resume\<close> answers, and what it writes.\<close>

definition Run_writes ::
  "('s, 'v) CheckpointStore \<Rightarrow> 'v agents \<Rightarrow> RunConfig \<Rightarrow> clock \<Rightarrow> string \<Rightarrow> 's \<Rightarrow> RunResult \<times> 'v store_write list" where
  "Run_writes C ag cfg clock caseID s =
     (if caseID = [] then (error_result ErrEmptyCaseID, [])
      else
        (case RunConfig_validate cfg of
           Some err \<Rightarrow> (error_result err, [])
         | None \<Rightarrow> drive C ag cfg clock caseID (initial_state clock caseID) s))"

definition Resume_writes ::
  "('s, 'v) CheckpointStore \<Rightarrow> 'v agents \<Rightarrow> RunConfig \<Rightarrow> clock \<Rightarrow> string \<Rightarrow> 's \<Rightarrow> RunResult \<times> 'v store_write list" where
  "Resume_writes C ag cfg clock caseID s =
     (if caseID = [] then (error_result ErrEmptyCaseID, [])
      else
        (case RunConfig_validate cfg of
           Some err \<Rightarrow> (error_result err, [])
         | None \<Rightarrow>
             (case c_GetRunState C caseID s of
                Inl err \<Rightarrow> (error_result err, [])
              | Inr state \<Rightarrow>
                  if rs_Termination state = TerminationComplete
                  then (\<lparr>rr_State = state, rr_Telemetry = telemetry_snapshot [], rr_Err = None\<rparr>, [])
                  else drive C ag cfg clock caseID
                         (state\<lparr>rs_Termination := TerminationRunning, rs_UpdatedAt := clock StageComplete 0\<rparr>) s)))"

definition Run :: "('s, 'v) CheckpointStore \<Rightarrow> 'v agents \<Rightarrow> RunConfig \<Rightarrow> clock \<Rightarrow> string \<Rightarrow> 's \<Rightarrow> RunResult \<times> 's" where
  "Run C ag cfg clock caseID s =
     (case Run_writes C ag cfg clock caseID s of (res, writes) \<Rightarrow> (res, perform C caseID writes s))"

definition Resume :: "('s, 'v) CheckpointStore \<Rightarrow> 'v agents \<Rightarrow> RunConfig \<Rightarrow> clock \<Rightarrow> string \<Rightarrow> 's \<Rightarrow> RunResult \<times> 's" where
  "Resume C ag cfg clock caseID s =
     (case Resume_writes C ag cfg clock caseID s of (res, writes) \<Rightarrow> (res, perform C caseID writes s))"

section \<open>The contract of a checkpoint store\<close>

text \<open>
  What a run relies on: seen through \<open>view\<close>, a store holds for each case a map of checkpoints
  and perhaps a run state; each save changes its own entry and each read returns it.
\<close>

type_synonym 'v case_view = "(Stage \<rightharpoonup> 'v Checkpoint) \<times> RunState option"

locale checkpoint_store =
  fixes C :: "('s, 'v) CheckpointStore"
    and inv :: "'s \<Rightarrow> bool"
    and view :: "'s \<Rightarrow> string \<Rightarrow> 'v case_view"
  assumes SaveCheckpoint: "inv s \<Longrightarrow> c \<noteq> [] \<Longrightarrow> c_SaveCheckpoint C c cp s = (e, s') \<Longrightarrow>
      inv s' \<and> e = None \<and> view s' = (view s)(c := ((fst (view s c))(cp_Stage cp \<mapsto> cp), snd (view s c)))"
    and SaveRunState: "inv s \<Longrightarrow> rs_CaseID st = c \<Longrightarrow> c \<noteq> [] \<Longrightarrow> c_SaveRunState C st s = (e, s') \<Longrightarrow>
      inv s' \<and> e = None \<and> view s' = (view s)(c := (fst (view s c), Some st))"
    and DeleteByCase: "inv s \<Longrightarrow> c \<noteq> [] \<Longrightarrow> c_DeleteByCase C c s = (e, s') \<Longrightarrow>
      inv s' \<and> e = None \<and> view s' = (view s)(c := (Map.empty, None))"
    and GetCheckpoint: "inv s \<Longrightarrow> c \<noteq> [] \<Longrightarrow> c_GetCheckpoint C c stage s =
      (case fst (view s c) stage of None \<Rightarrow> Inl ErrCheckpointNotFound | Some cp \<Rightarrow> Inr cp)"
    and GetRunState: "inv s \<Longrightarrow> c \<noteq> [] \<Longrightarrow> c_GetRunState C c s =
      (case snd (view s c) of None \<Rightarrow> Inl ErrRunNotFound | Some st \<Rightarrow> Inr st)"
    and stored_under_case: "inv s \<Longrightarrow> snd (view s c) = Some st \<Longrightarrow> rs_CaseID st = c"

definition mem_view :: "'v InMemoryCheckpointStore \<Rightarrow> string \<Rightarrow> 'v case_view" where
  "mem_view s c =
     (case s c of None \<Rightarrow> (Map.empty, None)
      | Some e \<Rightarrow> (cc_byStage e, if cc_hasRun e then Some (cc_state e) else None))"

definition mem_inv :: "'v InMemoryCheckpointStore \<Rightarrow> bool" where
  "mem_inv s \<longleftrightarrow> (\<forall>c e. s c = Some e \<longrightarrow> cc_hasRun e \<longrightarrow> rs_CaseID (cc_state e) = c)"

text \<open>Each operation on the map, seen through the view.\<close>

lemma mem_view_entry: "mem_view s c = (cc_byStage (case_entry c s), if cc_hasRun (case_entry c s) then Some (cc_state (case_entry c s)) else None)"
  by (simp add: mem_view_def case_entry_def split: option.splits)

lemma mem_view_upd:
  "mem_view (s(c \<mapsto> e)) = (mem_view s)(c := (cc_byStage e, if cc_hasRun e then Some (cc_state e) else None))"
  by (simp add: mem_view_def fun_eq_iff)

lemma mem_view_delete: "mem_view (s(c := None)) = (mem_view s)(c := (Map.empty, None))"
  by (simp add: mem_view_def fun_eq_iff)

lemma mem_inv_upd: "mem_inv s \<Longrightarrow> (cc_hasRun e \<longrightarrow> rs_CaseID (cc_state e) = c) \<Longrightarrow> mem_inv (s(c \<mapsto> e))"
  by (simp add: mem_inv_def)

lemma mem_inv_entry: "mem_inv s \<Longrightarrow> cc_hasRun (case_entry c s) \<Longrightarrow> rs_CaseID (cc_state (case_entry c s)) = c"
  by (auto simp: mem_inv_def case_entry_def split: option.splits)

interpretation ckpt: checkpoint_store mem_checkpoints mem_inv mem_view
proof
  fix s s' :: "'v InMemoryCheckpointStore" and c :: string and e
  assume s: "mem_inv s" and c: "c \<noteq> []"
  show "c_SaveCheckpoint mem_checkpoints c cp s = (e, s') \<Longrightarrow>
      mem_inv s' \<and> e = None \<and> mem_view s' = (mem_view s)(c := ((fst (mem_view s c))(cp_Stage cp \<mapsto> cp), snd (mem_view s c)))" for cp
    using c s by (auto simp: mem_checkpoints_def ckpt_Save_def Let_def mem_view_upd mem_view_entry
        intro!: mem_inv_upd dest: mem_inv_entry)
  show "rs_CaseID st = c \<Longrightarrow> c_SaveRunState mem_checkpoints st s = (e, s') \<Longrightarrow>
      mem_inv s' \<and> e = None \<and> mem_view s' = (mem_view s)(c := (fst (mem_view s c), Some st))" for st
    using c s by (auto simp: mem_checkpoints_def ckpt_SaveRunState_def Let_def mem_view_upd mem_view_entry
        intro!: mem_inv_upd)
  show "c_DeleteByCase mem_checkpoints c s = (e, s') \<Longrightarrow>
      mem_inv s' \<and> e = None \<and> mem_view s' = (mem_view s)(c := (Map.empty, None))"
    using c s by (auto simp: mem_checkpoints_def ckpt_DeleteByCase_def mem_view_delete mem_inv_def split: if_splits)
  show "c_GetCheckpoint mem_checkpoints c stage s =
      (case fst (mem_view s c) stage of None \<Rightarrow> Inl ErrCheckpointNotFound | Some cp \<Rightarrow> Inr cp)" for stage
    using c by (simp add: mem_checkpoints_def ckpt_Get_def mem_view_def split: option.splits)
  show "c_GetRunState mem_checkpoints c s =
      (case snd (mem_view s c) of None \<Rightarrow> Inl ErrRunNotFound | Some st \<Rightarrow> Inr st)"
    using c by (simp add: mem_checkpoints_def ckpt_GetRunState_def mem_view_def split: option.splits)
next
  show "mem_inv s \<Longrightarrow> snd (mem_view s c) = Some st \<Longrightarrow> rs_CaseID st = c" for s :: "'v InMemoryCheckpointStore" and c st
    by (auto simp: mem_inv_def mem_view_def split: option.splits if_splits)
qed

section \<open>Lemmas on runs\<close>

text \<open>Applying the writes of a run to what a store holds for the case.\<close>

fun view_write :: "'v store_write \<Rightarrow> 'v case_view \<Rightarrow> 'v case_view" where
  "view_write (SaveState st) v = (fst v, Some st)"
| "view_write (SaveCheckpointAsync cp) v = ((fst v)(cp_Stage cp \<mapsto> cp), snd v)"

definition own_writes :: "string \<Rightarrow> 'v store_write list \<Rightarrow> bool" where
  "own_writes c ws \<longleftrightarrow> (\<forall>st. SaveState st \<in> set ws \<longrightarrow> rs_CaseID st = c)"

text \<open>The stages run one after the other, with nothing in between.\<close>

fun chain :: "'v agents \<Rightarrow> RunConfig \<Rightarrow> string \<Rightarrow> Stage list \<Rightarrow> 'v pipelineContext
    \<Rightarrow> ('v Checkpoint list \<times> 'v pipelineContext) option" where
  "chain ag cfg c [] pc = Some ([], pc)"
| "chain ag cfg c (stage # stages) pc =
     (case runStage ag cfg c stage pc of
        Inl _ \<Rightarrow> None
      | Inr (cp, pc) \<Rightarrow> map_option (\<lambda>(cps, pc). (cp # cps, pc)) (chain ag cfg c stages pc))"

lemma chain_append:
  "chain ag cfg c (xs @ ys) pc =
     (case chain ag cfg c xs pc of None \<Rightarrow> None
      | Some (cps, pc) \<Rightarrow> map_option (\<lambda>(cps', pc). (cps @ cps', pc)) (chain ag cfg c ys pc))"
  by (induction xs arbitrary: pc)
    (auto simp: option.map_comp comp_def case_prod_beta' option.map_ident split: sum.splits option.splits)

lemma chain_length: "chain ag cfg c xs pc = Some (cps, pc') \<Longrightarrow> length cps = length xs"
  by (induction xs arbitrary: pc cps) (auto split: sum.splits option.splits prod.splits)

text \<open>A checkpoint carries all that its stage adds to the context.\<close>

lemmas stage_defs = runIssueFraming_def runFirstPartyArguments_def runSecondPartyArguments_def
  runEvidenceWeighing_def runLawApplication_def runSynthesis_def runUncertaintySurfacing_def
  runGuardrailCheck_def zero_cp_def Let_def

lemma runStage_checkpoint:
  "runStage ag cfg c stage pc = Inr (cp, pc') \<Longrightarrow> cp_Stage cp = stage \<and> applyCheckpoint cp pc = pc'"
  by (cases stage) (auto simp: stage_defs split: sum.splits prod.splits option.splits if_splits)

lemma applyCheckpoints_chain:
  "chain ag cfg c stages pc = Some (cps, pc') \<Longrightarrow> fold applyCheckpoint cps pc = pc'"
  by (induction stages arbitrary: pc cps)
    (auto split: sum.splits prod.splits simp del: applyCheckpoint.simps dest: runStage_checkpoint)

lemma chain_stages: "chain ag cfg c stages pc = Some (cps, pc') \<Longrightarrow> map cp_Stage cps = stages"
  by (induction stages arbitrary: pc cps) (auto split: sum.splits prod.splits dest: runStage_checkpoint)

text \<open>One set of agents follows another when it succeeds only with the other's result.\<close>

definition follows :: "RunConfig \<Rightarrow> string \<Rightarrow> 'v agents \<Rightarrow> 'v agents \<Rightarrow> bool" where
  "follows cfg c ag ideal \<longleftrightarrow>
     (\<forall>stage pc r. runStage ag cfg c stage pc = Inr r \<longrightarrow> runStage ideal cfg c stage pc = Inr r)"

lemma stageOrder_distinct: "distinct stageOrder"
  by (simp add: stageOrder_def)

lemma length_stageOrder [simp]: "length stageOrder = 8"
  by (simp add: stageOrder_def)

lemma index_of_nth: "distinct xs \<Longrightarrow> i < length xs \<Longrightarrow> index_of (xs ! i) xs = Some i"
proof (induction xs arbitrary: i)
  case Nil
  then show ?case by simp
next
  case (Cons x xs)
  then show ?case by (cases i) auto
qed

lemma nextStage_nth: "k < 8 \<Longrightarrow> nextStage (stageOrder ! k) = Inr ((stageOrder @ [StageComplete]) ! Suc k)"
  using index_of_nth [OF stageOrder_distinct, of k] by (simp add: nextStage_def stageIndex_def nth_append)

lemma drop_take_append:
  assumes "i \<le> j" "j \<le> l"
  shows "drop i (take j xs) @ drop j (take l xs) = drop i (take l xs)"
proof (cases "j \<le> length xs")
  case True
  have "take l xs = take j xs @ drop j (take l xs)"
    using append_take_drop_id [of j "take l xs"] assms(2) by (simp add: min_absorb1)
  then have "drop i (take l xs) = drop i (take j xs @ drop j (take l xs))" by simp
  then show ?thesis using True assms(1) by simp
qed (use assms in simp)

section \<open>The progress of a run\<close>

text \<open>
  A case has progressed by \<open>k\<close> stages: the run state says so, and the checkpoints of these
  stages are those of the chain of the agents \<open>ideal\<close>, which all attempts follow.
\<close>

definition progress :: "'v agents \<Rightarrow> RunConfig \<Rightarrow> string \<Rightarrow> nat \<Rightarrow> RunState \<Rightarrow> (Stage \<rightharpoonup> 'v Checkpoint) \<Rightarrow> 'v pipelineContext \<Rightarrow> bool" where
  "progress ideal cfg c k st m pc \<longleftrightarrow>
     k \<le> 8 \<and> rs_CaseID st = c \<and> rs_CompletedStages st = take k stageOrder \<and>
     rs_CurrentStage st = (stageOrder @ [StageComplete]) ! k \<and>
     (\<exists>cps. chain ideal cfg c (take k stageOrder) zero_pc = Some (cps, pc) \<and>
        map m (take k stageOrder) = map Some cps)"

definition successes :: "RunResult \<Rightarrow> Stage list" where
  "successes r = map st_Stage (filter (\<lambda>t. st_Err t = None) (ss_PerStage (rr_Telemetry r)))"

lemma take_Suc_stageOrder: "k < 8 \<Longrightarrow> take (Suc k) stageOrder = take k stageOrder @ [stageOrder ! k]"
  by (simp add: take_Suc_conv_app_nth)

lemma nth_notin_take: "k < 8 \<Longrightarrow> stageOrder ! k \<notin> set (take k stageOrder)"
  using stageOrder_distinct by (auto simp: in_set_conv_nth nth_eq_iff_index_eq)

lemma progress_step:
  assumes "progress ideal cfg c k st m pc" "k < 8" "runStage ideal cfg c (stageOrder ! k) pc = Inr (cp, pc')"
  shows "progress ideal cfg c (Suc k)
    (st\<lparr>rs_CompletedStages := rs_CompletedStages st @ [stageOrder ! k],
        rs_CurrentStage := (stageOrder @ [StageComplete]) ! Suc k, rs_UpdatedAt := t\<rparr>) (m(cp_Stage cp \<mapsto> cp)) pc'"
proof -
  obtain cps where cps: "chain ideal cfg c (take k stageOrder) zero_pc = Some (cps, pc)"
      "map m (take k stageOrder) = map Some cps"
    using assms(1) by (auto simp: progress_def)
  have "chain ideal cfg c (take (Suc k) stageOrder) zero_pc = Some (cps @ [cp], pc')"
    using cps(1) assms(2,3) by (simp add: take_Suc_stageOrder chain_append)
  moreover have "map (m(cp_Stage cp \<mapsto> cp)) (take (Suc k) stageOrder) = map Some (cps @ [cp])"
    using cps(2) runStage_checkpoint [OF assms(3)] nth_notin_take [OF assms(2)] assms(2)
    by (simp add: take_Suc_stageOrder)
  ultimately show ?thesis using assms(1,2) by (auto simp: progress_def take_Suc_stageOrder)
qed

text \<open>What a run of the loop leaves, when it starts with \<open>k\<close> stages done.\<close>

definition left_by ::
  "'v agents \<Rightarrow> RunConfig \<Rightarrow> string \<Rightarrow> nat \<Rightarrow> 'v case_view \<Rightarrow> Stage list \<Rightarrow> RunResult \<times> 'v store_write list \<Rightarrow> bool" where
  "left_by ideal cfg c k v done out \<longleftrightarrow>
     (case out of (res, ws) \<Rightarrow> own_writes c ws \<and>
       (\<exists>k' m' pc'. k \<le> k' \<and> fold view_write ws v = (m', Some (rr_State res)) \<and>
          progress ideal cfg c k' (rr_State res) m' pc' \<and>
          successes res = done @ drop k (take k' stageOrder) \<and>
          (rr_Err res = None \<longleftrightarrow> rs_Termination (rr_State res) = TerminationComplete) \<and>
          (rr_Err res = None \<longrightarrow> k' = 8)))"

definition succeeded :: "StageTelemetry list \<Rightarrow> Stage list" where
  "succeeded tel = map st_Stage (filter (\<lambda>t. st_Err t = None) tel)"

lemma succeeded_snoc: "succeeded (tel @ [t]) = succeeded tel @ (if st_Err t = None then [st_Stage t] else [])"
  by (simp add: succeeded_def)

lemma drive_loop_skip:
  "set xs \<subseteq> set (rs_CompletedStages st) \<Longrightarrow>
     drive_loop ag cfg clock c (xs @ ys) pc st tel = drive_loop ag cfg clock c ys pc st tel"
  by (induction xs) (simp_all add: isStageComplete_def)

lemma left_by_stop:
  assumes "progress ideal cfg c k st m pc" "rs_CaseID st' = rs_CaseID st"
    "rs_CompletedStages st' = rs_CompletedStages st" "rs_CurrentStage st' = rs_CurrentStage st"
    "rs_Termination st' \<noteq> TerminationComplete" "err \<noteq> None" "succeeded tel' = done"
  shows "left_by ideal cfg c k (m, x) done
    (\<lparr>rr_State = st', rr_Telemetry = telemetry_snapshot tel', rr_Err = err\<rparr>, [SaveState st'])"
  using assms by (auto simp: left_by_def own_writes_def progress_def successes_def telemetry_snapshot_def succeeded_def)

lemma left_by_more:
  assumes "left_by ideal cfg c (Suc k) ((m(cp_Stage cp \<mapsto> cp)), Some st) (done @ [stageOrder ! k]) (res, ws)"
    "k < 8" "rs_CaseID st = c"
  shows "left_by ideal cfg c k (m, x) done (res, SaveCheckpointAsync cp # SaveState st # ws)"
proof -
  obtain k' m' pc' where k': "Suc k \<le> k'" "fold view_write ws (m(cp_Stage cp \<mapsto> cp), Some st) = (m', Some (rr_State res))"
      "progress ideal cfg c k' (rr_State res) m' pc'"
      "successes res = done @ [stageOrder ! k] @ drop (Suc k) (take k' stageOrder)"
      "rr_Err res = None \<longleftrightarrow> rs_Termination (rr_State res) = TerminationComplete" "rr_Err res = None \<longrightarrow> k' = 8"
    using assms(1) unfolding left_by_def case_prod_conv append_assoc by (elim conjE exE) (rule that)
  have "drop k (take k' stageOrder) = stageOrder ! k # drop (Suc k) (take k' stageOrder)"
    using k'(1) assms(2) by (subst Cons_nth_drop_Suc [symmetric]) auto
  moreover have "own_writes c (SaveCheckpointAsync cp # SaveState st # ws)"
    using assms(1,3) by (auto simp: left_by_def own_writes_def)
  ultimately show ?thesis
    using k' unfolding left_by_def by (intro case_prodI conjI exI [of _ k'] exI [of _ m'] exI [of _ pc']) simp_all
qed

lemma drive_loop_progress:
  assumes "follows cfg c ag ideal" "progress ideal cfg c k st m pc"
  shows "left_by ideal cfg c k (m, x) (succeeded tel) (drive_loop ag cfg clock c (drop k stageOrder) pc st tel)"
  using assms(2)
proof (induction "8 - k" arbitrary: k st m pc tel x)
  case 0
  then have "k = 8" by (simp add: progress_def)
  with 0 show ?case
    by (auto simp: left_by_def own_writes_def progress_def successes_def telemetry_snapshot_def succeeded_def
        nth_append Let_def)
next
  case (Suc n)
  then have k: "k < 8" by simp
  let ?stage = "stageOrder ! k"
  have drop: "drop k stageOrder = ?stage # drop (Suc k) stageOrder"
    using k by (simp add: Cons_nth_drop_Suc)
  have fresh: "\<not> isStageComplete (rs_CompletedStages st) ?stage"
    using Suc.prems nth_notin_take [OF k] by (simp add: isStageComplete_def progress_def)
  have current: "rs_CurrentStage st = ?stage" using Suc.prems k by (simp add: progress_def nth_append)
  consider (budget) "pb_MaxTotalWallClock (withDefaults (cf_Budget cfg)) \<le> time_Sub (clock ?stage 0) (rs_StartedAt st)"
    | (err) e where "\<not> pb_MaxTotalWallClock (withDefaults (cf_Budget cfg)) \<le> time_Sub (clock ?stage 0) (rs_StartedAt st)"
        "runStage ag cfg c ?stage pc = Inl e"
    | (ok) cp pc' where "\<not> pb_MaxTotalWallClock (withDefaults (cf_Budget cfg)) \<le> time_Sub (clock ?stage 0) (rs_StartedAt st)"
        "runStage ag cfg c ?stage pc = Inr (cp, pc')"
    by (metis old.sum.exhaust surj_pair)
  then show ?case
  proof cases
    case budget
    then show ?thesis
      using fresh current unfolding drop
      by (simp add: Let_def) (rule left_by_stop [OF Suc.prems], simp_all)
  next
    case err
    then show ?thesis
      using fresh unfolding drop
      by (simp add: Let_def failRun_def) (rule left_by_stop [OF Suc.prems], simp_all add: succeeded_snoc)
  next
    case ok
    let ?tel = "tel @ [\<lparr>st_Stage = ?stage, st_Duration = time_Sub (clock ?stage 2) (clock ?stage 1), st_Err = None\<rparr>]"
    let ?st = "st\<lparr>rs_CompletedStages := rs_CompletedStages st @ [?stage],
                  rs_CurrentStage := (stageOrder @ [StageComplete]) ! Suc k, rs_UpdatedAt := clock ?stage 3\<rparr>"
    have "runStage ideal cfg c ?stage pc = Inr (cp, pc')" using assms(1) ok(2) by (simp add: follows_def)
    note prog = progress_step [OF Suc.prems k this, of "clock ?stage 3"]
    obtain res ws where rec: "drive_loop ag cfg clock c (drop (Suc k) stageOrder) pc' ?st ?tel = (res, ws)"
      by fastforce
    have "left_by ideal cfg c (Suc k) (m(cp_Stage cp \<mapsto> cp), Some ?st) (succeeded ?tel) (res, ws)"
      using Suc.hyps(1) [OF _ prog, where tel = ?tel and x = "Some ?st"] Suc.hyps(2) rec by simp
    then have "left_by ideal cfg c k (m, x) (succeeded tel) (res, SaveCheckpointAsync cp # SaveState ?st # ws)"
      using left_by_more [of ideal cfg c k m cp ?st "succeeded tel" res ws x] k Suc.prems
      by (simp add: succeeded_snoc progress_def)
    moreover have "drive_loop ag cfg clock c (drop k stageOrder) pc st tel =
        (res, SaveCheckpointAsync cp # SaveState ?st # ws)"
      using fresh ok rec nextStage_nth [OF k] unfolding drop by (simp add: Let_def)
    ultimately show ?thesis by simp
  qed
qed

section \<open>Attempts at a case\<close>

text \<open>\<open>k\<close> stages of the case are done, in the store.\<close>

definition case_at :: "'v agents \<Rightarrow> RunConfig \<Rightarrow> string \<Rightarrow> nat \<Rightarrow> 'v case_view \<Rightarrow> bool" where
  "case_at ideal cfg c k v \<longleftrightarrow>
     (\<exists>st pc. snd v = Some st \<and> progress ideal cfg c k st (fst v) pc \<and>
        (rs_Termination st = TerminationComplete \<longrightarrow> k = 8))"

text \<open>What a call that returns \<open>res\<close> does to a case with \<open>k\<close> stages done.\<close>

definition advances :: "'v agents \<Rightarrow> RunConfig \<Rightarrow> string \<Rightarrow> nat \<Rightarrow> RunResult \<Rightarrow> nat \<Rightarrow> 'v case_view \<Rightarrow> bool" where
  "advances ideal cfg c k res k' v \<longleftrightarrow> k \<le> k' \<and> case_at ideal cfg c k' v \<and> snd v = Some (rr_State res) \<and>
     successes res = drop k (take k' stageOrder) \<and> (rr_Err res = None \<longrightarrow> k' = 8)"

fun Resumes ::
  "('s, 'v) CheckpointStore \<Rightarrow> RunConfig \<Rightarrow> string \<Rightarrow> ('v agents \<times> clock) list \<Rightarrow> 's \<Rightarrow> RunResult list \<times> 's" where
  "Resumes C cfg c [] s = ([], s)"
| "Resumes C cfg c ((ag, clock) # as) s =
     (case Resume C ag cfg clock c s of (r, s) \<Rightarrow> (case Resumes C cfg c as s of (rs, s) \<Rightarrow> (r # rs, s)))"

context checkpoint_store
begin

lemma perform_view:
  assumes "inv s" "c \<noteq> []" "own_writes c ws"
  shows "inv (perform C c ws s) \<and> view (perform C c ws s) = (view s)(c := fold view_write ws (view s c))"
  using assms(1,3)
proof (induction ws arbitrary: s)
  case Nil
  then show ?case by (simp add: perform_def)
next
  case (Cons w ws)
  have "inv (perform_write C c w s) \<and> view (perform_write C c w s) = (view s)(c := view_write w (view s c))"
  proof (cases w)
    case (SaveState st)
    then have "rs_CaseID st = c" using Cons.prems(2) by (auto simp: own_writes_def)
    then show ?thesis
      using SaveRunState [OF Cons.prems(1) _ assms(2), of st "fst (c_SaveRunState C st s)" "snd (c_SaveRunState C st s)"]
      by (simp add: SaveState)
  next
    case (SaveCheckpointAsync cp)
    then show ?thesis
      using SaveCheckpoint [OF Cons.prems(1) assms(2), of cp "fst (c_SaveCheckpoint C c cp s)" "snd (c_SaveCheckpoint C c cp s)"]
      by simp
  qed
  then show ?case
    using Cons.IH [of "perform_write C c w s"] Cons.prems(2) by (simp add: perform_def own_writes_def fun_eq_iff)
qed

lemma load_chain:
  assumes "inv s" "c \<noteq> []" "map (fst (view s c)) stages = map Some cps"
  shows "loadCompletedStageOutputs C c s stages pc = Inr (fold applyCheckpoint cps pc)"
  using assms(3)
proof (induction stages arbitrary: cps pc)
  case Nil
  then show ?case by simp
next
  case (Cons stage stages)
  then show ?case using GetCheckpoint [OF assms(1,2), of stage] by (auto simp: Cons_eq_map_conv simp del: applyCheckpoint.simps)
qed

lemma drive_progress:
  assumes "inv s" "c \<noteq> []" "follows cfg c ag ideal" "progress ideal cfg c k st (fst (view s c)) pc"
  shows "left_by ideal cfg c k (view s c) [] (drive C ag cfg clock c st s)"
proof -
  obtain cps where cps: "chain ideal cfg c (take k stageOrder) zero_pc = Some (cps, pc)"
      "map (fst (view s c)) (take k stageOrder) = map Some cps" and completed: "rs_CompletedStages st = take k stageOrder"
    using assms(4) by (auto simp: progress_def)
  have "loadCompletedStageOutputs C c s (rs_CompletedStages st) zero_pc = Inr pc"
    using load_chain [OF assms(1,2) cps(2)] applyCheckpoints_chain [OF cps(1)] completed by simp
  moreover have "drive_loop ag cfg clock c stageOrder pc st [] = drive_loop ag cfg clock c (drop k stageOrder) pc st []"
    using drive_loop_skip [of "take k stageOrder" st ag cfg clock c "drop k stageOrder" pc "[]"] completed by simp
  ultimately show ?thesis
    using drive_loop_progress [OF assms(3,4), of "snd (view s c)" "[]"] by (simp add: drive_def succeeded_def)
qed

lemma drive_advances:
  assumes "inv s" "c \<noteq> []" "follows cfg c ag ideal" "progress ideal cfg c k st (fst (view s c)) pc"
    "drive C ag cfg clock c st s = (res, ws)"
  shows "inv (perform C c ws s) \<and> (\<exists>k'. advances ideal cfg c k res k' (view (perform C c ws s) c))"
proof -
  obtain k' m' pc' where k': "k \<le> k'" "fold view_write ws (view s c) = (m', Some (rr_State res))"
      "progress ideal cfg c k' (rr_State res) m' pc'" "successes res = drop k (take k' stageOrder)"
      "rr_Err res = None \<longleftrightarrow> rs_Termination (rr_State res) = TerminationComplete" "rr_Err res = None \<longrightarrow> k' = 8"
    and own: "own_writes c ws"
    using drive_progress [OF assms(1-4), of clock] unfolding assms(5) left_by_def case_prod_conv append_Nil
    by (elim conjE exE) (rule that)
  have "view (perform C c ws s) c = (m', Some (rr_State res))" "inv (perform C c ws s)"
    using perform_view [OF assms(1,2) own] k'(2) by simp_all
  moreover have "advances ideal cfg c k res k' (m', Some (rr_State res))"
    using k' unfolding advances_def case_at_def by auto
  ultimately show ?thesis by auto
qed

lemma Run_advances:
  assumes "inv s" "c \<noteq> []" "follows cfg c ag ideal" "RunConfig_validate cfg = None" "Run C ag cfg clock c s = (res, s')"
  shows "inv s' \<and> (\<exists>k'. advances ideal cfg c 0 res k' (view s' c))"
proof -
  have "progress ideal cfg c 0 (initial_state clock c) (fst (view s c)) zero_pc"
    by (simp add: progress_def initial_state_def zero_RunState_def stageOrder_def)
  then show ?thesis
    using drive_advances [OF assms(1-3)] assms(2,4,5) by (auto simp: Run_def Run_writes_def split: prod.splits)
qed

lemma Resume_advances:
  assumes "inv s" "c \<noteq> []" "follows cfg c ag ideal" "RunConfig_validate cfg = None"
    "case_at ideal cfg c k (view s c)" "Resume C ag cfg clock c s = (res, s')"
  shows "inv s' \<and> (\<exists>k'. advances ideal cfg c k res k' (view s' c))"
proof -
  obtain st pc where st: "snd (view s c) = Some st" "progress ideal cfg c k st (fst (view s c)) pc"
      "rs_Termination st = TerminationComplete \<longrightarrow> k = 8"
    using assms(5) by (auto simp: case_at_def)
  have get: "c_GetRunState C c s = Inr st" using GetRunState [OF assms(1,2)] st(1) by simp
  show ?thesis
  proof (cases "rs_Termination st = TerminationComplete")
    case True
    then have "res = \<lparr>rr_State = st, rr_Telemetry = telemetry_snapshot [], rr_Err = None\<rparr>" "s' = s"
      using assms(2,4,6) get by (simp_all add: Resume_def Resume_writes_def perform_def)
    then show ?thesis
      using assms(1,5) st True by (auto simp: advances_def successes_def telemetry_snapshot_def)
  next
    case False
    let ?st = "st\<lparr>rs_Termination := TerminationRunning, rs_UpdatedAt := clock StageComplete 0\<rparr>"
    have "progress ideal cfg c k ?st (fst (view s c)) pc" using st(2) by (simp add: progress_def)
    from drive_advances [OF assms(1-3) this, of clock] show ?thesis
      using assms(2,4,6) get False by (auto simp: Resume_def Resume_writes_def split: prod.splits)
  qed
qed

lemma Resumes_advance:
  assumes "inv s" "c \<noteq> []" "\<forall>(ag, clock)\<in>set as. follows cfg c ag ideal" "RunConfig_validate cfg = None"
    "case_at ideal cfg c k (view s c)" "Resumes C cfg c as s = (rs, s')"
  shows "inv s' \<and> (\<exists>k'. k \<le> k' \<and> case_at ideal cfg c k' (view s' c) \<and>
    concat (map successes rs) = drop k (take k' stageOrder) \<and> (rs \<noteq> [] \<and> rr_Err (last rs) = None \<longrightarrow> k' = 8))"
  using assms(1,3,5,6)
proof (induction as arbitrary: s k rs)
  case Nil
  then show ?case by (auto intro!: exI [of _ k])
next
  case (Cons a as)
  obtain ag clock where a: "a = (ag, clock)" by fastforce
  obtain r s1 where r: "Resume C ag cfg clock c s = (r, s1)" by fastforce
  obtain rs1 where rs1: "Resumes C cfg c as s1 = (rs1, s')" "rs = r # rs1"
    using Cons.prems(4) r by (auto simp: a split: prod.splits)
  obtain k1 where k1: "inv s1" "advances ideal cfg c k r k1 (view s1 c)"
    using Resume_advances [OF Cons.prems(1) assms(2) _ assms(4) Cons.prems(3) r] Cons.prems(2) a by auto
  obtain k2 where k2: "inv s'" "k1 \<le> k2" "case_at ideal cfg c k2 (view s' c)"
      "concat (map successes rs1) = drop k1 (take k2 stageOrder)" "rs1 \<noteq> [] \<and> rr_Err (last rs1) = None \<longrightarrow> k2 = 8"
    using Cons.IH [OF k1(1) _ _ rs1(1), of k1] Cons.prems(2) k1(2) by (auto simp: advances_def)
  have "drop k (take k1 stageOrder) @ drop k1 (take k2 stageOrder) = drop k (take k2 stageOrder)"
    using k1(2) k2(2) by (intro drop_take_append) (simp_all add: advances_def)
  moreover have "k2 \<le> 8" using k2(3) by (auto simp: case_at_def progress_def)
  ultimately show ?case
    using k1 k2 rs1 by (auto simp: advances_def intro!: exI [of _ k2])
qed

end

section \<open>Facts on single calls\<close>

lemma runStage_no_budget: "runStage ag cfg c stage pc \<noteq> Inl (ErrBudgetExhausted st d)"
proof -
  have "check_conclusions tcs \<noteq> Some (ErrBudgetExhausted st d)" for tcs
    by (induction tcs) (auto split: option.splits)
  then show ?thesis
    by (cases stage)
      (auto simp: stage_defs fetchTreeSnapshot_def split: sum.splits prod.splits option.splits if_splits)
qed

text \<open>The start of a run never changes, a completed run keeps the failure it was resumed from.\<close>

lemma drive_loop_state:
  assumes "drive_loop ag cfg clock c stages pc st tel = (res, ws)"
  shows "rs_StartedAt (rr_State res) = rs_StartedAt st \<and> rs_CaseID (rr_State res) = rs_CaseID st \<and>
    (rr_Err res = None \<longrightarrow> rs_FailedStage (rr_State res) = rs_FailedStage st \<and>
       rs_FailureReason (rr_State res) = rs_FailureReason st \<and> rs_Termination (rr_State res) = TerminationComplete) \<and>
    (\<forall>stage d. rr_Err res = Some (ErrBudgetExhausted stage d) \<longrightarrow>
       rs_CurrentStage (rr_State res) = stage \<and> rs_Termination (rr_State res) = TerminationBudgetExhausted \<and>
       pb_MaxTotalWallClock (withDefaults (cf_Budget cfg)) \<le> time_Sub (clock stage 0) (rs_StartedAt st))"
  using assms
proof (induction stages arbitrary: pc st tel res ws)
  case Nil
  then show ?case by (auto simp: Let_def)
next
  case (Cons stage stages)
  show ?case
  proof (cases "isStageComplete (rs_CompletedStages st) stage")
    case True
    then show ?thesis using Cons.IH Cons.prems by simp
  next
    case False
    show ?thesis
    proof (cases "runStage ag cfg c stage pc")
      case (Inl err)
      then show ?thesis
        using Cons.prems False runStage_no_budget [of ag cfg c stage pc] by (auto simp: Let_def failRun_def split: if_splits)
    next
      case (Inr a)
      obtain cp pc' where a: "a = (cp, pc')" by fastforce
      have next_err: "nextStage stage = Inl e \<Longrightarrow> e = ErrUnknownStage" for e
        by (auto simp: nextStage_def split: option.splits if_splits)
      show ?thesis
      proof (cases "pb_MaxTotalWallClock (withDefaults (cf_Budget cfg)) \<le> time_Sub (clock stage 0) (rs_StartedAt st)")
        case True
        then show ?thesis using Cons.prems False by (auto simp: Let_def)
      next
        case in_budget: False
        show ?thesis
        proof (cases "nextStage stage")
          case (Inl e)
          then show ?thesis using Cons.prems False in_budget Inr a next_err by (auto simp: Let_def failRun_def)
        next
          case nxt: (Inr nxt)
          let ?st = "st\<lparr>rs_CompletedStages := rs_CompletedStages st @ [stage], rs_CurrentStage := nxt,
              rs_UpdatedAt := clock stage 3\<rparr>"
          let ?tel = "tel @ [\<lparr>st_Stage = stage, st_Duration = time_Sub (clock stage 2) (clock stage 1), st_Err = None\<rparr>]"
          obtain res1 ws1 where "drive_loop ag cfg clock c stages pc' ?st ?tel = (res1, ws1)" by fastforce
          with Cons.IH [OF this] Cons.prems False in_budget Inr a nxt show ?thesis by (simp add: Let_def)
        qed
      qed
    qed
  qed
qed

lemma Resumes_all:
  assumes "\<And>ag clock s r s'. (ag, clock) \<in> set as \<Longrightarrow> P s \<Longrightarrow> Resume C ag cfg clock c s = (r, s') \<Longrightarrow> P s' \<and> Q r"
    "P s" "Resumes C cfg c as s = (rs, s')"
  shows "\<forall>r\<in>set rs. Q r"
  using assms
proof (induction as arbitrary: s rs)
  case Nil
  then show ?case by simp
next
  case (Cons a as)
  obtain ag clock where a: "a = (ag, clock)" by fastforce
  obtain r s1 where r: "Resume C ag cfg clock c s = (r, s1)" by fastforce
  obtain rs1 where rs1: "Resumes C cfg c as s1 = (rs1, s')" "rs = r # rs1"
    using Cons.prems(3) r by (auto simp: a split: prod.splits)
  have "P s1 \<and> Q r" using Cons.prems(1) [OF _ Cons.prems(2) r] a by simp
  moreover have "\<forall>r\<in>set rs1. Q r"
    using Cons.IH [OF _ _ rs1(1)] Cons.prems(1) calculation by (metis list.set_intros(2))
  ultimately show ?case using rs1(2) by simp
qed

lemma drive_loop_budget_stage:
  "drive_loop ag cfg clock c stages pc st tel = (res, ws) \<Longrightarrow> rr_Err res = Some (ErrBudgetExhausted stage d) \<Longrightarrow>
     stage \<in> set stages"
proof (induction stages arbitrary: pc st tel res ws)
  case Nil
  then show ?case by (auto simp: Let_def)
next
  case (Cons stage1 stages)
  have no: "runStage ag cfg c stage1 pc \<noteq> Inl (ErrBudgetExhausted stage d)" by (rule runStage_no_budget)
  have next_err: "nextStage stage1 = Inl e \<Longrightarrow> e = ErrUnknownStage" for e
    by (auto simp: nextStage_def split: option.splits if_splits)
  from Cons.prems no show ?case
    by (auto simp: Let_def failRun_def split: if_splits sum.splits prod.splits dest: next_err Cons.IH)
qed

context checkpoint_store
begin

lemma Resume_loop:
  assumes "inv s" "c \<noteq> []" "RunConfig_validate cfg = None" "case_at ideal cfg c k (view s c)"
    "snd (view s c) = Some st" "rs_Termination st \<noteq> TerminationComplete"
  shows "\<exists>pc. progress ideal cfg c k st (fst (view s c)) pc \<and> Resume_writes C ag cfg clock c s =
    drive_loop ag cfg clock c (drop k stageOrder) pc
      (st\<lparr>rs_Termination := TerminationRunning, rs_UpdatedAt := clock StageComplete 0\<rparr>) []"
proof -
  obtain pc cps where prog: "progress ideal cfg c k st (fst (view s c)) pc"
    and cps: "chain ideal cfg c (take k stageOrder) zero_pc = Some (cps, pc)"
      "map (fst (view s c)) (take k stageOrder) = map Some cps"
    and completed: "rs_CompletedStages st = take k stageOrder"
    using assms(4,5) by (auto simp: case_at_def progress_def)
  let ?st = "st\<lparr>rs_Termination := TerminationRunning, rs_UpdatedAt := clock StageComplete 0\<rparr>"
  have "loadCompletedStageOutputs C c s (rs_CompletedStages ?st) zero_pc = Inr pc"
    using load_chain [OF assms(1,2) cps(2)] applyCheckpoints_chain [OF cps(1)] completed by simp
  moreover have "drive_loop ag cfg clock c stageOrder pc ?st [] = drive_loop ag cfg clock c (drop k stageOrder) pc ?st []"
    using drive_loop_skip [of "take k stageOrder" ?st ag cfg clock c "drop k stageOrder" pc "[]"] completed by simp
  moreover have "c_GetRunState C c s = Inr st" using GetRunState [OF assms(1,2)] assms(5) by simp
  ultimately show ?thesis
    using assms(2,3,6) prog by (auto simp: Resume_writes_def drive_def)
qed

text \<open>A run halted on its budget, resumed at a later time.\<close>

definition halted :: "RunConfig \<Rightarrow> string \<Rightarrow> Stage \<Rightarrow> time \<Rightarrow> 's \<Rightarrow> bool" where
  "halted cfg c stage t s \<longleftrightarrow>
     (\<exists>ideal k st. case_at ideal cfg c k (view s c) \<and> snd (view s c) = Some st \<and>
        rs_Termination st = TerminationBudgetExhausted \<and> rs_CurrentStage st = stage \<and>
        pb_MaxTotalWallClock (withDefaults (cf_Budget cfg)) \<le> time_Sub t (rs_StartedAt st))"

lemma halted_Resume:
  assumes "inv s" "c \<noteq> []" "RunConfig_validate cfg = None" "halted cfg c stage t s" "t \<le> clock stage 0"
    "stage \<noteq> StageComplete" "Resume C ag cfg clock c s = (res, s')"
  shows "inv s' \<and> halted cfg c stage t s' \<and> successes res = [] \<and> (\<exists>d. rr_Err res = Some (ErrBudgetExhausted stage d))"
proof -
  obtain ideal :: "'v agents" and k st where st: "case_at ideal cfg c k (view s c)" "snd (view s c) = Some st"
      "rs_Termination st = TerminationBudgetExhausted" "rs_CurrentStage st = stage"
      "pb_MaxTotalWallClock (withDefaults (cf_Budget cfg)) \<le> time_Sub t (rs_StartedAt st)"
    using assms(4) unfolding halted_def by (elim exE conjE) (rule that)
  obtain pc where prog: "progress ideal cfg c k st (fst (view s c)) pc"
    and loop: "Resume_writes C ag cfg clock c s = drive_loop ag cfg clock c (drop k stageOrder) pc
      (st\<lparr>rs_Termination := TerminationRunning, rs_UpdatedAt := clock StageComplete 0\<rparr>) []"
    using Resume_loop [OF assms(1-3) st(1,2), of ag clock] st(3) by auto
  have k: "k < 8" "stage = stageOrder ! k"
    using prog st(4) assms(6) by (auto simp: progress_def nth_append le_less split: if_splits)
  have drop: "drop k stageOrder = stage # drop (Suc k) stageOrder"
    using k by (simp add: Cons_nth_drop_Suc)
  have fresh: "\<not> isStageComplete (rs_CompletedStages st) stage"
    using prog nth_notin_take [OF k(1)] k(2) by (simp add: isStageComplete_def progress_def)
  have late: "pb_MaxTotalWallClock (withDefaults (cf_Budget cfg)) \<le> time_Sub (clock stage 0) (rs_StartedAt st)"
    using st(5) assms(5) by (simp add: time_Sub_def)
  let ?st = "st\<lparr>rs_Termination := TerminationBudgetExhausted, rs_CurrentStage := stage, rs_UpdatedAt := clock stage 1\<rparr>"
  have out: "Resume_writes C ag cfg clock c s = (\<lparr>rr_State = ?st, rr_Telemetry = telemetry_snapshot [],
      rr_Err = Some (ErrBudgetExhausted stage (time_Sub (clock stage 0) (rs_StartedAt st)))\<rparr>, [SaveState ?st])"
    using fresh late unfolding loop drop by (simp add: Let_def)
  have "own_writes c [SaveState ?st]" using prog by (simp add: own_writes_def progress_def)
  note written = perform_view [OF assms(1,2) this]
  have "s' = perform C c [SaveState ?st] s" using assms(7) out by (simp add: Resume_def)
  then have s': "inv s'" "view s' c = (fst (view s c), Some ?st)" using written by simp_all
  have "progress ideal cfg c k ?st (fst (view s c)) pc" using prog st(4) by (simp add: progress_def)
  then have "halted cfg c stage t s'"
    using st(5) unfolding halted_def s'(2) case_at_def by (intro exI [of _ ideal] exI [of _ k] exI [of _ ?st]) auto
  then show ?thesis
    using s'(1) assms(7) out by (auto simp: Resume_def successes_def telemetry_snapshot_def)
qed

lemma halted_Resumes:
  assumes "c \<noteq> []" "RunConfig_validate cfg = None" "stage \<noteq> StageComplete"
    "inv s" "halted cfg c stage t s" "\<forall>(ag, clock)\<in>set as. t \<le> clock stage 0" "Resumes C cfg c as s = (rs, s')"
  shows "\<forall>r\<in>set rs. successes r = [] \<and> (\<exists>d. rr_Err r = Some (ErrBudgetExhausted stage d))"
proof (rule Resumes_all [OF _ _ assms(7), where P = "\<lambda>s. inv s \<and> halted cfg c stage t s"])
  show "inv s \<and> halted cfg c stage t s" using assms(4,5) by blast
  fix ag clock s r s'
  assume "(ag, clock) \<in> set as" "inv s \<and> halted cfg c stage t s" "Resume C ag cfg clock c s = (r, s')"
  then show "(inv s' \<and> halted cfg c stage t s') \<and> successes r = [] \<and> (\<exists>d. rr_Err r = Some (ErrBudgetExhausted stage d))"
    using halted_Resume [OF _ assms(1,2) _ _ assms(3)] assms(6) by blast
qed

text \<open>A run that stops on its budget leaves the case halted.\<close>

lemma Run_halts:
  assumes "inv s" "c \<noteq> []" "RunConfig_validate cfg = None" "Run C ag cfg clock c s = (r, s')"
    "rr_Err r = Some (ErrBudgetExhausted stage d)"
  shows "inv s' \<and> halted cfg c stage (clock stage 0) s' \<and> stage \<noteq> StageComplete"
proof -
  have "follows cfg c ag ag" by (simp add: follows_def)
  from Run_advances [OF assms(1,2) this assms(3,4)] obtain k where
    k: "inv s'" "advances ag cfg c 0 r k (view s' c)" by blast
  have "loadCompletedStageOutputs C c s (rs_CompletedStages (initial_state clock c)) zero_pc = Inr zero_pc"
    by (simp add: initial_state_def zero_RunState_def)
  then obtain ws where loop: "drive_loop ag cfg clock c stageOrder zero_pc (initial_state clock c) [] = (r, ws)"
    using assms(2-4) by (auto simp: Run_def Run_writes_def drive_def split: prod.splits)
  note state = drive_loop_state [OF this]
  then have halt: "rs_CurrentStage (rr_State r) = stage" "rs_Termination (rr_State r) = TerminationBudgetExhausted"
      "pb_MaxTotalWallClock (withDefaults (cf_Budget cfg)) \<le> time_Sub (clock stage 0) (rs_StartedAt (rr_State r))"
    using assms(5) by auto
  have "stage \<in> set stageOrder" using drive_loop_budget_stage [OF loop assms(5)] .
  then have "stage \<noteq> StageComplete" by (auto simp: stageOrder_def)
  moreover have "halted cfg c stage (clock stage 0) s'"
    using k(2) halt unfolding halted_def advances_def by blast
  ultimately show ?thesis using k(1) by blast
qed

text \<open>A case whose run state names a stage that has no checkpoint cannot be resumed.\<close>

definition stuck :: "string \<Rightarrow> Stage \<Rightarrow> 's \<Rightarrow> bool" where
  "stuck c stage s \<longleftrightarrow>
     (\<exists>st rest. snd (view s c) = Some st \<and> rs_CompletedStages st = stage # rest \<and>
        rs_Termination st \<noteq> TerminationComplete \<and> fst (view s c) stage = None)"

lemma stuck_Resume:
  assumes "inv s" "c \<noteq> []" "RunConfig_validate cfg = None" "stuck c stage s" "Resume C ag cfg clock c s = (r, s')"
  shows "(inv s' \<and> stuck c stage s') \<and> rr_Err r = Some (LoadCheckpoint stage ErrCheckpointNotFound)"
proof -
  obtain st rest where st: "snd (view s c) = Some st" "rs_CompletedStages st = stage # rest"
      "rs_Termination st \<noteq> TerminationComplete" "fst (view s c) stage = None"
    using assms(4) by (auto simp: stuck_def)
  let ?err = "LoadCheckpoint stage ErrCheckpointNotFound"
  let ?st = "st\<lparr>rs_Termination := TerminationFailed, rs_FailedStage := StageIssueFraming,
      rs_FailureReason := Some ?err, rs_UpdatedAt := clock StageComplete 1\<rparr>"
  have "c_GetRunState C c s = Inr st" "c_GetCheckpoint C c stage s = Inl ErrCheckpointNotFound"
    using GetRunState [OF assms(1,2)] GetCheckpoint [OF assms(1,2)] st by simp_all
  then have out: "r = \<lparr>rr_State = ?st, rr_Telemetry = telemetry_snapshot [], rr_Err = Some ?err\<rparr>"
      "s' = perform C c [SaveState ?st] s"
    using assms(2,3,5) st(2,3) by (auto simp: Resume_def Resume_writes_def drive_def failRun_def Let_def)
  have "own_writes c [SaveState ?st]" using stored_under_case [OF assms(1) st(1)] by (simp add: own_writes_def)
  from perform_view [OF assms(1,2) this] have "inv s'" "view s' c = (fst (view s c), Some ?st)"
    using out(2) by simp_all
  then show ?thesis using st out(1) by (simp add: stuck_def)
qed

end

text \<open>
  A crash while a run is under way: of the first \<open>n\<close> writes those have reached the store that
  do not wait in a goroutine, which is lost with the process.
\<close>

definition crash_store ::
  "('s, 'v) CheckpointStore \<Rightarrow> string \<Rightarrow> nat \<Rightarrow> Stage set \<Rightarrow> 'v store_write list \<Rightarrow> 's \<Rightarrow> 's" where
  "crash_store C c n lost ws s =
     perform C c (filter (\<lambda>w. case w of SaveState _ \<Rightarrow> True | SaveCheckpointAsync cp \<Rightarrow> cp_Stage cp \<notin> lost) (take n ws)) s"

section \<open>Properties\<close>

lemma fst_CanFinalize: "c \<noteq> [] \<Longrightarrow> fst (CanFinalize c (Some g)) \<longleftrightarrow> g c = Inr SignoffApproved"
  by (simp add: CanFinalize_def split: sum.splits)

lemma check_conclusions_clean:
  "check_conclusions tcs = None \<Longrightarrow> tc \<in> set tcs \<Longrightarrow> \<not> ContainsVerdictLanguage (tc_Text tc)"
  by (induction tcs) (auto simp: CheckText_def split: option.splits if_splits)

lemma case_at_checkpoints:
  assumes "mem_inv s" "c \<noteq> []" "case_at ideal cfg c 8 (mem_view s c)"
  shows "\<exists>cps pc. chain ideal cfg c stageOrder zero_pc = Some (cps, pc) \<and>
    map (\<lambda>stage. ckpt_Get c stage s) stageOrder = map Inr cps"
proof -
  obtain cps pc where cps: "chain ideal cfg c stageOrder zero_pc = Some (cps, pc)"
      "map (fst (mem_view s c)) stageOrder = map Some cps"
    using assms(3) by (auto simp: case_at_def progress_def)
  have "ckpt_Get c stage s = (case fst (mem_view s c) stage of None \<Rightarrow> Inl ErrCheckpointNotFound | Some cp \<Rightarrow> Inr cp)" for stage
    using ckpt.GetCheckpoint [OF assms(1,2)] by (simp add: mem_checkpoints_def)
  then have "map (\<lambda>stage. ckpt_Get c stage s) stageOrder =
      map (\<lambda>x. case x of None \<Rightarrow> Inl ErrCheckpointNotFound | Some cp \<Rightarrow> Inr cp) (map (fst (mem_view s c)) stageOrder)"
    by simp
  also have "\<dots> = map Inr cps" unfolding cps(2) by simp
  finally show ?thesis using cps(1) by blast
qed

lemma attempts_complete:
  assumes "c \<noteq> []" "RunConfig_validate cfg = None" "mem_inv s"
    "\<forall>(ag, clock)\<in>set ((ag0, clock0) # as). follows cfg c ag ideal"
    "Run mem_checkpoints ag0 cfg clock0 c s = (r0, s1)" "Resumes mem_checkpoints cfg c as s1 = (rs, s2)"
    "rr_Err (last (r0 # rs)) = None"
  shows "mem_inv s2 \<and> case_at ideal cfg c 8 (mem_view s2 c) \<and> concat (map successes (r0 # rs)) = stageOrder"
proof -
  obtain k where k: "mem_inv s1" "advances ideal cfg c 0 r0 k (mem_view s1 c)"
    using ckpt.Run_advances [OF assms(3,1) _ assms(2,5)] assms(4) by auto
  obtain k' where k': "mem_inv s2" "k \<le> k'" "case_at ideal cfg c k' (mem_view s2 c)"
      "concat (map successes rs) = drop k (take k' stageOrder)" "rs \<noteq> [] \<and> rr_Err (last rs) = None \<longrightarrow> k' = 8"
  proof -
    have "case_at ideal cfg c k (mem_view s1 c)" "\<forall>(ag, clock)\<in>set as. follows cfg c ag ideal"
      using k(2) assms(4) by (simp_all add: advances_def)
    from ckpt.Resumes_advance [OF k(1) assms(1) this(2) assms(2) this(1) assms(6)] show thesis
      by (elim exE conjE) (rule that)
  qed
  have "k' = 8"
  proof (cases "rs = []")
    case True
    then have "k = 8" using k(2) assms(7) by (simp add: advances_def)
    moreover have "k' \<le> 8" using k'(3) by (auto simp: case_at_def progress_def)
    ultimately show ?thesis using k'(2) by simp
  next
    case False
    then show ?thesis using k'(5) assms(7) by simp
  qed
  moreover have "take k stageOrder @ drop k (take k' stageOrder) = take k' stageOrder"
    using drop_take_append [of 0 k k' stageOrder] k'(2) by simp
  ultimately show ?thesis using k k' by (simp add: advances_def)
qed

text \<open>
  C22: Interruptions do not show. However often a run fails or runs out of budget and is
  resumed, once a call returns without an error every stage has succeeded exactly once over
  all the calls, and the store holds the very checkpoints that one uninterrupted run would
  have left. (Whenever a stage succeeds it gives the same result for the same inputs.)
\<close>

theorem resumed_equals_uninterrupted:
  assumes "c \<noteq> []" and "RunConfig_validate cfg = None" and "mem_inv s" and "mem_inv t"
    and "\<forall>(ag, clock)\<in>set ((ag0, clock0) # as). follows cfg c ag ideal"
    and "Run mem_checkpoints ag0 cfg clock0 c s = (r0, s1)" and "Resumes mem_checkpoints cfg c as s1 = (rs, s2)"
    and "rr_Err (last (r0 # rs)) = None"
    and "Run mem_checkpoints ideal cfg clock c t = (r, t1)" and "rr_Err r = None"
  shows "concat (map successes (r0 # rs)) = stageOrder \<and>
    map (\<lambda>stage. ckpt_Get c stage s2) stageOrder = map (\<lambda>stage. ckpt_Get c stage t1) stageOrder"
proof -
  note interrupted = attempts_complete [OF assms(1-3,5-8)]
  have "mem_inv t1 \<and> case_at ideal cfg c 8 (mem_view t1 c)"
    using attempts_complete [OF assms(1,2,4) _ assms(9), of "[]" ideal] assms(10) by (simp add: follows_def)
  then show ?thesis
    using interrupted case_at_checkpoints [OF _ assms(1), of s2 ideal cfg] case_at_checkpoints [OF _ assms(1), of t1 ideal cfg]
    by (metis option.inject prod.inject)
qed

text \<open>
  C23: What completes has passed the guardrail. When a call of a sequence of attempts returns
  without an error, no conclusion of the stored opinion contains verdict language, and the
  last checkpoint records an approval exactly when the sign-off gate gave one.
\<close>

theorem completed_opinion_passed_guardrail:
  assumes "c \<noteq> []" and "RunConfig_validate cfg = None" and "mem_inv s"
    and "\<forall>(ag, clock)\<in>set ((ag0, clock0) # as). follows cfg c ag ideal"
    and "Run mem_checkpoints ag0 cfg clock0 c s = (r0, s1)" and "Resumes mem_checkpoints cfg c as s1 = (rs, s2)"
    and "rr_Err (last (r0 # rs)) = None"
  shows "\<exists>syn grd. ckpt_Get c StageSynthesis s2 = Inr syn \<and> ckpt_Get c StageGuardrailCheck s2 = Inr grd \<and>
    (\<forall>op tc. cp_Opinion syn = Some op \<longrightarrow> tc \<in> set (op_Conclusions op) \<longrightarrow> \<not> ContainsVerdictLanguage (tc_Text tc)) \<and>
    (cp_GuardrailApproved grd \<longleftrightarrow> (\<exists>g. cf_SignoffGate cfg = Some g \<and> g c = Inr SignoffApproved))"
proof -
  obtain cps pc where cps: "chain ideal cfg c stageOrder zero_pc = Some (cps, pc)"
      "map (\<lambda>stage. ckpt_Get c stage s2) stageOrder = map Inr cps"
    using attempts_complete [OF assms] case_at_checkpoints [OF _ assms(1)] by blast
  have "stageOrder = take 5 stageOrder @ [StageSynthesis, StageUncertaintySurfacing, StageGuardrailCheck]"
    by (simp add: stageOrder_def)
  with cps(1) have "chain ideal cfg c (take 5 stageOrder @ [StageSynthesis, StageUncertaintySurfacing, StageGuardrailCheck]) zero_pc =
      Some (cps, pc)" by simp
  then obtain cps5 pc5 syn pc6 unc pc7 grd where
    c5: "chain ideal cfg c (take 5 stageOrder) zero_pc = Some (cps5, pc5)"
    and c7: "runSynthesis ideal cfg c pc5 = Inr (syn, pc6)" "runUncertaintySurfacing ideal c pc6 = Inr (unc, pc7)"
      "runGuardrailCheck cfg c pc7 = Inr (grd, pc)" "cps = cps5 @ [syn, unc, grd]"
    unfolding chain_append by (auto split: option.splits sum.splits)
  have "length cps5 = 5" using chain_length [OF c5] by simp
  have "pc_opinion pc7 = cp_Opinion syn"
    using c7(1,2) by (auto simp: runSynthesis_def runUncertaintySurfacing_def split: sum.splits)
  moreover have checked: "check_conclusions (conclusions_of pc7) = None"
    using c7(3) by (cases "check_conclusions (conclusions_of pc7)") (simp_all add: runGuardrailCheck_def)
  moreover have "cp_GuardrailApproved grd \<longleftrightarrow> (\<exists>g. cf_SignoffGate cfg = Some g \<and> g c = Inr SignoffApproved)"
  proof -
    have "cp_GuardrailApproved grd = fst (CanFinalize c (Some (case cf_SignoffGate cfg of None \<Rightarrow> NoSignoffRecordedGate | Some g \<Rightarrow> g)))"
      using c7(3) checked by (auto simp: runGuardrailCheck_def Let_def)
    also have "\<dots> \<longleftrightarrow> (case cf_SignoffGate cfg of None \<Rightarrow> NoSignoffRecordedGate | Some g \<Rightarrow> g) c = Inr SignoffApproved"
      by (rule fst_CanFinalize [OF assms(1)])
    finally show ?thesis using assms(1) by (simp add: NoSignoffRecordedGate_def split: option.splits)
  qed
  moreover have "ckpt_Get c StageSynthesis s2 = Inr syn" "ckpt_Get c StageGuardrailCheck s2 = Inr grd"
    using arg_cong [OF cps(2), of "\<lambda>xs. xs ! 5"] arg_cong [OF cps(2), of "\<lambda>xs. xs ! 7"] \<open>length cps5 = 5\<close>
    by (simp_all add: c7(4) stageOrder_def nth_append)
  ultimately show ?thesis using check_conclusions_clean [OF checked] by (auto simp: conclusions_of_def)
qed

text \<open>A case to run: agents that succeed, and agents whose synthesis fails.\<close>

definition sample_cfg :: RunConfig where
  "sample_cfg =
     \<lparr>cf_HasAPI = True, cf_HasRouter = True, cf_HasCheckpoints = True,
      cf_FirstParty = \<lparr>pa_ID = ''p'', pa_Label = []\<rparr>, cf_SecondParty = \<lparr>pa_ID = ''d'', pa_Label = []\<rparr>,
      cf_Locale = [], cf_LegalFamily = ''common_law'', cf_JurisdictionName = [], cf_JurisdictionCode = [],
      cf_SignoffGate = None, cf_Budget = \<lparr>pb_MaxTotalWallClock = 0\<rparr>, cf_TenantID = []\<rparr>"

definition sample_agents :: "nat agents" where
  "sample_agents =
     \<lparr>ag_Analyze = (\<lambda>cfg c. Inr (\<lparr>ia_Issues = [\<lparr>fi_SourceIssueNodeID = ''i'', fi_Rest = 0\<rparr>], ia_Rest = 0\<rparr>, 1)),
      ag_FirstArgue = (\<lambda>cfg c issues. Inr (2, 3)), ag_SecondArgue = (\<lambda>cfg c issues first. Inr (4, 5)),
      ag_GetTree = (\<lambda>c. Inr \<lparr>gt_Nodes = [], gt_Edges = []\<rparr>), ag_Weigh = (\<lambda>r. Inr 6), ag_Apply = (\<lambda>r. Inr 7),
      ag_Synthesize = (\<lambda>cfg c issues f s e l.
        Inr (\<lparr>op_Conclusions = [\<lparr>tc_IssueNodeID = ''i'', tc_Text = ''a draft''\<rparr>], op_Rest = 0\<rparr>, 8)),
      ag_Surface = (\<lambda>r. Inr 9)\<rparr>"

definition flaky_agents :: "nat agents" where
  "flaky_agents = sample_agents\<lparr>ag_Synthesize := (\<lambda>cfg c issues f s e l. Inl ''timeout'')\<rparr>"

definition still_clock :: clock where "still_clock stage k = 0"

lemma flaky_follows: "follows cfg c flaky_agents sample_agents"
  unfolding follows_def
proof (intro allI impI)
  fix stage pc r
  assume "runStage flaky_agents cfg c stage pc = Inr r"
  then show "runStage sample_agents cfg c stage pc = Inr r"
    by (cases stage) (simp_all add: stage_defs flaky_agents_def sample_agents_def fetchTreeSnapshot_def)
qed

lemma sample_draft: "CheckText ''a draft'' = None"
  by code_simp

lemmas sample_run_simps = Run_def Run_writes_def Resume_def Resume_writes_def drive_def Let_def sample_cfg_def
  RunConfig_validate_def stageOrder_def isStageComplete_def still_clock_def withDefaults_def
  DefaultMaxTotalWallClock_def initial_state_def zero_RunState_def stage_defs sample_agents_def
  flaky_agents_def failRun_def zero_pc_def issues_of_def conclusions_of_def sample_draft
  NoSignoffRecordedGate_def CanFinalize_def nextStage_def stageIndex_def fetchTreeSnapshot_def zero_time_def
  time_Sub_def max_duration_def min_duration_def

lemma sample_run_completes: "rr_Err (fst (Run mem_checkpoints sample_agents sample_cfg still_clock ''c'' s)) = None"
  by (simp add: sample_run_simps)

lemmas sample_store_simps = sample_run_simps perform_def mem_checkpoints_def ckpt_Save_def ckpt_SaveRunState_def
  case_entry_def ckpt_GetRunState_def ckpt_Get_def

lemma sample_resume_completes:
  "rr_Err (fst (Resume mem_checkpoints sample_agents sample_cfg still_clock ''c''
     (snd (Run mem_checkpoints flaky_agents sample_cfg still_clock ''c'' Map.empty)))) = None"
  by (simp add: sample_store_simps)

lemma sample_valid: "''c'' \<noteq> []" "RunConfig_validate sample_cfg = None" "mem_inv Map.empty"
  by (simp_all add: RunConfig_validate_def sample_cfg_def mem_inv_def)

lemma sample_attempts:
  "\<exists>r0 s1 r s2. Run mem_checkpoints flaky_agents sample_cfg still_clock ''c'' Map.empty = (r0, s1) \<and>
     Resumes mem_checkpoints sample_cfg ''c'' [(sample_agents, still_clock)] s1 = ([r], s2) \<and> rr_Err r = None"
proof -
  obtain r0 s1 where "Run mem_checkpoints flaky_agents sample_cfg still_clock ''c'' Map.empty = (r0, s1)" by fastforce
  moreover obtain r s2 where "Resume mem_checkpoints sample_agents sample_cfg still_clock ''c'' s1 = (r, s2)" by fastforce
  ultimately show ?thesis using sample_resume_completes by simp
qed

theorem resumed_equals_uninterrupted_witness:
  "\<exists>r0 s1 r s2. Run mem_checkpoints flaky_agents sample_cfg still_clock ''c'' Map.empty = (r0, s1) \<and>
     Resumes mem_checkpoints sample_cfg ''c'' [(sample_agents, still_clock)] s1 = ([r], s2) \<and>
     successes r0 @ successes r = stageOrder"
proof -
  obtain r0 s1 r s2 where attempts: "Run mem_checkpoints flaky_agents sample_cfg still_clock ''c'' Map.empty = (r0, s1)"
      "Resumes mem_checkpoints sample_cfg ''c'' [(sample_agents, still_clock)] s1 = ([r], s2)" "rr_Err r = None"
    using sample_attempts by blast
  obtain r1 t1 where whole: "Run mem_checkpoints sample_agents sample_cfg still_clock ''c'' Map.empty = (r1, t1)" by fastforce
  then have "rr_Err r1 = None" using sample_run_completes [of Map.empty] by simp
  moreover have "\<forall>(ag, clock)\<in>set ((flaky_agents, still_clock) # [(sample_agents, still_clock)]).
      follows sample_cfg ''c'' ag sample_agents"
    using flaky_follows by (simp add: follows_def)
  ultimately show ?thesis
    using resumed_equals_uninterrupted [OF sample_valid sample_valid(3) _ attempts(1,2) _ whole] attempts by simp
qed

theorem completed_opinion_passed_guardrail_witness:
  "\<exists>r0 s1 r s2 syn. Run mem_checkpoints flaky_agents sample_cfg still_clock ''c'' Map.empty = (r0, s1) \<and>
     Resumes mem_checkpoints sample_cfg ''c'' [(sample_agents, still_clock)] s1 = ([r], s2) \<and>
     ckpt_Get ''c'' StageSynthesis s2 = Inr syn"
proof -
  obtain r0 s1 r s2 where attempts: "Run mem_checkpoints flaky_agents sample_cfg still_clock ''c'' Map.empty = (r0, s1)"
      "Resumes mem_checkpoints sample_cfg ''c'' [(sample_agents, still_clock)] s1 = ([r], s2)" "rr_Err r = None"
    using sample_attempts by blast
  have "\<forall>(ag, clock)\<in>set ((flaky_agents, still_clock) # [(sample_agents, still_clock)]).
      follows sample_cfg ''c'' ag sample_agents"
    using flaky_follows by (simp add: follows_def)
  from completed_opinion_passed_guardrail [OF sample_valid this attempts(1,2)] attempts show ?thesis by auto
qed

text \<open>
  A run halted on its budget is over. The budget counts from the first start, so once a
  run has stopped before a stage every later resumption stops before the same stage, runs no
  stage at all and reports the budget exhausted, however long one waits and whatever the
  agents would answer.
\<close>

lemma budget_halt_is_final:
  assumes "c \<noteq> []" and "RunConfig_validate cfg = None" and "mem_inv s"
    and "Run mem_checkpoints ag0 cfg clock0 c s = (r0, s1)" and "rr_Err r0 = Some (ErrBudgetExhausted stage d)"
    and "\<forall>(ag, clock)\<in>set as. clock0 stage 0 \<le> clock stage 0" and "Resumes mem_checkpoints cfg c as s1 = (rs, s2)"
  shows "\<forall>r\<in>set rs. successes r = [] \<and> (\<exists>d. rr_Err r = Some (ErrBudgetExhausted stage d))"
proof -
  note halt = ckpt.Run_halts [OF assms(3,1,2,4,5)]
  then show ?thesis
    by (intro ckpt.halted_Resumes [OF assms(1,2) _ _ _ assms(6,7)]) simp_all
qed

definition late_clock :: clock where
  "late_clock stage k = (if stage = StageSynthesis then DefaultMaxTotalWallClock else 0)"

lemma budget_halt_is_final_witness:
  "\<exists>r0 s1 r s2 d. Run mem_checkpoints sample_agents sample_cfg late_clock ''c'' Map.empty = (r0, s1) \<and>
     Resumes mem_checkpoints sample_cfg ''c'' [(sample_agents, late_clock)] s1 = ([r], s2) \<and>
     successes r = [] \<and> rr_Err r = Some (ErrBudgetExhausted StageSynthesis d)"
proof -
  obtain r0 s1 where run: "Run mem_checkpoints sample_agents sample_cfg late_clock ''c'' Map.empty = (r0, s1)" by fastforce
  obtain r s2 where res: "Resumes mem_checkpoints sample_cfg ''c'' [(sample_agents, late_clock)] s1 = ([r], s2)"
    by (fastforce split: prod.splits)
  have "rr_Err (fst (Run mem_checkpoints sample_agents sample_cfg late_clock ''c'' Map.empty)) =
      Some (ErrBudgetExhausted StageSynthesis DefaultMaxTotalWallClock)"
    by (simp add: sample_run_simps late_clock_def)
  then have "rr_Err r0 = Some (ErrBudgetExhausted StageSynthesis DefaultMaxTotalWallClock)" using run by simp
  from budget_halt_is_final [OF sample_valid run this _ res] run res show ?thesis by simp
qed

text \<open>
  A completed run keeps its failure. The fields that say where and why a run failed are
  documented as set in a failed run only; a run that failed once and is then resumed to
  completion still names the stage and the error, in the result and in the store.
\<close>

lemma resumed_run_keeps_failure:
  assumes "c \<noteq> []" and "RunConfig_validate cfg = None" and "mem_inv s" and "follows cfg c ag ideal"
    and "follows cfg c ag0 ideal" and "Run mem_checkpoints ag0 cfg clock0 c s = (r0, s1)"
    and "rs_FailureReason (rr_State r0) = Some e" and "rs_Termination (rr_State r0) = TerminationFailed"
    and "Resume mem_checkpoints ag cfg clock c s1 = (r, s2)" and "rr_Err r = None"
  shows "ckpt_GetRunState c s2 = Inr (rr_State r) \<and> rs_Termination (rr_State r) = TerminationComplete \<and>
    rs_FailedStage (rr_State r) = rs_FailedStage (rr_State r0) \<and> rs_FailureReason (rr_State r) = Some e"
proof -
  obtain k where k: "mem_inv s1" "advances ideal cfg c 0 r0 k (mem_view s1 c)"
    using ckpt.Run_advances [OF assms(3,1,5,2,6)] by blast
  then have at: "case_at ideal cfg c k (mem_view s1 c)" "snd (mem_view s1 c) = Some (rr_State r0)"
    by (simp_all add: advances_def)
  obtain k' where k': "mem_inv s2" "advances ideal cfg c k r k' (mem_view s2 c)"
    using ckpt.Resume_advances [OF k(1) assms(1,4,2) at(1) assms(9)] by blast
  have not_complete: "rs_Termination (rr_State r0) \<noteq> TerminationComplete" using assms(8) by simp
  obtain pc ws where "drive_loop ag cfg clock c (drop k stageOrder) pc
      ((rr_State r0)\<lparr>rs_Termination := TerminationRunning, rs_UpdatedAt := clock StageComplete 0\<rparr>) [] = (r, ws)"
    using ckpt.Resume_loop [OF k(1) assms(1,2) at not_complete, of ag clock] assms(9)
    by (auto simp: Resume_def split: prod.splits dest: sym)
  note state = drive_loop_state [OF this]
  have "ckpt_GetRunState c s2 = Inr (rr_State r)"
    using ckpt.GetRunState [OF k'(1) assms(1)] k'(2) by (simp add: advances_def mem_checkpoints_def)
  with state assms(7,10) show ?thesis by simp
qed

lemma resumed_run_keeps_failure_witness:
  "\<exists>r0 s1 r s2. Run mem_checkpoints flaky_agents sample_cfg still_clock ''c'' Map.empty = (r0, s1) \<and>
     Resume mem_checkpoints sample_agents sample_cfg still_clock ''c'' s1 = (r, s2) \<and>
     rs_Termination (rr_State r) = TerminationComplete \<and> rs_FailureReason (rr_State r) = Some (StageError ''timeout'')"
proof -
  obtain r0 s1 where run: "Run mem_checkpoints flaky_agents sample_cfg still_clock ''c'' Map.empty = (r0, s1)" by fastforce
  obtain r s2 where res: "Resume mem_checkpoints sample_agents sample_cfg still_clock ''c'' s1 = (r, s2)" by fastforce
  have "rs_FailureReason (rr_State (fst (Run mem_checkpoints flaky_agents sample_cfg still_clock ''c'' Map.empty))) =
      Some (StageError ''timeout'')"
    "rs_Termination (rr_State (fst (Run mem_checkpoints flaky_agents sample_cfg still_clock ''c'' Map.empty))) = TerminationFailed"
    by (simp_all add: sample_run_simps)
  then have failed: "rs_FailureReason (rr_State r0) = Some (StageError ''timeout'')"
      "rs_Termination (rr_State r0) = TerminationFailed" using run by simp_all
  have "rr_Err r = None" using sample_resume_completes run res by simp
  moreover have "follows sample_cfg ''c'' sample_agents sample_agents" by (simp add: follows_def)
  ultimately show ?thesis
    using resumed_run_keeps_failure [OF sample_valid _ flaky_follows run failed res] run res by blast
qed

text \<open>
  A crash between the two writes of a stage. The state that names the stage as completed
  is written at once, its checkpoint by a goroutine; a process that dies after the first and
  before the second leaves a case that no resumption can continue, and none of them repairs it.
\<close>

lemma crash_loses_checkpoint:
  assumes "c \<noteq> []" and "RunConfig_validate cfg = None" and "mem_inv s"
    and "ckpt_Get c StageIssueFraming s = Inl ErrCheckpointNotFound"
    and "Run_writes mem_checkpoints ag cfg clock c s = (r, ws)" and "successes r \<noteq> []"
    and "Resumes mem_checkpoints cfg c as (crash_store mem_checkpoints c 2 {StageIssueFraming} ws s) = (rs, s2)"
  shows "\<forall>r'\<in>set rs. rr_Err r' = Some (LoadCheckpoint StageIssueFraming ErrCheckpointNotFound)"
proof -
  let ?st0 = "initial_state clock c"
  have loop: "drive_loop ag cfg clock c (StageIssueFraming # tl stageOrder) zero_pc ?st0 [] = (r, ws)"
    using assms(1,2,5) by (simp add: Run_writes_def drive_def initial_state_def zero_RunState_def stageOrder_def)
  obtain cp pc where stage: "runStage ag cfg c StageIssueFraming zero_pc = Inr (cp, pc)"
    using loop assms(6)
    by (auto simp: isStageComplete_def initial_state_def zero_RunState_def Let_def successes_def
        telemetry_snapshot_def failRun_def split: if_splits sum.splits)
  let ?st = "?st0\<lparr>rs_CompletedStages := [StageIssueFraming], rs_CurrentStage := StageFirstPartyArguments,
      rs_UpdatedAt := clock StageIssueFraming 3\<rparr>"
  obtain ws' where ws: "ws = SaveCheckpointAsync cp # SaveState ?st # ws'"
    using loop assms(6) stage
    by (auto simp: isStageComplete_def initial_state_def zero_RunState_def Let_def successes_def nextStage_def
        stageIndex_def stageOrder_def telemetry_snapshot_def split: if_splits prod.splits simp del: drive_loop.simps(1))
  have cp: "cp_Stage cp = StageIssueFraming" using runStage_checkpoint [OF stage] by simp
  let ?s1 = "crash_store mem_checkpoints c 2 {StageIssueFraming} ws s"
  have "?s1 = perform mem_checkpoints c [SaveState ?st] s" by (simp add: crash_store_def ws cp)
  moreover have "own_writes c [SaveState ?st]" by (simp add: own_writes_def initial_state_def)
  note ckpt.perform_view [OF assms(3,1) this]
  ultimately have s1: "mem_inv ?s1" "mem_view ?s1 c = (fst (mem_view s c), Some ?st)"
    by simp_all
  have "fst (mem_view s c) StageIssueFraming = None"
    using ckpt.GetCheckpoint [OF assms(3,1)] assms(4) by (auto simp: mem_checkpoints_def split: option.splits)
  with s1 have "mem_inv ?s1 \<and> ckpt.stuck c StageIssueFraming ?s1"
    by (simp add: ckpt.stuck_def initial_state_def)
  show ?thesis
  proof (rule Resumes_all [OF _ _ assms(7), where P = "\<lambda>s. mem_inv s \<and> ckpt.stuck c StageIssueFraming s"])
    fix ag clock s r s'
    assume s: "mem_inv s \<and> ckpt.stuck c StageIssueFraming s" and "Resume mem_checkpoints ag cfg clock c s = (r, s')"
    with ckpt.stuck_Resume [OF conjunct1 [OF s] assms(1,2) conjunct2 [OF s]]
    show "(mem_inv s' \<and> ckpt.stuck c StageIssueFraming s') \<and>
        rr_Err r = Some (LoadCheckpoint StageIssueFraming ErrCheckpointNotFound)" by blast
  qed fact
qed

lemma crash_loses_checkpoint_witness:
  "\<exists>r ws r' s2. Run_writes mem_checkpoints sample_agents sample_cfg still_clock ''c'' Map.empty = (r, ws) \<and>
     Resumes mem_checkpoints sample_cfg ''c'' [(sample_agents, still_clock)]
       (crash_store mem_checkpoints ''c'' 2 {StageIssueFraming} ws Map.empty) = ([r'], s2) \<and>
     rr_Err r' = Some (LoadCheckpoint StageIssueFraming ErrCheckpointNotFound)"
proof -
  obtain r ws where run: "Run_writes mem_checkpoints sample_agents sample_cfg still_clock ''c'' Map.empty = (r, ws)"
    by fastforce
  obtain r' s2 where res: "Resumes mem_checkpoints sample_cfg ''c'' [(sample_agents, still_clock)]
      (crash_store mem_checkpoints ''c'' 2 {StageIssueFraming} ws Map.empty) = ([r'], s2)"
    by (fastforce split: prod.splits)
  have "successes (fst (Run_writes mem_checkpoints sample_agents sample_cfg still_clock ''c'' Map.empty)) \<noteq> []"
    by (simp add: sample_run_simps successes_def telemetry_snapshot_def)
  then have "successes r \<noteq> []" using run by simp
  moreover have "ckpt_Get ''c'' StageIssueFraming Map.empty = Inl ErrCheckpointNotFound" by (simp add: ckpt_Get_def)
  ultimately show ?thesis using crash_loses_checkpoint [OF sample_valid _ run _ res] run res by simp
qed

end
