(* ===== verification/Sharding.thy ===== *)
theory Sharding
  imports Prelude Complex_Main
begin

unbundle bit_operations_syntax

text \<open>
  \<open>packages/scalability\<close>: the consistent-hash ring behind work partitioning and store sharding
  (\<open>partitioner.go\<close>, \<open>shard.go\<close>), the admission counter (\<open>backpressure.go\<close>) and the
  autoscaling decision (\<open>policy.go\<close>).

  \<open>sort.Slice\<close> orders the ring by hash and leaves the order of equal hashes open, so it is an
  argument of which \<open>sort_slice\<close> holds. A policy's metrics are rationals.
\<close>

datatype scal_error = ErrInvalidPartitionCount | ErrInvalidShardCount | ErrEmptyShardKey
  | ErrInvalidScalingPolicy | ErrInvalidBackpressureConfig | ErrLoadShed | ErrControllerClosed
  | ErrInvalidCapacityInput

section \<open>The ring\<close>

record ringPoint =
  rp_hash :: "32 word"
  rp_partition :: nat

definition virtualNodesPerPartition :: nat where
  "virtualNodesPerPartition = 150"

text \<open>FNV-1a (\<open>hash/fnv\<close>, \<open>New32a\<close>).\<close>

definition fnv_step :: "char \<Rightarrow> 32 word \<Rightarrow> 32 word" where
  "fnv_step c h = (h XOR of_char c) * 16777619"

definition hashString :: "string \<Rightarrow> 32 word" where
  "hashString s = fold fnv_step s 2166136261"

definition virtualNodeKey :: "nat \<Rightarrow> nat \<Rightarrow> string" where
  "virtualNodeKey p v = itoa p @ ''#'' @ itoa v"

definition unsorted_ring :: "nat \<Rightarrow> ringPoint list" where
  "unsorted_ring n =
     concat (map (\<lambda>p. map (\<lambda>v. \<lparr>rp_hash = hashString (virtualNodeKey p v), rp_partition = p\<rparr>)
       [0..<virtualNodesPerPartition]) [0..<n])"

type_synonym sorter = "(ringPoint \<Rightarrow> ringPoint \<Rightarrow> bool) \<Rightarrow> ringPoint list \<Rightarrow> ringPoint list"

definition less_hash :: "ringPoint \<Rightarrow> ringPoint \<Rightarrow> bool" where
  "less_hash a b \<longleftrightarrow> rp_hash a < rp_hash b"

text \<open>\<open>sort.Search\<close>: the least index of \<open>{i..<j}\<close> at which \<open>f\<close> holds, or \<open>j\<close>, for a monotone \<open>f\<close>.\<close>

function search_from :: "(nat \<Rightarrow> bool) \<Rightarrow> nat \<Rightarrow> nat \<Rightarrow> nat" where
  "search_from f i j =
     (if i < j then let h = (i + j) div 2 in if \<not> f h then search_from f (h + 1) j else search_from f i h else i)"
  by pat_completeness auto
termination by (relation "measure (\<lambda>(f, i, j). j - i)") auto

declare search_from.simps [simp del]

definition Search :: "nat \<Rightarrow> (nat \<Rightarrow> bool) \<Rightarrow> nat" where
  "Search n f = search_from f 0 n"

definition ring_owner :: "ringPoint list \<Rightarrow> string \<Rightarrow> nat" where
  "ring_owner ring key =
     (if ring = [] then 0
      else
        let h = hashString key;
            idx = Search (length ring) (\<lambda>i. h \<le> rp_hash (ring ! i));
            idx = (if idx = length ring then 0 else idx)
        in rp_partition (ring ! idx))"

section \<open>Partitioners and shard strategies\<close>

record consistentHashPartitioner =
  chp_partitionCount :: int
  chp_ring :: "ringPoint list"

definition NewConsistentHashPartitioner :: "sorter \<Rightarrow> int \<Rightarrow> scal_error + consistentHashPartitioner" where
  "NewConsistentHashPartitioner srt n =
     (if n \<le> 0 then Inl ErrInvalidPartitionCount
      else Inr \<lparr>chp_partitionCount = n, chp_ring = srt less_hash (unsorted_ring (nat n))\<rparr>)"

definition chp_Partition :: "consistentHashPartitioner \<Rightarrow> string \<Rightarrow> int" where
  "chp_Partition p key = int (ring_owner (chp_ring p) key)"

record moduloPartitioner =
  mp_partitionCount :: int

definition NewModuloPartitioner :: "int \<Rightarrow> scal_error + moduloPartitioner" where
  "NewModuloPartitioner n =
     (if n \<le> 0 then Inl ErrInvalidPartitionCount else Inr \<lparr>mp_partitionCount = n\<rparr>)"

definition mp_Partition :: "moduloPartitioner \<Rightarrow> string \<Rightarrow> int" where
  "mp_Partition p key = uint (hashString key) mod mp_partitionCount p"

record consistentHashShardStrategy =
  chs_shardCount :: int
  chs_ring :: "ringPoint list"

definition NewConsistentHashShardStrategy :: "sorter \<Rightarrow> int \<Rightarrow> scal_error + consistentHashShardStrategy" where
  "NewConsistentHashShardStrategy srt n =
     (if n \<le> 0 then Inl ErrInvalidShardCount
      else Inr \<lparr>chs_shardCount = n, chs_ring = srt less_hash (unsorted_ring (nat n))\<rparr>)"

definition chs_ShardFor :: "consistentHashShardStrategy \<Rightarrow> string \<Rightarrow> scal_error + int" where
  "chs_ShardFor s key =
     (if TrimSpace key = [] then Inl ErrEmptyShardKey else Inr (int (ring_owner (chs_ring s) key)))"

text \<open>The interface \<open>ShardStrategy\<close>; \<open>None\<close> is nil.\<close>

record ShardStrategy =
  ss_ShardFor :: "string \<Rightarrow> scal_error + int"
  ss_ShardCount :: int

definition chs_strategy :: "consistentHashShardStrategy \<Rightarrow> ShardStrategy" where
  "chs_strategy s = \<lparr>ss_ShardFor = chs_ShardFor s, ss_ShardCount = chs_shardCount s\<rparr>"

record KeyMove =
  km_Key :: string
  km_OldShard :: int
  km_NewShard :: int

record RebalancePlan =
  rb_OldShardCount :: int
  rb_NewShardCount :: int
  rb_Moves :: "KeyMove list"
  rb_TotalKeys :: nat
  rb_MovedFraction :: rat

fun key_moves :: "ShardStrategy \<Rightarrow> ShardStrategy \<Rightarrow> string list \<Rightarrow> KeyMove list" where
  "key_moves old new [] = []"
| "key_moves old new (key # keys) =
     (case ss_ShardFor old key of
        Inl _ \<Rightarrow> key_moves old new keys
      | Inr oldShard \<Rightarrow>
          (case ss_ShardFor new key of
             Inl _ \<Rightarrow> key_moves old new keys
           | Inr newShard \<Rightarrow>
               if oldShard \<noteq> newShard
               then \<lparr>km_Key = key, km_OldShard = oldShard, km_NewShard = newShard\<rparr> # key_moves old new keys
               else key_moves old new keys))"

definition Rebalance :: "ShardStrategy option \<Rightarrow> ShardStrategy option \<Rightarrow> string list \<Rightarrow> scal_error + RebalancePlan" where
  "Rebalance oldStrategy newStrategy keys =
     (case (oldStrategy, newStrategy) of
        (Some old, Some new) \<Rightarrow>
          let moves = key_moves old new keys
          in Inr \<lparr>rb_OldShardCount = ss_ShardCount old, rb_NewShardCount = ss_ShardCount new, rb_Moves = moves,
                  rb_TotalKeys = length keys,
                  rb_MovedFraction = (if length keys > 0 then of_nat (length moves) / of_nat (length keys) else 0)\<rparr>
      | _ \<Rightarrow> Inl ErrInvalidShardCount)"

section \<open>Backpressure\<close>

record BackpressureController =
  bc_maxInFlight :: int
  bc_inFlight :: int
  bc_closed :: bool

definition NewBackpressureController :: "int \<Rightarrow> scal_error + BackpressureController" where
  "NewBackpressureController maxInFlight =
     (if maxInFlight \<le> 0 then Inl ErrInvalidBackpressureConfig
      else Inr \<lparr>bc_maxInFlight = maxInFlight, bc_inFlight = 0, bc_closed = False\<rparr>)"

definition bc_Admit :: "BackpressureController \<Rightarrow> scal_error option \<times> BackpressureController" where
  "bc_Admit c =
     (if bc_closed c then (Some ErrControllerClosed, c)
      else if bc_inFlight c \<ge> bc_maxInFlight c then (Some ErrLoadShed, c)
      else (None, c\<lparr>bc_inFlight := bc_inFlight c + 1\<rparr>))"

definition bc_Release :: "BackpressureController \<Rightarrow> BackpressureController" where
  "bc_Release c = (if bc_inFlight c > 0 then c\<lparr>bc_inFlight := bc_inFlight c - 1\<rparr> else c)"

definition bc_Close :: "BackpressureController \<Rightarrow> BackpressureController" where
  "bc_Close c = c\<lparr>bc_closed := True\<rparr>"

text \<open>
  The controller under its lock: each call is one step, in the order in which the callers get
  the lock. \<open>Released\<close> ends the work of an admitted caller, who then calls \<open>Release\<close>.
\<close>

datatype bp_event = Admitted | Shed | Rejected | Released | Closed

inductive bp_run :: "BackpressureController \<Rightarrow> bp_event list \<Rightarrow> BackpressureController \<Rightarrow> bool" where
  bp_start: "bp_run c [] c"
| bp_admitted: "bp_run c es c' \<Longrightarrow> bc_Admit c' = (None, c'') \<Longrightarrow> bp_run c (es @ [Admitted]) c''"
| bp_shed: "bp_run c es c' \<Longrightarrow> bc_Admit c' = (Some ErrLoadShed, c'') \<Longrightarrow> bp_run c (es @ [Shed]) c''"
| bp_rejected: "bp_run c es c' \<Longrightarrow> bc_Admit c' = (Some ErrControllerClosed, c'') \<Longrightarrow> bp_run c (es @ [Rejected]) c''"
| bp_released: "bp_run c es c' \<Longrightarrow> count (mset es) Released < count (mset es) Admitted
    \<Longrightarrow> bp_run c (es @ [Released]) (bc_Release c')"
| bp_closed: "bp_run c es c' \<Longrightarrow> bp_run c (es @ [Closed]) (bc_Close c')"

section \<open>Autoscaling\<close>

datatype ScalingAction = ActionScaleUp | ActionScaleDown | ActionHold

record ScalingPolicy =
  sp_MinReplicas :: int
  sp_MaxReplicas :: int
  sp_TargetMetric :: rat
  sp_UpperTolerance :: rat
  sp_LowerTolerance :: rat
  sp_ScaleUpStep :: int
  sp_ScaleDownStep :: int

definition ScalingPolicy_Validate :: "ScalingPolicy \<Rightarrow> scal_error option" where
  "ScalingPolicy_Validate p =
     (if sp_MinReplicas p < 1 then Some ErrInvalidScalingPolicy
      else if sp_MaxReplicas p < sp_MinReplicas p then Some ErrInvalidScalingPolicy
      else if sp_TargetMetric p \<le> 0 then Some ErrInvalidScalingPolicy
      else if sp_UpperTolerance p < 0 \<or> sp_UpperTolerance p \<ge> 1 then Some ErrInvalidScalingPolicy
      else if sp_LowerTolerance p < 0 \<or> sp_LowerTolerance p \<ge> 1 then Some ErrInvalidScalingPolicy
      else if sp_ScaleUpStep p < 1 \<or> sp_ScaleDownStep p < 1 then Some ErrInvalidScalingPolicy
      else None)"

definition DefaultScalingPolicy :: ScalingPolicy where
  "DefaultScalingPolicy = \<lparr>sp_MinReplicas = 2, sp_MaxReplicas = 20, sp_TargetMetric = 70 / 100,
     sp_UpperTolerance = 15 / 100, sp_LowerTolerance = 15 / 100, sp_ScaleUpStep = 1, sp_ScaleDownStep = 1\<rparr>"

record Decision =
  dc_Action :: ScalingAction
  dc_TargetReplicas :: int

definition Decide :: "ScalingPolicy \<Rightarrow> int \<Rightarrow> rat \<Rightarrow> scal_error + Decision" where
  "Decide policy currentReplicas observedMetric =
     (case ScalingPolicy_Validate policy of
        Some err \<Rightarrow> Inl err
      | None \<Rightarrow>
          if currentReplicas < sp_MinReplicas policy \<or> currentReplicas > sp_MaxReplicas policy
          then Inl ErrInvalidCapacityInput
          else if observedMetric < 0 then Inl ErrInvalidCapacityInput
          else
            let upperBound = sp_TargetMetric policy * (1 + sp_UpperTolerance policy);
                lowerBound = sp_TargetMetric policy * (1 - sp_LowerTolerance policy)
            in if observedMetric > upperBound then
                 (if currentReplicas \<ge> sp_MaxReplicas policy
                  then Inr \<lparr>dc_Action = ActionHold, dc_TargetReplicas = currentReplicas\<rparr>
                  else
                    let target = wrap64 (currentReplicas + sp_ScaleUpStep policy);
                        target = (if target > sp_MaxReplicas policy then sp_MaxReplicas policy else target)
                    in Inr \<lparr>dc_Action = ActionScaleUp, dc_TargetReplicas = target\<rparr>)
               else if observedMetric < lowerBound then
                 (if currentReplicas \<le> sp_MinReplicas policy
                  then Inr \<lparr>dc_Action = ActionHold, dc_TargetReplicas = currentReplicas\<rparr>
                  else
                    let target = wrap64 (currentReplicas - sp_ScaleDownStep policy);
                        target = (if target < sp_MinReplicas policy then sp_MinReplicas policy else target)
                    in Inr \<lparr>dc_Action = ActionScaleDown, dc_TargetReplicas = target\<rparr>)
               else Inr \<lparr>dc_Action = ActionHold, dc_TargetReplicas = currentReplicas\<rparr>)"

section \<open>Lookup\<close>

definition hash_sorted :: "ringPoint list \<Rightarrow> bool" where
  "hash_sorted ring \<longleftrightarrow> sorted (map rp_hash ring)"

definition sort_slice :: "sorter \<Rightarrow> bool" where
  "sort_slice srt \<longleftrightarrow> (\<forall>ring. hash_sorted (srt less_hash ring) \<and> mset (srt less_hash ring) = mset ring)"

lemma search_from_least:
  assumes "\<And>a b. i \<le> a \<Longrightarrow> a \<le> b \<Longrightarrow> b < j \<Longrightarrow> f a \<Longrightarrow> f b" and "i \<le> j"
  shows "i \<le> search_from f i j \<and> search_from f i j \<le> j \<and> (search_from f i j < j \<longrightarrow> f (search_from f i j)) \<and>
    (\<forall>k. i \<le> k \<longrightarrow> k < search_from f i j \<longrightarrow> \<not> f k)"
  using assms
proof (induction f i j rule: search_from.induct)
  case (1 f i j)
  show ?case
  proof (cases "i < j")
    case False
    then have "search_from f i j = i" by (simp add: search_from.simps [of f i j])
    then show ?thesis using False "1.prems"(2) by simp
  next
    case True
    let ?h = "(i + j) div 2"
    have h: "i \<le> ?h" "?h < j" using True by auto
    show ?thesis
    proof (cases "f ?h")
      case at_h: True
      have "search_from f i j = search_from f i ?h"
        using True at_h by (simp add: search_from.simps [of f i j] Let_def)
      moreover have "i \<le> search_from f i ?h \<and> search_from f i ?h \<le> ?h \<and>
          (search_from f i ?h < ?h \<longrightarrow> f (search_from f i ?h)) \<and> (\<forall>k. i \<le> k \<longrightarrow> k < search_from f i ?h \<longrightarrow> \<not> f k)"
      proof (rule "1.IH"(2) [OF True refl])
        show "\<not> \<not> f ?h" using at_h by simp
        show "f b" if "i \<le> a" "a \<le> b" "b < ?h" "f a" for a b
          using "1.prems"(1) [of a b] that h(2) by linarith
      qed (fact h(1))
      ultimately show ?thesis using at_h h by (cases "search_from f i ?h < ?h") auto
    next
      case not_h: False
      define m where "m = search_from f (?h + 1) j"
      have eq: "search_from f i j = m"
        using True not_h by (simp add: search_from.simps [of f i j] Let_def m_def)
      have m: "?h + 1 \<le> m \<and> m \<le> j \<and> (m < j \<longrightarrow> f m) \<and> (\<forall>k. ?h + 1 \<le> k \<longrightarrow> k < m \<longrightarrow> \<not> f k)"
        unfolding m_def
      proof (rule "1.IH"(1) [OF True refl not_h])
        show "f b" if "?h + 1 \<le> a" "a \<le> b" "b < j" "f a" for a b
          using "1.prems"(1) [of a b] that h(1) by linarith
      qed (use h in simp)
      have "\<not> f k" if "i \<le> k" "k < m" for k
      proof (cases "k < ?h + 1")
        case True
        then show ?thesis using "1.prems"(1) [of k ?h] that(1) h(2) not_h by fastforce
      next
        case False
        then show ?thesis using m that(2) by simp
      qed
      then show ?thesis using h m unfolding eq by simp
    qed
  qed
qed

text \<open>The specification of a lookup: the first point clockwise of a hash.\<close>

definition clockwise :: "32 word \<Rightarrow> ringPoint set \<Rightarrow> ringPoint \<Rightarrow> bool" where
  "clockwise h ring q \<longleftrightarrow> q \<in> ring \<and>
     (if \<exists>r\<in>ring. h \<le> rp_hash r then h \<le> rp_hash q \<and> (\<forall>r\<in>ring. h \<le> rp_hash r \<longrightarrow> rp_hash q \<le> rp_hash r)
      else \<forall>r\<in>ring. rp_hash q \<le> rp_hash r)"

lemma ring_owner_clockwise:
  assumes "ring \<noteq> []" and "hash_sorted ring"
  shows "\<exists>q. clockwise (hashString key) (set ring) q \<and> ring_owner ring key = rp_partition q"
proof -
  let ?h = "hashString key" and ?f = "\<lambda>i. hashString key \<le> rp_hash (ring ! i)"
  let ?idx = "Search (length ring) ?f"
  have mono: "rp_hash (ring ! a) \<le> rp_hash (ring ! b)" if "a \<le> b" "b < length ring" for a b
    using assms(2) that by (auto simp: hash_sorted_def sorted_iff_nth_mono)
  have "?f b" if "a \<le> b" "b < length ring" "?f a" for a b
    using mono [OF that(1,2)] that(3) by (rule order_trans [rotated])
  from search_from_least [of 0 "length ring" ?f, OF this]
  have idx: "?idx \<le> length ring" "?idx < length ring \<Longrightarrow> ?f ?idx" "\<And>k. k < ?idx \<Longrightarrow> \<not> ?f k"
    by (simp_all add: Search_def)
  show ?thesis
  proof (cases "?idx = length ring")
    case True
    then have below: "\<not> ?h \<le> rp_hash r" if "r \<in> set ring" for r
      using idx(3) that by (auto simp: in_set_conv_nth)
    have "rp_hash (ring ! 0) \<le> rp_hash r" if "r \<in> set ring" for r
      using mono [of 0] that by (auto simp: in_set_conv_nth)
    then have "clockwise ?h (set ring) (ring ! 0)" using below assms(1) by (auto simp: clockwise_def)
    then show ?thesis using True assms(1) by (auto simp: ring_owner_def Let_def)
  next
    case False
    then have less: "?idx < length ring" using idx(1) by simp
    have least: "rp_hash (ring ! ?idx) \<le> rp_hash r" if r: "r \<in> set ring" "?h \<le> rp_hash r" for r
    proof -
      obtain k where k: "k < length ring" "r = ring ! k"
        using r(1) unfolding in_set_conv_nth by blast
      have "?idx \<le> k"
      proof (rule ccontr)
        assume "\<not> ?idx \<le> k"
        then have "k < ?idx" by simp
        from idx(3) [OF this] show False using r(2) k(2) by simp
      qed
      from mono [OF this k(1)] show ?thesis unfolding k(2) .
    qed
    have "clockwise ?h (set ring) (ring ! ?idx)"
      unfolding clockwise_def using least idx(2) [OF less] nth_mem [OF less] by (simp add: bexI)
    then show ?thesis using False assms(1) by (auto simp: ring_owner_def Let_def)
  qed
qed

text \<open>A ring that grows gives a hash to a new point, or to one with the hash of the old owner.\<close>

lemma clockwise_grow:
  assumes "A \<subseteq> B" "clockwise h A a" "clockwise h B b" "b \<in> A"
  shows "rp_hash b = rp_hash a"
proof (cases "\<exists>r\<in>A. h \<le> rp_hash r")
  case True
  then have "\<exists>r\<in>B. h \<le> rp_hash r" using assms(1) by blast
  with True assms show ?thesis by (auto simp: clockwise_def intro: antisym)
next
  case False
  then have "\<not> (\<exists>r\<in>B. h \<le> rp_hash r)" using assms(3,4) by (auto simp: clockwise_def split: if_splits)
  with False assms show ?thesis by (auto simp: clockwise_def intro!: antisym)
qed

lemma set_unsorted_ring:
  "set (unsorted_ring n) =
     {\<lparr>rp_hash = hashString (virtualNodeKey p v), rp_partition = p\<rparr> |p v. p < n \<and> v < virtualNodesPerPartition}"
  by (fastforce simp: unsorted_ring_def image_iff)

lemma sorted_ring:
  assumes "sort_slice srt" "0 < n"
  shows "srt less_hash (unsorted_ring n) \<noteq> [] \<and> hash_sorted (srt less_hash (unsorted_ring n)) \<and>
    set (srt less_hash (unsorted_ring n)) = set (unsorted_ring n)"
proof -
  have "mset (srt less_hash (unsorted_ring n)) = mset (unsorted_ring n)" "hash_sorted (srt less_hash (unsorted_ring n))"
    using assms(1) by (simp_all add: sort_slice_def)
  moreover have "\<lparr>rp_hash = hashString (virtualNodeKey 0 0), rp_partition = 0\<rparr> \<in> set (unsorted_ring n)"
    using assms(2) by (auto simp: set_unsorted_ring virtualNodesPerPartition_def)
  moreover have "set (srt less_hash (unsorted_ring n)) = set (unsorted_ring n)"
    using assms(1) mset_eq_setD by (auto simp: sort_slice_def)
  ultimately show ?thesis by (metis empty_iff empty_set)
qed

lemma sort_slice_by: "sort_slice (\<lambda>_. sort_key rp_hash)"
  by (simp add: sort_slice_def hash_sorted_def)

definition ring_valid :: "nat \<Rightarrow> ringPoint list \<Rightarrow> bool" where
  "ring_valid n ring \<longleftrightarrow> ring \<noteq> [] \<and> hash_sorted ring \<and> set ring = set (unsorted_ring n)"

lemma ring_owner_less: "ring_valid n ring \<Longrightarrow> ring_owner ring key < n"
  using ring_owner_clockwise [of ring key] by (auto simp: ring_valid_def clockwise_def set_unsorted_ring)

text \<open>Two shards collide when virtual nodes of theirs have one hash.\<close>

definition shards_collide :: "nat \<Rightarrow> nat \<Rightarrow> bool" where
  "shards_collide a b \<longleftrightarrow> (\<exists>v<virtualNodesPerPartition. \<exists>w<virtualNodesPerPartition.
     hashString (virtualNodeKey a v) = hashString (virtualNodeKey b w))"

lemma ring_owner_grow:
  assumes "ring_valid n ring" "ring_valid m ring'" "n \<le> m"
  shows "ring_owner ring' key = ring_owner ring key \<or> n \<le> ring_owner ring' key \<or>
    shards_collide (ring_owner ring key) (ring_owner ring' key)"
proof -
  obtain a where a: "clockwise (hashString key) (set ring) a" "ring_owner ring key = rp_partition a"
    using ring_owner_clockwise [of ring key] assms(1) by (auto simp: ring_valid_def)
  obtain b where b: "clockwise (hashString key) (set ring') b" "ring_owner ring' key = rp_partition b"
    using ring_owner_clockwise [of ring' key] assms(2) by (auto simp: ring_valid_def)
  show ?thesis
  proof (cases "rp_partition b < n")
    case True
    have sub: "set ring \<subseteq> set ring'" using assms by (auto simp: ring_valid_def set_unsorted_ring)
    have ba: "b \<in> set ring'" "a \<in> set ring" using a(1) b(1) by (simp_all add: clockwise_def)
    then have "b \<in> set ring" using True assms(1,2) by (auto simp: ring_valid_def set_unsorted_ring)
    note same = clockwise_grow [OF sub a(1) b(1) this]
    obtain p v where p: "a = \<lparr>rp_hash = hashString (virtualNodeKey p v), rp_partition = p\<rparr>" "v < virtualNodesPerPartition"
      using ba(2) assms(1) by (auto simp: ring_valid_def set_unsorted_ring)
    obtain q w where q: "b = \<lparr>rp_hash = hashString (virtualNodeKey q w), rp_partition = q\<rparr>" "w < virtualNodesPerPartition"
      using ba(1) assms(2) by (auto simp: ring_valid_def set_unsorted_ring)
    have "shards_collide p q" unfolding shards_collide_def
      by (rule exI [of _ v], rule conjI [OF p(2)], rule exI [of _ w]) (use same p(1) q in simp)
    then show ?thesis using a(2) b(2) p(1) q(1) by simp
  qed (use b(2) in simp)
qed

section \<open>What distributors promise\<close>

locale partitioner =
  fixes valid :: "'p \<Rightarrow> bool" and partition :: "'p \<Rightarrow> string \<Rightarrow> int" and count_of :: "'p \<Rightarrow> int"
  assumes in_range: "valid p \<Longrightarrow> 0 \<le> partition p key \<and> partition p key < count_of p"
begin

text \<open>Work is neither lost nor given to two workers.\<close>

lemma loads_sum:
  assumes "valid p"
  shows "(\<Sum>i\<in>{0..<count_of p}. length (filter (\<lambda>key. partition p key = i) keys)) = length keys"
proof (induction keys)
  case (Cons key keys)
  have "(\<Sum>i\<in>{0..<count_of p}. length (filter (\<lambda>key. partition p key = i) (key # keys))) =
      (\<Sum>i\<in>{0..<count_of p}. (if partition p key = i then 1 else 0) + length (filter (\<lambda>key. partition p key = i) keys))"
    by (intro sum.cong) simp_all
  also have "\<dots> = 1 + length keys"
    using in_range [OF assms, of key] by (simp add: sum.distrib Cons.IH)
  finally show ?case by simp
qed simp

end

definition chp_valid :: "consistentHashPartitioner \<Rightarrow> bool" where
  "chp_valid p \<longleftrightarrow> ring_valid (nat (chp_partitionCount p)) (chp_ring p)"

definition mp_valid :: "moduloPartitioner \<Rightarrow> bool" where
  "mp_valid p \<longleftrightarrow> 0 < mp_partitionCount p"

interpretation chp: partitioner chp_valid chp_Partition chp_partitionCount
proof
  fix p key
  assume "chp_valid p"
  then show "0 \<le> chp_Partition p key \<and> chp_Partition p key < chp_partitionCount p"
    using ring_owner_less [of "nat (chp_partitionCount p)" "chp_ring p" key] by (simp add: chp_valid_def chp_Partition_def)
qed

interpretation mp: partitioner mp_valid mp_Partition mp_partitionCount
  by unfold_locales (simp add: mp_valid_def mp_Partition_def)

lemma NewConsistentHashPartitioner_valid:
  "sort_slice srt \<Longrightarrow> NewConsistentHashPartitioner srt n = Inr p \<Longrightarrow> chp_valid p \<and> chp_partitionCount p = n"
  using sorted_ring [of srt "nat n"]
  by (auto simp: NewConsistentHashPartitioner_def chp_valid_def ring_valid_def split: if_splits)

lemma NewModuloPartitioner_valid:
  "NewModuloPartitioner n = Inr p \<Longrightarrow> mp_valid p \<and> mp_partitionCount p = n"
  by (auto simp: NewModuloPartitioner_def mp_valid_def split: if_splits)

locale shard_strategy =
  fixes valid :: "'s \<Rightarrow> bool" and shard_for :: "'s \<Rightarrow> string \<Rightarrow> scal_error + int" and shard_count :: "'s \<Rightarrow> int"
  assumes blank: "shard_for s key = Inl e \<longleftrightarrow> TrimSpace key = [] \<and> e = ErrEmptyShardKey"
    and in_range: "valid s \<Longrightarrow> shard_for s key = Inr i \<Longrightarrow> 0 \<le> i \<and> i < shard_count s"
begin

definition as_strategy :: "'s \<Rightarrow> ShardStrategy" where
  "as_strategy s = \<lparr>ss_ShardFor = shard_for s, ss_ShardCount = shard_count s\<rparr>"

lemma moves_exact:
  "mv \<in> set (key_moves (as_strategy s) (as_strategy t) keys) \<longleftrightarrow>
     km_Key mv \<in> set keys \<and> shard_for s (km_Key mv) = Inr (km_OldShard mv) \<and>
     shard_for t (km_Key mv) = Inr (km_NewShard mv) \<and> km_OldShard mv \<noteq> km_NewShard mv"
  by (induction keys) (auto simp: as_strategy_def split: sum.splits)

text \<open>A key is where the plan has moved it, or where it was.\<close>

lemma follow_moves:
  assumes "shard_for s key = Inr i" "shard_for t key = Inr j" "key \<in> set keys"
  shows "fold (\<lambda>mv loc. loc(km_Key mv := km_NewShard mv)) (key_moves (as_strategy s) (as_strategy t) keys) loc key =
    (if i = j then loc key else j)"
  using assms(3)
proof (induction keys arbitrary: loc)
  case (Cons k keys)
  have keep: "fold (\<lambda>mv loc. loc(km_Key mv := km_NewShard mv)) moves loc key = loc key"
    if "\<forall>mv\<in>set moves. km_Key mv = key \<longrightarrow> km_NewShard mv = loc key" for moves loc
    using that by (induction moves arbitrary: loc) auto
  show ?case
  proof (cases "key \<in> set keys")
    case True
    then show ?thesis using Cons.IH assms(1,2) by (auto simp: as_strategy_def split: sum.splits)
  next
    case False
    then have none: "\<forall>mv\<in>set (key_moves (as_strategy s) (as_strategy t) keys). km_Key mv \<noteq> key"
      using moves_exact by metis
    have "k = key" using Cons.prems False by simp
    then have "key_moves (as_strategy s) (as_strategy t) (k # keys) =
        (if i = j then [] else [\<lparr>km_Key = key, km_OldShard = i, km_NewShard = j\<rparr>]) @
        key_moves (as_strategy s) (as_strategy t) keys"
      using assms(1,2) by (simp add: as_strategy_def)
    moreover note keep [OF ballI, of "key_moves (as_strategy s) (as_strategy t) keys"]
    ultimately show ?thesis
      using none by (cases "i = j") (simp_all del: key_moves.simps fun_upd_apply add: fun_upd_same)
  qed
qed simp

end

definition chs_valid :: "consistentHashShardStrategy \<Rightarrow> bool" where
  "chs_valid s \<longleftrightarrow> ring_valid (nat (chs_shardCount s)) (chs_ring s)"

interpretation chs: shard_strategy chs_valid chs_ShardFor chs_shardCount
proof
  fix s key i
  assume "chs_valid s" and "chs_ShardFor s key = Inr i"
  then show "0 \<le> i \<and> i < chs_shardCount s"
    using ring_owner_less [of "nat (chs_shardCount s)" "chs_ring s" key]
    by (auto simp: chs_valid_def chs_ShardFor_def split: if_splits)
qed (auto simp: chs_ShardFor_def)

lemma chs_as_strategy [simp]: "chs.as_strategy s = chs_strategy s"
  by (simp add: chs.as_strategy_def chs_strategy_def)

lemma NewConsistentHashShardStrategy_valid:
  "sort_slice srt \<Longrightarrow> NewConsistentHashShardStrategy srt n = Inr s \<Longrightarrow> 0 < n \<and> chs_valid s \<and> chs_shardCount s = n"
  using sorted_ring [of srt "nat n"]
  by (auto simp: NewConsistentHashShardStrategy_def chs_valid_def ring_valid_def split: if_splits)

section \<open>Properties\<close>

text \<open>
  C24: Growing a store from \<open>n\<close> to \<open>m\<close> shards moves keys from old shards to new ones only.
  The one exception are virtual nodes of two shards with the same 32-bit hash, whose order in
  the ring the sort leaves open.
\<close>

theorem growing_moves_keys_to_new_shards:
  assumes "sort_slice srt" and "NewConsistentHashShardStrategy srt n = Inr s"
    and "NewConsistentHashShardStrategy srt m = Inr t" and "n \<le> m"
    and "Rebalance (Some (chs_strategy s)) (Some (chs_strategy t)) keys = Inr plan" and "mv \<in> set (rb_Moves plan)"
  shows "0 \<le> km_OldShard mv \<and> km_OldShard mv < n \<and>
    (n \<le> km_NewShard mv \<and> km_NewShard mv < m \<or> shards_collide (nat (km_OldShard mv)) (nat (km_NewShard mv)))"
proof -
  note valid = NewConsistentHashShardStrategy_valid [OF assms(1,2)] NewConsistentHashShardStrategy_valid [OF assms(1,3)]
  have "mv \<in> set (key_moves (chs.as_strategy s) (chs.as_strategy t) keys)"
    using assms(5,6) by (auto simp: Rebalance_def Let_def)
  then have mv: "chs_ShardFor s (km_Key mv) = Inr (km_OldShard mv)" "chs_ShardFor t (km_Key mv) = Inr (km_NewShard mv)"
      "km_OldShard mv \<noteq> km_NewShard mv"
    unfolding chs.moves_exact by blast+
  then have owner: "km_OldShard mv = int (ring_owner (chs_ring s) (km_Key mv))"
      "km_NewShard mv = int (ring_owner (chs_ring t) (km_Key mv))"
    by (auto simp: chs_ShardFor_def split: if_splits)
  have "ring_valid (nat n) (chs_ring s)" "ring_valid (nat m) (chs_ring t)" "nat n \<le> nat m"
    using valid assms(4) by (auto simp: chs_valid_def)
  from ring_owner_grow [OF this, of "km_Key mv"] chs.in_range [OF _ mv(1)] chs.in_range [OF _ mv(2)] mv(3) valid
  show ?thesis unfolding owner by auto
qed

definition by_hash :: sorter where
  "by_hash cmp = sort_key rp_hash"

lemma sort_slice_by_hash: "sort_slice by_hash"
  by (simp add: sort_slice_def hash_sorted_def by_hash_def)

lemma no_collision: "hashString (virtualNodeKey 1 0) \<notin> set (map (\<lambda>v. hashString (virtualNodeKey 0 v)) [0..<150])"
  by code_simp

lemma first_node_moves:
  assumes "NewConsistentHashShardStrategy by_hash 1 = Inr s" "NewConsistentHashShardStrategy by_hash 2 = Inr t"
  shows "key_moves (chs_strategy s) (chs_strategy t) [''1#0''] =
    [\<lparr>km_Key = ''1#0'', km_OldShard = 0, km_NewShard = 1\<rparr>]"
proof -
  have key: "virtualNodeKey 1 0 = ''1#0''" by code_simp
  have rings: "ring_valid 1 (chs_ring s)" "ring_valid 2 (chs_ring t)"
    using NewConsistentHashShardStrategy_valid [OF sort_slice_by_hash] assms by (fastforce simp: chs_valid_def)+
  have "ring_owner (chs_ring s) ''1#0'' = 0" using ring_owner_less [OF rings(1)] by simp
  moreover obtain b where b: "clockwise (hashString ''1#0'') (set (chs_ring t)) b" "ring_owner (chs_ring t) ''1#0'' = rp_partition b"
    using ring_owner_clockwise [of "chs_ring t" "''1#0''"] rings(2) by (auto simp: ring_valid_def)
  moreover have "rp_partition b = 1"
  proof (rule ccontr)
    assume not_1: "rp_partition b \<noteq> 1"
    have "\<lparr>rp_hash = hashString (virtualNodeKey 1 0), rp_partition = 1\<rparr> \<in> set (unsorted_ring 2)"
      unfolding set_unsorted_ring
      by (rule CollectI, rule exI [of _ 1], rule exI [of _ 0]) (simp add: virtualNodesPerPartition_def)
    then have "\<lparr>rp_hash = hashString ''1#0'', rp_partition = 1\<rparr> \<in> set (chs_ring t)"
      using rings(2) unfolding key by (simp add: ring_valid_def)
    with b(1) have same: "rp_hash b = hashString ''1#0''" "b \<in> set (chs_ring t)"
      by (force simp: clockwise_def split: if_splits)+
    then obtain v where "b = \<lparr>rp_hash = hashString (virtualNodeKey 0 v), rp_partition = 0\<rparr>" "v < 150"
      using not_1 rings(2) by (auto simp: ring_valid_def set_unsorted_ring virtualNodesPerPartition_def less_2_cases_iff)
    then have "hashString (virtualNodeKey 0 v) = hashString ''1#0''" "v \<in> {0..<150}" using same(1) by simp_all
    then have "hashString ''1#0'' \<in> (\<lambda>v. hashString (virtualNodeKey 0 v)) ` {0..<150}" by (metis imageI)
    then show False using no_collision unfolding key by simp
  qed
  moreover have "TrimSpace ''1#0'' \<noteq> []" by code_simp
  ultimately show ?thesis by (simp add: chs_strategy_def chs_ShardFor_def)
qed

theorem growing_moves_keys_to_new_shards_witness:
  "\<exists>s t plan mv. NewConsistentHashShardStrategy by_hash 1 = Inr s \<and> NewConsistentHashShardStrategy by_hash 2 = Inr t \<and>
     Rebalance (Some (chs_strategy s)) (Some (chs_strategy t)) [''1#0''] = Inr plan \<and> mv \<in> set (rb_Moves plan) \<and>
     km_OldShard mv = 0 \<and> km_NewShard mv = 1"
proof -
  obtain s t where st: "NewConsistentHashShardStrategy by_hash 1 = Inr s" "NewConsistentHashShardStrategy by_hash 2 = Inr t"
    by (simp add: NewConsistentHashShardStrategy_def)
  obtain plan where plan: "Rebalance (Some (chs_strategy s)) (Some (chs_strategy t)) [''1#0''] = Inr plan"
    by (simp add: Rebalance_def Let_def)
  then have mv: "rb_Moves plan = [\<lparr>km_Key = ''1#0'', km_OldShard = 0, km_NewShard = 1\<rparr>]"
    using first_node_moves [OF st] by (auto simp: Rebalance_def Let_def)
  then show ?thesis
    using growing_moves_keys_to_new_shards [OF sort_slice_by_hash st _ plan, of "hd (rb_Moves plan)"] st plan by force
qed

text \<open>
  Carrying out a rebalancing plan puts every stored key on the shard where the new
  strategy looks for it, and the plan names no other keys.
\<close>

lemma rebalance_places_every_key:
  assumes "Rebalance (Some (chs_strategy s)) (Some (chs_strategy t)) keys = Inr plan" and "key \<in> set keys"
    and "chs_ShardFor s key = Inr i" and "loc key = i"
  shows "chs_ShardFor t key = Inr (fold (\<lambda>mv loc. loc(km_Key mv := km_NewShard mv)) (rb_Moves plan) loc key) \<and>
    km_Key ` set (rb_Moves plan) \<subseteq> {key \<in> set keys. chs_ShardFor s key \<noteq> chs_ShardFor t key}"
proof -
  have moves: "rb_Moves plan = key_moves (chs.as_strategy s) (chs.as_strategy t) keys"
    using assms(1) by (auto simp: Rebalance_def Let_def)
  obtain j where j: "chs_ShardFor t key = Inr j" using assms(3) by (auto simp: chs_ShardFor_def split: if_splits)
  show ?thesis
    unfolding moves using chs.follow_moves [OF assms(3) j assms(2), of loc] assms(4) j
    by (auto simp: chs.moves_exact simp del: chs_as_strategy)
qed

lemma rebalance_places_every_key_witness:
  "\<exists>s t plan. NewConsistentHashShardStrategy by_hash 1 = Inr s \<and> NewConsistentHashShardStrategy by_hash 2 = Inr t \<and>
     Rebalance (Some (chs_strategy s)) (Some (chs_strategy t)) [''1#0''] = Inr plan \<and>
     chs_ShardFor t ''1#0'' = Inr (fold (\<lambda>mv loc. loc(km_Key mv := km_NewShard mv)) (rb_Moves plan) (\<lambda>key. 0) ''1#0'') \<and>
     rb_Moves plan \<noteq> []"
proof -
  obtain s t where st: "NewConsistentHashShardStrategy by_hash 1 = Inr s" "NewConsistentHashShardStrategy by_hash 2 = Inr t"
    by (simp add: NewConsistentHashShardStrategy_def)
  obtain plan where plan: "Rebalance (Some (chs_strategy s)) (Some (chs_strategy t)) [''1#0''] = Inr plan"
    by (simp add: Rebalance_def Let_def)
  then have moved: "rb_Moves plan \<noteq> []" "\<lparr>km_Key = ''1#0'', km_OldShard = 0, km_NewShard = 1\<rparr> \<in>
      set (key_moves (chs.as_strategy s) (chs.as_strategy t) [''1#0''])"
    using first_node_moves [OF st] by (auto simp: Rebalance_def Let_def)
  from moved(2) have "chs_ShardFor s ''1#0'' = Inr 0" unfolding chs.moves_exact by simp
  from rebalance_places_every_key [OF plan _ this, of "\<lambda>key. 0"] st plan moved(1) show ?thesis by auto
qed

text \<open>
  Both partitioners give every key to one worker that exists: the index is in range, and
  the loads of the workers add up to the work.
\<close>

lemma every_key_has_one_worker:
  assumes "sort_slice srt" and "NewConsistentHashPartitioner srt n = Inr p" and "NewModuloPartitioner n = Inr q"
  shows "0 \<le> chp_Partition p key \<and> chp_Partition p key < n \<and> 0 \<le> mp_Partition q key \<and> mp_Partition q key < n \<and>
    (\<Sum>i\<in>{0..<n}. length (filter (\<lambda>key. chp_Partition p key = i) keys)) = length keys \<and>
    (\<Sum>i\<in>{0..<n}. length (filter (\<lambda>key. mp_Partition q key = i) keys)) = length keys"
proof -
  have p: "chp_valid p" "n = chp_partitionCount p" and q: "mp_valid q" "n = mp_partitionCount q"
    using NewConsistentHashPartitioner_valid [OF assms(1,2)] NewModuloPartitioner_valid [OF assms(3)] by simp_all
  show ?thesis
    using chp.in_range [OF p(1)] chp.loads_sum [OF p(1)] mp.in_range [OF q(1)] mp.loads_sum [OF q(1)]
    unfolding p(2) [symmetric] q(2) [symmetric] by simp
qed

lemma every_key_has_one_worker_witness:
  "\<exists>p q. NewConsistentHashPartitioner by_hash 3 = Inr p \<and> NewModuloPartitioner 3 = Inr q \<and>
     chp_Partition p ''case-7'' < 3 \<and> mp_Partition q ''case-7'' < 3"
proof -
  obtain p q where "NewConsistentHashPartitioner by_hash 3 = Inr p" "NewModuloPartitioner 3 = Inr q"
    by (simp add: NewConsistentHashPartitioner_def NewModuloPartitioner_def)
  with every_key_has_one_worker [OF sort_slice_by_hash this, of "''case-7''" "[]"] show ?thesis by blast
qed

lemma bp_run_inv:
  assumes "bp_run c es c'" and "NewBackpressureController n = Inr c"
  shows "bc_maxInFlight c' = n \<and> 0 \<le> bc_inFlight c' \<and> bc_inFlight c' \<le> n \<and>
    bc_inFlight c' = int (count (mset es) Admitted) - int (count (mset es) Released) \<and>
    (bc_closed c' \<longleftrightarrow> Closed \<in> set es)"
  using assms
  by induction (auto simp: NewBackpressureController_def bc_Admit_def bc_Release_def bc_Close_def split: if_splits)

text \<open>
  However calls of many goroutines interleave, the work admitted and not yet released is
  counted exactly and never exceeds the limit; a further caller is admitted exactly when the
  controller is open and the outstanding work is below it.
\<close>

lemma backpressure_is_exact:
  assumes "NewBackpressureController n = Inr c" and "bp_run c es c'"
  shows "int (count (mset es) Admitted) - int (count (mset es) Released) = bc_inFlight c' \<and>
    0 \<le> bc_inFlight c' \<and> bc_inFlight c' \<le> n \<and>
    fst (bc_Admit c') = (if Closed \<in> set es then Some ErrControllerClosed
      else if int (count (mset es) Admitted) - int (count (mset es) Released) < n then None else Some ErrLoadShed)"
  using bp_run_inv [OF assms(2,1)] by (simp add: bc_Admit_def)

lemma backpressure_is_exact_witness:
  "\<exists>c c'. NewBackpressureController 1 = Inr c \<and> bp_run c [Admitted, Shed, Released, Admitted] c' \<and>
     fst (bc_Admit c') = Some ErrLoadShed"
proof -
  let ?c = "\<lparr>bc_maxInFlight = 1, bc_inFlight = 0, bc_closed = False\<rparr>"
  let ?c1 = "?c\<lparr>bc_inFlight := 1\<rparr>"
  have new: "NewBackpressureController 1 = Inr ?c" by (simp add: NewBackpressureController_def)
  note steps = bp_start [of ?c]
  have "bp_run ?c [Admitted] ?c1" using bp_admitted [OF steps, of ?c1] by (simp add: bc_Admit_def)
  from bp_shed [OF this, of ?c1] have "bp_run ?c [Admitted, Shed] ?c1" by (simp add: bc_Admit_def)
  from bp_released [OF this] have "bp_run ?c [Admitted, Shed, Released] ?c" by (simp add: bc_Release_def)
  from bp_admitted [OF this, of ?c1] have run: "bp_run ?c [Admitted, Shed, Released, Admitted] ?c1"
    by (simp add: bc_Admit_def)
  from backpressure_is_exact [OF new run] new run show ?thesis by auto
qed

lemma wrap64_over:
  assumes "2 ^ 63 \<le> x" "x < 2 ^ 64 + 2 ^ 63"
  shows "wrap64 x = x - 2 ^ 64"
proof -
  have "(x + 2 ^ 63) mod 2 ^ 64 = (x + 2 ^ 63 - 2 ^ 64) mod 2 ^ 64" by (rule minus_mod_self2 [symmetric])
  also have "\<dots> = x + 2 ^ 63 - 2 ^ 64" using assms by (intro mod_pos_pos_trivial) auto
  finally show ?thesis by (simp add: wrap64_def)
qed

text \<open>
  C25: A decision stays between the bounds of the policy and moves in the direction of the
  load, except when adding the step overflows an \<open>int\<close>: then the recommended number of
  replicas is negative.
\<close>

theorem decisions_stay_in_bounds:
  assumes "Decide p cur metric = Inr d" and "sp_MaxReplicas p < 2 ^ 63" and "sp_ScaleUpStep p < 2 ^ 63"
    and "sp_ScaleDownStep p < 2 ^ 63"
  shows "if dc_Action d = ActionScaleUp \<and> 2 ^ 63 \<le> cur + sp_ScaleUpStep p
    then dc_TargetReplicas d = cur + sp_ScaleUpStep p - 2 ^ 64 \<and> dc_TargetReplicas d < 0
    else sp_MinReplicas p \<le> dc_TargetReplicas d \<and> dc_TargetReplicas d \<le> sp_MaxReplicas p \<and>
      (case dc_Action d of ActionScaleUp \<Rightarrow> cur < dc_TargetReplicas d
        | ActionScaleDown \<Rightarrow> dc_TargetReplicas d < cur | ActionHold \<Rightarrow> dc_TargetReplicas d = cur)"
proof -
  have p: "ScalingPolicy_Validate p = None" "sp_MinReplicas p \<le> cur" "cur \<le> sp_MaxReplicas p"
    using assms(1) by (auto simp: Decide_def split: option.splits if_splits)
  then have step: "1 \<le> sp_MinReplicas p" "1 \<le> sp_ScaleUpStep p" "1 \<le> sp_ScaleDownStep p"
    by (auto simp: ScalingPolicy_Validate_def split: if_splits)
  have up: "wrap64 (cur + sp_ScaleUpStep p) =
      (if 2 ^ 63 \<le> cur + sp_ScaleUpStep p then cur + sp_ScaleUpStep p - 2 ^ 64 else cur + sp_ScaleUpStep p)"
    using p step assms(2,3) by (auto intro!: wrap64_id wrap64_over [simplified])
  have down: "wrap64 (cur - sp_ScaleDownStep p) = cur - sp_ScaleDownStep p"
    using p step assms(2,4) by (intro wrap64_id) auto
  show ?thesis
    using assms(1-3) p step unfolding Decide_def up down Let_def
    by (auto split: if_splits)
qed

theorem decisions_stay_in_bounds_witness:
  "Decide DefaultScalingPolicy 19 1 = Inr \<lparr>dc_Action = ActionScaleUp, dc_TargetReplicas = 20\<rparr> \<and> (20::int) \<le> sp_MaxReplicas DefaultScalingPolicy"
proof -
  have "Decide DefaultScalingPolicy 19 1 = Inr \<lparr>dc_Action = ActionScaleUp, dc_TargetReplicas = 20\<rparr>"
    by (simp add: Decide_def DefaultScalingPolicy_def ScalingPolicy_Validate_def wrap64_def)
  from decisions_stay_in_bounds [OF this] this show ?thesis by (simp add: DefaultScalingPolicy_def)
qed

text \<open>
  The control loop: a decision at each measurement, carried out before the next.
\<close>

fun scale_loop :: "ScalingPolicy \<Rightarrow> rat list \<Rightarrow> int \<Rightarrow> scal_error + int" where
  "scale_loop p [] cur = Inr cur"
| "scale_loop p (m # ms) cur =
     (case Decide p cur m of Inl err \<Rightarrow> Inl err | Inr d \<Rightarrow> scale_loop p ms (dc_TargetReplicas d))"

lemma Decide_overload:
  assumes "ScalingPolicy_Validate p = None" "sp_MinReplicas p \<le> cur" "cur \<le> sp_MaxReplicas p"
    "sp_TargetMetric p * (1 + sp_UpperTolerance p) < m" "sp_MaxReplicas p + sp_ScaleUpStep p < 2 ^ 63"
  shows "\<exists>d. Decide p cur m = Inr d \<and> dc_TargetReplicas d = min (sp_MaxReplicas p) (cur + sp_ScaleUpStep p)"
proof -
  have p: "0 < sp_TargetMetric p" "0 \<le> sp_UpperTolerance p" "1 \<le> sp_MinReplicas p" "1 \<le> sp_ScaleUpStep p"
    using assms(1) by (auto simp: ScalingPolicy_Validate_def split: if_splits)
  then have "0 < sp_TargetMetric p * (1 + sp_UpperTolerance p)" by (intro mult_pos_pos) auto
  then have "0 \<le> m" using assms(4) by linarith
  moreover have "wrap64 (cur + sp_ScaleUpStep p) = cur + sp_ScaleUpStep p"
    using p assms(2,3,5) by (intro wrap64_id) auto
  ultimately show ?thesis using assms p by (auto simp: Decide_def min_def Let_def)
qed



end
