(* ===== verification/Encryption.thy ===== *)
theory Encryption
  imports Prelude
begin

text \<open>
  \<open>packages/encryption\<close>: the envelope format (\<open>envelope.go\<close>), key sources and the local one
  (\<open>keysource.go\<close>), field and backup encryption (\<open>field.go\<close>, \<open>backup.go\<close>) and the scan for
  fields left in plaintext (\<open>registry.go\<close>). Byte slices and strings are lists of bytes.

  AES-256-GCM is an argument, of which \<open>aead_ok\<close> states what a deterministic authenticated
  cipher promises: a text opens exactly when it is what sealing the answer gives. The bytes
  that \<open>rand.Read\<close> delivers are arguments, \<open>None\<close> its failure.
\<close>

datatype enc_error = ErrNilKeySource | ErrEmptyPlaintext | ErrEmptyCiphertext | ErrInvalidEnvelope
  | ErrUnsupportedEnvelopeVersion char | ErrKeyNotFound | ErrAuthenticationFailed | ErrInvalidKeySize
  | ErrEmptyKeyID | KeyIDTooLong | NonceTooLong | RandFailed

section \<open>Envelopes\<close>

record Envelope =
  env_Version :: char
  env_KeyID :: string
  env_Nonce :: string
  env_Ciphertext :: string

definition envelopeMagic :: string where "envelopeMagic = ''VDXE''"

definition EnvelopeV1 :: char where "EnvelopeV1 = CHR 0x01"

definition PutUint16 :: "nat \<Rightarrow> string" where
  "PutUint16 n = [char_of (n div 256), char_of n]"

definition Uint16 :: "string \<Rightarrow> nat" where
  "Uint16 b = of_char (b ! 0) * 256 + of_char (b ! 1)"

definition encodeEnvelope :: "Envelope \<Rightarrow> enc_error + string" where
  "encodeEnvelope env =
     (if env_Version env \<noteq> EnvelopeV1 then Inl (ErrUnsupportedEnvelopeVersion (env_Version env))
      else if env_KeyID env = [] then Inl ErrEmptyKeyID
      else if length (env_KeyID env) > 0xFFFF then Inl KeyIDTooLong
      else if length (env_Nonce env) > 0xFF then Inl NonceTooLong
      else Inr (envelopeMagic @ [env_Version env] @ PutUint16 (length (env_KeyID env)) @ env_KeyID env @
                [char_of (length (env_Nonce env))] @ env_Nonce env @ env_Ciphertext env))"

definition decodeEnvelope :: "string \<Rightarrow> enc_error + Envelope" where
  "decodeEnvelope data =
     (if length data < length envelopeMagic + 1 + 2 then Inl ErrInvalidEnvelope
      else if take (length envelopeMagic) data \<noteq> envelopeMagic then Inl ErrInvalidEnvelope
      else
        let offset = length envelopeMagic; version = data ! offset; offset = offset + 1
        in if version \<noteq> EnvelopeV1 then Inl (ErrUnsupportedEnvelopeVersion version)
           else if length data < offset + 2 then Inl ErrInvalidEnvelope
           else
             let keyIDLen = Uint16 (take 2 (drop offset data)); offset = offset + 2
             in if length data < offset + keyIDLen then Inl ErrInvalidEnvelope
                else
                  let keyID = take keyIDLen (drop offset data); offset = offset + keyIDLen
                  in if keyID = [] then Inl ErrInvalidEnvelope
                     else if length data < offset + 1 then Inl ErrInvalidEnvelope
                     else
                       let nonceLen = of_char (data ! offset); offset = offset + 1
                       in if length data < offset + nonceLen then Inl ErrInvalidEnvelope
                          else
                            let nonce = take nonceLen (drop offset data); ciphertext = drop (offset + nonceLen) data
                            in if ciphertext = [] then Inl ErrInvalidEnvelope
                               else Inr \<lparr>env_Version = version, env_KeyID = keyID, env_Nonce = nonce,
                                         env_Ciphertext = ciphertext\<rparr>)"

definition LooksLikeEnvelope :: "string \<Rightarrow> bool" where
  "LooksLikeEnvelope data = is_ok (decodeEnvelope data)"

section \<open>Keys and their sources\<close>

definition KeyBytes :: nat where "KeyBytes = 32"

record Key =
  ky_ID :: string
  ky_Material :: string

definition Key_validate :: "Key \<Rightarrow> enc_error option" where
  "Key_validate k =
     (if ky_ID k = [] then Some ErrEmptyKeyID
      else if length (ky_Material k) \<noteq> KeyBytes then Some ErrInvalidKeySize
      else None)"

text \<open>A key source over its state; \<open>'e\<close> is the type of its errors.\<close>

record ('s, 'e) KeySource =
  ks_CurrentKey :: "'s \<Rightarrow> 'e + Key"
  ks_Key :: "string \<Rightarrow> 's \<Rightarrow> 'e + Key"

record LocalKeySource =
  lk_keys :: "string \<rightharpoonup> Key"
  lk_currentID :: string
  lk_generation :: nat

definition local_key_ID :: "nat \<Rightarrow> string" where
  "local_key_ID generation = ''local-key-'' @ itoa generation"

definition NewLocalKeySource :: "Key \<Rightarrow> enc_error + LocalKeySource" where
  "NewLocalKeySource initial =
     (let initial = (if ky_ID initial = [] then initial\<lparr>ky_ID := ''local-key-1''\<rparr> else initial)
      in case Key_validate initial of
           Some err \<Rightarrow> Inl err
         | None \<Rightarrow> Inr \<lparr>lk_keys = [ky_ID initial \<mapsto> initial], lk_currentID = ky_ID initial, lk_generation = 1\<rparr>)"

definition lk_CurrentKey :: "LocalKeySource \<Rightarrow> enc_error + Key" where
  "lk_CurrentKey s = (case lk_keys s (lk_currentID s) of None \<Rightarrow> Inl ErrKeyNotFound | Some k \<Rightarrow> Inr k)"

definition lk_Key :: "string \<Rightarrow> LocalKeySource \<Rightarrow> enc_error + Key" where
  "lk_Key keyID s =
     (if keyID = [] then Inl ErrEmptyKeyID
      else (case lk_keys s keyID of None \<Rightarrow> Inl ErrKeyNotFound | Some k \<Rightarrow> Inr k))"

definition lk_Rotate :: "string option \<Rightarrow> LocalKeySource \<Rightarrow> (enc_error + string) \<times> LocalKeySource" where
  "lk_Rotate rand s =
     (case rand of
        None \<Rightarrow> (Inl RandFailed, s)
      | Some material \<Rightarrow>
          let generation = lk_generation s + 1;
              newID = local_key_ID generation
          in (Inr newID, s\<lparr>lk_generation := generation,
                lk_keys := (lk_keys s)(newID \<mapsto> \<lparr>ky_ID = newID, ky_Material = material\<rparr>), lk_currentID := newID\<rparr>))"

definition KeyCount :: "LocalKeySource \<Rightarrow> nat" where
  "KeyCount s = card (dom (lk_keys s))"

definition local_source :: "(LocalKeySource, enc_error) KeySource" where
  "local_source = \<lparr>ks_CurrentKey = lk_CurrentKey, ks_Key = lk_Key\<rparr>"

section \<open>Fields and backups\<close>

record aead =
  ae_Seal :: "string \<Rightarrow> string \<Rightarrow> string \<Rightarrow> string"
  ae_Open :: "string \<Rightarrow> string \<Rightarrow> string \<Rightarrow> string option"

definition gcm_NonceSize :: nat where "gcm_NonceSize = 12"

datatype 'e field_error = Enc enc_error | ResolveKey 'e

definition Encrypt ::
  "aead \<Rightarrow> ('s, 'e) KeySource option \<Rightarrow> string option \<Rightarrow> string \<Rightarrow> 's \<Rightarrow> 'e field_error + string" where
  "Encrypt A source rand plaintext s =
     (case source of
        None \<Rightarrow> Inl (Enc ErrNilKeySource)
      | Some source \<Rightarrow>
          if plaintext = [] then Inl (Enc ErrEmptyPlaintext)
          else
            (case ks_CurrentKey source s of
               Inl err \<Rightarrow> Inl (ResolveKey err)
             | Inr key \<Rightarrow>
                 (case Key_validate key of
                    Some err \<Rightarrow> Inl (Enc err)
                  | None \<Rightarrow>
                      (case rand of
                         None \<Rightarrow> Inl (Enc RandFailed)
                       | Some nonce \<Rightarrow>
                           (case encodeEnvelope \<lparr>env_Version = EnvelopeV1, env_KeyID = ky_ID key, env_Nonce = nonce,
                                   env_Ciphertext = ae_Seal A (ky_Material key) nonce plaintext\<rparr> of
                              Inl err \<Rightarrow> Inl (Enc err)
                            | Inr encoded \<Rightarrow> Inr encoded)))))"

definition Decrypt :: "aead \<Rightarrow> ('s, 'e) KeySource option \<Rightarrow> string \<Rightarrow> 's \<Rightarrow> 'e field_error + string" where
  "Decrypt A source envelope s =
     (case source of
        None \<Rightarrow> Inl (Enc ErrNilKeySource)
      | Some source \<Rightarrow>
          if envelope = [] then Inl (Enc ErrEmptyCiphertext)
          else
            (case decodeEnvelope envelope of
               Inl err \<Rightarrow> Inl (Enc err)
             | Inr env \<Rightarrow>
                 (case ks_Key source (env_KeyID env) s of
                    Inl err \<Rightarrow> Inl (ResolveKey err)
                  | Inr key \<Rightarrow>
                      (case Key_validate key of
                         Some err \<Rightarrow> Inl (Enc err)
                       | None \<Rightarrow>
                           if length (env_Nonce env) \<noteq> gcm_NonceSize then Inl (Enc ErrInvalidEnvelope)
                           else
                             (case ae_Open A (ky_Material key) (env_Nonce env) (env_Ciphertext env) of
                                None \<Rightarrow> Inl (Enc ErrAuthenticationFailed)
                              | Some plaintext \<Rightarrow> Inr plaintext)))))"

definition EncryptBackup ::
  "aead \<Rightarrow> ('s, 'e) KeySource option \<Rightarrow> string option \<Rightarrow> string \<Rightarrow> 's \<Rightarrow> 'e field_error + string" where
  "EncryptBackup A source rand backup s = Encrypt A source rand backup s"

definition DecryptBackup :: "aead \<Rightarrow> ('s, 'e) KeySource option \<Rightarrow> string \<Rightarrow> 's \<Rightarrow> 'e field_error + string" where
  "DecryptBackup A source envelope s = Decrypt A source envelope s"

section \<open>The scan for plaintext\<close>

text \<open>
  A value as the reflection sees it: strings, byte slices, structs with their fields (name,
  exported, tagged \<open>encrypted\<close>), pointers, and everything else.
\<close>

datatype go_value = GString string | GBytes string | GStruct "(string \<times> bool \<times> bool \<times> go_value) list"
  | GNilPointer | GPointer go_value | GOther

definition field_path :: "string \<Rightarrow> string \<Rightarrow> string" where
  "field_path prefix name = (if prefix \<noteq> [] then prefix @ ''.'' @ name else name)"

fun leaf_findings :: "bool \<Rightarrow> go_value \<Rightarrow> string \<Rightarrow> string list" where
  "leaf_findings tagged (GString s) path = (if tagged \<and> s \<noteq> [] \<and> \<not> LooksLikeEnvelope s then [path] else [])"
| "leaf_findings tagged (GBytes b) path = (if tagged \<and> b \<noteq> [] \<and> \<not> LooksLikeEnvelope b then [path] else [])"
| "leaf_findings tagged v path = []"

function scanStruct :: "(string \<times> bool \<times> bool \<times> go_value) list \<Rightarrow> string \<Rightarrow> string list" where
  "scanStruct [] prefix = []"
| "scanStruct ((name, exported, tagged, v) # fvs) prefix =
     (if \<not> exported then scanStruct fvs prefix
      else
        let path = field_path prefix name
        in (case v of
              GStruct fs \<Rightarrow> scanStruct fs path
            | GPointer (GStruct fs) \<Rightarrow> scanStruct fs path
            | _ \<Rightarrow> leaf_findings tagged v path) @ scanStruct fvs prefix)"
  by pat_completeness auto
termination
  by (relation "measure (\<lambda>(fvs, prefix). size_list (size_prod (\<lambda>_. 0) (size_prod (\<lambda>_. 0) (size_prod (\<lambda>_. 0) size))) fvs)")
     (auto split: go_value.splits)

text \<open>\<open>None\<close>: the value is not a struct, or nil at the top.\<close>

fun ScanForPlaintext :: "go_value \<Rightarrow> string list option" where
  "ScanForPlaintext (GPointer v) = ScanForPlaintext v"
| "ScanForPlaintext GNilPointer = Some []"
| "ScanForPlaintext (GStruct fvs) = Some (scanStruct fvs [])"
| "ScanForPlaintext _ = None"

section \<open>The envelope codec\<close>

lemma Uint16_PutUint16: "n \<le> 0xFFFF \<Longrightarrow> Uint16 (PutUint16 n) = n"
  by (simp add: Uint16_def PutUint16_def of_char_of)

lemma PutUint16_Uint16: "PutUint16 (Uint16 [a, b]) = [a, b]"
proof -
  have "of_char b mod 256 = (of_char b :: nat)" by (rule of_char_mod_256)
  then have "of_char b < (256::nat)" by (simp add: mod_eq_self_iff_div_eq_0)
  moreover have "char_of (of_char a * 256 + of_char b :: nat) = (b :: char)"
    by (metis char_of_mod_256 char_of_char of_char_mod_256 mod_mult_self3)
  ultimately show ?thesis by (simp add: Uint16_def PutUint16_def)
qed

lemma length_PutUint16 [simp]: "length (PutUint16 n) = 2"
  by (simp add: PutUint16_def)

lemma length_magic [simp]: "length envelopeMagic = 4"
  by (simp add: envelopeMagic_def)

lemma take_drop_append: "length xs = n \<Longrightarrow> take m (drop n (xs @ ys)) = take m ys"
  by simp

definition envelope_bytes :: "Envelope \<Rightarrow> string" where
  "envelope_bytes env = envelopeMagic @ [env_Version env] @ PutUint16 (length (env_KeyID env)) @ env_KeyID env @
     [char_of (length (env_Nonce env))] @ env_Nonce env @ env_Ciphertext env"

definition encodable :: "Envelope \<Rightarrow> bool" where
  "encodable env \<longleftrightarrow> env_Version env = EnvelopeV1 \<and> env_KeyID env \<noteq> [] \<and> length (env_KeyID env) \<le> 0xFFFF \<and>
     length (env_Nonce env) \<le> 0xFF"

lemma encodeEnvelope_Inr: "encodeEnvelope env = Inr data \<longleftrightarrow> encodable env \<and> data = envelope_bytes env"
  by (auto simp: encodeEnvelope_def encodable_def envelope_bytes_def)

lemma decode_eq:
  "decodeEnvelope data =
     (if length data < 7 then Inl ErrInvalidEnvelope
      else if take 4 data \<noteq> envelopeMagic then Inl ErrInvalidEnvelope
      else if data ! 4 \<noteq> EnvelopeV1 then Inl (ErrUnsupportedEnvelopeVersion (data ! 4))
      else if length data < 7 + Uint16 (take 2 (drop 5 data)) then Inl ErrInvalidEnvelope
      else if take (Uint16 (take 2 (drop 5 data))) (drop 7 data) = [] then Inl ErrInvalidEnvelope
      else if length data < 7 + Uint16 (take 2 (drop 5 data)) + 1 then Inl ErrInvalidEnvelope
      else if length data < 8 + Uint16 (take 2 (drop 5 data)) + of_char (data ! (7 + Uint16 (take 2 (drop 5 data))))
      then Inl ErrInvalidEnvelope
      else if drop (8 + Uint16 (take 2 (drop 5 data)) + of_char (data ! (7 + Uint16 (take 2 (drop 5 data))))) data = []
      then Inl ErrInvalidEnvelope
      else Inr \<lparr>env_Version = data ! 4, env_KeyID = take (Uint16 (take 2 (drop 5 data))) (drop 7 data),
        env_Nonce = take (of_char (data ! (7 + Uint16 (take 2 (drop 5 data))))) (drop (8 + Uint16 (take 2 (drop 5 data))) data),
        env_Ciphertext = drop (8 + Uint16 (take 2 (drop 5 data)) + of_char (data ! (7 + Uint16 (take 2 (drop 5 data))))) data\<rparr>)"
  by (simp add: decodeEnvelope_def Let_def)

lemma if_Inl_eq: "(if c then Inl e else x) = Inr y \<longleftrightarrow> \<not> c \<and> x = Inr y"
  by simp

lemma decode_bytes:
  assumes "encodable env" "env_Ciphertext env \<noteq> []"
  shows "decodeEnvelope (envelope_bytes env) = Inr env"
proof -
  let ?id = "env_KeyID env" and ?nonce = "env_Nonce env" and ?c = "env_Ciphertext env"
  let ?head = "envelopeMagic @ [EnvelopeV1] @ PutUint16 (length ?id)"
  let ?data = "?head @ ?id @ [char_of (length ?nonce)] @ ?nonce @ ?c"
  have data: "envelope_bytes env = ?data"
    using assms(1) by (simp add: envelope_bytes_def encodable_def)
  have head: "length ?head = 7" by simp
  have parts: "take 4 ?data = envelopeMagic" "?data ! 4 = EnvelopeV1"
      "take 2 (drop 5 ?data) = PutUint16 (length ?id)" "drop 7 ?data = ?id @ [char_of (length ?nonce)] @ ?nonce @ ?c"
    by (simp_all add: nth_append)
  have tail: "?data ! (7 + length ?id) = char_of (length ?nonce)"
      "drop (8 + length ?id) ?data = ?nonce @ ?c"
  proof -
    have "?data = (?head @ ?id @ [char_of (length ?nonce)]) @ ?nonce @ ?c" by simp
    moreover have "length (?head @ ?id @ [char_of (length ?nonce)]) = 8 + length ?id" by simp
    ultimately show "drop (8 + length ?id) ?data = ?nonce @ ?c" by (metis append_eq_conv_conj)
  qed (simp add: nth_append)
  define d where "d = ?data"
  have d: "length d = 8 + length ?id + length ?nonce + length ?c" by (simp add: d_def)
  have cut: "take (length ?id) (drop 7 d) = ?id" "take (length ?nonce) (drop (8 + length ?id) d) = ?nonce"
      "drop (8 + length ?id + length ?nonce) d = ?c"
    using parts(4) tail(2) unfolding d_def [symmetric] by (simp_all add: drop_drop [symmetric] add.commute del: drop_drop)
  have env: "env = \<lparr>env_Version = EnvelopeV1, env_KeyID = ?id, env_Nonce = ?nonce, env_Ciphertext = ?c\<rparr>"
    using assms(1) by (simp add: encodable_def)
  show ?thesis
    unfolding data d_def [symmetric] decode_eq
    using assms parts(1-3) tail(1) cut d env unfolding d_def [symmetric] encodable_def
    by (simp add: Uint16_PutUint16 of_char_of)
qed

lemma bytes_decode:
  assumes "decodeEnvelope data = Inr env"
  shows "encodable env \<and> env_Ciphertext env \<noteq> [] \<and> data = envelope_bytes env"
proof -
  let ?k = "Uint16 (take 2 (drop 5 data))"
  let ?n = "of_char (data ! (7 + ?k)) :: nat"
  have len: "7 \<le> length data" "7 + ?k + 1 \<le> length data" "8 + ?k + ?n \<le> length data"
    and magic: "take 4 data = envelopeMagic" and version: "data ! 4 = EnvelopeV1"
    and env: "env = \<lparr>env_Version = EnvelopeV1, env_KeyID = take ?k (drop 7 data),
        env_Nonce = take ?n (drop (8 + ?k) data), env_Ciphertext = drop (8 + ?k + ?n) data\<rparr>"
    and not_empty: "take ?k (drop 7 data) \<noteq> []" "drop (8 + ?k + ?n) data \<noteq> []"
    using assms unfolding decode_eq if_Inl_eq not_less not_not by (blast | simp)+
  have cut: "drop i data = take m (drop i data) @ drop (i + m) data" for i m
    by (metis append_take_drop_id drop_drop add.commute)
  have one: "drop i data = data ! i # drop (Suc i) data" if "i < length data" for i
    using that by (rule Cons_nth_drop_Suc [symmetric])
  obtain a b where ab: "take 2 (drop 5 data) = [a, b]"
    using len(1) one [of 5] one [of 6] by (simp add: numeral_eq_Suc)
  have "?n < 256"
    using of_char_mod_256 [of "data ! (7 + ?k)"] by (metis mod_less_divisor zero_less_numeral)
  then have nonce: "?n \<le> 255" by linarith
  have "?k \<le> 0xFFFF"
  proof -
    have "of_char a < (256::nat)" "of_char b < (256::nat)"
      by (metis of_char_mod_256 mod_less_divisor zero_less_numeral)+
    then have "of_char a * 256 + of_char b \<le> (65535::nat)" by linarith
    then show ?thesis by (simp add: ab Uint16_def)
  qed
  have "data = take 4 data @ drop 4 data" by simp
  also have "drop 4 data = data ! 4 # take 2 (drop 5 data) @ drop 7 data"
    using one [of 4] cut [of 5 2] len(1) by simp
  also have "drop 7 data = take ?k (drop 7 data) @ data ! (7 + ?k) # take ?n (drop (8 + ?k) data) @ drop (8 + ?k + ?n) data"
    using cut [of 7 ?k] one [of "7 + ?k"] cut [of "8 + ?k" ?n] len(2) by simp
  finally have "data = envelope_bytes env"
    using len nonce magic version ab PutUint16_Uint16 [of a b]
    by (simp add: env envelope_bytes_def)
  moreover have "encodable env"
    using len nonce not_empty(1) \<open>?k \<le> 0xFFFF\<close> by (simp add: encodable_def env)
  ultimately show ?thesis using not_empty(2) by (simp add: env)
qed

lemma decodeEnvelope_exact:
  "decodeEnvelope data = Inr env \<longleftrightarrow> encodeEnvelope env = Inr data \<and> env_Ciphertext env \<noteq> []"
  using decode_bytes bytes_decode by (auto simp: encodeEnvelope_Inr)

section \<open>What a key source promises\<close>

text \<open>
  A source whose keys stay: the current key resolves under its ID, an event of the source
  (a rotation, or whatever its owner does) keeps every key that resolves.
\<close>

locale key_source =
  fixes source :: "('s, 'e) KeySource" and inv :: "'s \<Rightarrow> bool" and event :: "'s \<Rightarrow> 's \<Rightarrow> bool"
  assumes current_resolves: "inv s \<Longrightarrow> ks_CurrentKey source s = Inr k \<Longrightarrow> ks_Key source (ky_ID k) s = Inr k"
    and key_kept: "inv s \<Longrightarrow> event s s' \<Longrightarrow> ks_Key source i s = Inr k \<Longrightarrow> ks_Key source i s' = Inr k"
    and inv_kept: "inv s \<Longrightarrow> event s s' \<Longrightarrow> inv s'"
begin

lemma keys_kept: "event\<^sup>*\<^sup>* s s' \<Longrightarrow> inv s \<Longrightarrow> inv s' \<and> (ks_Key source i s = Inr k \<longrightarrow> ks_Key source i s' = Inr k)"
  by (induction rule: rtranclp_induct) (use inv_kept key_kept in blast)+

end

definition aead_ok :: "aead \<Rightarrow> bool" where
  "aead_ok A \<longleftrightarrow> (\<forall>key nonce. length key = KeyBytes \<longrightarrow> length nonce = gcm_NonceSize \<longrightarrow>
     (\<forall>text. ae_Seal A key nonce text \<noteq> [] \<and>
       (\<forall>c. ae_Open A key nonce c = Some text \<longleftrightarrow> c = ae_Seal A key nonce text)))"

lemma Encrypt_Inr:
  assumes "Encrypt A (Some source) rand text s = Inr c" "aead_ok A" "\<And>n. rand = Some n \<Longrightarrow> length n = gcm_NonceSize"
  shows "\<exists>key nonce. ks_CurrentKey source s = Inr key \<and> Key_validate key = None \<and> rand = Some nonce \<and> text \<noteq> [] \<and>
    decodeEnvelope c = Inr \<lparr>env_Version = EnvelopeV1, env_KeyID = ky_ID key, env_Nonce = nonce,
      env_Ciphertext = ae_Seal A (ky_Material key) nonce text\<rparr>"
proof -
  obtain key nonce where e: "ks_CurrentKey source s = Inr key" "Key_validate key = None" "rand = Some nonce" "text \<noteq> []"
      "encodeEnvelope \<lparr>env_Version = EnvelopeV1, env_KeyID = ky_ID key, env_Nonce = nonce,
        env_Ciphertext = ae_Seal A (ky_Material key) nonce text\<rparr> = Inr c"
    using assms(1) by (auto simp: Encrypt_def split: if_splits sum.splits option.splits)
  have "length (ky_Material key) = KeyBytes" using e(2) by (auto simp: Key_validate_def split: if_splits)
  then have "ae_Seal A (ky_Material key) nonce text \<noteq> []" using assms(2,3) e(3) by (simp add: aead_ok_def)
  with e show ?thesis by (simp add: decodeEnvelope_exact)
qed

lemma Decrypt_resolved:
  assumes "decodeEnvelope c = Inr env" "ks_Key source (env_KeyID env) s = Inr key" "Key_validate key = None"
    "length (env_Nonce env) = gcm_NonceSize"
  shows "Decrypt A (Some source) c s =
    (case ae_Open A (ky_Material key) (env_Nonce env) (env_Ciphertext env) of
       None \<Rightarrow> Inl (Enc ErrAuthenticationFailed) | Some text \<Rightarrow> Inr text)"
proof -
  have "c \<noteq> []" using assms(1) by (auto simp: decodeEnvelope_def)
  then show ?thesis using assms by (simp add: Decrypt_def)
qed

context key_source
begin

text \<open>What is encrypted can be decrypted after any events of the source.\<close>

lemma decrypt_encrypt:
  assumes "Encrypt A (Some source) (Some nonce) text s = Inr c" "aead_ok A" "length nonce = gcm_NonceSize" "inv s"
    "event\<^sup>*\<^sup>* s s'"
  shows "Decrypt A (Some source) c s' = Inr text"
proof -
  obtain key where e: "ks_CurrentKey source s = Inr key" "Key_validate key = None"
      "decodeEnvelope c = Inr \<lparr>env_Version = EnvelopeV1, env_KeyID = ky_ID key, env_Nonce = nonce,
        env_Ciphertext = ae_Seal A (ky_Material key) nonce text\<rparr>"
    using Encrypt_Inr [OF assms(1,2)] assms(3) by auto
  have "ks_Key source (ky_ID key) s' = Inr key"
    using keys_kept [OF assms(5,4)] current_resolves [OF assms(4) e(1)] by blast
  moreover have "ae_Open A (ky_Material key) nonce (ae_Seal A (ky_Material key) nonce text) = Some text"
    using assms(2,3) e(2) by (auto simp: aead_ok_def Key_validate_def split: if_splits)
  ultimately show ?thesis using Decrypt_resolved [OF e(3), of source s' key A] e(2) assms(3) by simp
qed

end

text \<open>
  The local source keeps its promise unless its first key has a name that a rotation will
  give out. A key is named after the generation that made it.
\<close>

definition local_inv :: "LocalKeySource \<Rightarrow> bool" where
  "local_inv s \<longleftrightarrow> lk_currentID s \<noteq> [] \<and> (\<exists>k. lk_keys s (lk_currentID s) = Some k) \<and>
     (\<forall>i k. lk_keys s i = Some k \<longrightarrow> ky_ID k = i \<and> (\<forall>g. i = local_key_ID g \<longrightarrow> g \<le> lk_generation s))"

lemma local_key_ID_eq [simp]: "local_key_ID g = local_key_ID h \<longleftrightarrow> g = h" "local_key_ID g \<noteq> []"
  using itoa_inj by (auto simp: local_key_ID_def)

inductive local_event :: "LocalKeySource \<Rightarrow> LocalKeySource \<Rightarrow> bool" where
  rotates: "lk_Rotate rand s = (r, s') \<Longrightarrow> local_event s s'"

inductive_cases local_eventE: "local_event s s'"

interpretation local: key_source local_source local_inv local_event
proof
  fix s k
  assume "local_inv s" "ks_CurrentKey local_source s = Inr k"
  then show "ks_Key local_source (ky_ID k) s = Inr k"
    by (auto simp: local_source_def lk_CurrentKey_def lk_Key_def local_inv_def split: option.splits)
next
  fix s s' i k
  assume inv: "local_inv s" and event: "local_event s s'" and key: "ks_Key local_source i s = Inr k"
  have "i \<noteq> local_key_ID (lk_generation s + 1)"
    using inv key by (fastforce simp: local_source_def lk_Key_def local_inv_def split: option.splits if_splits)
  then show "ks_Key local_source i s' = Inr k"
    using event key
    by (auto elim!: local_eventE simp: lk_Rotate_def Let_def local_source_def lk_Key_def split: option.splits if_splits)
next
  fix s s'
  assume "local_inv s" "local_event s s'"
  then show "local_inv s'"
    by (force elim!: local_eventE simp: lk_Rotate_def Let_def local_inv_def split: option.splits if_splits)
qed

lemma NewLocalKeySource_inv:
  assumes "NewLocalKeySource initial = Inr s" "\<And>g. ky_ID initial = local_key_ID g \<Longrightarrow> g \<le> 1"
  shows "local_inv s"
proof -
  have "''local-key-1'' = local_key_ID 1" by code_simp
  then show ?thesis
    using assms by (fastforce simp: NewLocalKeySource_def local_inv_def Let_def Key_validate_def split: if_splits option.splits)
qed

section \<open>Properties\<close>

text \<open>
  C27: The envelope format is a bijection: decoding what was encoded gives the envelope back,
  and the only bytes that decode to an envelope are its encoding.
\<close>

theorem envelope_round_trip:
  "decodeEnvelope data = Inr env \<longleftrightarrow> encodeEnvelope env = Inr data \<and> env_Ciphertext env \<noteq> []"
  by (rule decodeEnvelope_exact)

definition sample_aead :: aead where
  "sample_aead = \<lparr>ae_Seal = (\<lambda>key nonce text. text @ take 16 key),
     ae_Open = (\<lambda>key nonce c. if 16 \<le> length c \<and> drop (length c - 16) c = take 16 key
       then Some (take (length c - 16) c) else None)\<rparr>"

lemma sample_aead_ok: "aead_ok sample_aead"
  unfolding aead_ok_def
proof (intro allI impI conjI)
  fix key nonce msg c :: string
  assume key: "length key = KeyBytes"
  show "ae_Seal sample_aead key nonce msg \<noteq> []" using key by (auto simp: sample_aead_def KeyBytes_def)
  show "ae_Open sample_aead key nonce c = Some msg \<longleftrightarrow> c = ae_Seal sample_aead key nonce msg"
    using key by (auto simp: sample_aead_def KeyBytes_def min_def) (metis append_take_drop_id)
qed

definition sample_key :: Key where
  "sample_key = \<lparr>ky_ID = ''env-key-1'', ky_Material = replicate 32 CHR ''k''\<rparr>"

definition sample_nonce :: string where "sample_nonce = replicate 12 CHR ''n''"

text \<open>
  Rotation breaks nothing: what was encrypted under a local source, whose first key does
  not have a generated name, decrypts to the same text after any number of rotations, each
  of which may fail.
\<close>

lemma rotation_keeps_ciphertexts_readable:
  assumes "aead_ok A" and "NewLocalKeySource initial = Inr s0" and "\<forall>g>1. ky_ID initial \<noteq> local_key_ID g"
    and "local_event\<^sup>*\<^sup>* s0 s" and "Encrypt A (Some local_source) (Some nonce) text s = Inr c"
    and "length nonce = gcm_NonceSize" and "local_event\<^sup>*\<^sup>* s s'"
  shows "Decrypt A (Some local_source) c s' = Inr text"
proof -
  have "local_inv s0" using NewLocalKeySource_inv [OF assms(2)] assms(3) by (meson not_le)
  then have "local_inv s" using local.keys_kept [OF assms(4)] by blast
  then show ?thesis using local.decrypt_encrypt [OF assms(5,1,6) _ assms(7)] by blast
qed

lemma rotation_keeps_ciphertexts_readable_witness:
  "\<exists>s0 c id s1. NewLocalKeySource sample_key = Inr s0 \<and>
     Encrypt sample_aead (Some local_source) (Some sample_nonce) ''text'' s0 = Inr c \<and>
     lk_Rotate (Some (replicate 32 CHR ''m'')) s0 = (Inr id, s1) \<and> lk_currentID s1 = ''local-key-2'' \<and>
     Decrypt sample_aead (Some local_source) c s1 = Inr ''text''"
proof -
  let ?s0 = "\<lparr>lk_keys = [''env-key-1'' \<mapsto> sample_key], lk_currentID = ''env-key-1'', lk_generation = 1\<rparr>"
  have new: "NewLocalKeySource sample_key = Inr ?s0"
    by (simp add: NewLocalKeySource_def sample_key_def Key_validate_def KeyBytes_def)
  have free: "\<forall>g>1. ky_ID sample_key \<noteq> local_key_ID g" by (simp add: sample_key_def local_key_ID_def)
  obtain c where c: "Encrypt sample_aead (Some local_source) (Some sample_nonce) ''text'' ?s0 = Inr c"
    by (simp add: Encrypt_def local_source_def lk_CurrentKey_def sample_key_def Key_validate_def KeyBytes_def
        encodeEnvelope_def sample_nonce_def)
  obtain id s1 where rot: "lk_Rotate (Some (replicate 32 CHR ''m'')) ?s0 = (Inr id, s1)" "lk_currentID s1 = local_key_ID 2"
    by (simp add: lk_Rotate_def Let_def numeral_2_eq_2)
  have "local_key_ID 2 = ''local-key-2''" by code_simp
  moreover have "local_event\<^sup>*\<^sup>* ?s0 s1" using rotates [OF rot(1)] by blast
  moreover have "length sample_nonce = gcm_NonceSize" by (simp add: sample_nonce_def gcm_NonceSize_def)
  ultimately show ?thesis
    using rotation_keeps_ciphertexts_readable [OF sample_aead_ok new free rtranclp.rtrancl_refl c] new c rot by auto
qed

text \<open>
  The exception in the previous property is real. A source whose first key is called
  \<open>local-key-2\<close> loses it in the first rotation, which gives that name to the new key: an
  earlier ciphertext no longer decrypts to its text, unless both keys seal it to the same bytes.
\<close>

lemma rotation_can_overwrite_the_first_key:
  assumes "aead_ok A" and "ky_ID initial = ''local-key-2''" and "NewLocalKeySource initial = Inr s0"
    and "Encrypt A (Some local_source) (Some nonce) text s0 = Inr c" and "length nonce = gcm_NonceSize"
    and "length material = KeyBytes" and "lk_Rotate (Some material) s0 = (Inr i, s1)"
    and "ae_Seal A material nonce text \<noteq> ae_Seal A (ky_Material initial) nonce text"
  shows "lk_Key ''local-key-2'' s1 \<noteq> lk_Key ''local-key-2'' s0 \<and> Decrypt A (Some local_source) c s1 \<noteq> Inr text \<and>
    KeyCount s1 = 1"
proof -
  have two: "''local-key-2'' = local_key_ID 2" by code_simp
  have s0: "s0 = \<lparr>lk_keys = [local_key_ID 2 \<mapsto> initial], lk_currentID = local_key_ID 2, lk_generation = 1\<rparr>"
    using assms(2,3) by (auto simp: NewLocalKeySource_def Let_def two split: option.splits)
  have s1: "lk_keys s1 = [local_key_ID 2 \<mapsto> \<lparr>ky_ID = local_key_ID 2, ky_Material = material\<rparr>]"
    using assms(7) by (auto simp: lk_Rotate_def Let_def s0 numeral_2_eq_2)
  have "ky_Material initial \<noteq> material" using assms(8) by auto
  then have "lk_Key ''local-key-2'' s1 \<noteq> lk_Key ''local-key-2'' s0"
    unfolding two by (auto simp: lk_Key_def s1 s0)
  moreover obtain key where e: "ks_CurrentKey local_source s0 = Inr key" "Key_validate key = None"
      "decodeEnvelope c = Inr \<lparr>env_Version = EnvelopeV1, env_KeyID = ky_ID key, env_Nonce = nonce,
        env_Ciphertext = ae_Seal A (ky_Material key) nonce text\<rparr>"
    using Encrypt_Inr [OF assms(4,1)] assms(5) by auto
  have key: "key = initial" using e(1) by (simp add: local_source_def lk_CurrentKey_def s0)
  have "ks_Key local_source (ky_ID key) s1 = Inr \<lparr>ky_ID = local_key_ID 2, ky_Material = material\<rparr>"
    using assms(2) by (simp add: key local_source_def lk_Key_def s1 two)
  from Decrypt_resolved [OF e(3), of local_source s1, OF _ _, simplified, OF this]
  have "Decrypt A (Some local_source) c s1 = (case ae_Open A material nonce (ae_Seal A (ky_Material initial) nonce text) of
      None \<Rightarrow> Inl (Enc ErrAuthenticationFailed) | Some text \<Rightarrow> Inr text)"
    using assms(5,6) by (simp add: Key_validate_def key)
  moreover have "ae_Open A material nonce (ae_Seal A (ky_Material initial) nonce text) \<noteq> Some text"
    using assms(1,5,6,8) by (auto simp: aead_ok_def)
  ultimately show ?thesis by (auto simp: KeyCount_def s1 split: option.splits)
qed

lemma rotation_can_overwrite_the_first_key_witness:
  "\<exists>s0 c i s1. NewLocalKeySource (sample_key\<lparr>ky_ID := ''local-key-2''\<rparr>) = Inr s0 \<and>
     Encrypt sample_aead (Some local_source) (Some sample_nonce) ''text'' s0 = Inr c \<and>
     lk_Rotate (Some (replicate 32 CHR ''m'')) s0 = (Inr i, s1) \<and>
     Decrypt sample_aead (Some local_source) c s1 \<noteq> Inr ''text''"
proof -
  let ?key = "sample_key\<lparr>ky_ID := ''local-key-2''\<rparr>"
  let ?s0 = "\<lparr>lk_keys = [''local-key-2'' \<mapsto> ?key], lk_currentID = ''local-key-2'', lk_generation = 1\<rparr>"
  have new: "NewLocalKeySource ?key = Inr ?s0"
    by (simp add: NewLocalKeySource_def sample_key_def Key_validate_def KeyBytes_def)
  obtain c where c: "Encrypt sample_aead (Some local_source) (Some sample_nonce) ''text'' ?s0 = Inr c"
    by (simp add: Encrypt_def local_source_def lk_CurrentKey_def sample_key_def Key_validate_def KeyBytes_def
        encodeEnvelope_def sample_nonce_def)
  obtain i s1 where rot: "lk_Rotate (Some (replicate 32 CHR ''m'')) ?s0 = (Inr i, s1)"
    by (simp add: lk_Rotate_def Let_def)
  have "ae_Seal sample_aead (replicate 32 CHR ''m'') sample_nonce ''text'' \<noteq> ae_Seal sample_aead (ky_Material ?key) sample_nonce ''text''"
    by (simp add: sample_aead_def sample_key_def)
  from rotation_can_overwrite_the_first_key [OF sample_aead_ok _ new c _ _ rot this] new c rot
  show ?thesis by (simp add: sample_nonce_def gcm_NonceSize_def KeyBytes_def)
qed

text \<open>
  Nothing forged is accepted: bytes decrypt to a text only if they are the envelope in
  which the key they name seals that text.
\<close>

lemma decrypt_accepts_only_sealed:
  assumes "aead_ok A" and "Decrypt A (Some source) c s = Inr msg"
  shows "\<exists>i key nonce. ks_Key source i s = Inr key \<and> length (ky_Material key) = KeyBytes \<and> length nonce = gcm_NonceSize \<and>
    encodeEnvelope \<lparr>env_Version = EnvelopeV1, env_KeyID = i, env_Nonce = nonce,
      env_Ciphertext = ae_Seal A (ky_Material key) nonce msg\<rparr> = Inr c"
proof -
  obtain env key where d: "decodeEnvelope c = Inr env" "ks_Key source (env_KeyID env) s = Inr key" "Key_validate key = None"
      "length (env_Nonce env) = gcm_NonceSize" "ae_Open A (ky_Material key) (env_Nonce env) (env_Ciphertext env) = Some msg"
    using assms(2) by (auto simp: Decrypt_def split: if_splits sum.splits option.splits)
  have "length (ky_Material key) = KeyBytes" using d(3) by (auto simp: Key_validate_def split: if_splits)
  moreover from this have "env_Ciphertext env = ae_Seal A (ky_Material key) (env_Nonce env) msg"
    using assms(1) d(4,5) by (simp add: aead_ok_def)
  moreover have "encodeEnvelope env = Inr c" "env_Version env = EnvelopeV1"
    using d(1) by (auto simp: decodeEnvelope_exact encodeEnvelope_Inr encodable_def)
  ultimately have "encodeEnvelope \<lparr>env_Version = EnvelopeV1, env_KeyID = env_KeyID env, env_Nonce = env_Nonce env,
      env_Ciphertext = ae_Seal A (ky_Material key) (env_Nonce env) msg\<rparr> = Inr c"
    by (metis (full_types) Envelope.surjective old.unit.exhaust)
  then show ?thesis using d(2,4) \<open>length (ky_Material key) = KeyBytes\<close> by blast
qed

lemma decrypt_accepts_only_sealed_witness:
  "\<exists>s0 c. NewLocalKeySource sample_key = Inr s0 \<and> Decrypt sample_aead (Some local_source) c s0 = Inr ''text'' \<and>
     (\<exists>i key nonce. ks_Key local_source i s0 = Inr key \<and> encodeEnvelope \<lparr>env_Version = EnvelopeV1, env_KeyID = i,
        env_Nonce = nonce, env_Ciphertext = ae_Seal sample_aead (ky_Material key) nonce ''text''\<rparr> = Inr c)"
proof -
  let ?s0 = "\<lparr>lk_keys = [''env-key-1'' \<mapsto> sample_key], lk_currentID = ''env-key-1'', lk_generation = 1\<rparr>"
  have new: "NewLocalKeySource sample_key = Inr ?s0"
    by (simp add: NewLocalKeySource_def sample_key_def Key_validate_def KeyBytes_def)
  have inv: "local_inv ?s0" by (simp add: local_inv_def sample_key_def local_key_ID_def)
  obtain c where c: "Encrypt sample_aead (Some local_source) (Some sample_nonce) ''text'' ?s0 = Inr c"
    by (simp add: Encrypt_def local_source_def lk_CurrentKey_def sample_key_def Key_validate_def KeyBytes_def
        encodeEnvelope_def sample_nonce_def)
  have "Decrypt sample_aead (Some local_source) c ?s0 = Inr ''text''"
    using local.decrypt_encrypt [OF c sample_aead_ok _ inv rtranclp.rtrancl_refl]
    by (simp add: sample_nonce_def gcm_NonceSize_def)
  with decrypt_accepts_only_sealed [OF sample_aead_ok this] new show ?thesis by blast
qed

text \<open>The leaves that a scan looks at: tagged, exported, in structs and pointers to structs.\<close>

inductive tagged_leaf :: "(string \<times> bool \<times> bool \<times> go_value) list \<Rightarrow> string \<Rightarrow> string \<Rightarrow> string \<Rightarrow> bool" where
  in_string: "(name, True, True, GString b) \<in> set fvs \<Longrightarrow> tagged_leaf fvs prefix (field_path prefix name) b"
| in_bytes: "(name, True, True, GBytes b) \<in> set fvs \<Longrightarrow> tagged_leaf fvs prefix (field_path prefix name) b"
| in_struct: "(name, True, tagged, GStruct fs) \<in> set fvs \<Longrightarrow> tagged_leaf fs (field_path prefix name) path b
    \<Longrightarrow> tagged_leaf fvs prefix path b"
| in_pointer: "(name, True, tagged, GPointer (GStruct fs)) \<in> set fvs \<Longrightarrow> tagged_leaf fs (field_path prefix name) path b
    \<Longrightarrow> tagged_leaf fvs prefix path b"

inductive_cases tagged_leafE: "tagged_leaf fvs prefix path b"

lemma tagged_leaf_mono: "tagged_leaf fvs prefix path b \<Longrightarrow> set fvs \<subseteq> set gvs \<Longrightarrow> tagged_leaf gvs prefix path b"
  by (erule tagged_leafE) (auto intro: tagged_leaf.intros)

lemma tagged_leaf_Nil: "\<not> tagged_leaf [] prefix path b"
  by (auto elim: tagged_leafE)

lemma scanStruct_leaves:
  "path \<in> set (scanStruct fvs prefix) \<longleftrightarrow> (\<exists>b. tagged_leaf fvs prefix path b \<and> b \<noteq> [] \<and> \<not> LooksLikeEnvelope b)"
proof (induction fvs prefix rule: scanStruct.induct)
  case (1 prefix)
  then show ?case by (simp add: tagged_leaf_Nil)
next
  case (2 name exported tagged v fvs prefix)
  have split: "tagged_leaf ((name, exported, tagged, v) # fvs) prefix path b \<longleftrightarrow>
      tagged_leaf fvs prefix path b \<or> (exported \<and>
        (tagged \<and> path = field_path prefix name \<and> (v = GString b \<or> v = GBytes b) \<or>
         (\<exists>fs. (v = GStruct fs \<or> v = GPointer (GStruct fs)) \<and> tagged_leaf fs (field_path prefix name) path b)))" for b
    by (rule iffI, erule tagged_leafE) (auto intro: tagged_leaf.intros elim!: tagged_leaf_mono)
  show ?case
  proof (cases exported)
    case False
    then show ?thesis using "2.IH"(1) unfolding split by simp
  next
    case True
    have here: "path \<in> set (case v of GStruct fs \<Rightarrow> scanStruct fs (field_path prefix name)
          | GPointer (GStruct fs) \<Rightarrow> scanStruct fs (field_path prefix name)
          | _ \<Rightarrow> leaf_findings tagged v (field_path prefix name)) \<longleftrightarrow>
        (\<exists>b. (tagged \<and> path = field_path prefix name \<and> (v = GString b \<or> v = GBytes b) \<or>
           (\<exists>fs. (v = GStruct fs \<or> v = GPointer (GStruct fs)) \<and> tagged_leaf fs (field_path prefix name) path b)) \<and>
           b \<noteq> [] \<and> \<not> LooksLikeEnvelope b)"
      using "2.IH"(2,3) True by (cases v) (auto split: go_value.splits)
    have rest: "path \<in> set (scanStruct fvs prefix) \<longleftrightarrow>
        (\<exists>b. tagged_leaf fvs prefix path b \<and> b \<noteq> [] \<and> \<not> LooksLikeEnvelope b)"
      using "2.IH"(4) True by blast
    have scan: "scanStruct ((name, exported, tagged, v) # fvs) prefix =
        (case v of GStruct fs \<Rightarrow> scanStruct fs (field_path prefix name)
          | GPointer (GStruct fs) \<Rightarrow> scanStruct fs (field_path prefix name)
          | _ \<Rightarrow> leaf_findings tagged v (field_path prefix name)) @ scanStruct fvs prefix"
      using True by (simp add: Let_def)
    show ?thesis unfolding scan set_append Un_iff here rest split using True by blast
  qed
qed

text \<open>
  The scan of a struct reports a tagged field, nested ones included, exactly when it
  holds something that is no envelope; so a record whose tagged fields all went through
  \<open>Encrypt\<close> is reported clean.
\<close>

lemma scan_reports_exactly_plaintext:
  assumes "ScanForPlaintext (GStruct fvs) = Some findings"
  shows "(path \<in> set findings \<longleftrightarrow> (\<exists>b. tagged_leaf fvs [] path b \<and> b \<noteq> [] \<and> \<not> LooksLikeEnvelope b)) \<and>
    ((\<forall>path b. tagged_leaf fvs [] path b \<longrightarrow> b = [] \<or>
        (\<exists>A source rand text s. aead_ok A \<and> (\<forall>n. rand = Some n \<longrightarrow> length n = gcm_NonceSize) \<and>
          Encrypt A (Some (source :: (LocalKeySource, enc_error) KeySource)) rand text s = Inr b)) \<longrightarrow> findings = [])"
proof (intro conjI impI)
  have findings: "findings = scanStruct fvs []" using assms by simp
  show "path \<in> set findings \<longleftrightarrow> (\<exists>b. tagged_leaf fvs [] path b \<and> b \<noteq> [] \<and> \<not> LooksLikeEnvelope b)"
    unfolding findings by (rule scanStruct_leaves)
  assume encrypted: "\<forall>path b. tagged_leaf fvs [] path b \<longrightarrow> b = [] \<or>
        (\<exists>A source rand text s. aead_ok A \<and> (\<forall>n. rand = Some n \<longrightarrow> length n = gcm_NonceSize) \<and>
          Encrypt A (Some (source :: (LocalKeySource, enc_error) KeySource)) rand text s = Inr b)"
  have "path \<notin> set findings" for path
    using encrypted Encrypt_Inr unfolding findings scanStruct_leaves LooksLikeEnvelope_def is_ok_iff by meson
  then show "findings = []" by (metis list.set_intros(1) neq_Nil_conv)
qed

lemma scan_reports_exactly_plaintext_witness:
  "\<exists>fs. ScanForPlaintext (GStruct [(''Party'', True, False, GStruct [(''NationalID'', True, True, GString ''784'')])]) = Some fs \<and>
     ''Party.NationalID'' \<in> set fs"
proof -
  let ?v = "[(''Party'', True, False, GStruct [(''NationalID'', True, True, GString ''784'')])]"
  have "tagged_leaf [(''NationalID'', True, True, GString ''784'')] ''Party'' ''Party.NationalID'' ''784''"
    using in_string [of "''NationalID''" "''784''" "[(''NationalID'', True, True, GString ''784'')]" "''Party''"]
    by (simp add: field_path_def)
  then have "tagged_leaf ?v [] ''Party.NationalID'' ''784''"
    using in_struct [of "''Party''" False "[(''NationalID'', True, True, GString ''784'')]" ?v "[]"]
    by (simp add: field_path_def)
  moreover have "\<not> LooksLikeEnvelope ''784''" by (simp add: LooksLikeEnvelope_def decodeEnvelope_def)
  moreover obtain fs where fs: "ScanForPlaintext (GStruct ?v) = Some fs" by simp
  ultimately show ?thesis using scan_reports_exactly_plaintext [OF fs, of "''Party.NationalID''"] by blast
qed

end
