(* ===== verification/KeyManagement.thy ===== *)
theory KeyManagement
  imports Identity Encryption
begin

text \<open>
  \<open>packages/keymanagement\<close>: key metadata and its in-memory repository (\<open>types.go\<close>,
  \<open>inmemory_repository.go\<close>), the file-backed provider (\<open>fileprovider.go\<close>), the adapter that
  makes a provider a key source of \<open>packages/encryption\<close> (\<open>adapter.go\<close>), and the service with
  its access rules, audit trail and break-glass grants (\<open>service.go\<close>, \<open>access.go\<close>, \<open>audit.go\<close>,
  \<open>breakglass.go\<close>).

  A Go map is kept as the list of its values in some order; it is iterated where the order
  makes no difference under the invariant. The files of the provider are a map from tenant
  directory and key ID to their content, which JSON and base64 leave as it is. \<open>uuid.Parse\<close> is
  an argument, and so are the bytes of \<open>rand.Read\<close>.
\<close>

datatype km_error = ErrNilKeyMetadata | ErrEmptyTenantID | ErrEmptyKeyID | ErrInvalidKeyState | ErrNotFound
  | ErrNoActiveKey | ErrCrossTenantAccess | ErrUnauthenticated | ErrForbidden | ErrJustificationRequired
  | ErrBreakGlassExpired | ErrBreakGlassNotFound | ErrInvalidKeyMaterial | ErrOfflineStoreNotFound
  | BadTenantID string | RandFailed

section \<open>Key metadata\<close>

datatype KeyState = KeyStateActive | KeyStateRotating | KeyStateRetired | KeyStateRevoked | KeyStateOther string

definition KeyState_IsValid :: "KeyState \<Rightarrow> bool" where
  "KeyState_IsValid s \<longleftrightarrow> s \<in> set [KeyStateActive, KeyStateRotating, KeyStateRetired, KeyStateRevoked]"

record KeyMetadata =
  km_ID :: string
  km_TenantID :: uuid
  km_Version :: int
  km_State :: KeyState
  km_CreatedAt :: time
  km_ExpiresAt :: "time option"
  km_WrappedKeyRef :: string

definition KeyMetadata_Validate :: "KeyMetadata option \<Rightarrow> km_error option" where
  "KeyMetadata_Validate m =
     (case m of
        None \<Rightarrow> Some ErrNilKeyMetadata
      | Some m \<Rightarrow>
          if km_ID m = [] then Some ErrEmptyKeyID
          else if km_TenantID m = uuid_Nil then Some ErrEmptyTenantID
          else if km_Version m < 1 then Some ErrInvalidKeyState
          else if \<not> KeyState_IsValid (km_State m) then Some ErrInvalidKeyState
          else None)"

definition IsUsable :: "KeyMetadata option \<Rightarrow> bool" where
  "IsUsable m \<longleftrightarrow> m \<noteq> None"

section \<open>The repository\<close>

type_synonym InMemoryRepository = "KeyMetadata list"

record Filter =
  fi_State :: "KeyState option"
  fi_Limit :: int

definition requireMatchingTenant :: "uuid \<Rightarrow> uuid \<Rightarrow> km_error option" where
  "requireMatchingTenant scope entity = (if entity \<noteq> uuid_Nil \<and> entity \<noteq> scope then Some ErrCrossTenantAccess else None)"

fun put_record :: "KeyMetadata \<Rightarrow> InMemoryRepository \<Rightarrow> InMemoryRepository" where
  "put_record m [] = [m]"
| "put_record m (r # rs) = (if km_ID r = km_ID m then m # rs else r # put_record m rs)"

definition get_record :: "string \<Rightarrow> InMemoryRepository \<Rightarrow> KeyMetadata option" where
  "get_record i rs = List.find (\<lambda>r. km_ID r = i) rs"

definition other_active :: "uuid \<Rightarrow> string \<Rightarrow> InMemoryRepository \<Rightarrow> bool" where
  "other_active tenant i rs \<longleftrightarrow> (\<exists>r\<in>set rs. km_TenantID r = tenant \<and> km_State r = KeyStateActive \<and> km_ID r \<noteq> i)"

definition rp_Create :: "uuid \<Rightarrow> KeyMetadata option \<Rightarrow> time \<Rightarrow> InMemoryRepository \<Rightarrow> km_error option \<times> InMemoryRepository" where
  "rp_Create tenant m now rs =
     (case m of
        None \<Rightarrow> (Some ErrNilKeyMetadata, rs)
      | Some m \<Rightarrow>
          let m = (if km_TenantID m = uuid_Nil then m\<lparr>km_TenantID := tenant\<rparr> else m)
          in (case requireMatchingTenant tenant (km_TenantID m) of
                Some err \<Rightarrow> (Some err, rs)
              | None \<Rightarrow>
                  let m = (if km_CreatedAt m = zero_time then m\<lparr>km_CreatedAt := now\<rparr> else m)
                  in (case KeyMetadata_Validate (Some m) of
                        Some err \<Rightarrow> (Some err, rs)
                      | None \<Rightarrow>
                          if km_State m = KeyStateActive \<and> other_active tenant (km_ID m) rs
                          then (Some ErrInvalidKeyState, rs)
                          else (None, put_record m rs))))"

definition rp_Get :: "uuid \<Rightarrow> string \<Rightarrow> InMemoryRepository \<Rightarrow> km_error + KeyMetadata" where
  "rp_Get tenant i rs =
     (case get_record i rs of
        None \<Rightarrow> Inl ErrNotFound
      | Some m \<Rightarrow> if km_TenantID m \<noteq> tenant then Inl ErrNotFound else Inr m)"

definition rp_GetActive :: "uuid \<Rightarrow> InMemoryRepository \<Rightarrow> km_error + KeyMetadata" where
  "rp_GetActive tenant rs =
     (case List.find (\<lambda>m. km_TenantID m = tenant \<and> km_State m = KeyStateActive) rs of
        None \<Rightarrow> Inl ErrNoActiveKey
      | Some m \<Rightarrow> Inr m)"

definition rp_ListForTenant :: "uuid \<Rightarrow> Filter \<Rightarrow> InMemoryRepository \<Rightarrow> KeyMetadata list" where
  "rp_ListForTenant tenant filt rs =
     (let out = filter (\<lambda>m. km_TenantID m = tenant \<and> (case fi_State filt of None \<Rightarrow> True | Some st \<Rightarrow> km_State m = st)) rs;
          out = sort_by (\<lambda>a b. km_Version a > km_Version b) out
      in if fi_Limit filt > 0 \<and> int (length out) > fi_Limit filt then take (nat (fi_Limit filt)) out else out)"

definition rp_UpdateState :: "uuid \<Rightarrow> string \<Rightarrow> KeyState \<Rightarrow> InMemoryRepository \<Rightarrow> km_error option \<times> InMemoryRepository" where
  "rp_UpdateState tenant i newState rs =
     (if \<not> KeyState_IsValid newState then (Some ErrInvalidKeyState, rs)
      else
        (case get_record i rs of
           None \<Rightarrow> (Some ErrNotFound, rs)
         | Some m \<Rightarrow>
             if km_TenantID m \<noteq> tenant then (Some ErrNotFound, rs)
             else if newState = KeyStateActive \<and> other_active tenant i rs then (Some ErrInvalidKeyState, rs)
             else (None, put_record (m\<lparr>km_State := newState\<rparr>) rs)))"

definition rp_MaxVersion :: "uuid \<Rightarrow> InMemoryRepository \<Rightarrow> int" where
  "rp_MaxVersion tenant rs =
     fold (\<lambda>m mx. if km_TenantID m = tenant \<and> km_Version m > mx then km_Version m else mx) rs 0"

section \<open>The file-backed provider\<close>

record KeyMaterial =
  ma_Metadata :: KeyMetadata
  ma_Material :: string

record environment =
  en_platform :: platform
  en_parse :: "string \<Rightarrow> uuid option"
  en_aead :: aead

record FileProvider =
  fp_masterKey :: string
  fp_repo :: InMemoryRepository
  fp_files :: "string \<times> string \<rightharpoonup> string"

definition parseTenantID :: "environment \<Rightarrow> string \<Rightarrow> km_error + uuid" where
  "parseTenantID E s =
     (if s = [] then Inl ErrEmptyTenantID
      else (case en_parse E s of None \<Rightarrow> Inl (BadTenantID s) | Some i \<Rightarrow> Inr i))"

definition wrap :: "environment \<Rightarrow> string \<Rightarrow> string option \<Rightarrow> string \<Rightarrow> km_error + string" where
  "wrap E masterKey rand material =
     (case rand of None \<Rightarrow> Inl RandFailed | Some nonce \<Rightarrow> Inr (nonce @ ae_Seal (en_aead E) masterKey nonce material))"

definition unwrap :: "environment \<Rightarrow> string \<Rightarrow> string \<Rightarrow> km_error + string" where
  "unwrap E masterKey blob =
     (if length blob < gcm_NonceSize then Inl ErrInvalidKeyMaterial
      else
        (case ae_Open (en_aead E) masterKey (take gcm_NonceSize blob) (drop gcm_NonceSize blob) of
           None \<Rightarrow> Inl ErrInvalidKeyMaterial
         | Some material \<Rightarrow> Inr material))"

definition readKeyFile :: "environment \<Rightarrow> string \<Rightarrow> string \<Rightarrow> FileProvider \<Rightarrow> km_error + string" where
  "readKeyFile E tenantID keyID p =
     (case fp_files p (tenantID, keyID) of
        None \<Rightarrow> Inl ErrOfflineStoreNotFound
      | Some blob \<Rightarrow> unwrap E (fp_masterKey p) blob)"

definition fp_CurrentKey :: "environment \<Rightarrow> string \<Rightarrow> FileProvider \<Rightarrow> km_error + KeyMaterial" where
  "fp_CurrentKey E tenantID p =
     (case parseTenantID E tenantID of
        Inl err \<Rightarrow> Inl err
      | Inr tid \<Rightarrow>
          (case rp_GetActive tid (fp_repo p) of
             Inl err \<Rightarrow> Inl err
           | Inr meta \<Rightarrow>
               (case readKeyFile E tenantID (km_ID meta) p of
                  Inl err \<Rightarrow> Inl err
                | Inr material \<Rightarrow> Inr \<lparr>ma_Metadata = meta, ma_Material = material\<rparr>)))"

definition fp_Key :: "environment \<Rightarrow> string \<Rightarrow> string \<Rightarrow> FileProvider \<Rightarrow> km_error + KeyMaterial" where
  "fp_Key E tenantID keyID p =
     (case parseTenantID E tenantID of
        Inl err \<Rightarrow> Inl err
      | Inr tid \<Rightarrow>
          (case rp_Get tid keyID (fp_repo p) of
             Inl err \<Rightarrow> Inl err
           | Inr meta \<Rightarrow>
               (case readKeyFile E tenantID keyID p of
                  Inl err \<Rightarrow> Inl err
                | Inr material \<Rightarrow> Inr \<lparr>ma_Metadata = meta, ma_Material = material\<rparr>)))"

definition version_ID :: "string \<Rightarrow> int \<Rightarrow> string" where
  "version_ID tenantID version = tenantID @ ''-v'' @ itoa (nat version)"

text \<open>Demoting the active version; a tenant without one has nothing to demote.\<close>

definition demote_active :: "uuid \<Rightarrow> InMemoryRepository \<Rightarrow> km_error option \<times> InMemoryRepository" where
  "demote_active tid rs =
     (case rp_GetActive tid rs of
        Inr prev \<Rightarrow> rp_UpdateState tid (km_ID prev) KeyStateRetired rs
      | Inl err \<Rightarrow> if err \<noteq> ErrNoActiveKey then (Some err, rs) else (None, rs))"

definition fp_Rotate ::
  "environment \<Rightarrow> string \<Rightarrow> string option \<Rightarrow> string option \<Rightarrow> time \<Rightarrow> FileProvider \<Rightarrow> (km_error + KeyMetadata) \<times> FileProvider" where
  "fp_Rotate E tenantID rand nonce now p =
     (case parseTenantID E tenantID of
        Inl err \<Rightarrow> (Inl err, p)
      | Inr tid \<Rightarrow>
          let newVersion = rp_MaxVersion tid (fp_repo p) + 1
          in (case rand of
                None \<Rightarrow> (Inl RandFailed, p)
              | Some material \<Rightarrow>
                  let newID = version_ID tenantID newVersion
                  in (case wrap E (fp_masterKey p) nonce material of
                        Inl err \<Rightarrow> (Inl err, p)
                      | Inr blob \<Rightarrow>
                          let p = p\<lparr>fp_files := (fp_files p)((tenantID, newID) \<mapsto> blob)\<rparr>
                          in (case demote_active tid (fp_repo p) of
                                (Some err, rs) \<Rightarrow> (Inl err, p\<lparr>fp_repo := rs\<rparr>)
                              | (None, rs) \<Rightarrow>
                                  let newMeta = \<lparr>km_ID = newID, km_TenantID = tid, km_Version = newVersion,
                                        km_State = KeyStateActive, km_CreatedAt = now, km_ExpiresAt = None,
                                        km_WrappedKeyRef = []\<rparr>
                                  in (case rp_Create tid (Some newMeta) now rs of
                                        (Some err, rs) \<Rightarrow> (Inl err, p\<lparr>fp_repo := rs\<rparr>)
                                      | (None, rs) \<Rightarrow> (Inr newMeta, p\<lparr>fp_repo := rs\<rparr>))))))"

section \<open>Interfaces over a state\<close>

text \<open>
  The service uses a provider and the repository behind it; both work on one state. \<open>Rotate\<close>
  gets the random bytes of the key and of the nonce.
\<close>

record 's Provider =
  pv_CurrentKey :: "string \<Rightarrow> 's \<Rightarrow> km_error + KeyMaterial"
  pv_Key :: "string \<Rightarrow> string \<Rightarrow> 's \<Rightarrow> km_error + KeyMaterial"
  pv_Rotate :: "string \<Rightarrow> string option \<Rightarrow> string option \<Rightarrow> time \<Rightarrow> 's \<Rightarrow> (km_error + KeyMetadata) \<times> 's"
  pv_UpdateState :: "uuid \<Rightarrow> string \<Rightarrow> KeyState \<Rightarrow> 's \<Rightarrow> km_error option \<times> 's"
  pv_ListForTenant :: "uuid \<Rightarrow> Filter \<Rightarrow> 's \<Rightarrow> km_error + KeyMetadata list"

definition file_provider :: "environment \<Rightarrow> FileProvider Provider" where
  "file_provider E =
     \<lparr>pv_CurrentKey = fp_CurrentKey E, pv_Key = fp_Key E, pv_Rotate = fp_Rotate E,
      pv_UpdateState = (\<lambda>tenant i st p. case rp_UpdateState tenant i st (fp_repo p) of (err, rs) \<Rightarrow> (err, p\<lparr>fp_repo := rs\<rparr>)),
      pv_ListForTenant = (\<lambda>tenant filt p. Inr (rp_ListForTenant tenant filt (fp_repo p)))\<rparr>"

text \<open>The adapter of one tenant.\<close>

definition Adapter_CurrentKey :: "environment \<Rightarrow> 's Provider \<Rightarrow> uuid \<Rightarrow> 's \<Rightarrow> km_error + Key" where
  "Adapter_CurrentKey E PV tenant s =
     (case pv_CurrentKey PV (uuid_str (en_platform E) tenant) s of
        Inl err \<Rightarrow> Inl err
      | Inr m \<Rightarrow> Inr \<lparr>ky_ID = km_ID (ma_Metadata m), ky_Material = ma_Material m\<rparr>)"

definition Adapter_Key :: "environment \<Rightarrow> 's Provider \<Rightarrow> uuid \<Rightarrow> string \<Rightarrow> 's \<Rightarrow> km_error + Key" where
  "Adapter_Key E PV tenant keyID s =
     (case pv_Key PV (uuid_str (en_platform E) tenant) keyID s of
        Inl err \<Rightarrow> Inl err
      | Inr m \<Rightarrow> Inr \<lparr>ky_ID = km_ID (ma_Metadata m), ky_Material = ma_Material m\<rparr>)"

definition Adapter_Rotate ::
  "environment \<Rightarrow> 's Provider \<Rightarrow> uuid \<Rightarrow> string option \<Rightarrow> string option \<Rightarrow> time \<Rightarrow> 's \<Rightarrow> (km_error + string) \<times> 's" where
  "Adapter_Rotate E PV tenant rand nonce now s =
     (case pv_Rotate PV (uuid_str (en_platform E) tenant) rand nonce now s of
        (Inl err, s) \<Rightarrow> (Inl err, s)
      | (Inr meta, s) \<Rightarrow> (Inr (km_ID meta), s))"

definition Adapter :: "environment \<Rightarrow> 's Provider \<Rightarrow> uuid \<Rightarrow> ('s, km_error) KeySource" where
  "Adapter E PV tenant = \<lparr>ks_CurrentKey = Adapter_CurrentKey E PV tenant, ks_Key = Adapter_Key E PV tenant\<rparr>"

section \<open>The service\<close>

datatype AuditAction = AuditActionCurrentKey | AuditActionKeyLookup | AuditActionRotate | AuditActionRevoke
  | AuditActionViewMetadata | AuditActionBreakGlassGrant | AuditActionBreakGlassUse

datatype AuditOutcome = AuditOutcomeSuccess | AuditOutcomeDenied | AuditOutcomeError

datatype AuditDetail = NoDetail | ErrorDetail km_error | NoteDetail string

record AuditEntry =
  au_ID :: uuid
  au_TenantID :: uuid
  au_Actor :: string
  au_Action :: AuditAction
  au_KeyID :: string
  au_Outcome :: AuditOutcome
  au_Justification :: string
  au_Detail :: AuditDetail
  au_OccurredAt :: time

record BreakGlassGrant =
  bg_ID :: uuid
  bg_TenantID :: uuid
  bg_KeyID :: string
  bg_GrantedTo :: uuid
  bg_Justification :: string
  bg_GrantedAt :: time
  bg_ExpiresAt :: time
  bg_UsedAt :: "time option"

definition DefaultBreakGlassTTL :: duration where
  "DefaultBreakGlassTTL = 3600 * 10 ^ 9"

definition IsExpired :: "BreakGlassGrant \<Rightarrow> time \<Rightarrow> bool" where
  "IsExpired g now \<longleftrightarrow> \<not> now < bg_ExpiresAt g"

type_synonym InMemoryBreakGlassStore = "uuid \<rightharpoonup> BreakGlassGrant"

definition bg_Create :: "uuid \<Rightarrow> BreakGlassGrant \<Rightarrow> InMemoryBreakGlassStore \<Rightarrow> km_error option \<times> InMemoryBreakGlassStore" where
  "bg_Create tenant g gs =
     (let g = (if bg_TenantID g = uuid_Nil then g\<lparr>bg_TenantID := tenant\<rparr> else g)
      in case requireMatchingTenant tenant (bg_TenantID g) of
           Some err \<Rightarrow> (Some err, gs)
         | None \<Rightarrow> (None, gs(bg_ID g \<mapsto> g)))"

definition bg_Get :: "uuid \<Rightarrow> uuid \<Rightarrow> InMemoryBreakGlassStore \<Rightarrow> km_error + BreakGlassGrant" where
  "bg_Get tenant i gs =
     (case gs i of
        None \<Rightarrow> Inl ErrBreakGlassNotFound
      | Some g \<Rightarrow> if bg_TenantID g \<noteq> tenant then Inl ErrBreakGlassNotFound else Inr g)"

definition bg_MarkUsed :: "uuid \<Rightarrow> uuid \<Rightarrow> time \<Rightarrow> InMemoryBreakGlassStore \<Rightarrow> km_error option \<times> InMemoryBreakGlassStore" where
  "bg_MarkUsed tenant i usedAt gs =
     (case gs i of
        None \<Rightarrow> (Some ErrBreakGlassNotFound, gs)
      | Some g \<Rightarrow>
          if bg_TenantID g \<noteq> tenant then (Some ErrBreakGlassNotFound, gs)
          else (None, gs(i \<mapsto> (if bg_UsedAt g = None then g\<lparr>bg_UsedAt := Some usedAt\<rparr> else g))))"

record 's Service =
  sv_store :: 's
  sv_audit :: "AuditEntry list"
  sv_grants :: InMemoryBreakGlassStore

definition audit_Record :: "uuid \<Rightarrow> AuditEntry \<Rightarrow> AuditEntry list \<Rightarrow> km_error option \<times> AuditEntry list" where
  "audit_Record tenant entry es =
     (let entry = (if au_TenantID entry = uuid_Nil then entry\<lparr>au_TenantID := tenant\<rparr> else entry)
      in case requireMatchingTenant tenant (au_TenantID entry) of
           Some err \<Rightarrow> (Some err, es)
         | None \<Rightarrow> (None, es @ [entry]))"

definition audit_ListForTenant :: "uuid \<Rightarrow> int \<Rightarrow> AuditEntry list \<Rightarrow> AuditEntry list" where
  "audit_ListForTenant tenant limit es =
     (let out = sort_by (\<lambda>a b. au_OccurredAt a > au_OccurredAt b) (filter (\<lambda>e. au_TenantID e = tenant) es)
      in if limit > 0 \<and> int (length out) > limit then take (nat limit) out else out)"

definition currentActor :: "environment \<Rightarrow> ctx \<Rightarrow> string" where
  "currentActor E c =
     (case UserFromContext c of
        None \<Rightarrow> ''system''
      | Some u \<Rightarrow> if us_ID u = uuid_Nil then ''system'' else uuid_str (en_platform E) (us_ID u))"

text \<open>
  What a call brings along: its context, the instant and the ID of the audit entry that it
  leaves, which are read and drawn while it runs.
\<close>

record call_env =
  ce_ctx :: ctx
  ce_now :: time
  ce_auditID :: uuid

definition recordAudit ::
  "environment \<Rightarrow> call_env \<Rightarrow> uuid \<Rightarrow> AuditAction \<Rightarrow> string \<Rightarrow> AuditOutcome \<Rightarrow> string \<Rightarrow> AuditDetail
    \<Rightarrow> 's Service \<Rightarrow> 's Service" where
  "recordAudit E ce tenant action keyID outcome justification detail s =
     s\<lparr>sv_audit := snd (audit_Record tenant
        \<lparr>au_ID = ce_auditID ce, au_TenantID = tenant, au_Actor = currentActor E (ce_ctx ce), au_Action = action,
         au_KeyID = keyID, au_Outcome = outcome, au_Justification = justification, au_Detail = detail,
         au_OccurredAt = ce_now ce\<rparr> (sv_audit s))\<rparr>"

definition auditDenied ::
  "environment \<Rightarrow> call_env \<Rightarrow> uuid \<Rightarrow> AuditAction \<Rightarrow> string \<Rightarrow> km_error \<Rightarrow> 's Service \<Rightarrow> 's Service" where
  "auditDenied E ce tenant action keyID err = recordAudit E ce tenant action keyID AuditOutcomeDenied [] (ErrorDetail err)"

definition authorize :: "Permission \<Rightarrow> ctx \<Rightarrow> km_error + User" where
  "authorize perm c =
     (case UserFromContext c of
        None \<Rightarrow> Inl ErrUnauthenticated
      | Some user \<Rightarrow> if \<not> User_HasPermission user perm then Inl ErrForbidden else Inr user)"

definition authorizeView :: "ctx \<Rightarrow> km_error + User" where "authorizeView = authorize PermViewKeys"
definition authorizeManage :: "ctx \<Rightarrow> km_error + User" where "authorizeManage = authorize PermManageKeys"
definition authorizeBreakGlass :: "ctx \<Rightarrow> km_error + User" where "authorizeBreakGlass = authorize PermBreakGlassKeys"

definition requireMatchingUserTenant :: "User \<Rightarrow> uuid \<Rightarrow> km_error option" where
  "requireMatchingUserTenant user tenant = (if us_TenantID user \<noteq> tenant then Some ErrCrossTenantAccess else None)"

text \<open>The two checks with which the operations begin.\<close>

definition admit :: "(ctx \<Rightarrow> km_error + User) \<Rightarrow> ctx \<Rightarrow> uuid \<Rightarrow> km_error + User" where
  "admit authorize_with c tenant =
     (case authorize_with c of
        Inl err \<Rightarrow> Inl err
      | Inr user \<Rightarrow> (case requireMatchingUserTenant user tenant of Some err \<Rightarrow> Inl err | None \<Rightarrow> Inr user))"

definition svc_CurrentKey ::
  "environment \<Rightarrow> 's Provider \<Rightarrow> call_env \<Rightarrow> uuid \<Rightarrow> 's Service \<Rightarrow> (km_error + KeyMaterial) \<times> 's Service" where
  "svc_CurrentKey E PV ce tenant s =
     (case admit authorizeView (ce_ctx ce) tenant of
        Inl err \<Rightarrow> (Inl err, auditDenied E ce tenant AuditActionCurrentKey [] err s)
      | Inr user \<Rightarrow>
          (case pv_CurrentKey PV (uuid_str (en_platform E) tenant) (sv_store s) of
             Inl err \<Rightarrow> (Inl err, recordAudit E ce tenant AuditActionCurrentKey [] AuditOutcomeError [] (ErrorDetail err) s)
           | Inr material \<Rightarrow>
               (Inr material, recordAudit E ce tenant AuditActionCurrentKey (km_ID (ma_Metadata material))
                  AuditOutcomeSuccess [] NoDetail s)))"

definition svc_Key ::
  "environment \<Rightarrow> 's Provider \<Rightarrow> call_env \<Rightarrow> uuid \<Rightarrow> string \<Rightarrow> 's Service \<Rightarrow> (km_error + KeyMaterial) \<times> 's Service" where
  "svc_Key E PV ce tenant keyID s =
     (case admit authorizeView (ce_ctx ce) tenant of
        Inl err \<Rightarrow> (Inl err, auditDenied E ce tenant AuditActionKeyLookup keyID err s)
      | Inr user \<Rightarrow>
          (case pv_Key PV (uuid_str (en_platform E) tenant) keyID (sv_store s) of
             Inl err \<Rightarrow> (Inl err, recordAudit E ce tenant AuditActionKeyLookup keyID AuditOutcomeError [] (ErrorDetail err) s)
           | Inr material \<Rightarrow>
               (Inr material, recordAudit E ce tenant AuditActionKeyLookup keyID AuditOutcomeSuccess [] NoDetail s)))"

definition svc_Rotate ::
  "environment \<Rightarrow> 's Provider \<Rightarrow> call_env \<Rightarrow> string option \<Rightarrow> string option \<Rightarrow> uuid \<Rightarrow> 's Service
    \<Rightarrow> (km_error + string) \<times> 's Service" where
  "svc_Rotate E PV ce rand nonce tenant s =
     (case admit authorizeManage (ce_ctx ce) tenant of
        Inl err \<Rightarrow> (Inl err, auditDenied E ce tenant AuditActionRotate [] err s)
      | Inr user \<Rightarrow>
          (case pv_Rotate PV (uuid_str (en_platform E) tenant) rand nonce (ce_now ce) (sv_store s) of
             (Inl err, st) \<Rightarrow>
               (Inl err, recordAudit E ce tenant AuditActionRotate [] AuditOutcomeError [] (ErrorDetail err) (s\<lparr>sv_store := st\<rparr>))
           | (Inr meta, st) \<Rightarrow>
               (Inr (km_ID meta), recordAudit E ce tenant AuditActionRotate (km_ID meta) AuditOutcomeSuccess [] NoDetail
                  (s\<lparr>sv_store := st\<rparr>))))"

definition svc_Revoke ::
  "environment \<Rightarrow> 's Provider \<Rightarrow> call_env \<Rightarrow> uuid \<Rightarrow> string \<Rightarrow> 's Service \<Rightarrow> km_error option \<times> 's Service" where
  "svc_Revoke E PV ce tenant keyID s =
     (case admit authorizeManage (ce_ctx ce) tenant of
        Inl err \<Rightarrow> (Some err, auditDenied E ce tenant AuditActionRevoke keyID err s)
      | Inr user \<Rightarrow>
          (case pv_UpdateState PV tenant keyID KeyStateRevoked (sv_store s) of
             (Some err, st) \<Rightarrow>
               (Some err, recordAudit E ce tenant AuditActionRevoke keyID AuditOutcomeError [] (ErrorDetail err) (s\<lparr>sv_store := st\<rparr>))
           | (None, st) \<Rightarrow>
               (None, recordAudit E ce tenant AuditActionRevoke keyID AuditOutcomeSuccess [] NoDetail (s\<lparr>sv_store := st\<rparr>))))"

definition svc_ListKeys ::
  "environment \<Rightarrow> 's Provider \<Rightarrow> call_env \<Rightarrow> uuid \<Rightarrow> Filter \<Rightarrow> 's Service \<Rightarrow> (km_error + KeyMetadata list) \<times> 's Service" where
  "svc_ListKeys E PV ce tenant filt s =
     (case admit authorizeView (ce_ctx ce) tenant of
        Inl err \<Rightarrow> (Inl err, auditDenied E ce tenant AuditActionViewMetadata [] err s)
      | Inr user \<Rightarrow>
          (case pv_ListForTenant PV tenant filt (sv_store s) of
             Inl err \<Rightarrow> (Inl err, recordAudit E ce tenant AuditActionViewMetadata [] AuditOutcomeError [] (ErrorDetail err) s)
           | Inr list \<Rightarrow> (Inr list, recordAudit E ce tenant AuditActionViewMetadata [] AuditOutcomeSuccess [] NoDetail s)))"

definition svc_AuditHistory :: "call_env \<Rightarrow> uuid \<Rightarrow> int \<Rightarrow> 's Service \<Rightarrow> km_error + AuditEntry list" where
  "svc_AuditHistory ce tenant limit s =
     (case admit authorizeView (ce_ctx ce) tenant of
        Inl err \<Rightarrow> Inl err
      | Inr user \<Rightarrow> Inr (audit_ListForTenant tenant limit (sv_audit s)))"

definition svc_GrantBreakGlass ::
  "environment \<Rightarrow> call_env \<Rightarrow> uuid \<Rightarrow> time \<Rightarrow> uuid \<Rightarrow> string \<Rightarrow> string \<Rightarrow> duration \<Rightarrow> 's Service
    \<Rightarrow> (km_error + BreakGlassGrant) \<times> 's Service" where
  "svc_GrantBreakGlass E ce grantID now tenant keyID justification ttl s =
     (case admit authorizeBreakGlass (ce_ctx ce) tenant of
        Inl err \<Rightarrow> (Inl err, auditDenied E ce tenant AuditActionBreakGlassGrant keyID err s)
      | Inr user \<Rightarrow>
          if TrimSpace justification = []
          then (Inl ErrJustificationRequired,
                auditDenied E ce tenant AuditActionBreakGlassGrant keyID ErrJustificationRequired s)
          else
            let ttl = (if ttl \<le> 0 then DefaultBreakGlassTTL else ttl);
                grant = \<lparr>bg_ID = grantID, bg_TenantID = tenant, bg_KeyID = keyID, bg_GrantedTo = us_ID user,
                         bg_Justification = justification, bg_GrantedAt = now, bg_ExpiresAt = now + ttl, bg_UsedAt = None\<rparr>
            in (case bg_Create tenant grant (sv_grants s) of
                  (Some err, gs) \<Rightarrow>
                    (Inl err, recordAudit E ce tenant AuditActionBreakGlassGrant keyID AuditOutcomeError justification
                       (ErrorDetail err) (s\<lparr>sv_grants := gs\<rparr>))
                | (None, gs) \<Rightarrow>
                    (Inr grant, recordAudit E ce tenant AuditActionBreakGlassGrant keyID AuditOutcomeSuccess justification
                       NoDetail (s\<lparr>sv_grants := gs\<rparr>))))"

definition svc_UseBreakGlass ::
  "environment \<Rightarrow> 's Provider \<Rightarrow> call_env \<Rightarrow> time \<Rightarrow> uuid \<Rightarrow> uuid \<Rightarrow> 's Service \<Rightarrow> (km_error + KeyMaterial) \<times> 's Service" where
  "svc_UseBreakGlass E PV ce now tenant grantID s =
     (case authorizeBreakGlass (ce_ctx ce) of
        Inl err \<Rightarrow> (Inl err, auditDenied E ce tenant AuditActionBreakGlassUse [] err s)
      | Inr user \<Rightarrow>
          (case bg_Get tenant grantID (sv_grants s) of
             Inl err \<Rightarrow> (Inl err, recordAudit E ce tenant AuditActionBreakGlassUse [] AuditOutcomeDenied [] (ErrorDetail err) s)
           | Inr grant \<Rightarrow>
               if bg_GrantedTo grant \<noteq> us_ID user
               then (Inl ErrForbidden, recordAudit E ce tenant AuditActionBreakGlassUse (bg_KeyID grant) AuditOutcomeDenied
                       (bg_Justification grant) (NoteDetail ''grant issued to a different user'') s)
               else if IsExpired grant now
               then (Inl ErrBreakGlassExpired, recordAudit E ce tenant AuditActionBreakGlassUse (bg_KeyID grant)
                       AuditOutcomeDenied (bg_Justification grant) (NoteDetail ''grant expired'') s)
               else
                 (case pv_Key PV (uuid_str (en_platform E) tenant) (bg_KeyID grant) (sv_store s) of
                    Inl err \<Rightarrow>
                      (Inl err, recordAudit E ce tenant AuditActionBreakGlassUse (bg_KeyID grant) AuditOutcomeError
                         (bg_Justification grant) (ErrorDetail err) s)
                  | Inr material \<Rightarrow>
                      (case bg_MarkUsed tenant grantID now (sv_grants s) of
                         (Some err, gs) \<Rightarrow> (Inl err, s\<lparr>sv_grants := gs\<rparr>)
                       | (None, gs) \<Rightarrow>
                           (Inr material, recordAudit E ce tenant AuditActionBreakGlassUse (bg_KeyID grant)
                              AuditOutcomeSuccess (bg_Justification grant) NoDetail (s\<lparr>sv_grants := gs\<rparr>))))))"

section \<open>What a store of keys promises\<close>

inductive store_event :: "environment \<Rightarrow> 's Provider \<Rightarrow> 's \<Rightarrow> 's \<Rightarrow> bool" for E PV where
  store_rotates: "pv_Rotate PV (uuid_str (en_platform E) tenant) rand nonce now s = (r, s') \<Longrightarrow>
    (\<And>b. rand = Some b \<Longrightarrow> length b = KeyBytes) \<Longrightarrow> (\<And>n. nonce = Some n \<Longrightarrow> length n = gcm_NonceSize) \<Longrightarrow>
    store_event E PV s s'"
| store_updates: "pv_UpdateState PV tenant i st s = (err, s') \<Longrightarrow> store_event E PV s s'"

inductive_cases store_eventE: "store_event E PV s s'"

locale key_store =
  fixes E :: environment and PV :: "'s Provider" and inv :: "'s \<Rightarrow> bool"
  assumes current_resolves: "inv s \<Longrightarrow> pv_CurrentKey PV (uuid_str (en_platform E) u) s = Inr m \<Longrightarrow>
      pv_Key PV (uuid_str (en_platform E) u) (km_ID (ma_Metadata m)) s = Inr m"
    and key_named: "inv s \<Longrightarrow> pv_Key PV (uuid_str (en_platform E) u) i s = Inr m \<Longrightarrow>
      km_ID (ma_Metadata m) = i \<and> km_TenantID (ma_Metadata m) = u \<and> length (ma_Material m) = KeyBytes"
    and key_owned: "inv s \<Longrightarrow> pv_Key PV (uuid_str (en_platform E) u) i s = Inr m \<Longrightarrow> u \<noteq> v \<Longrightarrow>
      pv_Key PV (uuid_str (en_platform E) v) i s = Inl ErrNotFound"
    and key_kept: "inv s \<Longrightarrow> store_event E PV s s' \<Longrightarrow> pv_Key PV (uuid_str (en_platform E) u) i s = Inr m \<Longrightarrow>
      \<exists>m'. pv_Key PV (uuid_str (en_platform E) u) i s' = Inr m' \<and> ma_Material m' = ma_Material m"
    and inv_kept: "inv s \<Longrightarrow> store_event E PV s s' \<Longrightarrow> inv s'"

sublocale key_store \<subseteq> adapter: key_source "Adapter E PV tenant" inv "store_event E PV" for tenant
proof
  fix s k
  assume "inv s" "ks_CurrentKey (Adapter E PV tenant) s = Inr k"
  then show "ks_Key (Adapter E PV tenant) (ky_ID k) s = Inr k"
    using current_resolves by (auto simp: Adapter_def Adapter_CurrentKey_def Adapter_Key_def split: sum.splits)
next
  fix s s' i k
  assume s: "inv s" "store_event E PV s s'" and key: "ks_Key (Adapter E PV tenant) i s = Inr k"
  then obtain m where m: "pv_Key PV (uuid_str (en_platform E) tenant) i s = Inr m"
      "k = \<lparr>ky_ID = km_ID (ma_Metadata m), ky_Material = ma_Material m\<rparr>"
    by (auto simp: Adapter_def Adapter_Key_def split: sum.splits)
  obtain m' where "pv_Key PV (uuid_str (en_platform E) tenant) i s' = Inr m'" "ma_Material m' = ma_Material m"
    using key_kept [OF s m(1)] by blast
  then show "ks_Key (Adapter E PV tenant) i s' = Inr k"
    using key_named [OF s(1) m(1)] key_named [OF inv_kept [OF s], of tenant i m'] m(2)
    by (simp add: Adapter_def Adapter_Key_def)
qed (rule inv_kept)

section \<open>The file-backed store keeps the promise\<close>

definition env_ok :: "environment \<Rightarrow> bool" where
  "env_ok E \<longleftrightarrow> platform_ok (en_platform E) \<and> aead_ok (en_aead E) \<and>
     (\<forall>u. en_parse E (uuid_str (en_platform E) u) = Some u)"

definition record_ok :: "environment \<Rightarrow> FileProvider \<Rightarrow> KeyMetadata \<Rightarrow> bool" where
  "record_ok E p m \<longleftrightarrow> 1 \<le> km_Version m \<and>
     km_ID m = version_ID (uuid_str (en_platform E) (km_TenantID m)) (km_Version m) \<and>
     (\<exists>material. readKeyFile E (uuid_str (en_platform E) (km_TenantID m)) (km_ID m) p = Inr material \<and>
        length material = KeyBytes)"

definition file_inv :: "environment \<Rightarrow> FileProvider \<Rightarrow> bool" where
  "file_inv E p \<longleftrightarrow> env_ok E \<and> length (fp_masterKey p) = KeyBytes \<and> distinct (map km_ID (fp_repo p)) \<and>
     (\<forall>m\<in>set (fp_repo p). record_ok E p m) \<and>
     (\<forall>m\<in>set (fp_repo p). \<forall>m'\<in>set (fp_repo p). km_State m = KeyStateActive \<longrightarrow> km_State m' = KeyStateActive \<longrightarrow>
        km_TenantID m = km_TenantID m' \<longrightarrow> m = m')"

lemma uuid_str_parse:
  "env_ok E \<Longrightarrow> parseTenantID E (uuid_str (en_platform E) u) = Inr u"
  by (auto simp: env_ok_def platform_ok_def parseTenantID_def dest: spec [of _ u])

lemma version_ID_eq:
  assumes "env_ok E" "version_ID (uuid_str (en_platform E) u) v = version_ID (uuid_str (en_platform E) w) x" "0 \<le> v" "0 \<le> x"
  shows "u = w \<and> v = x"
proof -
  have "length (uuid_str (en_platform E) u) = length (uuid_str (en_platform E) w)"
    using assms(1) by (simp add: env_ok_def platform_ok_def)
  with assms(2) have "uuid_str (en_platform E) u = uuid_str (en_platform E) w" "itoa (nat v) = itoa (nat x)"
    by (simp_all add: version_ID_def)
  then have "nat v = nat x" using itoa_inj by blast
  then show ?thesis
    using assms(1,3,4) \<open>uuid_str (en_platform E) u = uuid_str (en_platform E) w\<close>
    by (auto simp: env_ok_def platform_ok_def dest: injD)
qed

lemma set_put_record: "distinct (map km_ID rs) \<Longrightarrow> set (put_record m rs) = insert m {r \<in> set rs. km_ID r \<noteq> km_ID m}"
  by (induction rs) (auto simp: image_iff)

lemma IDs_put_record: "set (map km_ID (put_record m rs)) = insert (km_ID m) (set (map km_ID rs))"
  by (induction rs) auto

lemma distinct_put_record: "distinct (map km_ID rs) \<Longrightarrow> distinct (map km_ID (put_record m rs))"
proof (induction rs)
  case (Cons r rs)
  then show ?case using IDs_put_record [of m rs] by auto
qed simp

lemma get_record_eq: "distinct (map km_ID rs) \<Longrightarrow> get_record i rs = Some m \<longleftrightarrow> m \<in> set rs \<and> km_ID m = i"
  unfolding get_record_def by (induction rs) (auto simp: image_iff)

lemma get_record_None: "get_record i rs = None \<longleftrightarrow> (\<forall>m\<in>set rs. km_ID m \<noteq> i)"
  unfolding get_record_def by (auto simp: find_None_iff)

lemma rp_MaxVersion_ge: "m \<in> set rs \<Longrightarrow> km_TenantID m = u \<Longrightarrow> km_Version m \<le> rp_MaxVersion u rs"
  and rp_MaxVersion_nonneg: "0 \<le> rp_MaxVersion u rs"
proof -
  have "mx \<le> fold (\<lambda>m mx. if km_TenantID m = u \<and> km_Version m > mx then km_Version m else mx) rs mx \<and>
      (\<forall>m\<in>set rs. km_TenantID m = u \<longrightarrow>
        km_Version m \<le> fold (\<lambda>m mx. if km_TenantID m = u \<and> km_Version m > mx then km_Version m else mx) rs mx)" for mx
  proof (induction rs arbitrary: mx)
    case (Cons a rs)
    show ?case using Cons.IH [of mx] Cons.IH [of "km_Version a"] by auto
  qed simp
  then show "m \<in> set rs \<Longrightarrow> km_TenantID m = u \<Longrightarrow> km_Version m \<le> rp_MaxVersion u rs" "0 \<le> rp_MaxVersion u rs"
    unfolding rp_MaxVersion_def by blast+
qed

lemma fp_Key_eq:
  assumes "file_inv E p"
  shows "fp_Key E (uuid_str (en_platform E) u) i p = Inr m \<longleftrightarrow>
    ma_Metadata m \<in> set (fp_repo p) \<and> km_ID (ma_Metadata m) = i \<and> km_TenantID (ma_Metadata m) = u \<and>
    readKeyFile E (uuid_str (en_platform E) u) i p = Inr (ma_Material m)"
proof -
  have dist: "distinct (map km_ID (fp_repo p))" and parse: "parseTenantID E (uuid_str (en_platform E) u) = Inr u"
    using assms uuid_str_parse by (simp_all add: file_inv_def)
  show ?thesis
  proof (cases "get_record i (fp_repo p)")
    case None
    then have "\<forall>m\<in>set (fp_repo p). km_ID m \<noteq> i" by (simp add: get_record_None)
    then show ?thesis by (auto simp: fp_Key_def parse rp_Get_def None)
  next
    case (Some a)
    then have "m' \<in> set (fp_repo p) \<and> km_ID m' = i \<longleftrightarrow> m' = a" for m' using get_record_eq [OF dist, of i m'] by auto
    then have "(ma_Metadata m \<in> set (fp_repo p) \<and> km_ID (ma_Metadata m) = i \<and> km_TenantID (ma_Metadata m) = u \<and>
        readKeyFile E (uuid_str (en_platform E) u) i p = Inr (ma_Material m)) \<longleftrightarrow>
        ma_Metadata m = a \<and> km_TenantID a = u \<and> readKeyFile E (uuid_str (en_platform E) u) i p = Inr (ma_Material m)"
      by metis
    moreover have "fp_Key E (uuid_str (en_platform E) u) i p = Inr m \<longleftrightarrow>
        ma_Metadata m = a \<and> km_TenantID a = u \<and> readKeyFile E (uuid_str (en_platform E) u) i p = Inr (ma_Material m)"
      using Some by (cases m) (auto simp: fp_Key_def parse rp_Get_def split: sum.splits)
    ultimately show ?thesis by blast
  qed
qed

lemma GetActive_eq:
  assumes "file_inv E p"
  shows "rp_GetActive u (fp_repo p) = Inr m \<longleftrightarrow> m \<in> set (fp_repo p) \<and> km_TenantID m = u \<and> km_State m = KeyStateActive"
    and "rp_GetActive u (fp_repo p) = Inl err \<longleftrightarrow> err = ErrNoActiveKey \<and>
      (\<forall>m\<in>set (fp_repo p). km_TenantID m = u \<longrightarrow> km_State m \<noteq> KeyStateActive)"
proof -
  let ?act = "\<lambda>m. km_TenantID m = u \<and> km_State m = KeyStateActive"
  show "rp_GetActive u (fp_repo p) = Inl err \<longleftrightarrow> err = ErrNoActiveKey \<and>
      (\<forall>m\<in>set (fp_repo p). km_TenantID m = u \<longrightarrow> km_State m \<noteq> KeyStateActive)"
    unfolding rp_GetActive_def by (auto simp: find_None_iff find_Some_iff split: option.splits)
  show "rp_GetActive u (fp_repo p) = Inr m \<longleftrightarrow> m \<in> set (fp_repo p) \<and> km_TenantID m = u \<and> km_State m = KeyStateActive"
  proof (cases "List.find ?act (fp_repo p)")
    case None
    then have "\<forall>m\<in>set (fp_repo p). \<not> ?act m" by (auto simp: find_None_iff)
    then show ?thesis by (auto simp: rp_GetActive_def None)
  next
    case (Some a)
    then have "a \<in> set (fp_repo p)" "?act a" by (auto simp: find_Some_iff)
    then show ?thesis using Some assms unfolding rp_GetActive_def file_inv_def by auto
  qed
qed

lemma env_aead: "env_ok E \<Longrightarrow> aead_ok (en_aead E)"
  by (simp add: env_ok_def)

lemma unwrap_wrap:
  assumes "env_ok E" "length master = KeyBytes" "length nonce = gcm_NonceSize" "wrap E master (Some nonce) material = Inr blob"
  shows "unwrap E master blob = Inr material"
proof -
  have "ae_Open (en_aead E) master nonce (ae_Seal (en_aead E) master nonce material) = Some material"
    using env_aead [OF assms(1)] assms(2,3) by (simp add: aead_ok_def)
  then show ?thesis using assms(3,4) by (auto simp: wrap_def unwrap_def)
qed

lemma readKeyFile_repo [simp]: "readKeyFile E t i (p\<lparr>fp_repo := rs\<rparr>) = readKeyFile E t i p"
  by (simp add: readKeyFile_def split: option.splits)

lemma record_ok_repo [simp]: "record_ok E (p\<lparr>fp_repo := rs\<rparr>) m = record_ok E p m"
  by (simp add: record_ok_def)

text \<open>Changing the state of a record keeps the invariant, and every key.\<close>

lemma UpdateState_effect:
  assumes "distinct (map km_ID rs)" "rp_UpdateState u i st rs = (err, rs')"
  shows "rs' = rs \<and> err \<noteq> None \<or>
    (\<exists>m\<in>set rs. err = None \<and> km_ID m = i \<and> km_TenantID m = u \<and> KeyState_IsValid st \<and>
       (st = KeyStateActive \<longrightarrow> \<not> other_active u i rs) \<and> rs' = put_record (m\<lparr>km_State := st\<rparr>) rs)"
  using assms get_record_eq [OF assms(1), of i] by (auto simp: rp_UpdateState_def split: if_splits option.splits)

lemma file_inv_state:
  assumes "file_inv E p" "m \<in> set (fp_repo p)" "st = KeyStateActive \<longrightarrow> \<not> other_active (km_TenantID m) (km_ID m) (fp_repo p)"
  shows "file_inv E (p\<lparr>fp_repo := put_record (m\<lparr>km_State := st\<rparr>) (fp_repo p)\<rparr>)"
proof -
  let ?rs = "put_record (m\<lparr>km_State := st\<rparr>) (fp_repo p)"
  have dist: "distinct (map km_ID (fp_repo p))" using assms(1) by (simp add: file_inv_def)
  have set: "set ?rs = insert (m\<lparr>km_State := st\<rparr>) {r \<in> set (fp_repo p). km_ID r \<noteq> km_ID m}"
    using set_put_record [OF dist] by simp
  have "record_ok E p (m\<lparr>km_State := st\<rparr>) = record_ok E p m" by (simp add: record_ok_def)
  then have "record_ok E p (m\<lparr>km_State := st\<rparr>)" using assms(1,2) by (simp add: file_inv_def)
  moreover have "a = b" if "a \<in> set ?rs" "b \<in> set ?rs" "km_State a = KeyStateActive" "km_State b = KeyStateActive"
      "km_TenantID a = km_TenantID b" for a b
    using assms that unfolding set by (auto simp: file_inv_def other_active_def)
  ultimately show ?thesis
    using assms(1) distinct_put_record [OF dist] unfolding file_inv_def by (auto simp: set)
qed

lemma same_record: "distinct (map km_ID rs) \<Longrightarrow> a \<in> set rs \<Longrightarrow> b \<in> set rs \<Longrightarrow> km_ID a = km_ID b \<Longrightarrow> a = b"
  by (simp add: distinct_map inj_on_def)

lemma fp_Key_state:
  assumes "file_inv E p" "m \<in> set (fp_repo p)" "file_inv E (p\<lparr>fp_repo := put_record (m\<lparr>km_State := st\<rparr>) (fp_repo p)\<rparr>)"
    and "fp_Key E (uuid_str (en_platform E) u) i p = Inr a"
  shows "\<exists>a'. fp_Key E (uuid_str (en_platform E) u) i (p\<lparr>fp_repo := put_record (m\<lparr>km_State := st\<rparr>) (fp_repo p)\<rparr>) = Inr a' \<and>
    ma_Material a' = ma_Material a"
proof -
  have dist: "distinct (map km_ID (fp_repo p))" using assms(1) by (simp add: file_inv_def)
  have a: "ma_Metadata a \<in> set (fp_repo p)" "km_ID (ma_Metadata a) = i" "km_TenantID (ma_Metadata a) = u"
      "readKeyFile E (uuid_str (en_platform E) u) i p = Inr (ma_Material a)"
    using assms(4) fp_Key_eq [OF assms(1)] by blast+
  let ?a = "if i = km_ID m then a\<lparr>ma_Metadata := m\<lparr>km_State := st\<rparr>\<rparr> else a"
  have "ma_Metadata a = m" if "i = km_ID m" using same_record [OF dist a(1) assms(2)] a(2) that by simp
  then have "fp_Key E (uuid_str (en_platform E) u) i (p\<lparr>fp_repo := put_record (m\<lparr>km_State := st\<rparr>) (fp_repo p)\<rparr>) = Inr ?a"
    using a unfolding fp_Key_eq [OF assms(3)] by (auto simp: set_put_record [OF dist])
  then show ?thesis by auto
qed

lemma demote_active_effect:
  assumes "file_inv E p" "demote_active u (fp_repo p) = (err, rs)"
  shows "err = None \<and> (\<forall>m\<in>set rs. km_TenantID m = u \<longrightarrow> km_State m \<noteq> KeyStateActive) \<and>
    (rs = fp_repo p \<or> (\<exists>m\<in>set (fp_repo p). rs = put_record (m\<lparr>km_State := KeyStateRetired\<rparr>) (fp_repo p)))"
proof (cases "rp_GetActive u (fp_repo p)")
  case (Inl e)
  then show ?thesis using assms GetActive_eq(2) [OF assms(1), of u e] by (auto simp: demote_active_def)
next
  case (Inr m)
  then have m: "m \<in> set (fp_repo p)" "km_TenantID m = u" "km_State m = KeyStateActive"
    using GetActive_eq(1) [OF assms(1)] by blast+
  have dist: "distinct (map km_ID (fp_repo p))" using assms(1) by (simp add: file_inv_def)
  have "get_record (km_ID m) (fp_repo p) = Some m" using m(1) get_record_eq [OF dist] by blast
  then have "err = None" "rs = put_record (m\<lparr>km_State := KeyStateRetired\<rparr>) (fp_repo p)"
    using assms(2) Inr m(2) by (auto simp: demote_active_def rp_UpdateState_def KeyState_IsValid_def)
  moreover have "km_State a \<noteq> KeyStateActive" if "a \<in> set rs" "km_TenantID a = u" for a
    using that m assms(1) unfolding calculation(2) by (auto simp: set_put_record [OF dist] file_inv_def)
  ultimately show ?thesis using m(1) by blast
qed

text \<open>The file of a new version is new.\<close>

lemma new_file:
  assumes "file_inv E p" "m \<in> set (fp_repo p)"
  shows "km_ID m \<noteq> version_ID (uuid_str (en_platform E) u) (rp_MaxVersion u (fp_repo p) + 1)"
proof
  assume "km_ID m = version_ID (uuid_str (en_platform E) u) (rp_MaxVersion u (fp_repo p) + 1)"
  moreover have m: "km_ID m = version_ID (uuid_str (en_platform E) (km_TenantID m)) (km_Version m)" "1 \<le> km_Version m"
    using assms by (auto simp: file_inv_def record_ok_def)
  moreover have "env_ok E" using assms(1) by (simp add: file_inv_def)
  ultimately have "km_TenantID m = u" "km_Version m = rp_MaxVersion u (fp_repo p) + 1"
    using version_ID_eq [of E "km_TenantID m" "km_Version m" u "rp_MaxVersion u (fp_repo p) + 1"]
      rp_MaxVersion_nonneg [of u "fp_repo p"] by auto
  then show False using rp_MaxVersion_ge [OF assms(2)] by fastforce
qed

lemma file_inv_write:
  assumes "file_inv E p" "i = version_ID (uuid_str (en_platform E) u) (rp_MaxVersion u (fp_repo p) + 1)"
  shows "file_inv E (p\<lparr>fp_files := (fp_files p)((uuid_str (en_platform E) u, i) \<mapsto> blob)\<rparr>)"
    and "\<And>m. m \<in> set (fp_repo p) \<Longrightarrow> readKeyFile E t (km_ID m) (p\<lparr>fp_files := (fp_files p)((uuid_str (en_platform E) u, i) \<mapsto> blob)\<rparr>) =
      readKeyFile E t (km_ID m) p"
proof -
  let ?p = "p\<lparr>fp_files := (fp_files p)((uuid_str (en_platform E) u, i) \<mapsto> blob)\<rparr>"
  show same: "readKeyFile E t (km_ID m) ?p = readKeyFile E t (km_ID m) p" if "m \<in> set (fp_repo p)" for m t
    using new_file [OF assms(1) that] assms(2) by (auto simp: readKeyFile_def split: option.splits)
  then have "record_ok E ?p m = record_ok E p m" if "m \<in> set (fp_repo p)" for m
    using that by (simp add: record_ok_def)
  then show "file_inv E ?p" using assms(1) by (simp add: file_inv_def)
qed

lemma file_inv_new:
  assumes "file_inv E p" "record_ok E p m" "\<forall>r\<in>set (fp_repo p). km_ID r \<noteq> km_ID m"
    and "\<forall>r\<in>set (fp_repo p). km_TenantID r = km_TenantID m \<longrightarrow> km_State r \<noteq> KeyStateActive"
  shows "file_inv E (p\<lparr>fp_repo := put_record m (fp_repo p)\<rparr>)"
proof -
  have dist: "distinct (map km_ID (fp_repo p))" using assms(1) by (simp add: file_inv_def)
  have set: "set (put_record m (fp_repo p)) = insert m (set (fp_repo p))"
    using set_put_record [OF dist, of m] assms(3) by auto
  show ?thesis
    using assms distinct_put_record [OF dist, of m] by (auto simp: file_inv_def set)
qed

lemma fp_Key_new:
  assumes "file_inv E p" "file_inv E (p\<lparr>fp_repo := put_record m (fp_repo p)\<rparr>)" "\<forall>r\<in>set (fp_repo p). km_ID r \<noteq> km_ID m"
    and "fp_Key E (uuid_str (en_platform E) u) i p = Inr a"
  shows "fp_Key E (uuid_str (en_platform E) u) i (p\<lparr>fp_repo := put_record m (fp_repo p)\<rparr>) = Inr a"
  using assms unfolding fp_Key_eq [OF assms(1)] fp_Key_eq [OF assms(2)]
  by (auto simp: set_put_record file_inv_def)

text \<open>What a rotation does, whether it succeeds or not.\<close>

lemma fp_Rotate_effect:
  assumes "file_inv E p" "fp_Rotate E (uuid_str (en_platform E) u) rand nonce now p = (r, p')"
    and "\<And>b. rand = Some b \<Longrightarrow> length b = KeyBytes" and "\<And>n. nonce = Some n \<Longrightarrow> length n = gcm_NonceSize"
  shows "file_inv E p' \<and>
    (\<forall>v i a. fp_Key E (uuid_str (en_platform E) v) i p = Inr a \<longrightarrow>
       (\<exists>a'. fp_Key E (uuid_str (en_platform E) v) i p' = Inr a' \<and> ma_Material a' = ma_Material a)) \<and>
    (\<forall>meta. r = Inr meta \<longrightarrow> km_TenantID meta = u \<and> km_Version meta = rp_MaxVersion u (fp_repo p) + 1 \<and>
       km_State meta = KeyStateActive \<and> u \<noteq> uuid_Nil \<and>
       fp_CurrentKey E (uuid_str (en_platform E) u) p' = Inr \<lparr>ma_Metadata = meta, ma_Material = the rand\<rparr>) \<and>
    (u \<noteq> uuid_Nil \<longrightarrow> rand \<noteq> None \<longrightarrow> nonce \<noteq> None \<longrightarrow> is_ok r)"
proof -
  let ?t = "uuid_str (en_platform E) u" and ?v = "rp_MaxVersion u (fp_repo p) + 1"
  let ?i = "version_ID ?t ?v"
  have env: "env_ok E" and parse: "parseTenantID E ?t = Inr u"
    using assms(1) uuid_str_parse by (simp_all add: file_inv_def)
  show ?thesis
  proof (cases "rand = None \<or> nonce = None")
    case True
    then show ?thesis
      using assms(1,2) by (auto simp: fp_Rotate_def parse Let_def wrap_def split: option.splits)
  next
    case False
    then obtain mat n where mat: "rand = Some mat" "length mat = KeyBytes" and n: "nonce = Some n" "length n = gcm_NonceSize"
      using assms(3,4) by auto
    obtain blob where blob: "wrap E (fp_masterKey p) (Some n) mat = Inr blob" by (simp add: wrap_def)
    define p1 where "p1 = p\<lparr>fp_files := (fp_files p)((?t, ?i) \<mapsto> blob)\<rparr>"
    have inv1: "file_inv E p1" and keep1: "\<And>m t. m \<in> set (fp_repo p) \<Longrightarrow> readKeyFile E t (km_ID m) p1 = readKeyFile E t (km_ID m) p"
      and repo1: "fp_repo p1 = fp_repo p"
      using file_inv_write [OF assms(1) refl, where u = u and blob = blob] by (simp_all add: p1_def)
    have key1: "fp_Key E (uuid_str (en_platform E) v) i p1 = Inr a" if "fp_Key E (uuid_str (en_platform E) v) i p = Inr a" for v i a
      using that keep1 unfolding fp_Key_eq [OF assms(1)] fp_Key_eq [OF inv1] repo1 by fastforce
    obtain rs where rs: "demote_active u (fp_repo p1) = (None, rs)"
      using demote_active_effect [OF inv1] by (cases "demote_active u (fp_repo p1)") blast
    note demoted = demote_active_effect [OF inv1 rs]
    define p2 where "p2 = p1\<lparr>fp_repo := rs\<rparr>"
    have inv2: "file_inv E p2"
      using demoted inv1 file_inv_state [OF inv1, of _ KeyStateRetired] by (auto simp: p2_def)
    have key2: "\<exists>a'. fp_Key E (uuid_str (en_platform E) v) i p2 = Inr a' \<and> ma_Material a' = ma_Material a"
      if "fp_Key E (uuid_str (en_platform E) v) i p1 = Inr a" for v i a
      using demoted that inv2 fp_Key_state [OF inv1 _ _ that, of _ KeyStateRetired] by (auto simp: p2_def)
    have read2: "readKeyFile E ?t ?i p2 = Inr mat"
    proof -
      have "length (fp_masterKey p) = KeyBytes" using assms(1) by (simp add: file_inv_def)
      from unwrap_wrap [OF env this n(2) blob] show ?thesis by (simp add: p2_def p1_def readKeyFile_def)
    qed
    have IDs: "km_ID ` set rs = km_ID ` set (fp_repo p1)"
    proof -
      have "km_ID ` set (put_record (m\<lparr>km_State := KeyStateRetired\<rparr>) (fp_repo p1)) = km_ID ` set (fp_repo p1)"
        if "m \<in> set (fp_repo p1)" for m
        using IDs_put_record [of "m\<lparr>km_State := KeyStateRetired\<rparr>" "fp_repo p1"] that by (simp add: insert_absorb)
      then show ?thesis using demoted by blast
    qed
    then have fresh: "\<forall>m\<in>set (fp_repo p2). km_ID m \<noteq> ?i"
    proof -
      have "?i \<notin> km_ID ` set (fp_repo p)" using new_file [OF assms(1), of _ u] by (metis imageE)
      then have "?i \<notin> km_ID ` set rs" using IDs by (simp add: repo1)
      moreover have "fp_repo p2 = rs" by (simp add: p2_def)
      ultimately show ?thesis by (metis imageI)
    qed
    let ?meta = "\<lparr>km_ID = ?i, km_TenantID = u, km_Version = ?v, km_State = KeyStateActive, km_CreatedAt = now,
        km_ExpiresAt = None, km_WrappedKeyRef = []\<rparr>"
    have rot: "(case rp_Create u (Some ?meta) now rs of
        (Some err, rs) \<Rightarrow> (Inl err, p1\<lparr>fp_repo := rs\<rparr>) | (None, rs) \<Rightarrow> (Inr ?meta, p1\<lparr>fp_repo := rs\<rparr>)) = (r, p')"
      using assms(2) rs [unfolded repo1] blob unfolding p1_def by (simp add: fp_Rotate_def parse Let_def mat(1) n(1))
    have no_active: "\<not> other_active u ?i rs" using demoted by (auto simp: other_active_def)
    show ?thesis
    proof (cases "u = uuid_Nil")
      case True
      then have "rp_Create u (Some ?meta) now rs = (Some ErrEmptyTenantID, rs)"
        by (simp add: rp_Create_def requireMatchingTenant_def KeyMetadata_Validate_def version_ID_def Let_def)
      then have "p' = p2" "r = Inl ErrEmptyTenantID" using rot by (simp_all add: p2_def)
      then show ?thesis using inv2 key1 key2 True by blast
    next
      case False
      have meta: "(if km_CreatedAt ?meta = zero_time then ?meta\<lparr>km_CreatedAt := now\<rparr> else ?meta) = ?meta" by simp
      have "rp_Create u (Some ?meta) now rs = (None, put_record ?meta rs)"
        using False no_active rp_MaxVersion_nonneg [of u "fp_repo p"]
        by (simp add: rp_Create_def requireMatchingTenant_def KeyMetadata_Validate_def KeyState_IsValid_def version_ID_def Let_def)
      then have out: "p' = p2\<lparr>fp_repo := put_record ?meta (fp_repo p2)\<rparr>" "r = Inr ?meta" using rot by (simp_all add: p2_def)
      have "record_ok E p2 ?meta"
        using read2 mat(2) rp_MaxVersion_nonneg [of u "fp_repo p"] by (simp add: record_ok_def)
      then have inv': "file_inv E p'"
        using file_inv_new [OF inv2, of ?meta] fresh demoted unfolding out(1) by (simp add: p2_def)
      have key': "fp_Key E (uuid_str (en_platform E) v) i p' = Inr a" if "fp_Key E (uuid_str (en_platform E) v) i p2 = Inr a" for v i a
        using fp_Key_new [OF inv2, of ?meta v i a] inv' fresh that unfolding out(1) by simp
      have "distinct (map km_ID (fp_repo p2))" using inv2 by (simp add: file_inv_def)
      then have "?meta \<in> set (fp_repo p')" by (simp add: out(1) set_put_record)
      then have "rp_GetActive u (fp_repo p') = Inr ?meta" using GetActive_eq(1) [OF inv', of u ?meta] by simp
      moreover have "readKeyFile E ?t ?i p' = Inr mat" using read2 by (simp add: out(1))
      ultimately have "fp_CurrentKey E ?t p' = Inr \<lparr>ma_Metadata = ?meta, ma_Material = mat\<rparr>"
        by (simp add: fp_CurrentKey_def parse)
      then show ?thesis using inv' key1 key2 key' out(2) False mat(1) by fastforce
    qed
  qed
qed

interpretation offline: key_store E "file_provider E" "file_inv E" for E
proof
  fix p u m
  assume inv: "file_inv E p" and m: "pv_CurrentKey (file_provider E) (uuid_str (en_platform E) u) p = Inr m"
  have parse: "parseTenantID E (uuid_str (en_platform E) u) = Inr u" using inv uuid_str_parse by (simp add: file_inv_def)
  then obtain meta where "rp_GetActive u (fp_repo p) = Inr meta"
      "readKeyFile E (uuid_str (en_platform E) u) (km_ID meta) p = Inr (ma_Material m)" "ma_Metadata m = meta"
    using m by (auto simp: file_provider_def fp_CurrentKey_def split: sum.splits)
  then show "pv_Key (file_provider E) (uuid_str (en_platform E) u) (km_ID (ma_Metadata m)) p = Inr m"
    using GetActive_eq(1) [OF inv] fp_Key_eq [OF inv] by (simp add: file_provider_def)
next
  fix p u i m
  assume inv: "file_inv E p" and m: "pv_Key (file_provider E) (uuid_str (en_platform E) u) i p = Inr m"
  then have "fp_Key E (uuid_str (en_platform E) u) i p = Inr m" by (simp add: file_provider_def)
  then have key: "ma_Metadata m \<in> set (fp_repo p)" "km_ID (ma_Metadata m) = i" "km_TenantID (ma_Metadata m) = u"
      "readKeyFile E (uuid_str (en_platform E) u) i p = Inr (ma_Material m)"
    using fp_Key_eq [OF inv] by blast+
  then have "record_ok E p (ma_Metadata m)" using inv by (simp add: file_inv_def)
  then show "km_ID (ma_Metadata m) = i \<and> km_TenantID (ma_Metadata m) = u \<and> length (ma_Material m) = KeyBytes"
    using key by (auto simp: record_ok_def)
  fix v
  assume "u \<noteq> v"
  have "get_record i (fp_repo p) = Some (ma_Metadata m)"
    using key get_record_eq inv by (auto simp: file_inv_def)
  then have "rp_Get v i (fp_repo p) = Inl ErrNotFound" using key(3) \<open>u \<noteq> v\<close> by (simp add: rp_Get_def)
  then show "pv_Key (file_provider E) (uuid_str (en_platform E) v) i p = Inl ErrNotFound"
    using inv uuid_str_parse by (simp add: file_provider_def fp_Key_def file_inv_def)
next
  fix p p' u i m
  assume inv: "file_inv E p" and event: "store_event E (file_provider E) p p'"
  have effect: "file_inv E p' \<and> (\<forall>u i m. fp_Key E (uuid_str (en_platform E) u) i p = Inr m \<longrightarrow>
      (\<exists>m'. fp_Key E (uuid_str (en_platform E) u) i p' = Inr m' \<and> ma_Material m' = ma_Material m))"
    using event
  proof (rule store_eventE)
    fix tenant rand nonce now r
    assume "pv_Rotate (file_provider E) (uuid_str (en_platform E) tenant) rand nonce now p = (r, p')"
      "\<And>b. rand = Some b \<Longrightarrow> length b = KeyBytes" "\<And>n. nonce = Some n \<Longrightarrow> length n = gcm_NonceSize"
    then show ?thesis using fp_Rotate_effect [OF inv, of tenant rand nonce now r p'] by (simp add: file_provider_def)
  next
    fix tenant i st err
    assume "pv_UpdateState (file_provider E) tenant i st p = (err, p')"
    then obtain rs where rs: "rp_UpdateState tenant i st (fp_repo p) = (err, rs)" "p' = p\<lparr>fp_repo := rs\<rparr>"
      by (auto simp: file_provider_def split: prod.splits)
    have "distinct (map km_ID (fp_repo p))" using inv by (simp add: file_inv_def)
    from UpdateState_effect [OF this rs(1)] show ?thesis
    proof (elim disjE bexE conjE)
      fix m
      assume m: "m \<in> set (fp_repo p)" "km_ID m = i" "km_TenantID m = tenant"
        "st = KeyStateActive \<longrightarrow> \<not> other_active tenant i (fp_repo p)" "rs = put_record (m\<lparr>km_State := st\<rparr>) (fp_repo p)"
      then have "file_inv E p'" using file_inv_state [OF inv m(1), of st] rs(2) by simp
      then show ?thesis using fp_Key_state [OF inv m(1), of st] rs(2) m(5) by simp
    qed (use inv rs(2) in simp)
  qed
  then show "file_inv E p'" by blast
  assume "pv_Key (file_provider E) (uuid_str (en_platform E) u) i p = Inr m"
  then show "\<exists>m'. pv_Key (file_provider E) (uuid_str (en_platform E) u) i p' = Inr m' \<and> ma_Material m' = ma_Material m"
    using effect by (simp add: file_provider_def)
qed

section \<open>Runs of the service\<close>

datatype svc_call = DoCurrentKey uuid | DoKey uuid string | DoRotate "string option" "string option" uuid
  | DoRevoke uuid string | DoListKeys uuid Filter | DoGrant uuid time uuid string string duration | DoUse time uuid uuid

datatype svc_answer = Refused km_error | Material KeyMaterial | Granted BreakGlassGrant | Completed

definition answer_of :: "('a \<Rightarrow> svc_answer) \<Rightarrow> (km_error + 'a) \<times> 's \<Rightarrow> svc_answer \<times> 's" where
  "answer_of f = map_prod (case_sum Refused f) id"

fun svc_step :: "environment \<Rightarrow> 's Provider \<Rightarrow> call_env \<Rightarrow> svc_call \<Rightarrow> 's Service \<Rightarrow> svc_answer \<times> 's Service" where
  "svc_step E PV ce (DoCurrentKey tenant) s = answer_of Material (svc_CurrentKey E PV ce tenant s)"
| "svc_step E PV ce (DoKey tenant keyID) s = answer_of Material (svc_Key E PV ce tenant keyID s)"
| "svc_step E PV ce (DoRotate rand nonce tenant) s = answer_of (\<lambda>_. Completed) (svc_Rotate E PV ce rand nonce tenant s)"
| "svc_step E PV ce (DoRevoke tenant keyID) s =
     map_prod (case_option Completed Refused) id (svc_Revoke E PV ce tenant keyID s)"
| "svc_step E PV ce (DoListKeys tenant filt) s = answer_of (\<lambda>_. Completed) (svc_ListKeys E PV ce tenant filt s)"
| "svc_step E PV ce (DoGrant grantID now tenant keyID justification ttl) s =
     answer_of Granted (svc_GrantBreakGlass E ce grantID now tenant keyID justification ttl s)"
| "svc_step E PV ce (DoUse now tenant grantID) s = answer_of Material (svc_UseBreakGlass E PV ce now tenant grantID s)"

fun rand_ok :: "svc_call \<Rightarrow> bool" where
  "rand_ok (DoRotate rand nonce tenant) \<longleftrightarrow>
     (case rand of None \<Rightarrow> True | Some b \<Rightarrow> length b = KeyBytes) \<and>
     (case nonce of None \<Rightarrow> True | Some n \<Rightarrow> length n = gcm_NonceSize)"
| "rand_ok _ \<longleftrightarrow> True"

inductive svc_run ::
  "environment \<Rightarrow> 's Provider \<Rightarrow> 's Service \<Rightarrow> (call_env \<times> svc_call \<times> svc_answer) list \<Rightarrow> 's Service \<Rightarrow> bool"
  for E PV s0 where
  run_start: "svc_run E PV s0 [] s0"
| run_call: "svc_run E PV s0 log s \<Longrightarrow> svc_step E PV ce call s = (answer, s') \<Longrightarrow> rand_ok call
    \<Longrightarrow> svc_run E PV s0 (log @ [(ce, call, answer)]) s'"

lemmas audit_simps = recordAudit_def auditDenied_def audit_Record_def requireMatchingTenant_def Let_def
lemmas svc_simps = svc_CurrentKey_def svc_Key_def svc_Rotate_def svc_Revoke_def svc_ListKeys_def
  svc_GrantBreakGlass_def svc_UseBreakGlass_def answer_of_def
lemmas svc_splits = sum.splits option.splits prod.splits if_splits

lemma sv_store_audit [simp]:
  "sv_store (recordAudit E ce t a k out j d s) = sv_store s" "sv_store (auditDenied E ce t a k err s) = sv_store s"
  "sv_grants (recordAudit E ce t a k out j d s) = sv_grants s" "sv_grants (auditDenied E ce t a k err s) = sv_grants s"
  by (simp_all add: recordAudit_def auditDenied_def)

lemma svc_step_store:
  assumes "svc_step E PV ce call s = (answer, s')" "rand_ok call"
  shows "sv_store s' = sv_store s \<or> store_event E PV (sv_store s) (sv_store s')"
proof (cases call)
  case (DoRotate rand nonce tenant)
  show ?thesis
  proof (cases "admit authorizeManage (ce_ctx ce) tenant")
    case (Inl err)
    then show ?thesis using assms(1) by (auto simp: DoRotate svc_Rotate_def answer_of_def)
  next
    case (Inr user)
    obtain r st where r: "pv_Rotate PV (uuid_str (en_platform E) tenant) rand nonce (ce_now ce) (sv_store s) = (r, st)" by fastforce
    then have "sv_store s' = st" using assms(1) Inr by (cases r) (auto simp: DoRotate svc_Rotate_def answer_of_def)
    then show ?thesis using store_rotates [OF r] assms(2) by (auto simp: DoRotate split: option.splits)
  qed
next
  case (DoRevoke tenant keyID)
  show ?thesis
  proof (cases "admit authorizeManage (ce_ctx ce) tenant")
    case (Inl err)
    then show ?thesis using assms(1) by (auto simp: DoRevoke svc_Revoke_def)
  next
    case (Inr user)
    obtain err st where r: "pv_UpdateState PV tenant keyID KeyStateRevoked (sv_store s) = (err, st)" by fastforce
    then have "sv_store s' = st" using assms(1) Inr by (cases err) (auto simp: DoRevoke svc_Revoke_def)
    then show ?thesis using store_updates [OF r] by simp
  qed
qed (use assms(1) in \<open>auto simp: svc_simps Let_def split: svc_splits\<close>)

lemma svc_run_store:
  "svc_run E PV s0 log s \<Longrightarrow> (store_event E PV)\<^sup>*\<^sup>* (sv_store s0) (sv_store s)"
proof (induction rule: svc_run.induct)
  case (run_call log s ce call answer s')
  then show ?case using svc_step_store [OF run_call.hyps(2,3)] by auto
qed simp

text \<open>Each call leaves one entry, which tells the actor, the action and how it ended.\<close>

lemma svc_step_audit:
  assumes "svc_step E PV ce call s = (answer, s')"
  shows "\<exists>e. sv_audit s' = sv_audit s @ [e] \<and> au_Actor e = currentActor E (ce_ctx ce) \<and> au_OccurredAt e = ce_now ce \<and>
    (au_Outcome e = AuditOutcomeSuccess \<longleftrightarrow> (\<forall>err. answer \<noteq> Refused err)) \<and>
    (au_Outcome e = AuditOutcomeDenied \<longrightarrow> sv_store s' = sv_store s \<and> sv_grants s' = sv_grants s)"
  using assms
  by (cases call) (auto simp: svc_simps audit_simps bg_Create_def bg_Get_def bg_MarkUsed_def split: svc_splits)

context key_store
begin

lemma run_inv: "svc_run E PV s0 log s \<Longrightarrow> inv (sv_store s0) \<Longrightarrow> inv (sv_store s)"
  using svc_run_store adapter.keys_kept by blast

text \<open>A key of one tenant is not to be found through the adapter of another.\<close>

lemma foreign_decrypt:
  assumes "Encrypt A (Some (Adapter E PV u)) (Some nonce) msg s = Inr c" "aead_ok A" "length nonce = gcm_NonceSize"
    "inv s" "(store_event E PV)\<^sup>*\<^sup>* s s'" "u \<noteq> v"
  shows "Decrypt A (Some (Adapter E PV v)) c s' = Inl (ResolveKey ErrNotFound)"
proof -
  obtain key where e: "ks_CurrentKey (Adapter E PV u) s = Inr key"
      "decodeEnvelope c = Inr \<lparr>env_Version = EnvelopeV1, env_KeyID = ky_ID key, env_Nonce = nonce,
        env_Ciphertext = ae_Seal A (ky_Material key) nonce msg\<rparr>"
    using Encrypt_Inr [OF assms(1,2)] assms(3) by auto
  have s': "inv s'" "ks_Key (Adapter E PV u) (ky_ID key) s' = Inr key"
    using adapter.keys_kept [OF assms(5,4)] adapter.current_resolves [OF assms(4) e(1)] by blast+
  then obtain m where "pv_Key PV (uuid_str (en_platform E) u) (ky_ID key) s' = Inr m"
    by (auto simp: Adapter_def Adapter_Key_def split: sum.splits)
  from key_owned [OF s'(1) this assms(6)] have "ks_Key (Adapter E PV v) (ky_ID key) s' = Inl ErrNotFound"
    by (simp add: Adapter_def Adapter_Key_def)
  moreover have "c \<noteq> []" using e(2) by (auto simp: decodeEnvelope_def)
  ultimately show ?thesis using e(2) by (simp add: Decrypt_def)
qed

end

definition grant_end :: "time \<Rightarrow> duration \<Rightarrow> time" where
  "grant_end start ttl = start + (if ttl \<le> 0 then DefaultBreakGlassTTL else ttl)"

text \<open>A key is released to a user of its tenant who may see keys, or under a grant.\<close>

definition lawful_release ::
  "(call_env \<times> svc_call \<times> svc_answer) list \<Rightarrow> call_env \<Rightarrow> svc_call \<Rightarrow> KeyMaterial \<Rightarrow> bool" where
  "lawful_release log ce call m \<longleftrightarrow>
     (\<exists>user. ce_ctx ce = Some user \<and>
        (case call of
           DoCurrentKey t \<Rightarrow> us_TenantID user = t \<and> User_HasPermission user PermViewKeys \<and> km_TenantID (ma_Metadata m) = t
         | DoKey t i \<Rightarrow> us_TenantID user = t \<and> User_HasPermission user PermViewKeys \<and>
             km_TenantID (ma_Metadata m) = t \<and> km_ID (ma_Metadata m) = i
         | DoUse now t grantID \<Rightarrow> User_HasPermission user PermBreakGlassKeys \<and> km_TenantID (ma_Metadata m) = t \<and>
             (\<exists>ce' user' start justification ttl g.
                (ce', DoGrant grantID start t (km_ID (ma_Metadata m)) justification ttl, Granted g) \<in> set log \<and>
                ce_ctx ce' = Some user' \<and> us_ID user' = us_ID user \<and> us_TenantID user' = t \<and>
                User_HasPermission user' PermBreakGlassKeys \<and> TrimSpace justification \<noteq> [] \<and>
                now < grant_end start ttl)
         | _ \<Rightarrow> False))"

definition grant_backed :: "(call_env \<times> svc_call \<times> svc_answer) list \<Rightarrow> uuid \<Rightarrow> BreakGlassGrant \<Rightarrow> bool" where
  "grant_backed log i g \<longleftrightarrow>
     (\<exists>ce user start ttl g0. (ce, DoGrant i start (bg_TenantID g) (bg_KeyID g) (bg_Justification g) ttl, Granted g0) \<in> set log \<and>
        ce_ctx ce = Some user \<and> us_ID user = bg_GrantedTo g \<and> us_TenantID user = bg_TenantID g \<and>
        User_HasPermission user PermBreakGlassKeys \<and> TrimSpace (bg_Justification g) \<noteq> [] \<and>
        bg_ExpiresAt g = grant_end start ttl)"

definition grants_ok :: "(call_env \<times> svc_call \<times> svc_answer) list \<Rightarrow> InMemoryBreakGlassStore \<Rightarrow> bool" where
  "grants_ok log gs \<longleftrightarrow> (\<forall>i g. gs i = Some g \<longrightarrow> grant_backed log i g)"

lemma grant_backed_used [simp]: "grant_backed log i (g\<lparr>bg_UsedAt := x\<rparr>) = grant_backed log i g"
  by (simp add: grant_backed_def)

lemma grants_ok_mono: "grants_ok log gs \<Longrightarrow> grants_ok (log @ xs) gs"
  unfolding grants_ok_def grant_backed_def set_append by blast

lemma lawful_release_mono: "lawful_release log ce call m \<Longrightarrow> lawful_release (log @ xs) ce call m"
  unfolding lawful_release_def set_append by (cases call) (simp_all, blast)

lemma admit_Inr:
  "admit (authorize perm) c tenant = Inr user \<longleftrightarrow> c = Some user \<and> User_HasPermission user perm \<and> us_TenantID user = tenant"
  by (auto simp: admit_def authorize_def requireMatchingUserTenant_def UserFromContext_def split: svc_splits)

lemmas authorize_defs = authorizeView_def authorizeManage_def authorizeBreakGlass_def

lemma svc_step_grants:
  assumes "svc_step E PV ce call s = (answer, s')" "grants_ok log (sv_grants s)"
  shows "grants_ok (log @ [(ce, call, answer)]) (sv_grants s')"
proof (cases call)
  case (DoGrant i start tenant keyID justification ttl)
  show ?thesis
  proof (cases "sv_grants s' = sv_grants s")
    case False
    then obtain user where user: "admit authorizeBreakGlass (ce_ctx ce) tenant = Inr user" "TrimSpace justification \<noteq> []"
      using assms(1) by (auto simp: DoGrant svc_GrantBreakGlass_def answer_of_def split: sum.splits if_splits)
    let ?g = "\<lparr>bg_ID = i, bg_TenantID = tenant, bg_KeyID = keyID, bg_GrantedTo = us_ID user,
        bg_Justification = justification, bg_GrantedAt = start,
        bg_ExpiresAt = grant_end start ttl, bg_UsedAt = None\<rparr>"
    have "bg_Create tenant ?g (sv_grants s) = (None, (sv_grants s)(i \<mapsto> ?g))"
      by (simp add: bg_Create_def requireMatchingTenant_def)
    then have "answer = Granted ?g" "sv_grants s' = (sv_grants s)(i \<mapsto> ?g)"
      using assms(1) user by (auto simp: DoGrant svc_GrantBreakGlass_def answer_of_def Let_def grant_end_def)
    moreover have "grants_ok (log @ [(ce, call, answer)]) (sv_grants s)" using assms(2) by (rule grants_ok_mono)
    moreover have "grant_backed (log @ [(ce, call, Granted ?g)]) i ?g"
      unfolding grant_backed_def
      by (intro exI [of _ ce] exI [of _ user] exI [of _ start] exI [of _ ttl] exI [of _ ?g])
        (use user in \<open>auto simp: DoGrant authorize_defs admit_Inr\<close>)
    ultimately show ?thesis by (simp add: grants_ok_def)
  qed (use assms(2) grants_ok_mono in simp)
next
  case (DoUse now tenant i)
  have "sv_grants s' = sv_grants s \<or> (\<exists>g. sv_grants s i = Some g \<and> sv_grants s' = (sv_grants s)(i \<mapsto> g\<lparr>bg_UsedAt := Some now\<rparr>))"
    using assms(1) by (auto simp: DoUse svc_UseBreakGlass_def answer_of_def bg_Get_def bg_MarkUsed_def fun_upd_idem
        split: sum.splits if_splits option.splits prod.splits)
  moreover have "grants_ok (log @ [(ce, call, answer)]) (sv_grants s)" using assms(2) by (rule grants_ok_mono)
  ultimately show ?thesis by (auto simp: grants_ok_def split: if_splits)
qed (use assms grants_ok_mono in \<open>auto simp: svc_simps split: svc_splits\<close>)

lemma svc_step_release:
  assumes "svc_step E (file_provider E) ce call s = (Material m, s')" "file_inv E (sv_store s)" "grants_ok log (sv_grants s)"
  shows "lawful_release log ce call m \<and> (\<exists>e. sv_audit s' = sv_audit s @ [e] \<and> au_KeyID e = km_ID (ma_Metadata m))"
proof (cases call)
  case (DoCurrentKey t)
  obtain user where user: "admit authorizeView (ce_ctx ce) t = Inr user"
      "pv_CurrentKey (file_provider E) (uuid_str (en_platform E) t) (sv_store s) = Inr m"
    using assms(1) by (auto simp: DoCurrentKey svc_CurrentKey_def answer_of_def split: sum.splits)
  have "km_TenantID (ma_Metadata m) = t"
    using offline.key_named [OF assms(2) offline.current_resolves [OF assms(2) user(2)]] by blast
  then have "lawful_release log ce call m"
    using user(1) by (auto simp: DoCurrentKey lawful_release_def authorize_defs admit_Inr)
  moreover have "\<exists>e. sv_audit s' = sv_audit s @ [e] \<and> au_KeyID e = km_ID (ma_Metadata m)"
    using assms(1) user by (auto simp: DoCurrentKey svc_CurrentKey_def answer_of_def audit_simps)
  ultimately show ?thesis ..
next
  case (DoKey t i)
  obtain user where user: "admit authorizeView (ce_ctx ce) t = Inr user"
      "pv_Key (file_provider E) (uuid_str (en_platform E) t) i (sv_store s) = Inr m"
    using assms(1) by (auto simp: DoKey svc_Key_def answer_of_def split: sum.splits)
  note named = offline.key_named [OF assms(2) user(2)]
  then have "lawful_release log ce call m"
    using user(1) by (auto simp: DoKey lawful_release_def authorize_defs admit_Inr)
  moreover have "\<exists>e. sv_audit s' = sv_audit s @ [e] \<and> au_KeyID e = km_ID (ma_Metadata m)"
    using assms(1) user named by (auto simp: DoKey svc_Key_def answer_of_def audit_simps)
  ultimately show ?thesis ..
next
  case (DoUse now t i)
  obtain user g where user: "authorizeBreakGlass (ce_ctx ce) = Inr user" "bg_Get t i (sv_grants s) = Inr g"
      "bg_GrantedTo g = us_ID user" "\<not> IsExpired g now"
      "pv_Key (file_provider E) (uuid_str (en_platform E) t) (bg_KeyID g) (sv_store s) = Inr m"
    using assms(1)
    by (auto simp: DoUse svc_UseBreakGlass_def answer_of_def split: sum.splits if_splits option.splits prod.splits)
  have perm: "ce_ctx ce = Some user" "User_HasPermission user PermBreakGlassKeys"
    using user(1) by (auto simp: authorizeBreakGlass_def authorize_def UserFromContext_def split: option.splits if_splits)
  have g: "sv_grants s i = Some g" "bg_TenantID g = t" using user(2) by (auto simp: bg_Get_def split: option.splits if_splits)
  have named: "km_ID (ma_Metadata m) = bg_KeyID g" "km_TenantID (ma_Metadata m) = t"
    using offline.key_named [OF assms(2) user(5)] by blast+
  have "\<exists>e. sv_audit s' = sv_audit s @ [e] \<and> au_KeyID e = bg_KeyID g"
    using assms(1) user g by (auto simp: DoUse svc_UseBreakGlass_def answer_of_def bg_MarkUsed_def audit_simps)
  moreover have "lawful_release log ce call m"
    using assms(3) g user(3,4) named perm unfolding grants_ok_def grant_backed_def lawful_release_def
    by (fastforce simp: DoUse IsExpired_def)
  ultimately show ?thesis using named by simp
qed (use assms(1) in \<open>auto simp: svc_simps Let_def split: svc_splits\<close>)

section \<open>Properties\<close>

definition new_service :: "string \<Rightarrow> FileProvider Service" where
  "new_service masterKey =
     \<lparr>sv_store = \<lparr>fp_masterKey = masterKey, fp_repo = [], fp_files = Map.empty\<rparr>, sv_audit = [], sv_grants = Map.empty\<rparr>"

lemma new_service_inv: "env_ok E \<Longrightarrow> length masterKey = KeyBytes \<Longrightarrow> file_inv E (sv_store (new_service masterKey))"
  by (simp add: new_service_def file_inv_def)

text \<open>
  C28: What a tenant's data is encrypted under stays. A text encrypted through the adapter of a
  tenant at any point of the life of the service decrypts through it after any further calls
  of any users, rotations that fail and revocations included; and through the adapter of any
  other tenant it never decrypts.
\<close>

theorem ciphertexts_survive_key_operations:
  assumes "env_ok E" and "length masterKey = KeyBytes" and "svc_run E (file_provider E) (new_service masterKey) log s"
    and "Encrypt (en_aead E) (Some (Adapter E (file_provider E) tenant)) (Some nonce) msg (sv_store s) = Inr c"
    and "length nonce = gcm_NonceSize" and "svc_run E (file_provider E) s log' s'" and "other \<noteq> tenant"
  shows "Decrypt (en_aead E) (Some (Adapter E (file_provider E) tenant)) c (sv_store s') = Inr msg \<and>
    Decrypt (en_aead E) (Some (Adapter E (file_provider E) other)) c (sv_store s') = Inl (ResolveKey ErrNotFound)"
proof -
  have inv: "file_inv E (sv_store s)" using offline.run_inv [OF assms(3)] new_service_inv [OF assms(1,2)] by blast
  note later = svc_run_store [OF assms(6)]
  show ?thesis
    using offline.adapter.decrypt_encrypt [OF assms(4) env_aead [OF assms(1)] assms(5) inv later]
      offline.foreign_decrypt [OF assms(4) env_aead [OF assms(1)] assms(5) inv later] assms(7) by simp
qed

text \<open>
  C29: No key leaves the service unless its tenant's user may see keys, or a user of the tenant
  gave a justification for a grant that has not expired and that names this user and this
  key; and each release is in the audit trail, with the actor, the key and the instant.
\<close>

theorem released_keys_are_lawful_and_audited:
  assumes "env_ok E" and "length masterKey = KeyBytes" and "svc_run E (file_provider E) (new_service masterKey) log s"
    and "(ce, call, Material m) \<in> set log"
  shows "lawful_release log ce call m \<and>
    (\<exists>e\<in>set (sv_audit s). au_Outcome e = AuditOutcomeSuccess \<and> au_Actor e = currentActor E (ce_ctx ce) \<and>
       au_KeyID e = km_ID (ma_Metadata m) \<and> au_OccurredAt e = ce_now ce)"
proof -
  have "grants_ok log (sv_grants s) \<and>
      (\<forall>ce call m. (ce, call, Material m) \<in> set log \<longrightarrow> lawful_release log ce call m \<and>
        (\<exists>e\<in>set (sv_audit s). au_Outcome e = AuditOutcomeSuccess \<and> au_Actor e = currentActor E (ce_ctx ce) \<and>
           au_KeyID e = km_ID (ma_Metadata m) \<and> au_OccurredAt e = ce_now ce))"
    using assms(3)
  proof (induction rule: svc_run.induct)
    case run_start
    then show ?case by (simp add: grants_ok_def new_service_def)
  next
    case (run_call log s ce call answer s')
    have inv: "file_inv E (sv_store s)"
      using offline.run_inv [OF run_call.hyps(1)] new_service_inv [OF assms(1,2)] by blast
    obtain e where e: "sv_audit s' = sv_audit s @ [e]" "au_Actor e = currentActor E (ce_ctx ce)"
        "au_OccurredAt e = ce_now ce" "(\<forall>err. answer \<noteq> Refused err) \<longrightarrow> au_Outcome e = AuditOutcomeSuccess"
      using svc_step_audit [OF run_call.hyps(2)] by blast
    have "lawful_release log ce call m \<and> au_KeyID e = km_ID (ma_Metadata m)" if "answer = Material m" for m
      using svc_step_release [OF run_call.hyps(2) [unfolded that] inv] run_call.IH e(1) by auto
    then show ?case
      using run_call.IH e svc_step_grants [OF run_call.hyps(2)] lawful_release_mono by (auto simp: e(1))
  qed
  then show ?thesis using assms(4) by blast
qed


text \<open>
  Revoking the current key fails closed: there is no current key until the next rotation,
  which gives a key with a higher version and the new material, and the revoked key still
  resolves for what it encrypted.
\<close>

lemma revocation_fails_closed_until_rotation:
  assumes "file_inv E p" and "t \<noteq> uuid_Nil" and "fp_CurrentKey E (uuid_str (en_platform E) t) p = Inr m"
    and "pv_UpdateState (file_provider E) t (km_ID (ma_Metadata m)) KeyStateRevoked p = (err, p1)"
    and "fp_Rotate E (uuid_str (en_platform E) t) (Some material) (Some nonce) now p1 = (r, p2)"
    and "length material = KeyBytes" and "length nonce = gcm_NonceSize"
  shows "err = None \<and> fp_CurrentKey E (uuid_str (en_platform E) t) p1 = Inl ErrNoActiveKey \<and>
    (\<exists>meta. r = Inr meta \<and> km_Version meta > km_Version (ma_Metadata m) \<and>
       fp_CurrentKey E (uuid_str (en_platform E) t) p2 = Inr \<lparr>ma_Metadata = meta, ma_Material = material\<rparr>) \<and>
    (\<exists>old. fp_Key E (uuid_str (en_platform E) t) (km_ID (ma_Metadata m)) p2 = Inr old \<and> ma_Material old = ma_Material m)"
proof -
  let ?t = "uuid_str (en_platform E) t"
  let ?meta = "ma_Metadata m"
  have parse: "parseTenantID E ?t = Inr t" and dist: "distinct (map km_ID (fp_repo p))"
    using assms(1) uuid_str_parse by (simp_all add: file_inv_def)
  have "rp_GetActive t (fp_repo p) = Inr ?meta" and read: "readKeyFile E ?t (km_ID ?meta) p = Inr (ma_Material m)"
    using assms(3) by (auto simp: fp_CurrentKey_def parse split: sum.splits)
  then have meta: "?meta \<in> set (fp_repo p)" "km_TenantID ?meta = t" "km_State ?meta = KeyStateActive"
    using GetActive_eq(1) [OF assms(1)] by blast+
  let ?rs = "put_record (?meta\<lparr>km_State := KeyStateRevoked\<rparr>) (fp_repo p)"
  have "get_record (km_ID ?meta) (fp_repo p) = Some ?meta" using meta(1) get_record_eq [OF dist] by blast
  then have "rp_UpdateState t (km_ID ?meta) KeyStateRevoked (fp_repo p) = (None, ?rs)"
    using meta(2) by (simp add: rp_UpdateState_def KeyState_IsValid_def)
  then have p1: "err = None" "p1 = p\<lparr>fp_repo := ?rs\<rparr>" using assms(4) by (simp_all add: file_provider_def)
  have inv1: "file_inv E p1" using file_inv_state [OF assms(1) meta(1), of KeyStateRevoked] by (simp add: p1(2))
  have set: "set ?rs = insert (?meta\<lparr>km_State := KeyStateRevoked\<rparr>) {r \<in> set (fp_repo p). km_ID r \<noteq> km_ID ?meta}"
    using set_put_record [OF dist] by simp
  have "\<forall>a\<in>set (fp_repo p1). km_TenantID a = t \<longrightarrow> km_State a \<noteq> KeyStateActive"
    using meta assms(1) unfolding p1(2) by (auto simp: set file_inv_def)
  then have none: "rp_GetActive t (fp_repo p1) = Inl ErrNoActiveKey" using GetActive_eq(2) [OF inv1] by blast
  have "fp_Key E ?t (km_ID ?meta) p1 = Inr \<lparr>ma_Metadata = ?meta\<lparr>km_State := KeyStateRevoked\<rparr>, ma_Material = ma_Material m\<rparr>"
    unfolding fp_Key_eq [OF inv1] using meta(2) read by (simp add: p1(2) set)
  moreover have "km_Version ?meta \<le> rp_MaxVersion t (fp_repo p1)"
    using rp_MaxVersion_ge [of "?meta\<lparr>km_State := KeyStateRevoked\<rparr>" "fp_repo p1" t] meta(2) by (simp add: p1(2) set)
  moreover note fp_Rotate_effect [OF inv1 assms(5)]
  ultimately show ?thesis
    using assms(2,6,7) p1(1) none by (fastforce simp: fp_CurrentKey_def [of E ?t p1] parse is_ok_iff)
qed

section \<open>A run\<close>

text \<open>A parser for the text form of UUIDs.\<close>

definition hex_value :: "char \<Rightarrow> nat" where
  "hex_value c = (if of_char c < (58::nat) then of_char c - 48 else of_char c - 87)"

definition uuid_parse :: "string \<Rightarrow> uuid option" where
  "uuid_parse s = (let ds = filter (\<lambda>c. c \<noteq> CHR ''-'') s
     in if length ds = 32 then Some (word_of_nat (foldl (\<lambda>a c. 16 * a + hex_value c) 0 ds)) else None)"

lemma hex_value_digit: "n < 16 \<Longrightarrow> hex_value (hex_digit n) = n"
  by (simp add: hex_value_def of_char_hex_digit)

lemma hex_digit_not_dash: "n < 16 \<Longrightarrow> hex_digit n \<noteq> CHR ''-''"
  by (auto dest!: arg_cong [where f = "of_char :: char \<Rightarrow> nat"] simp: of_char_hex_digit split: if_splits)

lemma uuid_nibbles_fold:
  "k \<le> 32 \<Longrightarrow> foldl (\<lambda>a c. 16 * a + hex_value c) 0 (map (\<lambda>k. hex_digit (uuid_nibble u (31 - k))) [0..<k]) =
     unat u div 16 ^ (32 - k)"
proof (induction k)
  case 0
  have "unat u < 2 ^ 128" using unsigned_less [of u] by simp
  then show ?case by simp
next
  case (Suc k)
  let ?N = "unat u div 16 ^ (31 - k)"
  have "uuid_nibble u (31 - k) = ?N mod 16"
    unfolding uuid_nibble_def unsigned_take_bit_eq unat_drop_bit_eq
    by (simp add: take_bit_eq_mod drop_bit_eq_div power_mult)
  moreover have "?N div 16 = unat u div 16 ^ (32 - k)"
  proof -
    have "32 - k = Suc (31 - k)" using Suc.prems by simp
    then show ?thesis by (simp add: div_mult2_eq [symmetric] mult.commute)
  qed
  moreover have "?N = 16 * (?N div 16) + ?N mod 16" by simp
  moreover have "hex_value (hex_digit (?N mod 16)) = ?N mod 16" by (rule hex_value_digit) simp
  ultimately show ?case using Suc by simp
qed

lemma uuid_parse_text: "uuid_parse (uuid_text u) = Some u"
proof -
  let ?h = "\<lambda>i j. map (\<lambda>k. hex_digit (uuid_nibble u (31 - k))) [i..<j]"
  have keep: "filter (\<lambda>c. c \<noteq> CHR ''-'') (?h i j) = ?h i j" for i j
    using hex_digit_not_dash [OF uuid_nibble_less] by (auto simp: filter_id_conv)
  have "filter (\<lambda>c. c \<noteq> CHR ''-'') (uuid_text u) = ?h 0 8 @ ?h 8 12 @ ?h 12 16 @ ?h 16 20 @ ?h 20 32"
    by (simp only: uuid_text_def Let_def filter_append keep filter.simps refl not_True_eq_False if_False append_Nil)
  also have "\<dots> = map (\<lambda>k. hex_digit (uuid_nibble u (31 - k))) ([0..<8] @ [8..<12] @ [12..<16] @ [16..<20] @ [20..<32])"
    by (simp only: map_append)
  also have "[0..<8] @ [8..<12] @ [12..<16] @ [16..<20] @ [20..<32] = [0..<32]" by code_simp
  finally show ?thesis
    using uuid_nibbles_fold [of 32 u] by (simp add: uuid_parse_def)
qed

definition sample_env :: environment where
  "sample_env = \<lparr>en_platform = ref_platform, en_parse = uuid_parse, en_aead = sample_aead\<rparr>"

lemma sample_env_ok: "env_ok sample_env"
  by (simp add: env_ok_def sample_env_def platform_ok_ref sample_aead_ok uuid_parse_text)
    (simp add: ref_platform_def uuid_parse_text)

definition sample_admin :: User where
  "sample_admin =
     \<lparr>us_ID = 5, us_TenantID = 1, us_Email = [], us_Name = ''admin'', us_Roles = [RoleAdmin],
      us_Status = UserStatusActive, us_InvitedAt = None, us_DisabledAt = None, us_CreatedAt = 0, us_UpdatedAt = 0\<rparr>"

definition sample_call :: call_env where
  "sample_call = \<lparr>ce_ctx = Some sample_admin, ce_now = 7, ce_auditID = 9\<rparr>"

lemma sample_admitted:
  "admit authorizeManage (Some sample_admin) 1 = Inr sample_admin"
  "admit authorizeBreakGlass (Some sample_admin) 1 = Inr sample_admin"
  "authorizeBreakGlass (Some sample_admin) = Inr sample_admin"
  by (simp_all add: admit_def authorize_defs authorize_def UserFromContext_def sample_admin_def
      User_HasPermission_def HasPermission_def requireMatchingUserTenant_def)

definition sample_master :: string where "sample_master = replicate 32 CHR ''m''"

lemma sample_master_length: "length sample_master = KeyBytes"
  by (simp add: sample_master_def KeyBytes_def)

text \<open>A first rotation gives the tenant a key.\<close>

lemma sample_rotation:
  assumes "file_inv sample_env (sv_store s)"
  obtains s' m where
    "svc_step sample_env (file_provider sample_env) sample_call
       (DoRotate (Some (replicate 32 CHR ''k'')) (Some sample_nonce) 1) s = (Completed, s')"
    "fp_CurrentKey sample_env (uuid_str (en_platform sample_env) 1) (sv_store s') = Inr m"
    "ma_Material m = replicate 32 CHR ''k''" "sv_grants s' = sv_grants s"
    "km_Version (ma_Metadata m) = rp_MaxVersion 1 (fp_repo (sv_store s)) + 1" "file_inv sample_env (sv_store s')"
proof -
  let ?t = "uuid_str (en_platform sample_env) 1"
  obtain r st where rot: "fp_Rotate sample_env ?t (Some (replicate 32 CHR ''k'')) (Some sample_nonce) 7 (sv_store s) = (r, st)"
    by fastforce
  have "(1 :: uuid) \<noteq> uuid_Nil" by (simp add: uuid_Nil_def)
  with fp_Rotate_effect [OF assms rot] obtain meta where meta: "r = Inr meta" "file_inv sample_env st"
      "km_Version meta = rp_MaxVersion 1 (fp_repo (sv_store s)) + 1"
      "fp_CurrentKey sample_env ?t st = Inr \<lparr>ma_Metadata = meta, ma_Material = replicate 32 CHR ''k''\<rparr>"
    by (auto simp: KeyBytes_def sample_nonce_def gcm_NonceSize_def is_ok_iff)
  let ?s' = "recordAudit sample_env sample_call 1 AuditActionRotate (km_ID meta) AuditOutcomeSuccess [] NoDetail (s\<lparr>sv_store := st\<rparr>)"
  show thesis
    by (rule that [of ?s' "\<lparr>ma_Metadata = meta, ma_Material = replicate 32 CHR ''k''\<rparr>"])
      (use rot meta in \<open>simp_all add: svc_Rotate_def answer_of_def sample_call_def sample_admitted file_provider_def\<close>)
qed

theorem ciphertexts_survive_key_operations_witness:
  "\<exists>log s c log' s'. svc_run sample_env (file_provider sample_env) (new_service sample_master) log s \<and>
     Encrypt sample_aead (Some (Adapter sample_env (file_provider sample_env) 1)) (Some sample_nonce) ''text'' (sv_store s) = Inr c \<and>
     svc_run sample_env (file_provider sample_env) s log' s' \<and> length log' = 1 \<and>
     Decrypt sample_aead (Some (Adapter sample_env (file_provider sample_env) 1)) c (sv_store s') = Inr ''text''"
proof -
  let ?PV = "file_provider sample_env" and ?call = "DoRotate (Some (replicate 32 CHR ''k'')) (Some sample_nonce) 1"
  let ?s0 = "new_service sample_master"
  have ok: "rand_ok ?call" by (simp add: KeyBytes_def sample_nonce_def gcm_NonceSize_def)
  have "file_inv sample_env (sv_store ?s0)" by (rule new_service_inv [OF sample_env_ok sample_master_length])
  then obtain s m where s: "svc_step sample_env ?PV sample_call ?call ?s0 = (Completed, s)"
      "fp_CurrentKey sample_env (uuid_str (en_platform sample_env) 1) (sv_store s) = Inr m"
      "ma_Material m = replicate 32 CHR ''k''" "km_Version (ma_Metadata m) = rp_MaxVersion 1 (fp_repo (sv_store ?s0)) + 1"
      "file_inv sample_env (sv_store s)"
    by (rule sample_rotation)
  obtain s' where s': "svc_step sample_env ?PV sample_call ?call s = (Completed, s')"
    using sample_rotation [OF s(5)] by metis
  have run: "svc_run sample_env ?PV ?s0 ([] @ [(sample_call, ?call, Completed)]) s"
    by (rule run_call [OF run_start s(1) ok])
  have run': "svc_run sample_env ?PV s ([] @ [(sample_call, ?call, Completed)]) s'"
    by (rule run_call [OF run_start s' ok])
  have key: "pv_CurrentKey ?PV (uuid_str (en_platform sample_env) 1) (sv_store s) = Inr m"
    using s(2) by (simp add: file_provider_def)
  note named = offline.current_resolves [OF s(5) key]
  then have "fp_Key sample_env (uuid_str (en_platform sample_env) 1) (km_ID (ma_Metadata m)) (sv_store s) = Inr m"
    by (simp add: file_provider_def)
  then have "ma_Metadata m \<in> set (fp_repo (sv_store s))" "km_TenantID (ma_Metadata m) = 1"
    using fp_Key_eq [OF s(5)] by blast+
  then have "km_ID (ma_Metadata m) = version_ID (uuid_str ref_platform 1) 1"
    using s(4,5) by (simp add: file_inv_def record_ok_def new_service_def rp_MaxVersion_def sample_env_def)
  moreover have "length (uuid_str ref_platform 1) = 36" using platform_ok_ref by (simp add: platform_ok_def)
  ultimately have "km_ID (ma_Metadata m) \<noteq> [] \<and> length (km_ID (ma_Metadata m)) = 39"
    by (simp add: version_ID_def itoa_small)
  then obtain c where c: "Encrypt (en_aead sample_env) (Some (Adapter sample_env ?PV 1)) (Some sample_nonce) ''text'' (sv_store s) = Inr c"
    using key s(3) by (simp add: Encrypt_def Adapter_def Adapter_CurrentKey_def Key_validate_def KeyBytes_def
        encodeEnvelope_def sample_nonce_def)
  have "length sample_nonce = gcm_NonceSize" by (simp add: sample_nonce_def gcm_NonceSize_def)
  moreover have "(2 :: uuid) \<noteq> 1" by simp
  ultimately have "Decrypt (en_aead sample_env) (Some (Adapter sample_env ?PV 1)) c (sv_store s') = Inr ''text''"
    using ciphertexts_survive_key_operations [OF sample_env_ok sample_master_length run c _ run', of 2] by blast
  moreover have "en_aead sample_env = sample_aead" by (simp add: sample_env_def)
  moreover have "length ([] @ [(sample_call, ?call, Completed)]) = 1" by simp
  ultimately show ?thesis using run run' c by metis
qed

text \<open>A grant in an outage and its use, in the clear of the trail.\<close>

lemma sample_break_glass:
  assumes "pv_Key PV (uuid_str (en_platform sample_env) 1) i (sv_store s) = Inr m"
  obtains g s1 s2 where
    "svc_step sample_env PV sample_call (DoGrant 3 0 1 i ''outage'' 0) s = (Granted g, s1)"
    "svc_step sample_env PV sample_call (DoUse 1 1 3) s1 = (Material m, s2)"
proof -
  have trim: "TrimSpace ''outage'' \<noteq> []" by code_simp
  let ?g = "\<lparr>bg_ID = 3, bg_TenantID = 1, bg_KeyID = i, bg_GrantedTo = us_ID sample_admin,
      bg_Justification = ''outage'', bg_GrantedAt = 0, bg_ExpiresAt = DefaultBreakGlassTTL, bg_UsedAt = None\<rparr>"
  let ?s1 = "recordAudit sample_env sample_call 1 AuditActionBreakGlassGrant i AuditOutcomeSuccess ''outage'' NoDetail
      (s\<lparr>sv_grants := (sv_grants s)(3 \<mapsto> ?g)\<rparr>)"
  have "svc_step sample_env PV sample_call (DoGrant 3 0 1 i ''outage'' 0) s = (Granted ?g, ?s1)"
    using trim by (simp add: svc_GrantBreakGlass_def answer_of_def sample_call_def sample_admitted bg_Create_def
        requireMatchingTenant_def Let_def)
  moreover obtain s2 where "svc_step sample_env PV sample_call (DoUse 1 1 3) ?s1 = (Material m, s2)"
    using assms by (simp add: svc_UseBreakGlass_def answer_of_def sample_call_def sample_admitted bg_Get_def bg_MarkUsed_def
        IsExpired_def DefaultBreakGlassTTL_def uuid_Nil_def)
  ultimately show thesis by (rule that)
qed

theorem released_keys_are_lawful_and_audited_witness:
  "\<exists>log s m. svc_run sample_env (file_provider sample_env) (new_service sample_master) log s \<and>
     (sample_call, DoUse 1 1 3, Material m) \<in> set log \<and> lawful_release log sample_call (DoUse 1 1 3) m"
proof -
  let ?PV = "file_provider sample_env" and ?call = "DoRotate (Some (replicate 32 CHR ''k'')) (Some sample_nonce) 1"
  let ?s0 = "new_service sample_master"
  have ok: "rand_ok ?call" by (simp add: KeyBytes_def sample_nonce_def gcm_NonceSize_def)
  have "file_inv sample_env (sv_store ?s0)" by (rule new_service_inv [OF sample_env_ok sample_master_length])
  then obtain s m where s: "svc_step sample_env ?PV sample_call ?call ?s0 = (Completed, s)"
      "fp_CurrentKey sample_env (uuid_str (en_platform sample_env) 1) (sv_store s) = Inr m"
      "file_inv sample_env (sv_store s)"
    by (rule sample_rotation)
  have "pv_CurrentKey ?PV (uuid_str (en_platform sample_env) 1) (sv_store s) = Inr m"
    using s(2) by (simp add: file_provider_def)
  from offline.current_resolves [OF s(3) this] obtain g s1 s2 where
    calls: "svc_step sample_env ?PV sample_call (DoGrant 3 0 1 (km_ID (ma_Metadata m)) ''outage'' 0) s = (Granted g, s1)"
      "svc_step sample_env ?PV sample_call (DoUse 1 1 3) s1 = (Material m, s2)"
    by (rule sample_break_glass)
  note run = run_call [OF run_call [OF run_call [OF run_start s(1) ok] calls(1)] calls(2)]
  then have run: "svc_run sample_env ?PV ?s0 (([(sample_call, ?call, Completed)] @
      [(sample_call, DoGrant 3 0 1 (km_ID (ma_Metadata m)) ''outage'' 0, Granted g)]) @
      [(sample_call, DoUse 1 1 3, Material m)]) s2" by simp
  from released_keys_are_lawful_and_audited [OF sample_env_ok sample_master_length run, of sample_call "DoUse 1 1 3" m] run
  show ?thesis by (metis in_set_conv_decomp)
qed


lemma revocation_fails_closed_until_rotation_witness:
  "\<exists>p m err p1 meta p2. fp_CurrentKey sample_env (uuid_str (en_platform sample_env) 1) p = Inr m \<and>
     pv_UpdateState (file_provider sample_env) 1 (km_ID (ma_Metadata m)) KeyStateRevoked p = (err, p1) \<and>
     fp_CurrentKey sample_env (uuid_str (en_platform sample_env) 1) p1 = Inl ErrNoActiveKey \<and>
     fp_Rotate sample_env (uuid_str (en_platform sample_env) 1) (Some (replicate 32 CHR ''l'')) (Some sample_nonce) 8 p1 =
       (Inr meta, p2) \<and> km_Version meta > km_Version (ma_Metadata m)"
proof -
  have "file_inv sample_env (sv_store (new_service sample_master))"
    by (rule new_service_inv [OF sample_env_ok sample_master_length])
  then obtain s :: "FileProvider Service" and m where s: "fp_CurrentKey sample_env (uuid_str (en_platform sample_env) 1) (sv_store s) = Inr m"
      "file_inv sample_env (sv_store s)"
    by (rule sample_rotation)
  obtain err p1 where rev: "pv_UpdateState (file_provider sample_env) 1 (km_ID (ma_Metadata m)) KeyStateRevoked (sv_store s) = (err, p1)"
    by fastforce
  obtain r p2 where rot: "fp_Rotate sample_env (uuid_str (en_platform sample_env) 1) (Some (replicate 32 CHR ''l''))
      (Some sample_nonce) 8 p1 = (r, p2)" by fastforce
  have nil: "(1 :: uuid) \<noteq> uuid_Nil" by (simp add: uuid_Nil_def)
  have lengths: "length (replicate 32 CHR ''l'') = KeyBytes" "length sample_nonce = gcm_NonceSize"
    by (simp_all add: KeyBytes_def sample_nonce_def gcm_NonceSize_def)
  note out = revocation_fails_closed_until_rotation [OF s(2) nil s(1) rev rot lengths]
  then obtain meta where "r = Inr meta" "km_Version meta > km_Version (ma_Metadata m)" by blast
  with out s(1) rev rot show ?thesis by metis
qed

end
