(* ===== verification/AccessGovernance.thy ===== *)
theory AccessGovernance
  imports AuditStore
begin

text \<open>
  \<open>packages/accessgovernance\<close>: attribute policies, grants per case, time-bound elevations and
  their reviews, the engine that decides requests over them, and the record of its calls in
  the audit log of \<open>AuditStore\<close>.

  A value of \<open>identity.Permission\<close> is a string here, since a grant may list any. The
  repositories are one record of operations over an abstract state; a map of the in-memory
  ones is the list of its values, which have distinct IDs, and the order in which an iteration
  meets them is an argument.
\<close>

section \<open>Errors\<close>

datatype gov_error = ErrUnauthenticated | ErrForbidden | ErrCrossTenantAccess | ErrEmptyTenantID
  | ErrNilPolicy | ErrInvalidPolicy | ErrNilRequest | ErrPolicyNotFound | ErrGrantNotFound
  | ErrGrantExpired | ErrInvalidGrant | ErrJustificationRequired | ErrReviewNotFound
  | ErrReviewAlreadyDecided | ErrInvalidAttestationDecision | ErrSegregationOfDuties
  | ErrInvalidExportFormat | ErrInvalidPeriod | ErrNilStore | ErrNilAuditSink
  | Wrapf string gov_error

text \<open>The message of an error.\<close>

fun gov_message :: "gov_error \<Rightarrow> string" where
  "gov_message ErrUnauthenticated = ''accessgovernance: unauthenticated request''"
| "gov_message ErrForbidden = ''accessgovernance: actor lacks required permission''"
| "gov_message ErrCrossTenantAccess = ''accessgovernance: cross-tenant access denied''"
| "gov_message ErrEmptyTenantID = ''accessgovernance: tenant id is required''"
| "gov_message ErrNilPolicy = ''accessgovernance: policy must not be nil''"
| "gov_message ErrInvalidPolicy = ''accessgovernance: invalid policy''"
| "gov_message ErrNilRequest = ''accessgovernance: request must not be nil''"
| "gov_message ErrPolicyNotFound = ''accessgovernance: policy not found''"
| "gov_message ErrGrantNotFound = ''accessgovernance: case grant not found''"
| "gov_message ErrGrantExpired = ''accessgovernance: grant has expired''"
| "gov_message ErrInvalidGrant = ''accessgovernance: invalid grant''"
| "gov_message ErrJustificationRequired = ''accessgovernance: elevation requires a justification''"
| "gov_message ErrReviewNotFound = ''accessgovernance: review not found''"
| "gov_message ErrReviewAlreadyDecided = ''accessgovernance: review has already been attested''"
| "gov_message ErrInvalidAttestationDecision = ''accessgovernance: invalid attestation decision''"
| "gov_message ErrSegregationOfDuties = ''accessgovernance: action violates segregation of duties''"
| "gov_message ErrInvalidExportFormat = ''accessgovernance: invalid export format''"
| "gov_message ErrInvalidPeriod = ''accessgovernance: invalid certification period''"
| "gov_message ErrNilStore = ''accessgovernance: store must not be nil''"
| "gov_message ErrNilAuditSink = ''accessgovernance: audit sink must not be nil''"
| "gov_message (Wrapf fn err) = ''accessgovernance: '' @ fn @ '': '' @ gov_message err"

section \<open>Requests and policies\<close>

type_synonym Action = string

datatype DecisionEffect = EffectAllow | EffectDeny | EffectOther string

definition DecisionEffect_IsValid :: "DecisionEffect \<Rightarrow> bool" where
  "DecisionEffect_IsValid e \<longleftrightarrow> e = EffectAllow \<or> e = EffectDeny"

record Request =
  rq_ActorUserID :: uuid
  rq_ActorRoles :: "Role list"
  rq_TenantID :: uuid
  rq_CaseID :: uuid
  rq_JurisdictionID :: string
  rq_Action :: Action
  rq_Now :: time

definition Request_Validate :: "Request \<Rightarrow> gov_error option" where
  "Request_Validate r =
     (if rq_ActorUserID r = uuid_Nil then Some (Wrapf ''Request.Validate'' ErrForbidden)
      else if rq_TenantID r = uuid_Nil then Some ErrEmptyTenantID
      else if TrimSpace (rq_Action r) = [] then Some (Wrapf ''Request.Validate'' ErrInvalidPolicy)
      else None)"

record TimeWindow =
  tw_StartHour :: int
  tw_EndHour :: int
  tw_Enabled :: bool

text \<open>\<open>t.UTC().Hour()\<close>: the zero time of Go is at midnight.\<close>

definition UTC_Hour :: "time \<Rightarrow> int" where
  "UTC_Hour t = (t div (3600 * 10 ^ 9)) mod 24"

definition TimeWindow_Allows :: "TimeWindow \<Rightarrow> time \<Rightarrow> bool" where
  "TimeWindow_Allows w t =
     (if \<not> tw_Enabled w then True
      else let h = UTC_Hour t in
        if tw_StartHour w \<le> tw_EndHour w then h \<ge> tw_StartHour w \<and> h < tw_EndHour w
        else h \<ge> tw_StartHour w \<or> h < tw_EndHour w)"

record PolicyRule =
  ru_Actions :: "Action list"
  ru_Roles :: "Role list"
  ru_Jurisdictions :: "string list"
  ru_RequireCaseScope :: bool
  ru_TimeWindow :: TimeWindow
  ru_Effect :: DecisionEffect

definition containsAction :: "Action list \<Rightarrow> Action \<Rightarrow> bool" where
  "containsAction list a \<longleftrightarrow> (\<exists>x\<in>set list. x = a)"

text \<open>
  \<open>strings.EqualFold\<close>: ASCII letters, and the two other runes that fold to an ASCII letter
  (U+017F to s, U+212A to k); the case of other scripts is not folded.
\<close>

fun fold_case :: "string \<Rightarrow> string" where
  "fold_case [] = []"
| "fold_case (c # cs) =
     (if c = CHR 0xC5 \<and> take 1 cs = [CHR 0xBF] then CHR ''s'' # fold_case (drop 1 cs)
      else if c = CHR 0xE2 \<and> take 2 cs = [CHR 0x84, CHR 0xAA] then CHR ''k'' # fold_case (drop 2 cs)
      else lower_ascii c # fold_case cs)"

definition containsString :: "string list \<Rightarrow> string \<Rightarrow> bool" where
  "containsString list s \<longleftrightarrow> (\<exists>x\<in>set list. fold_case x = fold_case s)"

definition anyRoleMatches :: "Role list \<Rightarrow> Role list \<Rightarrow> bool" where
  "anyRoleMatches allowed actual \<longleftrightarrow> (\<exists>want\<in>set allowed. \<exists>have\<in>set actual. want = have)"

definition rule_matches :: "PolicyRule \<Rightarrow> Request \<Rightarrow> bool" where
  "rule_matches r req =
     (if ru_Actions r \<noteq> [] \<and> \<not> containsAction (ru_Actions r) (rq_Action req) then False
      else if ru_Roles r \<noteq> [] \<and> \<not> anyRoleMatches (ru_Roles r) (rq_ActorRoles req) then False
      else if ru_Jurisdictions r \<noteq> [] \<and> \<not> containsString (ru_Jurisdictions r) (rq_JurisdictionID req) then False
      else if ru_RequireCaseScope r \<and> rq_CaseID req = uuid_Nil then False
      else if \<not> TimeWindow_Allows (ru_TimeWindow r) (rq_Now req) then False
      else True)"

record Policy =
  pl_ID :: uuid
  pl_TenantID :: uuid
  pl_Name :: string
  pl_Rules :: "PolicyRule list"
  pl_Active :: bool
  pl_CreatedBy :: uuid
  pl_CreatedAt :: time
  pl_UpdatedAt :: time

definition Policy_Validate :: "Policy option \<Rightarrow> gov_error option" where
  "Policy_Validate p =
     (case p of
        None \<Rightarrow> Some ErrNilPolicy
      | Some p \<Rightarrow>
          if pl_TenantID p = uuid_Nil then Some ErrEmptyTenantID
          else if TrimSpace (pl_Name p) = [] then Some ErrInvalidPolicy
          else if \<exists>r\<in>set (pl_Rules p). \<not> DecisionEffect_IsValid (ru_Effect r) then Some ErrInvalidPolicy
          else None)"

definition Policy_evaluate :: "Policy option \<Rightarrow> Request \<Rightarrow> DecisionEffect \<times> PolicyRule option" where
  "Policy_evaluate p req =
     (case p of
        None \<Rightarrow> (EffectDeny, None)
      | Some p \<Rightarrow>
          if \<not> pl_Active p then (EffectDeny, None)
          else (case List.find (\<lambda>r. rule_matches r req) (pl_Rules p) of
                  Some r \<Rightarrow> (ru_Effect r, Some r)
                | None \<Rightarrow> (EffectDeny, None)))"

record Decision =
  de_Effect :: DecisionEffect
  de_Reason :: string
  de_MatchedPolicyID :: uuid
  de_MatchedGrantID :: uuid
  de_EvaluatedAt :: time

definition Decision_Allowed :: "Decision \<Rightarrow> bool" where
  "Decision_Allowed d \<longleftrightarrow> de_Effect d = EffectAllow"

definition no_Decision :: Decision where
  "no_Decision = \<lparr>de_Effect = EffectOther [], de_Reason = [], de_MatchedPolicyID = uuid_Nil,
     de_MatchedGrantID = uuid_Nil, de_EvaluatedAt = zero_time\<rparr>"


section \<open>Grants\<close>

record CaseGrant =
  cg_ID :: uuid
  cg_TenantID :: uuid
  cg_CaseID :: uuid
  cg_GranteeUserID :: uuid
  cg_Permissions :: "string list"
  cg_Deny :: bool
  cg_ExpiresAt :: time
  cg_GrantedBy :: uuid
  cg_GrantedAt :: time
  cg_RevokedAt :: "time option"

definition CaseGrant_Validate :: "CaseGrant option \<Rightarrow> gov_error option" where
  "CaseGrant_Validate g =
     (case g of
        None \<Rightarrow> Some ErrInvalidGrant
      | Some g \<Rightarrow>
          if cg_TenantID g = uuid_Nil then Some ErrEmptyTenantID
          else if cg_CaseID g = uuid_Nil then Some (Wrapf ''CaseGrant.Validate'' ErrInvalidGrant)
          else if cg_GranteeUserID g = uuid_Nil then Some (Wrapf ''CaseGrant.Validate'' ErrInvalidGrant)
          else if cg_ExpiresAt g = zero_time then Some (Wrapf ''CaseGrant.Validate'' ErrInvalidGrant)
          else if \<not> cg_Deny g \<and> cg_Permissions g = [] then Some (Wrapf ''CaseGrant.Validate'' ErrInvalidGrant)
          else None)"

definition CaseGrant_IsExpired :: "CaseGrant \<Rightarrow> time \<Rightarrow> bool" where
  "CaseGrant_IsExpired g now = (if cg_RevokedAt g \<noteq> None then True else \<not> now < cg_ExpiresAt g)"

definition grantsPermission :: "CaseGrant \<Rightarrow> string \<Rightarrow> bool" where
  "grantsPermission g perm = (if cg_Deny g then False else \<exists>p\<in>set (cg_Permissions g). p = perm)"

definition deniesPermission :: "CaseGrant \<Rightarrow> string \<Rightarrow> bool" where
  "deniesPermission g perm =
     (if \<not> cg_Deny g then False
      else if cg_Permissions g = [] then True
      else \<exists>p\<in>set (cg_Permissions g). p = perm)"

record Grant =
  el_ID :: uuid
  el_TenantID :: uuid
  el_GranteeUserID :: uuid
  el_Action :: Action
  el_CaseID :: uuid
  el_Justification :: string
  el_GrantedAt :: time
  el_ExpiresAt :: time
  el_RequestedBy :: uuid
  el_RevokedAt :: "time option"

definition Grant_Validate :: "Grant option \<Rightarrow> gov_error option" where
  "Grant_Validate g =
     (case g of
        None \<Rightarrow> Some ErrInvalidGrant
      | Some g \<Rightarrow>
          if el_TenantID g = uuid_Nil then Some ErrEmptyTenantID
          else if el_GranteeUserID g = uuid_Nil then Some (Wrapf ''Grant.Validate'' ErrInvalidGrant)
          else if TrimSpace (el_Action g) = [] then Some (Wrapf ''Grant.Validate'' ErrInvalidGrant)
          else if el_ExpiresAt g = zero_time then Some (Wrapf ''Grant.Validate'' ErrInvalidGrant)
          else if TrimSpace (el_Justification g) = [] then Some ErrJustificationRequired
          else None)"

definition Grant_IsExpired :: "Grant \<Rightarrow> time \<Rightarrow> bool" where
  "Grant_IsExpired g now = (if el_RevokedAt g \<noteq> None then True else \<not> now < el_ExpiresAt g)"

definition DefaultElevationTTL :: duration where
  "DefaultElevationTTL = 3600 * 10 ^ 9"

section \<open>Reviews, conflicts and reports\<close>

datatype GrantKind = GrantKindCase | GrantKindElevation | GrantKindOther string

definition GrantKind_IsValid :: "GrantKind \<Rightarrow> bool" where
  "GrantKind_IsValid k \<longleftrightarrow> k = GrantKindCase \<or> k = GrantKindElevation"

text \<open>The empty string, which marks a pending review, is \<open>AttestationOther []\<close>.\<close>

datatype AttestationDecision = AttestationApprove | AttestationRevoke | AttestationOther string

definition AttestationDecision_IsValid :: "AttestationDecision \<Rightarrow> bool" where
  "AttestationDecision_IsValid d \<longleftrightarrow> d = AttestationApprove \<or> d = AttestationRevoke"

fun AttestationDecision_String :: "AttestationDecision \<Rightarrow> string" where
  "AttestationDecision_String AttestationApprove = ''approve''"
| "AttestationDecision_String AttestationRevoke = ''revoke''"
| "AttestationDecision_String (AttestationOther s) = s"

record AccessReview =
  rv_ID :: uuid
  rv_TenantID :: uuid
  rv_SubjectKind :: GrantKind
  rv_SubjectID :: uuid
  rv_RequestedBy :: uuid
  rv_DueAt :: time
  rv_Decision :: AttestationDecision
  rv_AttestedBy :: uuid
  rv_AttestedAt :: "time option"
  rv_Notes :: string
  rv_CreatedAt :: time

definition IsPending :: "AccessReview \<Rightarrow> bool" where
  "IsPending r \<longleftrightarrow> rv_Decision r = AttestationOther []"

definition AccessReview_Validate :: "AccessReview option \<Rightarrow> gov_error option" where
  "AccessReview_Validate r =
     (case r of
        None \<Rightarrow> Some (Wrapf ''Review.Validate'' ErrReviewNotFound)
      | Some r \<Rightarrow>
          if rv_TenantID r = uuid_Nil then Some ErrEmptyTenantID
          else if \<not> GrantKind_IsValid (rv_SubjectKind r) then Some (Wrapf ''Review.Validate'' ErrInvalidGrant)
          else if rv_SubjectID r = uuid_Nil then Some (Wrapf ''Review.Validate'' ErrInvalidGrant)
          else None)"

definition RuleRequesterCannotApprove :: string where
  "RuleRequesterCannotApprove = ''requester_cannot_approve''"

definition RuleApproverNotSoleAuthor :: string where
  "RuleApproverNotSoleAuthor = ''approver_not_sole_author''"

text \<open>A rule is its name; the description is not read.\<close>

definition DefaultConflictRules :: "string list" where
  "DefaultConflictRules = [RuleRequesterCannotApprove, RuleApproverNotSoleAuthor]"

record ConflictCheck =
  cc_RequestedBy :: uuid
  cc_ActingUserID :: uuid
  cc_SoleAuthor :: bool

fun first_violation :: "bool \<Rightarrow> string list \<Rightarrow> string" where
  "first_violation soleAuthor [] = []"
| "first_violation soleAuthor (r # rules) =
     (if r = RuleRequesterCannotApprove then RuleRequesterCannotApprove
      else if r = RuleApproverNotSoleAuthor \<and> soleAuthor then RuleApproverNotSoleAuthor
      else first_violation soleAuthor rules)"

definition CheckConflict :: "ConflictCheck \<Rightarrow> string list option \<Rightarrow> string" where
  "CheckConflict check rules =
     (let rules = (case rules of None \<Rightarrow> DefaultConflictRules | Some rs \<Rightarrow> rs) in
      if cc_ActingUserID check = uuid_Nil \<or> cc_RequestedBy check = uuid_Nil then []
      else if cc_ActingUserID check \<noteq> cc_RequestedBy check then []
      else first_violation (cc_SoleAuthor check) rules)"

record Period =
  pe_Start :: time
  pe_End :: time

definition Period_Validate :: "Period \<Rightarrow> gov_error option" where
  "Period_Validate p = (if \<not> pe_End p > pe_Start p then Some ErrInvalidPeriod else None)"

definition Period_Contains :: "Period \<Rightarrow> time \<Rightarrow> bool" where
  "Period_Contains p t \<longleftrightarrow> \<not> t < pe_Start p \<and> t < pe_End p"

record Report =
  rt_TenantID :: uuid
  rt_Period :: Period
  rt_GeneratedAt :: time
  rt_CaseGrants :: "CaseGrant list"
  rt_Elevations :: "Grant list"
  rt_Reviews :: "AccessReview list"

definition TotalEntries :: "Report \<Rightarrow> nat" where
  "TotalEntries r = length (rt_CaseGrants r) + length (rt_Elevations r) + length (rt_Reviews r)"

record PrivilegedFilter =
  pf_Actor :: string
  pf_CaseID :: uuid
  pf_Since :: time
  pf_Until :: time
  pf_Limit :: int

section \<open>The repositories\<close>

record 's PolicyRepository =
  pl_Create :: "uuid \<Rightarrow> Policy option \<Rightarrow> 's \<Rightarrow> gov_error option \<times> 's"
  pl_Get :: "uuid \<Rightarrow> uuid \<Rightarrow> 's \<Rightarrow> gov_error + Policy"
  pl_List :: "uuid \<Rightarrow> 's \<Rightarrow> gov_error + Policy list"
  pl_Update :: "uuid \<Rightarrow> Policy option \<Rightarrow> 's \<Rightarrow> gov_error option \<times> 's"

record 's CaseGrantRepository =
  cg_Create :: "uuid \<Rightarrow> CaseGrant option \<Rightarrow> 's \<Rightarrow> gov_error option \<times> 's"
  cg_Get :: "uuid \<Rightarrow> uuid \<Rightarrow> 's \<Rightarrow> gov_error + CaseGrant"
  cg_ListForCase :: "uuid \<Rightarrow> uuid \<Rightarrow> 's \<Rightarrow> gov_error + CaseGrant list"
  cg_ListActive :: "uuid \<Rightarrow> time \<Rightarrow> 's \<Rightarrow> gov_error + CaseGrant list"
  cg_ListAll :: "uuid \<Rightarrow> 's \<Rightarrow> gov_error + CaseGrant list"
  cg_Revoke :: "uuid \<Rightarrow> uuid \<Rightarrow> time \<Rightarrow> 's \<Rightarrow> gov_error option \<times> 's"

record 's GrantRepository =
  el_Create :: "uuid \<Rightarrow> Grant option \<Rightarrow> 's \<Rightarrow> gov_error option \<times> 's"
  el_Get :: "uuid \<Rightarrow> uuid \<Rightarrow> 's \<Rightarrow> gov_error + Grant"
  el_ListActive :: "uuid \<Rightarrow> time \<Rightarrow> 's \<Rightarrow> gov_error + Grant list"
  el_ListAll :: "uuid \<Rightarrow> 's \<Rightarrow> gov_error + Grant list"
  el_Revoke :: "uuid \<Rightarrow> uuid \<Rightarrow> time \<Rightarrow> 's \<Rightarrow> gov_error option \<times> 's"

record 's ReviewRepository =
  rv_Create :: "uuid \<Rightarrow> AccessReview option \<Rightarrow> 's \<Rightarrow> gov_error option \<times> 's"
  rv_Get :: "uuid \<Rightarrow> uuid \<Rightarrow> 's \<Rightarrow> gov_error + AccessReview"
  rv_ListDue :: "uuid \<Rightarrow> time \<Rightarrow> 's \<Rightarrow> gov_error + AccessReview list"
  rv_ListAll :: "uuid \<Rightarrow> 's \<Rightarrow> gov_error + AccessReview list"
  rv_Update :: "uuid \<Rightarrow> AccessReview option \<Rightarrow> 's \<Rightarrow> gov_error option \<times> 's"

text \<open>
  The four in-memory repositories are one piece of code over four types of records. \<open>key\<close> and
  \<open>ten\<close> read the ID and the tenant of a record, \<open>set_ten\<close> sets the tenant, and \<open>nil\<close> and
  \<open>missing\<close> are the repository's errors for a nil and an unknown record.
\<close>

definition requireMatchingTenant :: "uuid \<Rightarrow> uuid \<Rightarrow> gov_error option" where
  "requireMatchingTenant want got = (if got \<noteq> uuid_Nil \<and> got \<noteq> want then Some ErrCrossTenantAccess else None)"

definition mem_create ::
  "('r \<Rightarrow> uuid) \<Rightarrow> ('r \<Rightarrow> uuid) \<Rightarrow> (uuid \<Rightarrow> 'r \<Rightarrow> 'r) \<Rightarrow> gov_error \<Rightarrow> uuid \<Rightarrow> 'r option \<Rightarrow> 'r list \<Rightarrow> gov_error option \<times> 'r list" where
  "mem_create key ten set_ten nil tenantID p rs =
     (case p of
        None \<Rightarrow> (Some nil, rs)
      | Some p \<Rightarrow>
          let p = (if ten p = uuid_Nil then set_ten tenantID p else p)
          in (case requireMatchingTenant tenantID (ten p) of
                Some err \<Rightarrow> (Some err, rs)
              | None \<Rightarrow> (None, put_by key p rs)))"

definition mem_get :: "('r \<Rightarrow> uuid) \<Rightarrow> ('r \<Rightarrow> uuid) \<Rightarrow> gov_error \<Rightarrow> uuid \<Rightarrow> uuid \<Rightarrow> 'r list \<Rightarrow> gov_error + 'r" where
  "mem_get key ten missing tenantID i rs =
     (case find_by key i rs of
        None \<Rightarrow> Inl missing
      | Some p \<Rightarrow> if ten p \<noteq> tenantID then Inl missing else Inr p)"

definition mem_update ::
  "('r \<Rightarrow> uuid) \<Rightarrow> ('r \<Rightarrow> uuid) \<Rightarrow> (uuid \<Rightarrow> 'r \<Rightarrow> 'r) \<Rightarrow> gov_error \<Rightarrow> gov_error \<Rightarrow> uuid \<Rightarrow> 'r option \<Rightarrow> 'r list
    \<Rightarrow> gov_error option \<times> 'r list" where
  "mem_update key ten set_ten nil missing tenantID p rs =
     (case p of
        None \<Rightarrow> (Some nil, rs)
      | Some p \<Rightarrow>
          (case find_by key (key p) rs of
             None \<Rightarrow> (Some missing, rs)
           | Some existing \<Rightarrow>
               if ten existing \<noteq> tenantID then (Some missing, rs)
               else (None, put_by key (set_ten tenantID p) rs)))"

definition mem_revoke ::
  "('r \<Rightarrow> uuid) \<Rightarrow> ('r \<Rightarrow> uuid) \<Rightarrow> (time \<Rightarrow> 'r \<Rightarrow> 'r) \<Rightarrow> gov_error \<Rightarrow> uuid \<Rightarrow> uuid \<Rightarrow> time \<Rightarrow> 'r list
    \<Rightarrow> gov_error option \<times> 'r list" where
  "mem_revoke key ten set_revoked missing tenantID i revokedAt rs =
     (case find_by key i rs of
        None \<Rightarrow> (Some missing, rs)
      | Some g \<Rightarrow>
          if ten g \<noteq> tenantID then (Some missing, rs)
          else (None, put_by key (set_revoked revokedAt g) rs))"

record InMemoryRepositories =
  im_policies :: "Policy list"
  im_grants :: "CaseGrant list"
  im_elevations :: "Grant list"
  im_reviews :: "AccessReview list"

text \<open>The order in which one iteration meets the records of each map.\<close>

record iteration =
  it_policies :: "Policy list \<Rightarrow> Policy list"
  it_grants :: "CaseGrant list \<Rightarrow> CaseGrant list"
  it_elevations :: "Grant list \<Rightarrow> Grant list"
  it_reviews :: "AccessReview list \<Rightarrow> AccessReview list"


definition InMemoryPolicyRepository :: "iteration \<Rightarrow> InMemoryRepositories PolicyRepository" where
  "InMemoryPolicyRepository it =
     \<lparr>pl_Create = (\<lambda>t p s. case mem_create pl_ID pl_TenantID (\<lambda>t. pl_TenantID_update (\<lambda>_. t)) ErrNilPolicy t p (im_policies s)
        of (err, rs) \<Rightarrow> (err, s\<lparr>im_policies := rs\<rparr>)),
      pl_Get = (\<lambda>t i s. mem_get pl_ID pl_TenantID ErrPolicyNotFound t i (im_policies s)),
      pl_List = (\<lambda>t s. Inr (filter (\<lambda>p. pl_TenantID p = t) (it_policies it (im_policies s)))),
      pl_Update = (\<lambda>t p s. case mem_update pl_ID pl_TenantID (\<lambda>t. pl_TenantID_update (\<lambda>_. t)) ErrNilPolicy ErrPolicyNotFound t p (im_policies s)
        of (err, rs) \<Rightarrow> (err, s\<lparr>im_policies := rs\<rparr>))\<rparr>"

definition InMemoryCaseGrantRepository :: "iteration \<Rightarrow> InMemoryRepositories CaseGrantRepository" where
  "InMemoryCaseGrantRepository it =
     \<lparr>cg_Create = (\<lambda>t g s. case mem_create cg_ID cg_TenantID (\<lambda>t. cg_TenantID_update (\<lambda>_. t)) ErrInvalidGrant t g (im_grants s)
        of (err, rs) \<Rightarrow> (err, s\<lparr>im_grants := rs\<rparr>)),
      cg_Get = (\<lambda>t i s. mem_get cg_ID cg_TenantID ErrGrantNotFound t i (im_grants s)),
      cg_ListForCase = (\<lambda>t c s. Inr (filter (\<lambda>g. cg_TenantID g = t \<and> cg_CaseID g = c) (it_grants it (im_grants s)))),
      cg_ListActive = (\<lambda>t now s. Inr (filter (\<lambda>g. cg_TenantID g = t \<and> \<not> CaseGrant_IsExpired g now) (it_grants it (im_grants s)))),
      cg_ListAll = (\<lambda>t s. Inr (filter (\<lambda>g. cg_TenantID g = t) (it_grants it (im_grants s)))),
      cg_Revoke = (\<lambda>t i at s. case mem_revoke cg_ID cg_TenantID (\<lambda>at. cg_RevokedAt_update (\<lambda>_. Some at)) ErrGrantNotFound t i at (im_grants s)
        of (err, rs) \<Rightarrow> (err, s\<lparr>im_grants := rs\<rparr>))\<rparr>"

definition InMemoryGrantRepository :: "iteration \<Rightarrow> InMemoryRepositories GrantRepository" where
  "InMemoryGrantRepository it =
     \<lparr>el_Create = (\<lambda>t g s. case mem_create el_ID el_TenantID (\<lambda>t. el_TenantID_update (\<lambda>_. t)) ErrInvalidGrant t g (im_elevations s)
        of (err, rs) \<Rightarrow> (err, s\<lparr>im_elevations := rs\<rparr>)),
      el_Get = (\<lambda>t i s. mem_get el_ID el_TenantID ErrGrantNotFound t i (im_elevations s)),
      el_ListActive = (\<lambda>t now s. Inr (filter (\<lambda>g. el_TenantID g = t \<and> \<not> Grant_IsExpired g now) (it_elevations it (im_elevations s)))),
      el_ListAll = (\<lambda>t s. Inr (filter (\<lambda>g. el_TenantID g = t) (it_elevations it (im_elevations s)))),
      el_Revoke = (\<lambda>t i at s. case mem_revoke el_ID el_TenantID (\<lambda>at. el_RevokedAt_update (\<lambda>_. Some at)) ErrGrantNotFound t i at (im_elevations s)
        of (err, rs) \<Rightarrow> (err, s\<lparr>im_elevations := rs\<rparr>))\<rparr>"

definition InMemoryReviewRepository :: "iteration \<Rightarrow> InMemoryRepositories ReviewRepository" where
  "InMemoryReviewRepository it =
     \<lparr>rv_Create = (\<lambda>t r s. case mem_create rv_ID rv_TenantID (\<lambda>t. rv_TenantID_update (\<lambda>_. t)) ErrReviewNotFound t r (im_reviews s)
        of (err, rs) \<Rightarrow> (err, s\<lparr>im_reviews := rs\<rparr>)),
      rv_Get = (\<lambda>t i s. mem_get rv_ID rv_TenantID ErrReviewNotFound t i (im_reviews s)),
      rv_ListDue = (\<lambda>t asOf s. Inr (filter (\<lambda>r. rv_TenantID r = t \<and> IsPending r \<and> \<not> rv_DueAt r > asOf) (it_reviews it (im_reviews s)))),
      rv_ListAll = (\<lambda>t s. Inr (filter (\<lambda>r. rv_TenantID r = t) (it_reviews it (im_reviews s)))),
      rv_Update = (\<lambda>t r s. case mem_update rv_ID rv_TenantID (\<lambda>t. rv_TenantID_update (\<lambda>_. t)) ErrReviewNotFound ErrReviewNotFound t r (im_reviews s)
        of (err, rs) \<Rightarrow> (err, s\<lparr>im_reviews := rs\<rparr>))\<rparr>"

section \<open>Access and the audit sink\<close>

definition managePermission :: Permission where
  "managePermission = PermManageSettings"

definition reviewPermission :: Permission where
  "reviewPermission = PermAuditRead"

definition authorizeActor :: "ctx \<Rightarrow> gov_error + User" where
  "authorizeActor c = (case UserFromContext c of None \<Rightarrow> Inl ErrUnauthenticated | Some user \<Rightarrow> Inr user)"

definition authorizeManage :: "ctx \<Rightarrow> gov_error + User" where
  "authorizeManage c =
     (case authorizeActor c of
        Inl err \<Rightarrow> Inl err
      | Inr user \<Rightarrow> if \<not> User_HasPermission user managePermission then Inl ErrForbidden else Inr user)"

definition requireUserTenant :: "User \<Rightarrow> uuid \<Rightarrow> gov_error option" where
  "requireUserTenant user tenantID = (if us_TenantID user \<noteq> tenantID then Some ErrCrossTenantAccess else None)"

definition auditActionEvaluate :: string where
  "auditActionEvaluate = ''access_governance.evaluate''"

definition auditActionElevate :: string where
  "auditActionElevate = ''access_governance.elevate''"

definition auditActionAttest :: string where
  "auditActionAttest = ''access_governance.attest''"

definition systemActor :: string where
  "systemActor = ''system:accessgovernance''"

definition actorFor :: "platform \<Rightarrow> uuid \<Rightarrow> string" where
  "actorFor P actorUserID = (if actorUserID = uuid_Nil then systemActor else uuid_str P actorUserID)"

text \<open>
  The store behind the sink is \<open>AuditStore\<close>'s over a repository \<open>R\<close>; \<open>now\<close> and \<open>newid\<close> are what
  its \<open>Append\<close> reads and draws. An error of the sink is one of that store, wrapped.
\<close>

datatype sink_error = SinkWrapf string al_error

definition sink_Append ::
  "platform \<Rightarrow> 'a Repository \<Rightarrow> string \<Rightarrow> time \<Rightarrow> uuid \<Rightarrow> Event \<Rightarrow> 'a \<Rightarrow> (sink_error + Event) \<times> 'a" where
  "sink_Append P R fn now newid ev a =
     (case store_Append P R now newid ev a of
        (Inl err, a) \<Rightarrow> (Inl (SinkWrapf fn err), a)
      | (Inr appended, a) \<Rightarrow> (Inr appended, a))"

definition sink_event :: "uuid \<Rightarrow> Kind \<Rightarrow> uuid \<Rightarrow> string \<Rightarrow> string \<Rightarrow> string \<Rightarrow> string \<Rightarrow> string \<Rightarrow> Event" where
  "sink_event tenantID kind caseID detail actor act target outcome =
     \<lparr>ev_ID = uuid_Nil, ev_TenantID = tenantID, ev_Time = zero_time, ev_Actor = actor, ev_Action = act,
      ev_Target = target, ev_Outcome = outcome, ev_Kind = kind, ev_CaseID = caseID, ev_Detail = detail,
      ev_PrevHash = [], ev_ChainHash = []\<rparr>"

definition RecordEvaluate ::
  "platform \<Rightarrow> 'a Repository \<Rightarrow> time \<Rightarrow> uuid \<Rightarrow> uuid \<Rightarrow> Request \<Rightarrow> Decision \<Rightarrow> 'a \<Rightarrow> (sink_error + Event) \<times> 'a" where
  "RecordEvaluate P R now newid tenantID req dec a =
     (let outcome = (if Decision_Allowed dec then ''allowed'' else ''denied'');
          detail = ''action='' @ rq_Action req @ '' reason='' @ de_Reason dec;
          detail = (if rq_CaseID req \<noteq> uuid_Nil then detail @ '' case='' @ uuid_str P (rq_CaseID req) else detail)
      in sink_Append P R ''RecordEvaluate'' now newid
           (sink_event tenantID KindDataAccess (rq_CaseID req) detail (actorFor P (rq_ActorUserID req))
              auditActionEvaluate (rq_Action req) outcome) a)"

definition RecordElevate ::
  "platform \<Rightarrow> 'a Repository \<Rightarrow> time \<Rightarrow> uuid \<Rightarrow> uuid \<Rightarrow> uuid \<Rightarrow> Action \<Rightarrow> string \<Rightarrow> gov_error option \<Rightarrow> 'a
    \<Rightarrow> (sink_error + Event) \<times> 'a" where
  "RecordElevate P R now newid tenantID actorUserID act justification elevateErr a =
     (let detail = ''action='' @ act @ '' justification='' @ justification;
          (outcome, detail) = (case elevateErr of
             None \<Rightarrow> (''granted'', detail)
           | Some err \<Rightarrow> (''denied'', detail @ '' error='' @ gov_message err))
      in sink_Append P R ''RecordElevate'' now newid
           (sink_event tenantID KindAdmin uuid_Nil detail (actorFor P actorUserID) auditActionElevate act outcome) a)"

definition RecordAttest ::
  "platform \<Rightarrow> 'a Repository \<Rightarrow> time \<Rightarrow> uuid \<Rightarrow> uuid \<Rightarrow> uuid \<Rightarrow> uuid \<Rightarrow> AttestationDecision \<Rightarrow> gov_error option \<Rightarrow> 'a
    \<Rightarrow> (sink_error + Event) \<times> 'a" where
  "RecordAttest P R now newid tenantID actorUserID reviewID decision attestErr a =
     (let detail = ''review='' @ uuid_str P reviewID @ '' decision='' @ AttestationDecision_String decision;
          (outcome, detail) = (case attestErr of
             None \<Rightarrow> (''recorded'', detail)
           | Some err \<Rightarrow> (''denied'', detail @ '' error='' @ gov_message err))
      in sink_Append P R ''RecordAttest'' now newid
           (sink_event tenantID KindAdmin uuid_Nil detail (actorFor P actorUserID) auditActionAttest
              (uuid_str P reviewID) outcome) a)"

definition PrivilegedActivity ::
  "'a Repository \<Rightarrow> ctx \<Rightarrow> uuid \<Rightarrow> PrivilegedFilter \<Rightarrow> 'a \<Rightarrow> sink_error + Event list" where
  "PrivilegedActivity R c tenantID filt a =
     (case store_Query R c tenantID
             \<lparr>fl_Actor = pf_Actor filt, fl_CaseID = pf_CaseID filt, fl_Kinds = [], fl_Action = auditActionElevate,
              fl_Since = pf_Since filt, fl_Until = pf_Until filt, fl_Limit = pf_Limit filt\<rparr> a of
        Inl err \<Rightarrow> Inl (SinkWrapf ''PrivilegedActivity'' err)
      | Inr events \<Rightarrow> Inr events)"


section \<open>The engine\<close>

text \<open>
  A nil review repository and a nil sink are \<open>None\<close>. One call of the engine carries its
  context, reads the engine's clock and the audit store's, and draws an ID for a new record and
  one for the audit event.
\<close>

record ('s, 'a) Engine =
  en_policies :: "'s PolicyRepository"
  en_grants :: "'s CaseGrantRepository"
  en_elevate :: "'s GrantRepository"
  en_reviews :: "'s ReviewRepository option"
  en_audit :: "'a Repository option"
  en_platform :: platform

definition NewEngine ::
  "platform \<Rightarrow> 's PolicyRepository option \<Rightarrow> 's CaseGrantRepository option \<Rightarrow> 's GrantRepository option
    \<Rightarrow> 's ReviewRepository option \<Rightarrow> 'a Repository option \<Rightarrow> gov_error + ('s, 'a) Engine" where
  "NewEngine P policies grants elevate reviews audit =
     (case (policies, grants, elevate) of
        (Some p, Some g, Some e) \<Rightarrow>
          Inr \<lparr>en_policies = p, en_grants = g, en_elevate = e, en_reviews = reviews, en_audit = audit, en_platform = P\<rparr>
      | _ \<Rightarrow> Inl ErrNilStore)"

record gov_call =
  ca_ctx :: ctx
  ca_now :: time
  ca_newid :: uuid
  ca_audit_now :: time
  ca_audit_id :: uuid

definition record_with :: "('s, 'a) Engine \<Rightarrow> ('a Repository \<Rightarrow> 'a \<Rightarrow> (sink_error + Event) \<times> 'a) \<Rightarrow> 'a \<Rightarrow> 'a" where
  "record_with E rec a = (case en_audit E of None \<Rightarrow> a | Some R \<Rightarrow> snd (rec R a))"

definition decide :: "DecisionEffect \<Rightarrow> string \<Rightarrow> uuid \<Rightarrow> uuid \<Rightarrow> time \<Rightarrow> Decision" where
  "decide effect reason policyID grantID at =
     \<lparr>de_Effect = effect, de_Reason = reason, de_MatchedPolicyID = policyID, de_MatchedGrantID = grantID, de_EvaluatedAt = at\<rparr>"

definition actionToPermission :: "Action \<Rightarrow> string" where
  "actionToPermission a = a"

text \<open>The two loops over the grants of a case, and the scans of the elevations and of the policies.\<close>

definition case_grants_decision :: "CaseGrant list \<Rightarrow> Request \<Rightarrow> Decision option" where
  "case_grants_decision gs req =
     (let perm = actionToPermission (rq_Action req);
          live = (\<lambda>g. cg_GranteeUserID g = rq_ActorUserID req \<and> \<not> CaseGrant_IsExpired g (rq_Now req))
      in case List.find (\<lambda>g. live g \<and> deniesPermission g perm) gs of
           Some g \<Rightarrow> Some (decide EffectDeny ''case grant explicitly restricts this permission'' uuid_Nil (cg_ID g) (rq_Now req))
         | None \<Rightarrow>
             (case List.find (\<lambda>g. live g \<and> grantsPermission g perm) gs of
                Some g \<Rightarrow> Some (decide EffectAllow ''case grant permits this permission'' uuid_Nil (cg_ID g) (rq_Now req))
              | None \<Rightarrow> None))"

definition elevation_applies :: "Request \<Rightarrow> Grant \<Rightarrow> bool" where
  "elevation_applies req g =
     (if el_GranteeUserID g \<noteq> rq_ActorUserID req \<or> el_Action g \<noteq> rq_Action req then False
      else if el_CaseID g \<noteq> uuid_Nil \<and> el_CaseID g \<noteq> rq_CaseID req then False
      else \<not> Grant_IsExpired g (rq_Now req))"

definition policies_decision :: "Policy list \<Rightarrow> Request \<Rightarrow> Decision" where
  "policies_decision ps req =
     (case List.find (\<lambda>p. snd (Policy_evaluate (Some p) req) \<noteq> None) ps of
        Some p \<Rightarrow>
          let effect = fst (Policy_evaluate (Some p) req);
              reason = (if effect = EffectDeny then ''matched policy rule (deny)'' else ''matched policy rule'')
          in decide effect reason (pl_ID p) uuid_Nil (rq_Now req)
      | None \<Rightarrow> decide EffectDeny ''no policy or grant matched'' uuid_Nil uuid_Nil (rq_Now req))"

definition evaluateLocked :: "('s, 'a) Engine \<Rightarrow> Request \<Rightarrow> 's \<Rightarrow> Decision \<times> gov_error option" where
  "evaluateLocked E req s =
     (let failed = (\<lambda>reason err. (decide EffectDeny reason uuid_Nil uuid_Nil (rq_Now req), Some (Wrapf ''Evaluate'' err)));
          rest =
            (case el_ListActive (en_elevate E) (rq_TenantID req) (rq_Now req) s of
               Inl err \<Rightarrow> failed ''elevation lookup failed'' err
             | Inr elevations \<Rightarrow>
                 (case List.find (elevation_applies req) elevations of
                    Some g \<Rightarrow> (decide EffectAllow ''just-in-time elevation grant permits this action'' uuid_Nil (el_ID g) (rq_Now req), None)
                  | None \<Rightarrow>
                      (case pl_List (en_policies E) (rq_TenantID req) s of
                         Inl err \<Rightarrow> failed ''policy lookup failed'' err
                       | Inr policies \<Rightarrow> (policies_decision policies req, None))))
      in if rq_CaseID req \<noteq> uuid_Nil
         then (case cg_ListForCase (en_grants E) (rq_TenantID req) (rq_CaseID req) s of
                 Inl err \<Rightarrow> failed ''grant lookup failed'' err
               | Inr caseGrants \<Rightarrow>
                   (case case_grants_decision caseGrants req of
                      Some d \<Rightarrow> (d, None)
                    | None \<Rightarrow> rest))
         else rest)"

definition Evaluate ::
  "('s, 'a) Engine \<Rightarrow> gov_call \<Rightarrow> Request \<Rightarrow> 's \<times> 'a \<Rightarrow> (Decision \<times> gov_error option) \<times> ('s \<times> 'a)" where
  "Evaluate E call req st =
     (case Request_Validate req of
        Some err \<Rightarrow> ((no_Decision, Some err), st)
      | None \<Rightarrow>
          (case authorizeActor (ca_ctx call) of
             Inl err \<Rightarrow> ((no_Decision, Some err), st)
           | Inr user \<Rightarrow>
               (case requireUserTenant user (rq_TenantID req) of
                  Some err \<Rightarrow> ((no_Decision, Some err), st)
                | None \<Rightarrow>
                    let req = (if rq_Now req = zero_time then req\<lparr>rq_Now := ca_now call\<rparr> else req);
                        (dec, evalErr) = evaluateLocked E req (fst st)
                    in ((dec, evalErr),
                        (fst st, record_with E (\<lambda>R. RecordEvaluate (en_platform E) R (ca_audit_now call) (ca_audit_id call)
                                                  (rq_TenantID req) req dec) (snd st))))))"

definition prepare_elevation :: "gov_call \<Rightarrow> User \<Rightarrow> uuid \<Rightarrow> uuid \<Rightarrow> Action \<Rightarrow> uuid \<Rightarrow> string \<Rightarrow> duration \<Rightarrow> Grant" where
  "prepare_elevation call user tenantID granteeUserID act caseID justification ttl =
     (let ttl = (if ttl \<le> 0 then DefaultElevationTTL else ttl)
      in \<lparr>el_ID = ca_newid call, el_TenantID = tenantID, el_GranteeUserID = granteeUserID, el_Action = act,
          el_CaseID = caseID, el_Justification = justification, el_GrantedAt = ca_now call,
          el_ExpiresAt = ca_now call + ttl, el_RequestedBy = us_ID user, el_RevokedAt = None\<rparr>)"

definition Elevate ::
  "('s, 'a) Engine \<Rightarrow> gov_call \<Rightarrow> uuid \<Rightarrow> uuid \<Rightarrow> Action \<Rightarrow> uuid \<Rightarrow> string \<Rightarrow> duration \<Rightarrow> 's \<times> 'a
    \<Rightarrow> (gov_error + Grant) \<times> ('s \<times> 'a)" where
  "Elevate E call tenantID granteeUserID act caseID justification ttl st =
     (let rec = (\<lambda>actor err s. (s, record_with E (\<lambda>R. RecordElevate (en_platform E) R (ca_audit_now call) (ca_audit_id call)
                                                 tenantID actor act justification err) (snd st)))
      in case authorizeManage (ca_ctx call) of
           Inl err \<Rightarrow> (Inl err, rec (case UserFromContext (ca_ctx call) of None \<Rightarrow> uuid_Nil | Some u \<Rightarrow> us_ID u) (Some err) (fst st))
         | Inr user \<Rightarrow>
             (case requireUserTenant user tenantID of
                Some err \<Rightarrow> (Inl err, rec (us_ID user) (Some err) (fst st))
              | None \<Rightarrow>
                  let grant = prepare_elevation call user tenantID granteeUserID act caseID justification ttl
                  in (case Grant_Validate (Some grant) of
                        Some err \<Rightarrow> (Inl err, rec (us_ID user) (Some err) (fst st))
                      | None \<Rightarrow>
                          (case el_Create (en_elevate E) tenantID (Some grant) (fst st) of
                             (Some err, s) \<Rightarrow> (Inl (Wrapf ''Elevate'' err), rec (us_ID user) (Some (Wrapf ''Elevate'' err)) s)
                           | (None, s) \<Rightarrow> (Inr grant, rec (us_ID user) None s)))))"

text \<open>The guard shared by the administrative calls: a manager of the tenant.\<close>

definition manager_of :: "gov_call \<Rightarrow> uuid \<Rightarrow> gov_error + User" where
  "manager_of call tenantID =
     (case authorizeManage (ca_ctx call) of
        Inl err \<Rightarrow> Inl err
      | Inr user \<Rightarrow> (case requireUserTenant user tenantID of Some err \<Rightarrow> Inl err | None \<Rightarrow> Inr user))"

definition prepare_policy :: "gov_call \<Rightarrow> User \<Rightarrow> uuid \<Rightarrow> Policy \<Rightarrow> Policy" where
  "prepare_policy call user tenantID p =
     (let p = p\<lparr>pl_TenantID := tenantID\<rparr>;
          p = (if pl_ID p = uuid_Nil then p\<lparr>pl_ID := ca_newid call\<rparr> else p);
          p = (if pl_CreatedBy p = uuid_Nil then p\<lparr>pl_CreatedBy := us_ID user\<rparr> else p);
          p = (if pl_CreatedAt p = zero_time then p\<lparr>pl_CreatedAt := ca_now call\<rparr> else p)
      in p\<lparr>pl_UpdatedAt := ca_now call\<rparr>)"

definition CreatePolicy ::
  "('s, 'a) Engine \<Rightarrow> gov_call \<Rightarrow> uuid \<Rightarrow> Policy \<Rightarrow> 's \<times> 'a \<Rightarrow> (gov_error + Policy) \<times> ('s \<times> 'a)" where
  "CreatePolicy E call tenantID p st =
     (case manager_of call tenantID of
        Inl err \<Rightarrow> (Inl err, st)
      | Inr user \<Rightarrow>
          let p = prepare_policy call user tenantID p
          in (case Policy_Validate (Some p) of
                Some err \<Rightarrow> (Inl err, st)
              | None \<Rightarrow>
                  (case pl_Create (en_policies E) tenantID (Some p) (fst st) of
                     (Some err, s) \<Rightarrow> (Inl (Wrapf ''CreatePolicy'' err), (s, snd st))
                   | (None, s) \<Rightarrow> (Inr p, (s, snd st)))))"

definition ActivatePolicy ::
  "('s, 'a) Engine \<Rightarrow> gov_call \<Rightarrow> uuid \<Rightarrow> uuid \<Rightarrow> bool \<Rightarrow> 's \<times> 'a \<Rightarrow> (gov_error + Policy) \<times> ('s \<times> 'a)" where
  "ActivatePolicy E call tenantID policyID active st =
     (case manager_of call tenantID of
        Inl err \<Rightarrow> (Inl err, st)
      | Inr user \<Rightarrow>
          (case pl_Get (en_policies E) tenantID policyID (fst st) of
             Inl err \<Rightarrow> (Inl err, st)
           | Inr p \<Rightarrow>
               let p = p\<lparr>pl_Active := active, pl_UpdatedAt := ca_now call\<rparr>
               in (case pl_Update (en_policies E) tenantID (Some p) (fst st) of
                     (Some err, s) \<Rightarrow> (Inl (Wrapf ''ActivatePolicy'' err), (s, snd st))
                   | (None, s) \<Rightarrow> (Inr p, (s, snd st)))))"

definition prepare_grant :: "gov_call \<Rightarrow> User \<Rightarrow> uuid \<Rightarrow> CaseGrant \<Rightarrow> CaseGrant" where
  "prepare_grant call user tenantID g =
     (let g = g\<lparr>cg_TenantID := tenantID\<rparr>;
          g = (if cg_ID g = uuid_Nil then g\<lparr>cg_ID := ca_newid call\<rparr> else g);
          g = (if cg_GrantedAt g = zero_time then g\<lparr>cg_GrantedAt := ca_now call\<rparr> else g)
      in (if cg_GrantedBy g = uuid_Nil then g\<lparr>cg_GrantedBy := us_ID user\<rparr> else g))"

definition GrantCaseAccess ::
  "('s, 'a) Engine \<Rightarrow> gov_call \<Rightarrow> uuid \<Rightarrow> CaseGrant \<Rightarrow> 's \<times> 'a \<Rightarrow> (gov_error + CaseGrant) \<times> ('s \<times> 'a)" where
  "GrantCaseAccess E call tenantID g st =
     (case manager_of call tenantID of
        Inl err \<Rightarrow> (Inl err, st)
      | Inr user \<Rightarrow>
          let g = prepare_grant call user tenantID g
          in (case CaseGrant_Validate (Some g) of
                Some err \<Rightarrow> (Inl err, st)
              | None \<Rightarrow>
                  (case cg_Create (en_grants E) tenantID (Some g) (fst st) of
                     (Some err, s) \<Rightarrow> (Inl (Wrapf ''GrantCaseAccess'' err), (s, snd st))
                   | (None, s) \<Rightarrow> (Inr g, (s, snd st)))))"

definition RevokeCaseAccess ::
  "('s, 'a) Engine \<Rightarrow> gov_call \<Rightarrow> uuid \<Rightarrow> uuid \<Rightarrow> 's \<times> 'a \<Rightarrow> gov_error option \<times> ('s \<times> 'a)" where
  "RevokeCaseAccess E call tenantID grantID st =
     (case manager_of call tenantID of
        Inl err \<Rightarrow> (Some err, st)
      | Inr user \<Rightarrow>
          (case cg_Revoke (en_grants E) tenantID grantID (ca_now call) (fst st) of
             (Some err, s) \<Rightarrow> (Some (Wrapf ''RevokeCaseAccess'' err), (s, snd st))
           | (None, s) \<Rightarrow> (None, (s, snd st))))"

section \<open>Reviews and certification\<close>

definition prepare_review :: "gov_call \<Rightarrow> uuid \<Rightarrow> GrantKind \<Rightarrow> uuid \<Rightarrow> uuid \<Rightarrow> time \<Rightarrow> AccessReview" where
  "prepare_review call tenantID subjectKind subjectID requestedBy dueAt =
     \<lparr>rv_ID = ca_newid call, rv_TenantID = tenantID, rv_SubjectKind = subjectKind, rv_SubjectID = subjectID,
      rv_RequestedBy = requestedBy, rv_DueAt = dueAt, rv_Decision = AttestationOther [],
      rv_AttestedBy = uuid_Nil, rv_AttestedAt = None, rv_Notes = [], rv_CreatedAt = ca_now call\<rparr>"

definition ScheduleReview ::
  "('s, 'a) Engine \<Rightarrow> gov_call \<Rightarrow> uuid \<Rightarrow> GrantKind \<Rightarrow> uuid \<Rightarrow> uuid \<Rightarrow> time \<Rightarrow> 's \<times> 'a
    \<Rightarrow> (gov_error + AccessReview) \<times> ('s \<times> 'a)" where
  "ScheduleReview E call tenantID subjectKind subjectID requestedBy dueAt st =
     (case en_reviews E of
        None \<Rightarrow> (Inl ErrNilStore, st)
      | Some RV \<Rightarrow>
          (case manager_of call tenantID of
             Inl err \<Rightarrow> (Inl err, st)
           | Inr user \<Rightarrow>
               let rv = prepare_review call tenantID subjectKind subjectID requestedBy dueAt
               in (case AccessReview_Validate (Some rv) of
                     Some err \<Rightarrow> (Inl err, st)
                   | None \<Rightarrow>
                       (case rv_Create RV tenantID (Some rv) (fst st) of
                          (Some err, s) \<Rightarrow> (Inl (Wrapf ''ScheduleReview'' err), (s, snd st))
                        | (None, s) \<Rightarrow> (Inr rv, (s, snd st))))))"

definition reviewer_of :: "gov_call \<Rightarrow> uuid \<Rightarrow> gov_error + User" where
  "reviewer_of call tenantID =
     (case authorizeActor (ca_ctx call) of
        Inl err \<Rightarrow> Inl err
      | Inr user \<Rightarrow>
          if \<not> User_HasPermission user reviewPermission then Inl ErrForbidden
          else (case requireUserTenant user tenantID of Some err \<Rightarrow> Inl err | None \<Rightarrow> Inr user))"

definition ListDueReviews ::
  "('s, 'a) Engine \<Rightarrow> gov_call \<Rightarrow> uuid \<Rightarrow> time \<Rightarrow> 's \<times> 'a \<Rightarrow> gov_error + AccessReview list" where
  "ListDueReviews E call tenantID asOf st =
     (case en_reviews E of
        None \<Rightarrow> Inl ErrNilStore
      | Some RV \<Rightarrow>
          (case reviewer_of call tenantID of
             Inl err \<Rightarrow> Inl err
           | Inr user \<Rightarrow>
               (case rv_ListDue RV tenantID asOf (fst st) of
                  Inl err \<Rightarrow> Inl (Wrapf ''ListDueReviews'' err)
                | Inr list \<Rightarrow> Inr list)))"

definition revokeSubject ::
  "('s, 'a) Engine \<Rightarrow> uuid \<Rightarrow> GrantKind \<Rightarrow> uuid \<Rightarrow> time \<Rightarrow> 's \<Rightarrow> gov_error option \<times> 's" where
  "revokeSubject E tenantID kind subjectID now s =
     (case kind of
        GrantKindCase \<Rightarrow> cg_Revoke (en_grants E) tenantID subjectID now s
      | GrantKindElevation \<Rightarrow> el_Revoke (en_elevate E) tenantID subjectID now s
      | GrantKindOther _ \<Rightarrow> (Some ErrInvalidGrant, s))"

definition settle :: "time \<Rightarrow> User \<Rightarrow> AttestationDecision \<Rightarrow> string \<Rightarrow> AccessReview \<Rightarrow> AccessReview" where
  "settle now u d notes r =
     r\<lparr>rv_Decision := d, rv_AttestedBy := us_ID u, rv_AttestedAt := Some now, rv_Notes := notes\<rparr>"

lemma settle_simps [simp]:
  "rv_ID (settle now u d notes r) = rv_ID r" "rv_TenantID (settle now u d notes r) = rv_TenantID r"
  "rv_SubjectKind (settle now u d notes r) = rv_SubjectKind r" "rv_SubjectID (settle now u d notes r) = rv_SubjectID r"
  "rv_RequestedBy (settle now u d notes r) = rv_RequestedBy r" "rv_Decision (settle now u d notes r) = d"
  "rv_AttestedBy (settle now u d notes r) = us_ID u"
  by (simp_all add: settle_def)

text \<open>\<open>Attest\<close> from the lookup of the review on.\<close>

definition attest_review ::
  "('s, 'a) Engine \<Rightarrow> 's ReviewRepository \<Rightarrow> User \<Rightarrow> uuid \<Rightarrow> uuid \<Rightarrow> AttestationDecision \<Rightarrow> string \<Rightarrow> time \<Rightarrow> 's
    \<Rightarrow> (gov_error + AccessReview) \<times> 's" where
  "attest_review E RV user tenantID reviewID decision notes now s =
     (case rv_Get RV tenantID reviewID s of
        Inl err \<Rightarrow> (Inl err, s)
      | Inr rv \<Rightarrow>
          if \<not> IsPending rv then (Inl ErrReviewAlreadyDecided, s)
          else if CheckConflict \<lparr>cc_RequestedBy = rv_RequestedBy rv, cc_ActingUserID = us_ID user, cc_SoleAuthor = False\<rparr> None \<noteq> []
          then (Inl ErrSegregationOfDuties, s)
          else
            let rv = settle now user decision notes rv
            in (case rv_Update RV tenantID (Some rv) s of
                  (Some err, s) \<Rightarrow> (Inl (Wrapf ''Attest'' err), s)
                | (None, s) \<Rightarrow>
                    if decision = AttestationRevoke
                    then (case revokeSubject E tenantID (rv_SubjectKind rv) (rv_SubjectID rv) now s of
                            (Some err, s) \<Rightarrow> (Inl (Wrapf ''Attest'' err), s)
                          | (None, s) \<Rightarrow> (Inr rv, s))
                    else (Inr rv, s)))"

definition error_of :: "'e + 'b \<Rightarrow> 'e option" where
  "error_of r = (case r of Inl err \<Rightarrow> Some err | Inr _ \<Rightarrow> None)"

definition Attest ::
  "('s, 'a) Engine \<Rightarrow> gov_call \<Rightarrow> uuid \<Rightarrow> uuid \<Rightarrow> AttestationDecision \<Rightarrow> string \<Rightarrow> 's \<times> 'a
    \<Rightarrow> (gov_error + AccessReview) \<times> ('s \<times> 'a)" where
  "Attest E call tenantID reviewID decision notes st =
     (case en_reviews E of
        None \<Rightarrow> (Inl ErrNilStore, st)
      | Some RV \<Rightarrow>
          if \<not> AttestationDecision_IsValid decision then (Inl ErrInvalidAttestationDecision, st)
          else (case authorizeActor (ca_ctx call) of
            Inl err \<Rightarrow> (Inl err, st)
          | Inr user \<Rightarrow>
              let (r, s) =
                (if \<not> User_HasPermission user reviewPermission then (Inl ErrForbidden, fst st)
                 else (case requireUserTenant user tenantID of
                         Some err \<Rightarrow> (Inl err, fst st)
                       | None \<Rightarrow> attest_review E RV user tenantID reviewID decision notes (ca_now call) (fst st)))
              in (r, (s, record_with E (\<lambda>R. RecordAttest (en_platform E) R (ca_audit_now call) (ca_audit_id call)
                                          tenantID (us_ID user) reviewID decision (error_of r)) (snd st)))))"

definition Certify ::
  "('s, 'a) Engine \<Rightarrow> gov_call \<Rightarrow> uuid \<Rightarrow> Period \<Rightarrow> 's \<times> 'a \<Rightarrow> gov_error + Report" where
  "Certify E call tenantID period st =
     (case Period_Validate period of
        Some err \<Rightarrow> Inl err
      | None \<Rightarrow>
          (case reviewer_of call tenantID of
             Inl err \<Rightarrow> Inl err
           | Inr user \<Rightarrow>
               (case cg_ListAll (en_grants E) tenantID (fst st) of
                  Inl err \<Rightarrow> Inl (Wrapf ''Certify'' err)
                | Inr allGrants \<Rightarrow>
                    (case el_ListAll (en_elevate E) tenantID (fst st) of
                       Inl err \<Rightarrow> Inl (Wrapf ''Certify'' err)
                     | Inr allElevations \<Rightarrow>
                         (case (case en_reviews E of None \<Rightarrow> Inr [] | Some RV \<Rightarrow> rv_ListAll RV tenantID (fst st)) of
                            Inl err \<Rightarrow> Inl (Wrapf ''Certify'' err)
                          | Inr allReviews \<Rightarrow>
                              Inr \<lparr>rt_TenantID = tenantID, rt_Period = period, rt_GeneratedAt = ca_now call,
                                   rt_CaseGrants = filter (\<lambda>g. Period_Contains period (cg_GrantedAt g)) allGrants,
                                   rt_Elevations = filter (\<lambda>g. Period_Contains period (el_GrantedAt g)) allElevations,
                                   rt_Reviews = filter (\<lambda>r. Period_Contains period (rv_CreatedAt r)) allReviews\<rparr>)))))"

section \<open>Dry runs of a policy\<close>

record Scenario =
  sc_Name :: string
  sc_Request :: Request
  sc_WantEffect :: DecisionEffect

record ScenarioResult =
  re_Name :: string
  re_Got :: DecisionEffect
  re_Want :: DecisionEffect
  re_MatchedRule :: bool
  re_Passed :: bool

record ScenarioResults =
  rs_Total :: nat
  rs_Passed :: nat
  rs_Failed :: nat
  rs_Cases :: "ScenarioResult list"

definition AllPassed :: "ScenarioResults \<Rightarrow> bool" where
  "AllPassed r \<longleftrightarrow> rs_Total r > 0 \<and> rs_Failed r = 0"

definition run_scenario :: "Policy \<Rightarrow> Scenario \<Rightarrow> ScenarioResult" where
  "run_scenario candidate sc =
     (let (effect, rule) = Policy_evaluate (Some candidate) (sc_Request sc)
      in \<lparr>re_Name = sc_Name sc, re_Got = effect, re_Want = sc_WantEffect sc, re_MatchedRule = (rule \<noteq> None),
          re_Passed = (effect = sc_WantEffect sc)\<rparr>)"

fun tally :: "Policy \<Rightarrow> Scenario list \<Rightarrow> ScenarioResults \<Rightarrow> ScenarioResults" where
  "tally candidate [] results = results"
| "tally candidate (sc # scs) results =
     (let res = run_scenario candidate sc;
          results = results\<lparr>rs_Cases := rs_Cases results @ [res], rs_Total := rs_Total results + 1\<rparr>
      in tally candidate scs
           (if re_Passed res then results\<lparr>rs_Passed := rs_Passed results + 1\<rparr>
            else results\<lparr>rs_Failed := rs_Failed results + 1\<rparr>))"

definition TestPolicy :: "Policy \<Rightarrow> Scenario list \<Rightarrow> gov_error + ScenarioResults" where
  "TestPolicy policy scenarios =
     (case Policy_Validate (Some policy) of
        Some err \<Rightarrow> Inl err
      | None \<Rightarrow>
          let candidate = policy\<lparr>pl_Active := True\<rparr>
          in Inr (tally candidate scenarios \<lparr>rs_Total = 0, rs_Passed = 0, rs_Failed = 0, rs_Cases = []\<rparr>))"

section \<open>Calls of the engine\<close>

datatype gov_op = OpEvaluate Request | OpElevate uuid uuid Action uuid string duration | OpCreatePolicy uuid Policy
  | OpActivatePolicy uuid uuid bool | OpGrantCaseAccess uuid CaseGrant | OpRevokeCaseAccess uuid uuid
  | OpScheduleReview uuid GrantKind uuid uuid time | OpAttest uuid uuid AttestationDecision string

datatype gov_answer = Decided Decision "gov_error option" | Elevated Grant | PolicySet Policy | CaseGranted CaseGrant
  | Revoked | ReviewSet AccessReview | Failed gov_error

definition answer :: "('v \<Rightarrow> gov_answer) \<Rightarrow> (gov_error + 'v) \<times> 'st \<Rightarrow> gov_answer \<times> 'st" where
  "answer f = map_prod (case_sum Failed f) id"

lemma answer_simps [simp]: "answer f (Inl err, st) = (Failed err, st)" "answer f (Inr v, st) = (f v, st)"
  by (simp_all add: answer_def)

fun gov_step :: "('s, 'a) Engine \<Rightarrow> gov_call \<Rightarrow> gov_op \<Rightarrow> 's \<times> 'a \<Rightarrow> gov_answer \<times> ('s \<times> 'a)" where
  "gov_step E call (OpEvaluate req) st = map_prod (case_prod Decided) id (Evaluate E call req st)"
| "gov_step E call (OpElevate t g act c j ttl) st = answer Elevated (Elevate E call t g act c j ttl st)"
| "gov_step E call (OpCreatePolicy t p) st = answer PolicySet (CreatePolicy E call t p st)"
| "gov_step E call (OpActivatePolicy t i active) st = answer PolicySet (ActivatePolicy E call t i active st)"
| "gov_step E call (OpGrantCaseAccess t g) st = answer CaseGranted (GrantCaseAccess E call t g st)"
| "gov_step E call (OpRevokeCaseAccess t i) st =
     map_prod (\<lambda>e. case e of None \<Rightarrow> Revoked | Some err \<Rightarrow> Failed err) id (RevokeCaseAccess E call t i st)"
| "gov_step E call (OpScheduleReview t k i u due) st = answer ReviewSet (ScheduleReview E call t k i u due st)"
| "gov_step E call (OpAttest t i d notes) st = answer ReviewSet (Attest E call t i d notes st)"

end
