(* ===== verification/GovernanceRuns.thy ===== *)
theory GovernanceRuns
  imports AccessGovernance
begin

text \<open>
  What the engine of \<open>AccessGovernance\<close> guarantees: the effect of each call on the records as an
  abstract relation which the engine refines over any repositories that keep their contract, the
  precedence of its decisions, and the properties of its runs.
\<close>

section \<open>What a call does to the records\<close>

text \<open>
  The records of all tenants as four sets. \<open>gov_effect\<close> is what the engine promises: which
  record a call may store, and who must have made it.
\<close>

record gov_view =
  gv_policies :: "Policy set"
  gv_grants :: "CaseGrant set"
  gv_elevations :: "Grant set"
  gv_reviews :: "AccessReview set"

definition store_in :: "('r \<Rightarrow> uuid) \<Rightarrow> 'r \<Rightarrow> 'r set \<Rightarrow> 'r set" where
  "store_in key r R = insert r {q \<in> R. key q \<noteq> key r}"

definition revoke_in :: "('r \<Rightarrow> uuid) \<Rightarrow> ('r \<Rightarrow> 'r) \<Rightarrow> uuid \<Rightarrow> 'r set \<Rightarrow> 'r set" where
  "revoke_in key revoke i R = {r \<in> R. key r \<noteq> i} \<union> revoke ` {r \<in> R. key r = i}"

definition revoke_case :: "time \<Rightarrow> uuid \<Rightarrow> gov_view \<Rightarrow> gov_view" where
  "revoke_case at i V = V\<lparr>gv_grants := revoke_in cg_ID (\<lambda>g. g\<lparr>cg_RevokedAt := Some at\<rparr>) i (gv_grants V)\<rparr>"

definition revoke_elevation :: "time \<Rightarrow> uuid \<Rightarrow> gov_view \<Rightarrow> gov_view" where
  "revoke_elevation at i V = V\<lparr>gv_elevations := revoke_in el_ID (\<lambda>g. g\<lparr>el_RevokedAt := Some at\<rparr>) i (gv_elevations V)\<rparr>"

fun revoke_subject :: "GrantKind \<Rightarrow> time \<Rightarrow> uuid \<Rightarrow> gov_view \<Rightarrow> gov_view" where
  "revoke_subject GrantKindCase at i V = revoke_case at i V"
| "revoke_subject GrantKindElevation at i V = revoke_elevation at i V"
| "revoke_subject (GrantKindOther _) at i V = V"

inductive gov_effect :: "gov_call \<Rightarrow> gov_op \<Rightarrow> gov_answer \<Rightarrow> gov_view \<Rightarrow> gov_view \<Rightarrow> bool" where
  evaluated: "gov_effect call (OpEvaluate req) (Decided d e) V V"
| failed: "gov_effect call op (Failed err) V V"
| policy_created: "manager_of call t = Inr u \<Longrightarrow> pl_TenantID p = t \<Longrightarrow> Policy_Validate (Some p) = None \<Longrightarrow>
    gov_effect call (OpCreatePolicy t p0) (PolicySet p) V (V\<lparr>gv_policies := store_in pl_ID p (gv_policies V)\<rparr>)"
| policy_switched: "manager_of call t = Inr u \<Longrightarrow> q \<in> gv_policies V \<Longrightarrow> pl_ID q = i \<Longrightarrow> pl_TenantID q = t \<Longrightarrow>
    p = q\<lparr>pl_Active := active, pl_UpdatedAt := ca_now call\<rparr> \<Longrightarrow>
    gov_effect call (OpActivatePolicy t i active) (PolicySet p) V (V\<lparr>gv_policies := store_in pl_ID p (gv_policies V)\<rparr>)"
| case_granted: "manager_of call t = Inr u \<Longrightarrow> cg_TenantID g = t \<Longrightarrow> CaseGrant_Validate (Some g) = None \<Longrightarrow>
    cg_ID g = (if cg_ID g0 = uuid_Nil then ca_newid call else cg_ID g0) \<Longrightarrow>
    gov_effect call (OpGrantCaseAccess t g0) (CaseGranted g) V (V\<lparr>gv_grants := store_in cg_ID g (gv_grants V)\<rparr>)"
| case_revoked: "manager_of call t = Inr u \<Longrightarrow>
    gov_effect call (OpRevokeCaseAccess t i) Revoked V (revoke_case (ca_now call) i V)"
| elevated: "manager_of call t = Inr u \<Longrightarrow> el_TenantID g = t \<Longrightarrow> Grant_Validate (Some g) = None \<Longrightarrow>
    el_ID g = ca_newid call \<Longrightarrow> el_RequestedBy g = us_ID u \<Longrightarrow> el_RevokedAt g = None \<Longrightarrow>
    gov_effect call (OpElevate t gr act c j ttl) (Elevated g) V (V\<lparr>gv_elevations := store_in el_ID g (gv_elevations V)\<rparr>)"
| scheduled: "manager_of call t = Inr u \<Longrightarrow> rv_TenantID r = t \<Longrightarrow> rv_ID r = ca_newid call \<Longrightarrow> IsPending r \<Longrightarrow>
    gov_effect call (OpScheduleReview t k i rq due) (ReviewSet r) V (V\<lparr>gv_reviews := store_in rv_ID r (gv_reviews V)\<rparr>)"
| attested: "reviewer_of call t = Inr u \<Longrightarrow> r \<in> gv_reviews V \<Longrightarrow> rv_TenantID r = t \<Longrightarrow> rv_ID r = i \<Longrightarrow> IsPending r \<Longrightarrow>
    AttestationDecision_IsValid d \<Longrightarrow> us_ID u \<noteq> rv_RequestedBy r \<or> rv_RequestedBy r = uuid_Nil \<Longrightarrow>
    ans = ReviewSet (settle (ca_now call) u d nt r) \<and> W = (if d = AttestationRevoke then revoke_subject (rv_SubjectKind r) (ca_now call) (rv_SubjectID r) V else V)
      \<or> (\<exists>err. ans = Failed err \<and> d = AttestationRevoke \<and> W = V) \<Longrightarrow>
    gov_effect call (OpAttest t i d nt) ans V (W\<lparr>gv_reviews := store_in rv_ID (settle (ca_now call) u d nt r) (gv_reviews V)\<rparr>)"

inductive_cases gov_effectE: "gov_effect call op ans V V'"

text \<open>
  What a decision is to be, in terms of the records alone: the rules of the first level that has
  one. \<open>denial\<close>, \<open>permit\<close>, \<open>elevation\<close> and \<open>applicable\<close> say that a record speaks about a request.
\<close>

definition concerns :: "Request \<Rightarrow> CaseGrant \<Rightarrow> bool" where
  "concerns req g \<longleftrightarrow> rq_CaseID req \<noteq> uuid_Nil \<and> cg_CaseID g = rq_CaseID req \<and> cg_TenantID g = rq_TenantID req \<and>
     cg_GranteeUserID g = rq_ActorUserID req \<and> cg_RevokedAt g = None \<and> rq_Now req < cg_ExpiresAt g"

definition denial :: "Request \<Rightarrow> gov_view \<Rightarrow> CaseGrant \<Rightarrow> bool" where
  "denial req V g \<longleftrightarrow> g \<in> gv_grants V \<and> concerns req g \<and> cg_Deny g \<and> (cg_Permissions g = [] \<or> rq_Action req \<in> set (cg_Permissions g))"

definition permit :: "Request \<Rightarrow> gov_view \<Rightarrow> CaseGrant \<Rightarrow> bool" where
  "permit req V g \<longleftrightarrow> g \<in> gv_grants V \<and> concerns req g \<and> \<not> cg_Deny g \<and> rq_Action req \<in> set (cg_Permissions g)"

definition elevation :: "Request \<Rightarrow> gov_view \<Rightarrow> Grant \<Rightarrow> bool" where
  "elevation req V g \<longleftrightarrow> g \<in> gv_elevations V \<and> el_TenantID g = rq_TenantID req \<and> el_GranteeUserID g = rq_ActorUserID req \<and>
     el_Action g = rq_Action req \<and> el_CaseID g \<in> {uuid_Nil, rq_CaseID req} \<and> el_RevokedAt g = None \<and> rq_Now req < el_ExpiresAt g"

definition applicable :: "Request \<Rightarrow> gov_view \<Rightarrow> Policy \<Rightarrow> bool" where
  "applicable req V p \<longleftrightarrow> p \<in> gv_policies V \<and> pl_TenantID p = rq_TenantID req \<and> pl_Active p \<and> (\<exists>r\<in>set (pl_Rules p). rule_matches r req)"

definition verdict_of :: "Policy \<Rightarrow> Request \<Rightarrow> DecisionEffect" where
  "verdict_of p req = fst (Policy_evaluate (Some p) req)"

definition decided :: "Request \<Rightarrow> gov_view \<Rightarrow> Decision \<Rightarrow> bool" where
  "decided req V d \<longleftrightarrow> de_EvaluatedAt d = rq_Now req \<and>
     (if \<exists>g. denial req V g then de_Effect d = EffectDeny \<and> (\<exists>g. denial req V g \<and> de_MatchedGrantID d = cg_ID g)
      else if \<exists>g. permit req V g then de_Effect d = EffectAllow \<and> (\<exists>g. permit req V g \<and> de_MatchedGrantID d = cg_ID g)
      else if \<exists>g. elevation req V g then de_Effect d = EffectAllow \<and> (\<exists>g. elevation req V g \<and> de_MatchedGrantID d = el_ID g)
      else if \<exists>p. applicable req V p then \<exists>p. applicable req V p \<and> de_Effect d = verdict_of p req \<and> de_MatchedPolicyID d = pl_ID p
      else de_Effect d = EffectDeny \<and> de_MatchedPolicyID d = uuid_Nil \<and> de_MatchedGrantID d = uuid_Nil)"

lemma find_None: "List.find Q xs = None \<Longrightarrow> x \<in> set xs \<Longrightarrow> \<not> Q x"
  by (simp add: find_None_iff)

lemma find_Some: "List.find Q xs = Some x \<Longrightarrow> x \<in> set xs \<and> Q x"
  by (auto simp: find_Some_iff)

lemma Policy_evaluate_applies: "snd (Policy_evaluate (Some p) req) \<noteq> None \<longleftrightarrow> pl_Active p \<and> (\<exists>r\<in>set (pl_Rules p). rule_matches r req)"
  by (auto simp: Policy_evaluate_def find_None_iff dest: find_Some split: option.splits)

lemma case_decision:
  assumes "rq_CaseID req \<noteq> uuid_Nil"
    and gs: "set gs = {g \<in> gv_grants V. cg_TenantID g = rq_TenantID req \<and> cg_CaseID g = rq_CaseID req}"
  shows "(case case_grants_decision gs req of
      Some d \<Rightarrow> decided req V d \<and> ((\<exists>g. denial req V g) \<or> (\<exists>g. permit req V g))
    | None \<Rightarrow> (\<nexists>g. denial req V g) \<and> (\<nexists>g. permit req V g))"
proof -
  let ?live = "\<lambda>g. cg_GranteeUserID g = rq_ActorUserID req \<and> \<not> CaseGrant_IsExpired g (rq_Now req)"
  have den: "denial req V g \<longleftrightarrow> g \<in> set gs \<and> ?live g \<and> deniesPermission g (rq_Action req)" for g
    using assms(1) by (auto simp: gs denial_def concerns_def deniesPermission_def CaseGrant_IsExpired_def)
  have per: "permit req V g \<longleftrightarrow> g \<in> set gs \<and> ?live g \<and> grantsPermission g (rq_Action req)" for g
    using assms(1) by (auto simp: gs permit_def concerns_def grantsPermission_def CaseGrant_IsExpired_def)
  show ?thesis
  proof (cases "List.find (\<lambda>g. ?live g \<and> deniesPermission g (rq_Action req)) gs")
    case (Some g)
    then have "denial req V g" using den find_Some by fast
    then show ?thesis by (auto simp: case_grants_decision_def actionToPermission_def Some [simplified] Let_def decided_def decide_def)
  next
    case None
    then have n: "\<nexists>g. denial req V g" using den find_None by fast
    show ?thesis
    proof (cases "List.find (\<lambda>g. ?live g \<and> grantsPermission g (rq_Action req)) gs")
      case (Some g)
      then have "permit req V g" using per find_Some by fast
      then show ?thesis using n
        by (auto simp: case_grants_decision_def actionToPermission_def None [simplified] Some [simplified] Let_def decided_def decide_def)
    next
      case None': None
      then have "\<nexists>g. permit req V g" using per find_None by fast
      then show ?thesis using n
        by (simp add: case_grants_decision_def actionToPermission_def None [simplified] None' [simplified] Let_def)
    qed
  qed
qed

lemma policies_decided:
  assumes n: "\<nexists>g. denial req V g" "\<nexists>g. permit req V g" "\<nexists>g. elevation req V g"
    and ps: "set ps = {p \<in> gv_policies V. pl_TenantID p = rq_TenantID req}"
  shows "decided req V (policies_decision ps req)"
proof -
  have app: "applicable req V p \<longleftrightarrow> p \<in> set ps \<and> snd (Policy_evaluate (Some p) req) \<noteq> None" for p
    unfolding Policy_evaluate_applies by (auto simp: ps applicable_def)
  show ?thesis
  proof (cases "List.find (\<lambda>p. snd (Policy_evaluate (Some p) req) \<noteq> None) ps")
    case (Some p)
    then have "applicable req V p" using app find_Some by fast
    then show ?thesis using n by (auto simp: policies_decision_def Some [simplified] Let_def decided_def decide_def verdict_of_def)
  next
    case None
    then have "\<nexists>p. applicable req V p" using app find_None by fast
    then show ?thesis using n by (simp add: policies_decision_def None [simplified] decided_def decide_def)
  qed
qed

section \<open>The contract of the repositories\<close>

locale governance_store =
  fixes E :: "('s, 'a) Engine" and view :: "'s \<Rightarrow> gov_view"
  assumes policies_law: "\<exists>ps. pl_List (en_policies E) t s = Inr ps \<and> set ps = {p \<in> gv_policies (view s). pl_TenantID p = t}"
    and policy_law: "pl_Get (en_policies E) t i s = Inr p \<Longrightarrow> p \<in> gv_policies (view s) \<and> pl_TenantID p = t \<and> pl_ID p = i"
    and create_policy_law: "pl_TenantID p = t \<Longrightarrow> t \<noteq> uuid_Nil \<Longrightarrow> pl_Create (en_policies E) t (Some p) s = (e, s') \<Longrightarrow>
      view s' = (if e = None then (view s)\<lparr>gv_policies := store_in pl_ID p (gv_policies (view s))\<rparr> else view s)"
    and update_policy_law: "pl_TenantID p = t \<Longrightarrow> pl_Update (en_policies E) t (Some p) s = (e, s') \<Longrightarrow>
      view s' = (if e = None then (view s)\<lparr>gv_policies := store_in pl_ID p (gv_policies (view s))\<rparr> else view s)"
    and case_grants_law: "\<exists>gs. cg_ListForCase (en_grants E) t c s = Inr gs \<and>
      set gs = {g \<in> gv_grants (view s). cg_TenantID g = t \<and> cg_CaseID g = c}"
    and create_grant_law: "cg_TenantID g = t \<Longrightarrow> t \<noteq> uuid_Nil \<Longrightarrow> cg_Create (en_grants E) t (Some g) s = (e, s') \<Longrightarrow>
      view s' = (if e = None then (view s)\<lparr>gv_grants := store_in cg_ID g (gv_grants (view s))\<rparr> else view s)"
    and revoke_grant_law: "cg_Revoke (en_grants E) t i at s = (e, s') \<Longrightarrow>
      view s' = (if e = None then revoke_case at i (view s) else view s)"
    and elevations_law: "\<exists>es. el_ListActive (en_elevate E) t now s = Inr es \<and>
      set es = {g \<in> gv_elevations (view s). el_TenantID g = t \<and> \<not> Grant_IsExpired g now}"
    and create_elevation_law: "el_TenantID h = t \<Longrightarrow> t \<noteq> uuid_Nil \<Longrightarrow> el_Create (en_elevate E) t (Some h) s = (e, s') \<Longrightarrow>
      view s' = (if e = None then (view s)\<lparr>gv_elevations := store_in el_ID h (gv_elevations (view s))\<rparr> else view s)"
    and revoke_elevation_law: "el_Revoke (en_elevate E) t i at s = (e, s') \<Longrightarrow>
      view s' = (if e = None then revoke_elevation at i (view s) else view s)"
    and review_law: "en_reviews E = Some RV \<Longrightarrow> rv_Get RV t i s = Inr r \<Longrightarrow>
      r \<in> gv_reviews (view s) \<and> rv_TenantID r = t \<and> rv_ID r = i"
    and create_review_law: "en_reviews E = Some RV \<Longrightarrow> rv_TenantID r = t \<Longrightarrow> t \<noteq> uuid_Nil \<Longrightarrow>
      rv_Create RV t (Some r) s = (e, s') \<Longrightarrow>
      view s' = (if e = None then (view s)\<lparr>gv_reviews := store_in rv_ID r (gv_reviews (view s))\<rparr> else view s)"
    and update_review_law: "en_reviews E = Some RV \<Longrightarrow> rv_TenantID r = t \<Longrightarrow> rv_Update RV t (Some r) s = (e, s') \<Longrightarrow>
      view s' = (if e = None then (view s)\<lparr>gv_reviews := store_in rv_ID r (gv_reviews (view s))\<rparr> else view s)"
begin

lemma Evaluate_frame: "fst (snd (Evaluate E call req (s, a))) = s"
  by (simp add: Evaluate_def Let_def split: option.splits sum.splits prod.splits)

lemma CreatePolicy_effect:
  "gov_effect call (OpCreatePolicy t p0) (fst (gov_step E call (OpCreatePolicy t p0) (s, a)))
     (view s) (view (fst (snd (gov_step E call (OpCreatePolicy t p0) (s, a)))))"
proof (cases "manager_of call t")
  case (Inr u)
  let ?p = "prepare_policy call u t p0"
  have t: "pl_TenantID ?p = t" by (simp add: prepare_policy_def Let_def)
  show ?thesis
  proof (cases "Policy_Validate (Some ?p)")
    case None
    then have "t \<noteq> uuid_Nil" using t by (auto simp: Policy_Validate_def)
    moreover obtain e s' where "pl_Create (en_policies E) t (Some ?p) s = (e, s')" by fastforce
    ultimately show ?thesis using create_policy_law [OF t] Inr None t
      by (cases e) (auto simp: CreatePolicy_def Let_def intro!: gov_effect.intros)
  qed (simp add: CreatePolicy_def Inr gov_effect.failed)
qed (simp add: CreatePolicy_def gov_effect.failed)

lemma ActivatePolicy_effect:
  "gov_effect call (OpActivatePolicy t i active) (fst (gov_step E call (OpActivatePolicy t i active) (s, a)))
     (view s) (view (fst (snd (gov_step E call (OpActivatePolicy t i active) (s, a)))))"
proof (cases "manager_of call t")
  case (Inr u)
  show ?thesis
  proof (cases "pl_Get (en_policies E) t i s")
    case q: (Inr q)
    let ?p = "q\<lparr>pl_Active := active, pl_UpdatedAt := ca_now call\<rparr>"
    have t: "q \<in> gv_policies (view s)" "pl_TenantID q = t" "pl_ID q = i" using policy_law [OF q] by auto
    then have "pl_TenantID ?p = t" by simp
    moreover obtain e s' where "pl_Update (en_policies E) t (Some ?p) s = (e, s')" by fastforce
    ultimately show ?thesis using update_policy_law [of ?p t s e s'] Inr q t
      by (cases e) (auto simp: ActivatePolicy_def Let_def intro: gov_effect.failed gov_effect.policy_switched)
  qed (simp add: ActivatePolicy_def Inr gov_effect.failed)
qed (simp add: ActivatePolicy_def gov_effect.failed)

lemma GrantCaseAccess_effect:
  "gov_effect call (OpGrantCaseAccess t g0) (fst (gov_step E call (OpGrantCaseAccess t g0) (s, a)))
     (view s) (view (fst (snd (gov_step E call (OpGrantCaseAccess t g0) (s, a)))))"
proof (cases "manager_of call t")
  case (Inr u)
  let ?g = "prepare_grant call u t g0"
  have t: "cg_TenantID ?g = t" "cg_ID ?g = (if cg_ID g0 = uuid_Nil then ca_newid call else cg_ID g0)"
    by (simp_all add: prepare_grant_def Let_def)
  show ?thesis
  proof (cases "CaseGrant_Validate (Some ?g)")
    case None
    then have "t \<noteq> uuid_Nil" using t by (auto simp: CaseGrant_Validate_def)
    moreover obtain e s' where "cg_Create (en_grants E) t (Some ?g) s = (e, s')" by fastforce
    ultimately show ?thesis using create_grant_law [OF t(1)] Inr None t
      by (cases e) (auto simp: GrantCaseAccess_def Let_def intro!: gov_effect.intros)
  qed (simp add: GrantCaseAccess_def Inr gov_effect.failed)
qed (simp add: GrantCaseAccess_def gov_effect.failed)

lemma RevokeCaseAccess_effect:
  "gov_effect call (OpRevokeCaseAccess t i) (fst (gov_step E call (OpRevokeCaseAccess t i) (s, a)))
     (view s) (view (fst (snd (gov_step E call (OpRevokeCaseAccess t i) (s, a)))))"
proof (cases "manager_of call t")
  case (Inr u)
  obtain e s' where "cg_Revoke (en_grants E) t i (ca_now call) s = (e, s')" by fastforce
  then show ?thesis using revoke_grant_law [of t i "ca_now call" s e s'] Inr
    by (cases e) (auto simp: RevokeCaseAccess_def intro: gov_effect.failed gov_effect.case_revoked)
qed (simp add: RevokeCaseAccess_def gov_effect.failed)

lemma Elevate_effect:
  "gov_effect call (OpElevate t gr act c j ttl) (fst (gov_step E call (OpElevate t gr act c j ttl) (s, a)))
     (view s) (view (fst (snd (gov_step E call (OpElevate t gr act c j ttl) (s, a)))))"
proof (cases "authorizeManage (ca_ctx call)")
  case (Inr u)
  let ?g = "prepare_elevation call u t gr act c j ttl"
  have t: "el_TenantID ?g = t" "el_ID ?g = ca_newid call" "el_RequestedBy ?g = us_ID u" "el_RevokedAt ?g = None"
    by (simp_all add: prepare_elevation_def Let_def)
  show ?thesis
  proof (cases "requireUserTenant u t")
    case None
    then have m: "manager_of call t = Inr u" by (simp add: manager_of_def Inr)
    show ?thesis
    proof (cases "Grant_Validate (Some ?g)")
      case v: None
      then have "t \<noteq> uuid_Nil" using t by (auto simp: Grant_Validate_def)
      moreover obtain e s' where "el_Create (en_elevate E) t (Some ?g) s = (e, s')" by fastforce
      ultimately show ?thesis using create_elevation_law [OF t(1)] Inr None v t m
        by (cases e) (auto simp: Elevate_def Let_def intro: gov_effect.failed gov_effect.elevated)
    qed (simp add: Elevate_def Inr None Let_def gov_effect.failed)
  qed (simp add: Elevate_def Inr Let_def gov_effect.failed)
qed (simp add: Elevate_def Let_def gov_effect.failed)

lemma ScheduleReview_effect:
  "gov_effect call (OpScheduleReview t k i rq due) (fst (gov_step E call (OpScheduleReview t k i rq due) (s, a)))
     (view s) (view (fst (snd (gov_step E call (OpScheduleReview t k i rq due) (s, a)))))"
proof (cases "en_reviews E")
  case (Some RV)
  show ?thesis
  proof (cases "manager_of call t")
    case (Inr u)
    let ?r = "prepare_review call t k i rq due"
    have t: "rv_TenantID ?r = t" "rv_ID ?r = ca_newid call" "IsPending ?r"
      by (simp_all add: prepare_review_def IsPending_def)
    show ?thesis
    proof (cases "AccessReview_Validate (Some ?r)")
      case None
      then have "t \<noteq> uuid_Nil" using t by (auto simp: AccessReview_Validate_def)
      moreover obtain e s' where "rv_Create RV t (Some ?r) s = (e, s')" by fastforce
      ultimately show ?thesis using create_review_law [OF Some t(1)] Some Inr None t
        by (cases e) (auto simp: ScheduleReview_def Let_def intro: gov_effect.failed gov_effect.scheduled)
    qed (simp add: ScheduleReview_def Some Inr gov_effect.failed)
  qed (simp add: ScheduleReview_def Some gov_effect.failed)
qed (simp add: ScheduleReview_def gov_effect.failed)

lemma revokeSubject_law:
  "revokeSubject E t k i at s = (e, s') \<Longrightarrow> view s' = (if e = None then revoke_subject k at i (view s) else view s)"
  by (cases k) (auto simp: revokeSubject_def revoke_grant_law revoke_elevation_law split: if_splits)

lemma attest_review_effect:
  assumes RV: "en_reviews E = Some RV" and m: "reviewer_of call t = Inr u" and d: "AttestationDecision_IsValid d"
    and r: "attest_review E RV u t i d notes (ca_now call) s = (res, s')"
  shows "gov_effect call (OpAttest t i d notes) (fst (answer ReviewSet (res, ()))) (view s) (view s')"
proof (cases "rv_Get RV t i s")
  case (Inr q)
  let ?c = "CheckConflict \<lparr>cc_RequestedBy = rv_RequestedBy q, cc_ActingUserID = us_ID u, cc_SoleAuthor = False\<rparr> None"
  let ?q = "settle (ca_now call) u d notes q"
  have q: "q \<in> gv_reviews (view s)" "rv_TenantID q = t" "rv_ID q = i" using review_law [OF RV Inr] by auto
  show ?thesis
  proof (cases "IsPending q \<and> ?c = []")
    case True
    then have c: "us_ID u \<noteq> rv_RequestedBy q \<or> rv_RequestedBy q = uuid_Nil"
      by (auto simp: CheckConflict_def DefaultConflictRules_def RuleRequesterCannotApprove_def split: if_splits)
    obtain e s1 where upd: "rv_Update RV t (Some ?q) s = (e, s1)" by fastforce
    have v: "view s1 = (if e = None then (view s)\<lparr>gv_reviews := store_in rv_ID ?q (gv_reviews (view s))\<rparr> else view s)"
      using update_review_law [OF RV _ upd] q by simp
    show ?thesis
    proof (cases e)
      case None
      note step = gov_effect.attested [OF m q(1,2,3) conjunct1 [OF True] d c]
      obtain e2 s2 where rev: "revokeSubject E t (rv_SubjectKind q) (rv_SubjectID q) (ca_now call) s1 = (e2, s2)" by fastforce
      have comm: "revoke_subject k at j (V\<lparr>gv_reviews := R\<rparr>) = (revoke_subject k at j V)\<lparr>gv_reviews := R\<rparr>" for k at j V R
        by (cases k) (simp_all add: revoke_case_def revoke_elevation_def)
      show ?thesis
      proof (cases "d = AttestationRevoke")
        case d': True
        have "view s2 = (if e2 = None then revoke_subject (rv_SubjectKind q) (ca_now call) (rv_SubjectID q) (view s) else view s)
            \<lparr>gv_reviews := store_in rv_ID ?q (gv_reviews (view s))\<rparr>"
          using revokeSubject_law [OF rev] v None comm by simp
        moreover have "s' = s2" "res = (case e2 of None \<Rightarrow> Inr ?q | Some err \<Rightarrow> Inl (Wrapf ''Attest'' err))"
          using r Inr True upd None rev d' by (auto simp: attest_review_def Let_def split: option.splits)
        ultimately show ?thesis using d'
            step [where ans = "ReviewSet ?q" and nt = "notes" and W = "revoke_subject (rv_SubjectKind q) (ca_now call) (rv_SubjectID q) (view s)"]
            step [where ans = "Failed (Wrapf ''Attest'' (the e2))" and nt = "notes" and W = "view s"]
          by (cases e2) simp_all
      next
        case d': False
        then show ?thesis using r Inr True upd None v
            step [where ans = "ReviewSet ?q" and nt = "notes" and W = "view s"]
          by (auto simp: attest_review_def Let_def)
      qed
    next
      case (Some err)
      then show ?thesis using r Inr True upd v by (auto simp: attest_review_def Let_def intro: gov_effect.failed)
    qed
  next
    case False
    then show ?thesis using r Inr by (auto simp: attest_review_def intro: gov_effect.failed split: if_splits)
  qed
next
  case (Inl err)
  with r have "res = Inl err" "s' = s" by (auto simp: attest_review_def)
  then show ?thesis by (simp add: gov_effect.failed)
qed

lemma Attest_effect:
  "gov_effect call (OpAttest t i d notes) (fst (gov_step E call (OpAttest t i d notes) (s, a)))
     (view s) (view (fst (snd (gov_step E call (OpAttest t i d notes) (s, a)))))"
proof (cases "en_reviews E = None \<or> \<not> AttestationDecision_IsValid d \<or> \<not> is_ok (reviewer_of call t)")
  case True
  then show ?thesis
    by (auto simp: Attest_def reviewer_of_def Let_def gov_effect.failed split: option.splits sum.splits if_splits)
next
  case False
  then obtain RV u where RV: "en_reviews E = Some RV" and u: "reviewer_of call t = Inr u" and d: "AttestationDecision_IsValid d"
    by (auto simp: is_ok_iff)
  obtain res s' where r: "attest_review E RV u t i d notes (ca_now call) s = (res, s')" by fastforce
  have st: "gov_step E call (OpAttest t i d notes) (s, a) = answer ReviewSet (res, (s', snd (snd (Attest E call t i d notes (s, a)))))"
    using RV u d r by (auto simp: Attest_def reviewer_of_def Let_def split: sum.splits option.splits if_splits)
  from attest_review_effect [OF RV u d r] show ?thesis unfolding st by (cases res) simp_all
qed

lemma gov_step_effect:
  assumes "gov_step E call op (s, a) = (ans, (s', a'))"
  shows "gov_effect call op ans (view s) (view s')"
proof (cases op)
  case (OpEvaluate req)
  then show ?thesis using assms Evaluate_frame [of call req s a]
    by (cases "Evaluate E call req (s, a)") (auto simp: map_prod_def split: prod.splits intro: gov_effect.evaluated)
qed (use assms ActivatePolicy_effect CreatePolicy_effect GrantCaseAccess_effect RevokeCaseAccess_effect Elevate_effect
      ScheduleReview_effect Attest_effect in \<open>metis fst_conv snd_conv\<close>)+

lemma evaluateLocked_decided: "\<exists>d. evaluateLocked E req s = (d, None) \<and> decided req (view s) d"
proof -
  let ?V = "view s"
  obtain es where es: "el_ListActive (en_elevate E) (rq_TenantID req) (rq_Now req) s = Inr es"
      "set es = {g \<in> gv_elevations ?V. el_TenantID g = rq_TenantID req \<and> \<not> Grant_IsExpired g (rq_Now req)}"
    using elevations_law by blast
  obtain ps where ps: "pl_List (en_policies E) (rq_TenantID req) s = Inr ps" "set ps = {p \<in> gv_policies ?V. pl_TenantID p = rq_TenantID req}"
    using policies_law by blast
  obtain gs where gs: "cg_ListForCase (en_grants E) (rq_TenantID req) (rq_CaseID req) s = Inr gs"
      "set gs = {g \<in> gv_grants ?V. cg_TenantID g = rq_TenantID req \<and> cg_CaseID g = rq_CaseID req}"
    using case_grants_law by blast
  have el: "elevation req ?V g \<longleftrightarrow> g \<in> set es \<and> elevation_applies req g" for g
    by (auto simp: es(2) elevation_def elevation_applies_def Grant_IsExpired_def)
  let ?rest = "case List.find (elevation_applies req) es of
      Some g \<Rightarrow> (decide EffectAllow ''just-in-time elevation grant permits this action'' uuid_Nil (el_ID g) (rq_Now req), None)
    | None \<Rightarrow> (policies_decision ps req, None :: gov_error option)"
  have rest: "\<exists>d. ?rest = (d, None) \<and> decided req ?V d" if n: "\<nexists>g. denial req ?V g" "\<nexists>g. permit req ?V g"
  proof (cases "List.find (elevation_applies req) es")
    case (Some g)
    then have "elevation req ?V g" using el find_Some by fast
    then show ?thesis using n by (auto simp: Some decided_def decide_def)
  next
    case None
    then have "\<nexists>g. elevation req ?V g" using el find_None by fast
    then show ?thesis using policies_decided [OF n _ ps(2)] by (simp add: None)
  qed
  have eq: "evaluateLocked E req s =
      (if rq_CaseID req = uuid_Nil then ?rest else case case_grants_decision gs req of Some d \<Rightarrow> (d, None) | None \<Rightarrow> ?rest)"
    by (simp add: evaluateLocked_def Let_def es(1) ps(1) gs(1) cong: option.case_cong)
  show ?thesis
  proof (cases "rq_CaseID req = uuid_Nil")
    case True
    then have "\<nexists>g. denial req ?V g" "\<nexists>g. permit req ?V g" by (auto simp: denial_def permit_def concerns_def)
    then show ?thesis using rest eq True by presburger
  next
    case False
    show ?thesis using case_decision [OF False gs(2)] rest eq False
      by (cases "case_grants_decision gs req") simp_all
  qed
qed

end

context governance_store
begin

lemma evaluateLocked_policies:
  assumes n: "\<nexists>g. denial req (view s) g" "\<nexists>g. permit req (view s) g" "\<nexists>g. elevation req (view s) g"
    and ps: "pl_List (en_policies E) (rq_TenantID req) s = Inr ps"
  shows "evaluateLocked E req s = (policies_decision ps req, None)"
proof -
  let ?V = "view s"
  obtain es where es: "el_ListActive (en_elevate E) (rq_TenantID req) (rq_Now req) s = Inr es"
      "set es = {g \<in> gv_elevations ?V. el_TenantID g = rq_TenantID req \<and> \<not> Grant_IsExpired g (rq_Now req)}"
    using elevations_law by blast
  obtain gs where gs: "cg_ListForCase (en_grants E) (rq_TenantID req) (rq_CaseID req) s = Inr gs"
      "set gs = {g \<in> gv_grants ?V. cg_TenantID g = rq_TenantID req \<and> cg_CaseID g = rq_CaseID req}"
    using case_grants_law by blast
  have "List.find (elevation_applies req) es = None"
    using n(3) by (auto simp: find_None_iff es(2) elevation_def elevation_applies_def Grant_IsExpired_def split: if_splits)
  moreover have "case_grants_decision gs req = None" if "rq_CaseID req \<noteq> uuid_Nil"
    using case_decision [OF that gs(2)] n by (cases "case_grants_decision gs req") auto
  ultimately show ?thesis by (simp add: evaluateLocked_def Let_def es(1) ps gs(1) cong: option.case_cong)
qed

end

section \<open>The in-memory repositories meet the contract\<close>

definition im_view :: "InMemoryRepositories \<Rightarrow> gov_view" where
  "im_view s = \<lparr>gv_policies = set (values_by pl_ID (im_policies s)), gv_grants = set (values_by cg_ID (im_grants s)),
     gv_elevations = set (values_by el_ID (im_elevations s)), gv_reviews = set (values_by rv_ID (im_reviews s))\<rparr>"

text \<open>An iteration meets each value of the map.\<close>

definition iteration_ok :: "iteration \<Rightarrow> bool" where
  "iteration_ok it \<longleftrightarrow>
     (\<forall>rs. set (it_policies it rs) = set (values_by pl_ID rs)) \<and> (\<forall>rs. set (it_grants it rs) = set (values_by cg_ID rs)) \<and>
     (\<forall>rs. set (it_elevations it rs) = set (values_by el_ID rs)) \<and> (\<forall>rs. set (it_reviews it rs) = set (values_by rv_ID rs))"

definition in_order :: iteration where
  "in_order = \<lparr>it_policies = values_by pl_ID, it_grants = values_by cg_ID, it_elevations = values_by el_ID,
     it_reviews = values_by rv_ID\<rparr>"

lemma in_order_ok: "iteration_ok in_order"
  by (simp add: iteration_ok_def in_order_def)

definition mem_engine :: "platform \<Rightarrow> 'a Repository option \<Rightarrow> iteration \<Rightarrow> (InMemoryRepositories, 'a) Engine" where
  "mem_engine P audit it =
     \<lparr>en_policies = InMemoryPolicyRepository it, en_grants = InMemoryCaseGrantRepository it,
      en_elevate = InMemoryGrantRepository it, en_reviews = Some (InMemoryReviewRepository it), en_audit = audit,
      en_platform = P\<rparr>"

lemma mem_create_set:
  assumes "ten p = t" "t \<noteq> uuid_Nil" "mem_create key ten set_ten nil t (Some p) rs = (e, rs')"
  shows "e = None \<and> set (values_by key rs') = store_in key p (set (values_by key rs))"
  using assms by (auto simp: mem_create_def requireMatchingTenant_def values_put_by store_in_def)

lemma mem_update_set:
  assumes "ten p = t" "set_ten t p = p" "mem_update key ten set_ten nil missing t (Some p) rs = (e, rs')"
  shows "if e = None then set (values_by key rs') = store_in key p (set (values_by key rs)) else rs' = rs"
  using assms by (auto simp: mem_update_def values_put_by store_in_def split: option.splits if_splits)

lemma mem_get_value: "mem_get key ten missing t i rs = Inr p \<Longrightarrow> p \<in> set (values_by key rs) \<and> ten p = t \<and> key p = i"
  by (auto simp: mem_get_def mem_values_by dest: find_by_SomeD split: option.splits if_splits)

lemma mem_revoke_set:
  assumes "mem_revoke key ten set_revoked missing t i at rs = (e, rs')" and "\<And>g. key (set_revoked at g) = key g"
  shows "if e = None then set (values_by key rs') = revoke_in key (set_revoked at) i (set (values_by key rs)) else rs' = rs"
proof (cases "e = None")
  case True
  then obtain g where g: "find_by key i rs = Some g" and rs': "rs' = put_by key (set_revoked at g) rs"
    using assms(1) by (auto simp: mem_revoke_def split: option.splits if_splits)
  from find_by_SomeD [OF g] have i: "key g = i" by simp
  have "{r \<in> set (values_by key rs). key r = i} = {g}" using g i by (auto simp: mem_values_by)
  then show ?thesis using True i by (simp add: rs' values_put_by revoke_in_def assms(2))
qed (use assms(1) in \<open>auto simp: mem_revoke_def split: option.splits if_splits\<close>)

lemma mem_engine_contract:
  assumes "iteration_ok it"
  shows "governance_store (mem_engine P audit it) im_view"
proof (unfold_locales, goal_cases)
  case (3 p t s e s')
  obtain rs where c: "mem_create pl_ID pl_TenantID (\<lambda>t. pl_TenantID_update (\<lambda>_. t)) ErrNilPolicy t (Some p) (im_policies s) = (e, rs)"
      "s' = s\<lparr>im_policies := rs\<rparr>"
    using 3(3) 3(1) by (auto simp: mem_engine_def InMemoryPolicyRepository_def split: prod.splits)
  from mem_create_set [OF 3(1,2) c(1)] show ?case by (simp add: im_view_def c(2))
next
  case (4 p t s e s')
  obtain rs where c: "mem_update pl_ID pl_TenantID (\<lambda>t. pl_TenantID_update (\<lambda>_. t)) ErrNilPolicy ErrPolicyNotFound t (Some p) (im_policies s) = (e, rs)"
      "s' = s\<lparr>im_policies := rs\<rparr>"
    using 4(2) 4(1) by (auto simp: mem_engine_def InMemoryPolicyRepository_def split: prod.splits)
  from mem_update_set [OF 4(1) _ c(1)] 4(1) show ?case by (auto simp: im_view_def c(2) split: if_splits)
next
  case (6 p t s e s')
  obtain rs where c: "mem_create cg_ID cg_TenantID (\<lambda>t. cg_TenantID_update (\<lambda>_. t)) ErrInvalidGrant t (Some p) (im_grants s) = (e, rs)"
      "s' = s\<lparr>im_grants := rs\<rparr>"
    using 6(3) 6(1) by (auto simp: mem_engine_def InMemoryCaseGrantRepository_def split: prod.splits)
  from mem_create_set [OF 6(1,2) c(1)] show ?case by (simp add: im_view_def c(2))
next
  case (7 t i at s e s')
  obtain rs where c: "mem_revoke cg_ID cg_TenantID (\<lambda>at. cg_RevokedAt_update (\<lambda>_. Some at)) ErrGrantNotFound t i at (im_grants s) = (e, rs)"
      "s' = s\<lparr>im_grants := rs\<rparr>"
    using 7 by (auto simp: mem_engine_def InMemoryCaseGrantRepository_def split: prod.splits)
  from mem_revoke_set [OF c(1)] show ?case by (auto simp: im_view_def revoke_case_def c(2) split: if_splits)
next
  case (9 p t s e s')
  obtain rs where c: "mem_create el_ID el_TenantID (\<lambda>t. el_TenantID_update (\<lambda>_. t)) ErrInvalidGrant t (Some p) (im_elevations s) = (e, rs)"
      "s' = s\<lparr>im_elevations := rs\<rparr>"
    using 9(3) 9(1) by (auto simp: mem_engine_def InMemoryGrantRepository_def split: prod.splits)
  from mem_create_set [OF 9(1,2) c(1)] show ?case by (simp add: im_view_def c(2))
next
  case (10 t i at s e s')
  obtain rs where c: "mem_revoke el_ID el_TenantID (\<lambda>at. el_RevokedAt_update (\<lambda>_. Some at)) ErrGrantNotFound t i at (im_elevations s) = (e, rs)"
      "s' = s\<lparr>im_elevations := rs\<rparr>"
    using 10 by (auto simp: mem_engine_def InMemoryGrantRepository_def split: prod.splits)
  from mem_revoke_set [OF c(1)] show ?case by (auto simp: im_view_def revoke_elevation_def c(2) split: if_splits)
next
  case (12 RV p t s e s')
  obtain rs where c: "mem_create rv_ID rv_TenantID (\<lambda>t. rv_TenantID_update (\<lambda>_. t)) ErrReviewNotFound t (Some p) (im_reviews s) = (e, rs)"
      "s' = s\<lparr>im_reviews := rs\<rparr>"
    using 12(4) 12(1) by (auto simp: mem_engine_def InMemoryReviewRepository_def split: prod.splits)
  from mem_create_set [OF 12(2,3) c(1)] show ?case by (simp add: im_view_def c(2))
next
  case (13 RV p t s e s')
  obtain rs where c: "mem_update rv_ID rv_TenantID (\<lambda>t. rv_TenantID_update (\<lambda>_. t)) ErrReviewNotFound ErrReviewNotFound t (Some p) (im_reviews s) = (e, rs)"
      "s' = s\<lparr>im_reviews := rs\<rparr>"
    using 13(3) 13(1) by (auto simp: mem_engine_def InMemoryReviewRepository_def split: prod.splits)
  from mem_update_set [OF 13(2) _ c(1)] 13(2) show ?case by (auto simp: im_view_def c(2) split: if_splits)
qed (use assms in \<open>auto simp: mem_engine_def InMemoryPolicyRepository_def InMemoryCaseGrantRepository_def
      InMemoryGrantRepository_def InMemoryReviewRepository_def im_view_def iteration_ok_def dest!: mem_get_value\<close>)

interpretation mem_gov: governance_store "mem_engine P audit in_order" im_view for P audit
  by (rule mem_engine_contract [OF in_order_ok])

section \<open>Runs\<close>

text \<open>
  A run is a sequence of calls, each to an engine of \<open>EE\<close>, with its log. The engines differ in
  the order in which they meet the records; the clock of the audit store moves forward.
\<close>

type_synonym gov_log = "(gov_call \<times> gov_op \<times> gov_answer) list"

inductive gov_run :: "('s, 'a) Engine set \<Rightarrow> 's \<times> 'a \<Rightarrow> gov_log \<Rightarrow> 's \<times> 'a \<Rightarrow> time \<Rightarrow> bool" for EE st0 where
  start: "gov_run EE st0 [] st0 c"
| call: "gov_run EE st0 log st c \<Longrightarrow> E \<in> EE \<Longrightarrow> c < ca_audit_now call \<Longrightarrow> gov_step E call op st = (ans, st') \<Longrightarrow>
    gov_run EE st0 (log @ [(call, op, ans)]) st' (ca_audit_now call)"

inductive effect_run :: "gov_view \<Rightarrow> gov_log \<Rightarrow> gov_view \<Rightarrow> bool" for V0 where
  start: "effect_run V0 [] V0"
| step: "effect_run V0 log V \<Longrightarrow> gov_effect call op ans V W \<Longrightarrow> effect_run V0 (log @ [(call, op, ans)]) W"

lemma run_effects:
  assumes "gov_run EE st0 log st c" and "\<And>E. E \<in> EE \<Longrightarrow> governance_store E view"
  shows "effect_run (view (fst st0)) log (view (fst st))"
  using assms(1)
proof (induction rule: gov_run.induct)
  case (call log st c E cl op ans st')
  from governance_store.gov_step_effect [OF assms(2) [OF call.hyps(2)], of cl op "fst st" "snd st" ans "fst st'" "snd st'"]
  show ?case using call.IH call.hyps(4) by (auto intro: effect_run.step)
qed (simp add: effect_run.start)

definition no_records :: gov_view where
  "no_records = \<lparr>gv_policies = {}, gv_grants = {}, gv_elevations = {}, gv_reviews = {}\<rparr>"

text \<open>A call of the log by a manager of tenant \<open>t\<close> with this answer.\<close>

definition managed :: "gov_log \<Rightarrow> uuid \<Rightarrow> gov_answer \<Rightarrow> bool" where
  "managed log t ans \<longleftrightarrow> (\<exists>call op. (call, op, ans) \<in> set log \<and> is_ok (manager_of call t))"

lemma managed_more: "managed log t ans \<Longrightarrow> managed (log @ rest) t ans"
  by (auto simp: managed_def)

lemma managed_now: "manager_of call t = Inr u \<Longrightarrow> managed (log @ [(call, op, ans)]) t ans"
  by (force simp: managed_def)

definition traceable :: "gov_log \<Rightarrow> gov_view \<Rightarrow> bool" where
  "traceable log V \<longleftrightarrow>
     (\<forall>p\<in>gv_policies V. managed log (pl_TenantID p) (PolicySet p)) \<and>
     (\<forall>g\<in>gv_grants V. cg_RevokedAt g = None \<longrightarrow> managed log (cg_TenantID g) (CaseGranted g)) \<and>
     (\<forall>g\<in>gv_elevations V. el_RevokedAt g = None \<longrightarrow> managed log (el_TenantID g) (Elevated g) \<and> TrimSpace (el_Justification g) \<noteq> [])"

lemma revoked_not_live:
  "g \<in> revoke_in cg_ID (\<lambda>g. g\<lparr>cg_RevokedAt := Some at\<rparr>) i R \<Longrightarrow> cg_RevokedAt g = None \<Longrightarrow> g \<in> R \<and> cg_ID g \<noteq> i"
  "h \<in> revoke_in el_ID (\<lambda>g. g\<lparr>el_RevokedAt := Some at\<rparr>) i S \<Longrightarrow> el_RevokedAt h = None \<Longrightarrow> h \<in> S \<and> el_ID h \<noteq> i"
  by (auto simp: revoke_in_def)

lemma revoke_subject_frame [simp]:
  "gv_policies (revoke_subject k at i V) = gv_policies V" "gv_reviews (revoke_subject k at i V) = gv_reviews V"
  by (cases k; simp add: revoke_case_def revoke_elevation_def)+

lemma revoke_subject_live:
  "g \<in> gv_grants (revoke_subject k at i V) \<Longrightarrow> cg_RevokedAt g = None \<Longrightarrow> g \<in> gv_grants V"
  "h \<in> gv_elevations (revoke_subject k at i V) \<Longrightarrow> el_RevokedAt h = None \<Longrightarrow> h \<in> gv_elevations V"
  by (cases k; auto simp: revoke_case_def revoke_elevation_def dest: revoked_not_live)+

lemma traceable_effect:
  assumes "gov_effect call op ans V W" and "traceable log V"
  shows "traceable (log @ [(call, op, ans)]) W"
  using assms(1)
proof cases
  case (attested t u r i d nt X)
  then have "gv_policies W = gv_policies V" "\<forall>g\<in>gv_grants W. cg_RevokedAt g = None \<longrightarrow> g \<in> gv_grants V"
      "\<forall>g\<in>gv_elevations W. el_RevokedAt g = None \<longrightarrow> g \<in> gv_elevations V"
    by (auto dest: revoke_subject_live split: if_splits)
  then show ?thesis using assms(2) by (auto simp: traceable_def intro: managed_more)
next
  case (case_revoked t u i)
  then have "gv_policies W = gv_policies V" "gv_elevations W = gv_elevations V"
      "\<forall>g\<in>gv_grants W. cg_RevokedAt g = None \<longrightarrow> g \<in> gv_grants V"
    using revoked_not_live(1) by (auto simp: revoke_case_def)
  then show ?thesis using assms(2) by (auto simp: traceable_def intro: managed_more)
qed (use assms(2) in \<open>auto simp: traceable_def store_in_def Grant_Validate_def
      split: if_splits intro: managed_more managed_now\<close>)

lemma run_traceable: "effect_run V0 log V \<Longrightarrow> V0 = no_records \<Longrightarrow> traceable log V"
  by (induction rule: effect_run.induct) (auto simp: traceable_def [of "[]"] no_records_def intro: traceable_effect)

section \<open>Admitted requests\<close>

definition stamped :: "gov_call \<Rightarrow> Request \<Rightarrow> Request" where
  "stamped call req = (if rq_Now req = zero_time then req\<lparr>rq_Now := ca_now call\<rparr> else req)"

lemma Evaluate_admitted:
  assumes "Request_Validate req = None" and "ca_ctx call = Some u" and "us_TenantID u = rq_TenantID req"
    and "evaluateLocked E (stamped call req) (fst st) = (d, err)"
  shows "Evaluate E call req st = ((d, err), (fst st, record_with E (\<lambda>R. RecordEvaluate (en_platform E) R (ca_audit_now call)
    (ca_audit_id call) (rq_TenantID req) (stamped call req) d) (snd st)))"
  using assms by (auto simp: Evaluate_def authorizeActor_def UserFromContext_def requireUserTenant_def stamped_def Let_def)

lemma Evaluate_refused:
  assumes "\<not> (Request_Validate req = None \<and> (\<exists>u. ca_ctx call = Some u \<and> us_TenantID u = rq_TenantID req))"
  shows "\<exists>err. Evaluate E call req st = ((no_Decision, Some err), st)"
  using assms by (auto simp: Evaluate_def authorizeActor_def UserFromContext_def requireUserTenant_def split: option.splits)

lemma decision_sound:
  assumes "iteration_ok it" and "Request_Validate req = None" and "ca_ctx call = Some u" and "us_TenantID u = rq_TenantID req"
    and "Evaluate (mem_engine P audit it) call req (s, a) = ((d, err), st')"
  shows "err = None \<and> fst st' = s \<and> decided (stamped call req) (im_view s) d"
proof -
  obtain d' where "evaluateLocked (mem_engine P audit it) (stamped call req) s = (d', None)" "decided (stamped call req) (im_view s) d'"
    using governance_store.evaluateLocked_decided [OF mem_engine_contract [OF assms(1)]] by blast
  with Evaluate_admitted [OF assms(2,3,4), of "mem_engine P audit it" "(s, a)"] assms(5) show ?thesis by simp
qed

lemma decided_allow:
  assumes "decided req V d" and "de_Effect d = EffectAllow"
  shows "(\<nexists>g. denial req V g) \<and>
    ((\<exists>g. permit req V g \<and> de_MatchedGrantID d = cg_ID g) \<or> (\<exists>g. elevation req V g \<and> de_MatchedGrantID d = el_ID g) \<or>
     (\<exists>p. applicable req V p \<and> verdict_of p req = EffectAllow \<and> de_MatchedPolicyID d = pl_ID p))"
  using assms unfolding decided_def by (auto split: if_splits)

lemma verdict_rule: "verdict_of p req = EffectAllow \<Longrightarrow> \<exists>r\<in>set (pl_Rules p). rule_matches r req \<and> ru_Effect r = EffectAllow"
  by (auto simp: verdict_of_def Policy_evaluate_def dest: find_Some split: option.splits if_splits)

section \<open>Properties\<close>


text \<open>
  C31: Whenever the engine allows a request, at any point of a run that began without records, the
  caller is a user of the request's tenant, no live restriction of the case speaks against it, and
  the permission goes back to a call by a manager of that tenant: one that granted the actor access
  to this case for this action, one that elevated the actor to the action with a justification, or
  one that set an active policy with an allowing rule that matches.
\<close>

theorem allowed_requests_are_authorised:
  assumes run: "gov_run (mem_engine P audit ` Collect iteration_ok) (s0, a0) log (s, a) c" and "im_view s0 = no_records"
    and it: "iteration_ok it" and ev: "Evaluate (mem_engine P audit it) call req (s, a) = ((d, err), st')"
    and allow: "de_Effect d = EffectAllow"
  shows "(\<exists>u. ca_ctx call = Some u \<and> us_TenantID u = rq_TenantID req) \<and> (\<nexists>g. denial (stamped call req) (im_view s) g) \<and>
    ((\<exists>g. managed log (rq_TenantID req) (CaseGranted g) \<and> permit (stamped call req) (im_view s) g) \<or>
     (\<exists>g. managed log (rq_TenantID req) (Elevated g) \<and> elevation (stamped call req) (im_view s) g \<and> TrimSpace (el_Justification g) \<noteq> []) \<or>
     (\<exists>p. managed log (rq_TenantID req) (PolicySet p) \<and> pl_Active p \<and>
        (\<exists>r\<in>set (pl_Rules p). rule_matches r (stamped call req) \<and> ru_Effect r = EffectAllow)))"
proof -
  have adm: "Request_Validate req = None \<and> (\<exists>u. ca_ctx call = Some u \<and> us_TenantID u = rq_TenantID req)"
  proof (rule ccontr)
    assume "\<not> ?thesis"
    from Evaluate_refused [OF this, of "mem_engine P audit it" "(s, a)"] ev allow show False by (auto simp: no_Decision_def)
  qed
  then have dec: "decided (stamped call req) (im_view s) d"
    using decision_sound [OF it _ _ _ ev] by blast
  have "effect_run (im_view s0) log (im_view s)"
    using run_effects [OF run, of im_view] mem_engine_contract by auto
  from run_traceable [OF this assms(2)] have tr: "traceable log (im_view s)" .
  have t [simp]: "rq_TenantID (stamped call req) = rq_TenantID req" by (simp add: stamped_def)
  from decided_allow [OF dec allow] tr adm show ?thesis
    unfolding traceable_def
    by (elim conjE disjE exE; fastforce simp: permit_def concerns_def elevation_def applicable_def dest: verdict_rule)
qed

section \<open>Reviews settle for good\<close>

text \<open>The IDs under which a call may store a record.\<close>

definition creates :: "gov_call \<Rightarrow> gov_op \<Rightarrow> uuid set" where
  "creates call op = insert (ca_newid call) (case op of OpGrantCaseAccess t g \<Rightarrow> {cg_ID g} | _ \<Rightarrow> {})"

definition closed :: "GrantKind \<Rightarrow> uuid \<Rightarrow> uuid \<Rightarrow> gov_view \<Rightarrow> bool" where
  "closed k i ri V \<longleftrightarrow>
     (k = GrantKindCase \<longrightarrow> (\<forall>g\<in>gv_grants V. cg_ID g = i \<longrightarrow> cg_RevokedAt g \<noteq> None)) \<and>
     (k = GrantKindElevation \<longrightarrow> (\<forall>g\<in>gv_elevations V. el_ID g = i \<longrightarrow> el_RevokedAt g \<noteq> None)) \<and>
     (\<forall>r\<in>gv_reviews V. rv_ID r = ri \<longrightarrow> \<not> IsPending r)"

lemma settle_decided: "AttestationDecision_IsValid d \<Longrightarrow> \<not> IsPending (settle at u d n r)"
  by (auto simp: IsPending_def AttestationDecision_IsValid_def)

lemma closed_effect:
  assumes "gov_effect call op ans V W" and cl: "closed k i ri V" and new: "i \<notin> creates call op" "ri \<notin> creates call op"
  shows "closed k i ri W"
  using assms(1)
proof cases
  case (attested t u r j d nt X)
  have "\<not> IsPending (settle (ca_now call) u d nt r)" using attested settle_decided by blast
  then show ?thesis using attested cl unfolding closed_def store_in_def
    by (auto dest: revoke_subject_live split: if_splits)
next
  case (case_revoked t u j)
  then have "gv_elevations W = gv_elevations V" "gv_reviews W = gv_reviews V"
      "\<forall>g\<in>gv_grants W. cg_RevokedAt g = None \<longrightarrow> g \<in> gv_grants V"
    using revoked_not_live(1) by (auto simp: revoke_case_def)
  then show ?thesis using cl by (auto simp: closed_def)
qed (use cl new in \<open>auto simp: closed_def store_in_def creates_def split: if_splits\<close>)

lemma closed_gov_run:
  assumes "effect_run V log W" and "closed k i ri V" and "\<forall>(cl, op, ans)\<in>set log. i \<notin> creates cl op \<and> ri \<notin> creates cl op"
  shows "closed k i ri W"
  using assms by (induction rule: effect_run.induct) (auto intro: closed_effect)


lemma attest_closes:
  assumes "gov_effect call (OpAttest t i AttestationRevoke nt) (ReviewSet r) V W"
  shows "(\<exists>u. reviewer_of call t = Inr u \<and> rv_AttestedBy r = us_ID u \<and> (rv_RequestedBy r = uuid_Nil \<or> us_ID u \<noteq> rv_RequestedBy r)) \<and>
    rv_ID r = i \<and> closed (rv_SubjectKind r) (rv_SubjectID r) i W"
  using assms
proof (cases rule: gov_effect.cases)
  case (attested u q X)
  then have r: "r = settle (ca_now call) u AttestationRevoke nt q"
    and X: "X = revoke_subject (rv_SubjectKind q) (ca_now call) (rv_SubjectID q) V" by auto
  have "\<not> IsPending r" unfolding r by (rule settle_decided) (simp add: AttestationDecision_IsValid_def)
  then show ?thesis using attested r X
    by (auto simp: closed_def store_in_def revoke_case_def revoke_elevation_def revoke_in_def)
qed

lemma closed_refuses:
  assumes "gov_effect call (OpAttest t ri d nt) ans V W" and "closed k i ri V"
  shows "\<exists>err. ans = Failed err"
  using assms by (cases rule: gov_effect.cases) (auto simp: closed_def)

text \<open>
  C32: A revocation by review is an act of somebody with the right to review who is not the one who
  asked for the access, if the review names one; and it is final: in any continuation that does not
  store a record under the same ID, neither the revoked case grant nor the revoked elevation counts
  for any request, and the review cannot be decided again.
\<close>

theorem revocation_by_review_is_final:
  assumes at: "gov_step E call (OpAttest t i AttestationRevoke nt) st = (ReviewSet r, st1)"
    and run: "gov_run (mem_engine P audit ` Collect iteration_ok) st1 log st2 c"
    and E: "E \<in> mem_engine P audit ` Collect iteration_ok"
    and fresh: "\<forall>(cl, op, ans)\<in>set log. rv_SubjectID r \<notin> creates cl op \<and> i \<notin> creates cl op"
  shows "(\<exists>u. reviewer_of call t = Inr u \<and> rv_AttestedBy r = us_ID u \<and> (rv_RequestedBy r = uuid_Nil \<or> us_ID u \<noteq> rv_RequestedBy r)) \<and>
    (\<forall>req g. rv_SubjectKind r = GrantKindCase \<and> permit req (im_view (fst st2)) g \<longrightarrow> cg_ID g \<noteq> rv_SubjectID r) \<and>
    (\<forall>req g. rv_SubjectKind r = GrantKindElevation \<and> elevation req (im_view (fst st2)) g \<longrightarrow> el_ID g \<noteq> rv_SubjectID r) \<and>
    (\<forall>E'\<in>mem_engine P audit ` Collect iteration_ok. \<forall>call' d nt' ans st3.
       gov_step E' call' (OpAttest t i d nt') st2 = (ans, st3) \<longrightarrow> (\<exists>err. ans = Failed err))"
proof -
  have store: "governance_store E' im_view" if "E' \<in> mem_engine P audit ` Collect iteration_ok" for E'
    using that mem_engine_contract by auto
  have "gov_effect call (OpAttest t i AttestationRevoke nt) (ReviewSet r) (im_view (fst st)) (im_view (fst st1))"
    using governance_store.gov_step_effect [OF store [OF E], of call _ "fst st" "snd st" _ "fst st1" "snd st1"] at by simp
  note first = attest_closes [OF this]
  have cl: "closed (rv_SubjectKind r) (rv_SubjectID r) i (im_view (fst st2))"
    using closed_gov_run [OF run_effects [OF run store] _ fresh] first by blast
  have "\<exists>err. ans = Failed err" if "E' \<in> mem_engine P audit ` Collect iteration_ok"
      "gov_step E' call' (OpAttest t i d nt') st2 = (ans, st3)" for E' call' d nt' ans st3
  proof -
    have "gov_effect call' (OpAttest t i d nt') ans (im_view (fst st2)) (im_view (fst st3))"
      by (rule governance_store.gov_step_effect [OF store [OF that(1)], where a = "snd st2" and a' = "snd st3"]) (simp only: prod.collapse that(2))
    from closed_refuses [OF this cl] show ?thesis .
  qed
  then show ?thesis using first cl by (fastforce simp: closed_def permit_def elevation_def concerns_def)
qed

section \<open>Conflicting policies\<close>

definition policy_first :: "Policy \<Rightarrow> iteration" where
  "policy_first p = in_order\<lparr>it_policies := (\<lambda>rs. if p \<in> set (values_by pl_ID rs) then p # values_by pl_ID rs else values_by pl_ID rs)\<rparr>"

lemma policy_first_ok: "iteration_ok (policy_first p)"
  by (auto simp: iteration_ok_def policy_first_def in_order_def)

lemma policies_decision_first:
  assumes "snd (Policy_evaluate (Some p) req) \<noteq> None"
  shows "de_Effect (policies_decision (p # ps) req) = verdict_of p req"
  using assms by (auto simp: policies_decision_def decide_def Let_def verdict_of_def)


lemma policy_first_decides:
  assumes app: "applicable req (im_view s) p"
    and n: "\<nexists>g. denial req (im_view s) g" "\<nexists>g. permit req (im_view s) g" "\<nexists>g. elevation req (im_view s) g"
  shows "\<exists>d. evaluateLocked (mem_engine P audit (policy_first p)) req s = (d, None) \<and> de_Effect d = verdict_of p req"
proof -
  let ?E = "mem_engine P audit (policy_first p)"
  have p: "p \<in> set (values_by pl_ID (im_policies s))" "pl_TenantID p = rq_TenantID req"
    using app by (simp_all add: applicable_def im_view_def)
  then have ps: "pl_List (en_policies ?E) (rq_TenantID req) s =
      Inr (p # filter (\<lambda>p. pl_TenantID p = rq_TenantID req) (values_by pl_ID (im_policies s)))"
    by (simp add: mem_engine_def InMemoryPolicyRepository_def policy_first_def)
  have "snd (Policy_evaluate (Some p) req) \<noteq> None"
    using app unfolding Policy_evaluate_applies by (simp add: applicable_def)
  with governance_store.evaluateLocked_policies [OF mem_engine_contract [OF policy_first_ok] n ps] policies_decision_first
  show ?thesis by blast
qed

text \<open>
  When two active policies of a tenant match a request and disagree, and no grant or elevation
  speaks about it, the answer of the in-memory engine is decided by the order of a map iteration:
  both answers are possible for the same records and the same request.
\<close>

lemma conflicting_policies_decide_by_map_order:
  assumes "Request_Validate req = None" and "ca_ctx call = Some u" and "us_TenantID u = rq_TenantID req" and "rq_Now req \<noteq> zero_time"
    and n: "\<nexists>g. denial req (im_view s) g" "\<nexists>g. permit req (im_view s) g" "\<nexists>g. elevation req (im_view s) g"
    and p: "applicable req (im_view s) p" "verdict_of p req = EffectAllow"
    and q: "applicable req (im_view s) q" "verdict_of q req = EffectDeny"
  shows "\<exists>it it'. iteration_ok it \<and> iteration_ok it' \<and>
    Decision_Allowed (fst (fst (Evaluate (mem_engine P audit it) call req (s, a)))) \<and>
    \<not> Decision_Allowed (fst (fst (Evaluate (mem_engine P audit it') call req (s, a))))"
proof -
  have st: "stamped call req = req" using assms(4) by (simp add: stamped_def)
  have effect: "de_Effect (fst (fst (Evaluate (mem_engine P audit (policy_first r)) call req (s, a)))) = verdict_of r req"
    if app: "applicable req (im_view s) r" for r
  proof -
    obtain d where d: "evaluateLocked (mem_engine P audit (policy_first r)) (stamped call req) (fst (s, a)) = (d, None)"
        "de_Effect d = verdict_of r req"
      using policy_first_decides [OF app n, of P audit] st by auto
    from Evaluate_admitted [OF assms(1-3) d(1)] d(2) show ?thesis by simp
  qed
  show ?thesis
    by (rule exI [of _ "policy_first p"], rule exI [of _ "policy_first q"])
       (simp add: policy_first_ok Decision_Allowed_def effect [OF p(1)] effect [OF q(1)] p(2) q(2))
qed


section \<open>The record of the calls\<close>

lemma sink_Append_state: "snd (sink_Append P R fn now newid ev a) = snd (store_Append P R now newid ev a)"
  by (simp add: sink_Append_def split: prod.splits sum.splits)

lemma sink_event_time: "ev_Time (sink_event t k c d actor act target outcome) = zero_time"
  by (simp add: sink_event_def)

lemma sink_event_state:
  "\<exists>ev. ev_Time ev = zero_time \<and> snd (sink_Append P R fn now i (sink_event t k c d actor act target outcome) a) = snd (store_Append P R now i ev a)"
  unfolding sink_Append_state using sink_event_time by blast

lemma Record_states:
  shows RecordEvaluate_state: "\<exists>ev. ev_Time ev = zero_time \<and> snd (RecordEvaluate P R now i t req d a) = snd (store_Append P R now i ev a)"
    and RecordElevate_state: "\<exists>ev. ev_Time ev = zero_time \<and> snd (RecordElevate P R now i t u act j err a) = snd (store_Append P R now i ev a)"
    and RecordAttest_state: "\<exists>ev. ev_Time ev = zero_time \<and> snd (RecordAttest P R now i t u r dec err a) = snd (store_Append P R now i ev a)"
proof -
  show "\<exists>ev. ev_Time ev = zero_time \<and> snd (RecordEvaluate P R now i t req d a) = snd (store_Append P R now i ev a)"
    unfolding RecordEvaluate_def Let_def by (rule sink_event_state)
  show "\<exists>ev. ev_Time ev = zero_time \<and> snd (RecordElevate P R now i t u act j err a) = snd (store_Append P R now i ev a)"
    unfolding RecordElevate_def Let_def by (cases err; simp only: option.case prod.case; rule sink_event_state)
  show "\<exists>ev. ev_Time ev = zero_time \<and> snd (RecordAttest P R now i t u r dec err a) = snd (store_Append P R now i ev a)"
    unfolding RecordAttest_def Let_def by (cases err; simp only: option.case prod.case; rule sink_event_state)
qed

definition audit_follows :: "platform \<Rightarrow> 'a Repository \<Rightarrow> gov_call \<Rightarrow> 'a \<Rightarrow> 'a \<Rightarrow> bool" where
  "audit_follows P R call a a' \<longleftrightarrow>
     a' = a \<or> (\<exists>ev. ev_Time ev = zero_time \<and> a' = snd (store_Append P R (ca_audit_now call) (ca_audit_id call) ev a))"

lemma audit_follows_refl [simp]: "audit_follows P R call a a"
  by (simp add: audit_follows_def)

lemma audit_follows_record [simp]:
  assumes "en_audit E = Some R"
  shows "audit_follows P R call a (record_with E (\<lambda>R. RecordEvaluate P R (ca_audit_now call) (ca_audit_id call) t req d) a)"
    and "audit_follows P R call a (record_with E (\<lambda>R. RecordElevate P R (ca_audit_now call) (ca_audit_id call) t u act j err) a)"
    and "audit_follows P R call a (record_with E (\<lambda>R. RecordAttest P R (ca_audit_now call) (ca_audit_id call) t u r dec err) a)"
  unfolding audit_follows_def record_with_def assms option.case by (rule disjI2, rule Record_states)+

lemma gov_step_audit:
  assumes "en_audit E = Some R"
  shows "audit_follows (en_platform E) R call a (snd (snd (gov_step E call op (s, a))))"
  using assms
  by (cases op) (simp_all add: Evaluate_def Elevate_def Attest_def CreatePolicy_def ActivatePolicy_def GrantCaseAccess_def
      RevokeCaseAccess_def ScheduleReview_def answer_def Let_def split: option.splits sum.splits prod.splits)


context audit_repository
begin

lemma follows_mono: "audit_follows P R call a a' \<Longrightarrow> set (events a t) \<subseteq> set (events a' t)"
proof (unfold audit_follows_def, elim disjE exE conjE)
  fix ev assume a': "a' = snd (store_Append P R (ca_audit_now call) (ca_audit_id call) ev a)"
  show ?thesis
  proof (cases "store_prepare (ca_audit_now call) (ca_audit_id call) ev")
    case (Inr e)
    from store_Append_ok [OF this, of a] show ?thesis by (auto simp: a')
  qed (simp add: a' store_Append_err)
qed simp

lemma follows_trails:
  assumes "audit_follows P R call a a'" and "trails_ok (a, c)" and "c < ca_audit_now call"
  shows "trails_ok (a', ca_audit_now call)"
  using assms(1) unfolding audit_follows_def
proof (elim disjE exE conjE)
  assume "a' = a"
  then show ?thesis using assms(2,3) by (fastforce simp: trails_ok_def)
next
  fix ev assume "ev_Time ev = zero_time" "a' = snd (store_Append P R (ca_audit_now call) (ca_audit_id call) ev a)"
  then show ?thesis using store_Append_keeps [of a c "ca_audit_now call" ev "ca_audit_id call"] assms(2,3)
    by (simp add: trails_ok_def)
qed

lemma run_trails:
  assumes "gov_run EE st0 log st c" and EE: "\<forall>E\<in>EE. en_audit E = Some R \<and> en_platform E = P"
    and "\<forall>t. events (snd st0) t = []"
  shows "trails_ok (snd st, c)"
  using assms(1)
proof (induction rule: gov_run.induct)
  case (call log st c E cl op ans st')
  have "audit_follows P R cl (snd st) (snd st')"
    using gov_step_audit [of E R cl "snd st" op "fst st"] bspec [OF EE call.hyps(2)] call.hyps(4) by simp
  from follows_trails [OF this call.IH call.hyps(3)] show ?case .
qed (use assms(3) in \<open>simp add: trails_ok_def\<close>)

lemma run_entry:
  assumes "gov_run EE st0 log st c" and EE: "\<forall>E\<in>EE. en_audit E = Some R \<and> en_platform E = P"
    and "(cl, op, ans) \<in> set log"
  shows "\<exists>E st1 st2. E \<in> EE \<and> gov_step E cl op st1 = (ans, st2) \<and> (\<forall>t. set (events (snd st2) t) \<subseteq> set (events (snd st) t))"
  using assms(1,3)
proof (induction rule: gov_run.induct)
  case (call log st c E cl' op' ans' st')
  have mono: "set (events (snd st) t) \<subseteq> set (events (snd st') t)" for t
    using gov_step_audit [of E R cl' "snd st" op' "fst st"] bspec [OF EE call.hyps(2)] call.hyps(4) follows_mono by fastforce
  show ?case
  proof (cases "(cl, op, ans) \<in> set log")
    case True
    with call.IH mono show ?thesis by (meson subset_trans)
  next
    case False
    with call.prems call.hyps(2,4) show ?thesis by (intro exI [of _ E] exI [of _ st] exI [of _ st']) auto
  qed
qed simp

lemma Evaluate_event:
  assumes E: "en_audit E = Some R" "en_platform E = P" and ev: "Evaluate E cl req st1 = ((d, None), st2)"
    and actor: "TrimSpace (uuid_str P (rq_ActorUserID req)) \<noteq> []"
  shows "\<exists>e\<in>set (events (snd st2) (rq_TenantID req)). ev_Actor e = uuid_str P (rq_ActorUserID req) \<and>
    ev_Action e = auditActionEvaluate \<and> ev_Target e = rq_Action req \<and> ev_CaseID e = rq_CaseID req \<and>
    ev_Outcome e = (if Decision_Allowed d then ''allowed'' else ''denied'') \<and> ev_Time e = ca_audit_now cl"
proof -
  have "\<not> (\<exists>err. Evaluate E cl req st1 = ((no_Decision, Some err), st1))" using ev by auto
  then obtain u where u: "Request_Validate req = None" "ca_ctx cl = Some u" "us_TenantID u = rq_TenantID req"
    using Evaluate_refused by blast
  obtain d' err where "evaluateLocked E (stamped cl req) (fst st1) = (d', err)" by fastforce
  from Evaluate_admitted [OF u this] ev
  have st2: "snd st2 = snd (RecordEvaluate P R (ca_audit_now cl) (ca_audit_id cl) (rq_TenantID req) (stamped cl req) d (snd st1))"
    by (auto simp: record_with_def E)
  have same: "rq_CaseID (stamped cl req) = rq_CaseID req" "rq_Action (stamped cl req) = rq_Action req"
    "rq_ActorUserID (stamped cl req) = rq_ActorUserID req" by (simp_all add: stamped_def)
  have t: "rq_TenantID req \<noteq> uuid_Nil" "rq_ActorUserID req \<noteq> uuid_Nil" using u(1) by (auto simp: Request_Validate_def split: if_splits)
  have act: "TrimSpace auditActionEvaluate \<noteq> []" by code_simp
  define ev where "ev detail = sink_event (rq_TenantID req) KindDataAccess (rq_CaseID req) detail
    (uuid_str P (rq_ActorUserID req)) auditActionEvaluate (rq_Action req) (if Decision_Allowed d then ''allowed'' else ''denied'')" for detail
  obtain detail where st2': "snd st2 = snd (store_Append P R (ca_audit_now cl) (ca_audit_id cl) (ev detail) (snd st1))"
    unfolding st2 RecordEvaluate_def Let_def sink_Append_state same ev_def by (simp add: actorFor_def t)
  obtain e where e: "store_prepare (ca_audit_now cl) (ca_audit_id cl) (ev detail) = Inr e"
    using t act actor by (auto simp: store_prepare_def ev_def sink_event_def Event_Validate_def Kind_IsValid_def Let_def)
  note fields = store_prepare_Inr [OF e]
  from store_Append_ok [OF e, of "snd st1"] fields show ?thesis
    unfolding st2' by (auto simp: ev_def sink_event_def link_event_def Let_def)
qed

end


text \<open>
  C33: From an empty audit store on, every decision the engine has returned without an error stands
  in the audit trail of the request's tenant, with the actor, the action, the case, the time and
  whether it was allowed; and whatever the calls were, the trail of the tenant verifies.
\<close>

theorem decisions_are_on_the_record:
  assumes run: "gov_run (mem_engine P (Some (mem_repo P)) ` Collect iteration_ok) (s0, im_empty) log (s, a) c"
    and entry: "(call, OpEvaluate req, Decided d None) \<in> set log" and actor: "TrimSpace (uuid_str P (rq_ActorUserID req)) \<noteq> []"
    and reader: "authorizeAuditRead ctx = Inr u"
  shows "(\<exists>e\<in>set (im_events a (rq_TenantID req)). ev_Actor e = uuid_str P (rq_ActorUserID req) \<and>
      ev_Action e = auditActionEvaluate \<and> ev_Target e = rq_Action req \<and> ev_CaseID e = rq_CaseID req \<and>
      ev_Outcome e = (if Decision_Allowed d then ''allowed'' else ''denied'') \<and> ev_Time e = ca_audit_now call) \<and>
    VerifyTenantChain P (mem_repo P) ctx (rq_TenantID req) a = (True, -1, None)"
proof -
  have EE: "\<forall>E\<in>mem_engine P (Some (mem_repo P)) ` Collect iteration_ok. en_audit E = Some (mem_repo P) \<and> en_platform E = P"
    by (auto simp: mem_engine_def)
  obtain E st1 st2 where E: "E \<in> mem_engine P (Some (mem_repo P)) ` Collect iteration_ok"
      and st: "gov_step E call (OpEvaluate req) st1 = (Decided d None, st2)"
      and sub: "\<forall>t. set (im_events (snd st2) t) \<subseteq> set (im_events (snd (s, a)) t)"
    using mem_audit.run_entry [OF run EE entry] by (elim exE conjE)
  from st have "Evaluate E call req st1 = ((d, None), st2)" by (cases "Evaluate E call req st1") auto
  from mem_audit.Evaluate_event [OF conjunct1 [OF bspec [OF EE E]] conjunct2 [OF bspec [OF EE E]] this actor] sub [rule_format, of "rq_TenantID req"]
  have event: "\<exists>e\<in>set (im_events a (rq_TenantID req)). ev_Actor e = uuid_str P (rq_ActorUserID req) \<and>
      ev_Action e = auditActionEvaluate \<and> ev_Target e = rq_Action req \<and> ev_CaseID e = rq_CaseID req \<and>
      ev_Outcome e = (if Decision_Allowed d then ''allowed'' else ''denied'') \<and> ev_Time e = ca_audit_now call"
    unfolding snd_conv by (meson subsetD)
  have "mem_audit.trails_ok P (snd (s, a), c)"
    by (rule mem_audit.run_trails [OF run EE]) (simp_all add: im_empty_def)
  then have "trail_ok P (rq_TenantID req) (im_events a (rq_TenantID req))" by (simp add: mem_audit.trails_ok_def)
  from mem_audit.VerifyTenantChain_ok [OF this reader] event show ?thesis by blast
qed

section \<open>Concrete runs\<close>

definition sample_manager :: User where
  "sample_manager = sample_auditor\<lparr>us_ID := 1, us_Roles := [RoleAdmin]\<rparr>"

lemma sample_manager_simps [simp]:
  "us_ID sample_manager = 1" "us_TenantID sample_manager = 7" "User_HasPermission sample_manager managePermission"
  "User_HasPermission sample_manager reviewPermission"
  by (simp_all add: sample_manager_def sample_auditor_def User_HasPermission_def managePermission_def reviewPermission_def HasPermission_def)

definition sample_gov_platform :: platform where
  "sample_gov_platform = ref_platform\<lparr>uuid_str := (\<lambda>_. ''u'')\<rparr>"

definition sample_gov_call :: "uuid \<Rightarrow> time \<Rightarrow> gov_call" where
  "sample_gov_call i now = \<lparr>ca_ctx = Some sample_manager, ca_now = now, ca_newid = i, ca_audit_now = now, ca_audit_id = i\<rparr>"

lemma sample_gov_call_simps [simp]:
  "ca_ctx (sample_gov_call i now) = Some sample_manager" "ca_now (sample_gov_call i now) = now"
  "ca_newid (sample_gov_call i now) = i" "ca_audit_now (sample_gov_call i now) = now"
  "manager_of (sample_gov_call i now) 7 = Inr sample_manager" "reviewer_of (sample_gov_call i now) 7 = Inr sample_manager"
  by (simp_all add: sample_gov_call_def manager_of_def reviewer_of_def authorizeManage_def authorizeActor_def
      UserFromContext_def requireUserTenant_def)

definition no_store :: InMemoryRepositories where
  "no_store = \<lparr>im_policies = [], im_grants = [], im_elevations = [], im_reviews = []\<rparr>"

lemma no_store_view: "im_view no_store = no_records"
  by (simp add: im_view_def no_store_def no_records_def values_by_def)

definition sample_request :: Request where
  "sample_request = \<lparr>rq_ActorUserID = 2, rq_ActorRoles = [], rq_TenantID = 7, rq_CaseID = 3, rq_JurisdictionID = [],
     rq_Action = ''case:view'', rq_Now = 0\<rparr>"

definition sample_case_grant :: CaseGrant where
  "sample_case_grant = \<lparr>cg_ID = 20, cg_TenantID = 7, cg_CaseID = 3, cg_GranteeUserID = 2, cg_Permissions = [''case:view''],
     cg_Deny = False, cg_ExpiresAt = 50, cg_GrantedBy = 1, cg_GrantedAt = 5, cg_RevokedAt = None\<rparr>"

lemma sample_request_ok: "Request_Validate sample_request = None"
  by code_simp

lemma sample_grant_valid: "CaseGrant_Validate (Some sample_case_grant) = None"
  by code_simp

lemma sample_grant_fields: "cg_TenantID sample_case_grant = 7"
  by (simp add: sample_case_grant_def)

lemma sample_granted:
  "gov_step (mem_engine P audit in_order) (sample_gov_call i 5) (OpGrantCaseAccess 7 sample_case_grant) (no_store, a) =
     (CaseGranted sample_case_grant, (no_store\<lparr>im_grants := [sample_case_grant]\<rparr>, a))"
proof -
  have "prepare_grant (sample_gov_call i 5) sample_manager 7 sample_case_grant = sample_case_grant"
    by (simp add: prepare_grant_def sample_case_grant_def uuid_Nil_def zero_time_def)
  then show ?thesis
    by (simp add: GrantCaseAccess_def sample_grant_valid mem_engine_def InMemoryCaseGrantRepository_def mem_create_def
        requireMatchingTenant_def no_store_def sample_grant_fields)
qed


definition sample_store :: InMemoryRepositories where
  "sample_store = no_store\<lparr>im_grants := [sample_case_grant]\<rparr>"

definition sample_decision :: Decision where
  "sample_decision = decide EffectAllow ''case grant permits this permission'' uuid_Nil 20 10"

lemma sample_evaluated:
  "\<exists>a'. Evaluate (mem_engine P audit in_order) (sample_gov_call i 10) sample_request (sample_store, a) =
     ((sample_decision, None), (sample_store, a'))"
proof -
  let ?E = "mem_engine P audit in_order"
  have "cg_ListForCase (en_grants ?E) 7 3 sample_store = Inr [sample_case_grant]"
    by (simp add: mem_engine_def InMemoryCaseGrantRepository_def in_order_def values_by_def sample_store_def sample_case_grant_def)
  moreover have "case_grants_decision [sample_case_grant] (stamped (sample_gov_call i 10) sample_request) = Some sample_decision"
    by (simp add: case_grants_decision_def sample_case_grant_def sample_request_def stamped_def zero_time_def CaseGrant_IsExpired_def
        deniesPermission_def grantsPermission_def actionToPermission_def Let_def sample_decision_def)
  ultimately have "evaluateLocked ?E (stamped (sample_gov_call i 10) sample_request) (fst (sample_store, a)) = (sample_decision, None)"
    by (simp add: evaluateLocked_def Let_def sample_request_def stamped_def zero_time_def uuid_Nil_def)
  from Evaluate_admitted [OF sample_request_ok _ _ this, of sample_manager] show ?thesis
    by (simp add: sample_request_def)
qed

lemma sample_gov_run:
  fixes audit :: "'a Repository option" and a :: 'a
  shows "\<exists>log a'. gov_run (mem_engine P audit ` Collect iteration_ok) (no_store, a) log (sample_store, a') 10 \<and>
    (sample_gov_call 9 10, OpEvaluate sample_request, Decided sample_decision None) \<in> set log"
proof -
  let ?EE = "mem_engine P audit ` Collect iteration_ok"
  have E: "mem_engine P audit in_order \<in> ?EE" using in_order_ok by blast
  have "gov_run ?EE (no_store, a) ([] @ [(sample_gov_call 8 5, OpGrantCaseAccess 7 sample_case_grant, CaseGranted sample_case_grant)])
      (sample_store, a) (ca_audit_now (sample_gov_call 8 5))"
    unfolding sample_store_def by (rule gov_run.call [OF gov_run.start [of _ _ 0] E _ sample_granted]) simp
  moreover obtain a' where "Evaluate (mem_engine P audit in_order) (sample_gov_call 9 10) sample_request (sample_store, a) =
     ((sample_decision, None), (sample_store, a'))" using sample_evaluated [of P audit 9 a] by blast
  then have "gov_step (mem_engine P audit in_order) (sample_gov_call 9 10) (OpEvaluate sample_request) (sample_store, a) =
     (Decided sample_decision None, (sample_store, a'))" by simp
  ultimately show ?thesis using gov_run.call [OF _ E, where call = "sample_gov_call 9 10"] by fastforce
qed



theorem allowed_requests_are_authorised_witness:
  "\<exists>log d a st'. gov_run (mem_engine sample_gov_platform None ` Collect iteration_ok) (no_store, im_empty) log (sample_store, a) 10 \<and>
     Evaluate (mem_engine sample_gov_platform None in_order) (sample_gov_call 9 10) sample_request (sample_store, a) = ((d, None), st') \<and>
     de_Effect d = EffectAllow \<and> (\<nexists>g. denial (stamped (sample_gov_call 9 10) sample_request) (im_view sample_store) g)"
proof -
  obtain log a where run: "gov_run (mem_engine sample_gov_platform None ` Collect iteration_ok) (no_store, im_empty) log (sample_store, a) 10"
    using sample_gov_run [of sample_gov_platform None im_empty] by blast
  obtain a' where ev: "Evaluate (mem_engine sample_gov_platform None in_order) (sample_gov_call 9 10) sample_request (sample_store, a) =
     ((sample_decision, None), (sample_store, a'))" using sample_evaluated [of sample_gov_platform None 9 a] by blast
  have allow: "de_Effect sample_decision = EffectAllow" by (simp add: sample_decision_def decide_def)
  from allowed_requests_are_authorised [OF run no_store_view in_order_ok ev allow] run ev allow show ?thesis by blast
qed

definition sample_review :: AccessReview where
  "sample_review = \<lparr>rv_ID = 30, rv_TenantID = 7, rv_SubjectKind = GrantKindCase, rv_SubjectID = 20, rv_RequestedBy = 2, rv_DueAt = 20,
     rv_Decision = AttestationOther [], rv_AttestedBy = 0, rv_AttestedAt = None, rv_Notes = [], rv_CreatedAt = 6\<rparr>"

lemma sample_attested:
  fixes a :: 'a
  shows "\<exists>st1. gov_step (mem_engine P None in_order) (sample_gov_call 9 12) (OpAttest 7 30 AttestationRevoke [])
     (sample_store\<lparr>im_reviews := [sample_review]\<rparr>, a) = (ReviewSet (settle 12 sample_manager AttestationRevoke [] sample_review), st1)"
proof -
  let ?E = "mem_engine P (None :: 'a Repository option) in_order" and ?s = "sample_store\<lparr>im_reviews := [sample_review]\<rparr>"
  let ?r = "settle 12 sample_manager AttestationRevoke [] sample_review"
  have get: "mem_get rv_ID rv_TenantID ErrReviewNotFound 7 30 [sample_review] = Inr sample_review"
    by (simp add: mem_get_def sample_review_def)
  have upd: "mem_update rv_ID rv_TenantID (\<lambda>t. rv_TenantID_update (\<lambda>_. t)) ErrReviewNotFound ErrReviewNotFound 7 (Some ?r) [sample_review] = (None, [?r])"
    by (simp add: mem_update_def settle_def sample_review_def)
  have rev: "mem_revoke cg_ID cg_TenantID (\<lambda>at. cg_RevokedAt_update (\<lambda>_. Some at)) ErrGrantNotFound 7 20 12 [sample_case_grant] =
      (None, [sample_case_grant\<lparr>cg_RevokedAt := Some 12\<rparr>])"
    by (simp add: mem_revoke_def sample_case_grant_def)
  have "\<exists>s'. attest_review ?E (InMemoryReviewRepository in_order) sample_manager 7 30 AttestationRevoke [] 12 ?s = (Inr ?r, s')"
    using get upd rev
    by (simp add: attest_review_def InMemoryReviewRepository_def IsPending_def CheckConflict_def sample_review_def revokeSubject_def
        mem_engine_def InMemoryCaseGrantRepository_def sample_store_def no_store_def settle_def Let_def)
  then obtain s' where "attest_review ?E (InMemoryReviewRepository in_order) sample_manager 7 30 AttestationRevoke [] 12 ?s = (Inr ?r, s')" ..
  then show ?thesis
    by (simp add: Attest_def mem_engine_def AttestationDecision_IsValid_def authorizeActor_def UserFromContext_def
        requireUserTenant_def Let_def)
qed

theorem revocation_by_review_is_final_witness:
  "\<exists>st1. gov_step (mem_engine sample_gov_platform None in_order) (sample_gov_call 9 12) (OpAttest 7 30 AttestationRevoke [])
       (sample_store\<lparr>im_reviews := [sample_review]\<rparr>, im_empty) = (ReviewSet (settle 12 sample_manager AttestationRevoke [] sample_review), st1) \<and>
     (\<nexists>g. permit sample_request (im_view (fst st1)) g \<and> cg_ID g = 20)"
proof -
  obtain st1 where at: "gov_step (mem_engine sample_gov_platform None in_order) (sample_gov_call 9 12) (OpAttest 7 30 AttestationRevoke [])
       (sample_store\<lparr>im_reviews := [sample_review]\<rparr>, im_empty) = (ReviewSet (settle 12 sample_manager AttestationRevoke [] sample_review), st1)"
    using sample_attested [of sample_gov_platform im_empty] by blast
  have E: "mem_engine sample_gov_platform None in_order \<in> mem_engine sample_gov_platform None ` Collect iteration_ok"
    using in_order_ok by blast
  have run: "gov_run (mem_engine sample_gov_platform None ` Collect iteration_ok) st1 [] st1 12" by (rule gov_run.start)
  have subject: "rv_SubjectKind sample_review = GrantKindCase" "rv_SubjectID sample_review = 20" by (simp_all add: sample_review_def)
  from revocation_by_review_is_final [OF at run E] at show ?thesis by (auto simp: subject)
qed

definition sample_policy :: "uuid \<Rightarrow> DecisionEffect \<Rightarrow> Policy" where
  "sample_policy i effect = \<lparr>pl_ID = i, pl_TenantID = 7, pl_Name = ''p'',
     pl_Rules = [\<lparr>ru_Actions = [], ru_Roles = [], ru_Jurisdictions = [], ru_RequireCaseScope = False,
       ru_TimeWindow = \<lparr>tw_StartHour = 0, tw_EndHour = 0, tw_Enabled = False\<rparr>, ru_Effect = effect\<rparr>],
     pl_Active = True, pl_CreatedBy = 1, pl_CreatedAt = 1, pl_UpdatedAt = 1\<rparr>"

definition sample_policies :: InMemoryRepositories where
  "sample_policies = no_store\<lparr>im_policies := [sample_policy 40 EffectAllow, sample_policy 41 EffectDeny]\<rparr>"

lemma sample_policy_rule: "List.find (\<lambda>r. rule_matches r req) (pl_Rules (sample_policy i effect)) = Some (hd (pl_Rules (sample_policy i effect)))"
  by (simp add: sample_policy_def rule_matches_def TimeWindow_Allows_def)

lemma sample_policy_applies:
  "i \<noteq> j \<Longrightarrow> im_policies s = [sample_policy i e, sample_policy j f] \<Longrightarrow> rq_TenantID req = 7 \<Longrightarrow>
     applicable req (im_view s) (sample_policy i e) \<and> applicable req (im_view s) (sample_policy j f)"
  by (auto simp: applicable_def im_view_def values_by_def sample_policy_def rule_matches_def TimeWindow_Allows_def)

lemma sample_policy_verdict: "verdict_of (sample_policy i effect) req = effect"
  by (simp add: verdict_of_def Policy_evaluate_def sample_policy_rule) (simp add: sample_policy_def)

lemma conflicting_policies_decide_by_map_order_witness:
  "\<exists>it it'. iteration_ok it \<and> iteration_ok it' \<and>
    Decision_Allowed (fst (fst (Evaluate (mem_engine sample_gov_platform None it) (sample_gov_call 9 12) (sample_request\<lparr>rq_Now := 12\<rparr>) (sample_policies, im_empty)))) \<and>
    \<not> Decision_Allowed (fst (fst (Evaluate (mem_engine sample_gov_platform None it') (sample_gov_call 9 12) (sample_request\<lparr>rq_Now := 12\<rparr>) (sample_policies, im_empty))))"
proof -
  let ?r = "sample_request\<lparr>rq_Now := 12\<rparr>"
  have app: "applicable ?r (im_view sample_policies) (sample_policy 40 EffectAllow) \<and> applicable ?r (im_view sample_policies) (sample_policy 41 EffectDeny)"
    by (rule sample_policy_applies) (simp_all add: sample_policies_def sample_request_def)
  have none: "\<nexists>g. denial ?r (im_view sample_policies) g" "\<nexists>g. permit ?r (im_view sample_policies) g" "\<nexists>g. elevation ?r (im_view sample_policies) g"
    by (simp_all add: denial_def permit_def elevation_def im_view_def sample_policies_def no_store_def values_by_def)
  have ok: "Request_Validate ?r = None" by code_simp
  show ?thesis
    by (rule conflicting_policies_decide_by_map_order [where u = sample_manager, OF ok _ _ _ none conjunct1 [OF app] sample_policy_verdict conjunct2 [OF app] sample_policy_verdict])
       (simp_all add: sample_request_def zero_time_def)
qed

theorem decisions_are_on_the_record_witness:
  "\<exists>log a e. gov_run (mem_engine sample_gov_platform (Some (mem_repo sample_gov_platform)) ` Collect iteration_ok) (no_store, im_empty) log (sample_store, a) 10 \<and>
     e \<in> set (im_events a 7) \<and> ev_Actor e = ''u'' \<and> ev_Outcome e = ''allowed'' \<and>
     VerifyTenantChain sample_gov_platform (mem_repo sample_gov_platform) (Some sample_auditor) 7 a = (True, -1, None)"
proof -
  let ?P = sample_gov_platform
  obtain log a where run: "gov_run (mem_engine ?P (Some (mem_repo ?P)) ` Collect iteration_ok) (no_store, im_empty) log (sample_store, a) 10"
      and entry: "(sample_gov_call 9 10, OpEvaluate sample_request, Decided sample_decision None) \<in> set log"
    using sample_gov_run [of ?P "Some (mem_repo ?P)" im_empty] by blast
  have u: "uuid_str ?P i = ''u''" for i by (simp add: sample_gov_platform_def)
  have actor: "TrimSpace (uuid_str ?P (rq_ActorUserID sample_request)) \<noteq> []" unfolding u by code_simp
  have t: "rq_TenantID sample_request = 7" by (simp add: sample_request_def)
  have allow: "Decision_Allowed sample_decision" by (simp add: Decision_Allowed_def sample_decision_def decide_def)
  from decisions_are_on_the_record [OF run entry actor sample_auditor_reads(1)] run show ?thesis
    unfolding t u if_P [OF allow] by blast
qed

end
