(* ===== verification/Traversal.thy ===== *)
theory Traversal
  imports TenantGraph Serialize
begin

text \<open>
  \<open>packages/traversal\<close>: queries that follow a sequence of hops through the tree of a case.
  Hops and queries (\<open>hop.go\<close>, \<open>query.go\<close>), paths (\<open>result.go\<close>, \<open>score.go\<close>), the edges of a
  case (\<open>edges.go\<close>) and the walk (\<open>walk.go\<close>, \<open>precedent.go\<close>, \<open>distinguish.go\<close>).
\<close>

section \<open>Hops and paths\<close>

text \<open>The last constructor stands for every value not named by a constant.\<close>

datatype Direction = Forward | Reverse | OtherDirection int

datatype HopKind = HopKindCustom | HopKindGoverningRule | HopKindControllingPrecedent
  | HopKindDistinguishingFacts | OtherHopKind string

fun Direction_String :: "Direction \<Rightarrow> string" where
  "Direction_String Reverse = ''reverse''"
| "Direction_String _ = ''forward''"

fun HopKind_text :: "HopKind \<Rightarrow> string" where
  "HopKind_text HopKindCustom = ''custom''"
| "HopKind_text HopKindGoverningRule = ''governing_rule''"
| "HopKind_text HopKindControllingPrecedent = ''controlling_precedent''"
| "HopKind_text HopKindDistinguishingFacts = ''distinguishing_facts''"
| "HopKind_text (OtherHopKind k) = k"

text \<open>The zero values of the two string types, which stand for an absent type and an absent filter.\<close>

abbreviation no_EdgeType :: EdgeType where
  "no_EdgeType \<equiv> OtherEdgeType []"

abbreviation no_NodeType :: NodeType where
  "no_NodeType \<equiv> OtherNodeType []"

record HopSpec =
  hs_Kind :: HopKind
  hs_EdgeType :: EdgeType
  hs_Direction :: Direction
  hs_NodeTypeFilter :: NodeType

record PathNode =
  pn_ID :: string
  pn_Type :: NodeType
  pn_CaseID :: string
  pn_Text :: string

definition pathNodeFromNode :: "Node \<Rightarrow> PathNode" where
  "pathNodeFromNode n = \<lparr>pn_ID = nd_ID n, pn_Type = nd_Type n, pn_CaseID = nd_CaseID n, pn_Text = nd_Text n\<rparr>"

lemma pathNodeFromNode_simps [simp]:
  "pn_ID (pathNodeFromNode n) = nd_ID n" "pn_Type (pathNodeFromNode n) = nd_Type n"
  "pn_CaseID (pathNodeFromNode n) = nd_CaseID n" "pn_Text (pathNodeFromNode n) = nd_Text n"
  by (simp_all add: pathNodeFromNode_def)

record TraversedHop =
  th_FromIndex :: nat
  th_Kind :: HopKind
  th_EdgeType :: EdgeType
  th_Direction :: Direction

record Path =
  pt_Nodes :: "PathNode list"
  pt_Hops :: "TraversedHop list"
  pt_Score :: rat

record Result =
  rs_Paths :: "Path list"
  rs_Truncated :: bool
  rs_VisitedCount :: nat

definition StartID :: "Path \<Rightarrow> string" where
  "StartID p = (case pt_Nodes p of [] \<Rightarrow> [] | n # _ \<Rightarrow> pn_ID n)"

definition EndID :: "Path \<Rightarrow> string" where
  "EndID p = (if pt_Nodes p = [] then [] else pn_ID (last (pt_Nodes p)))"

definition Depth :: "Path \<Rightarrow> nat" where
  "Depth p = length (pt_Hops p)"

text \<open>\<open>Explain\<close>; a path has one node more than it has hops, so that the index is in range.\<close>

definition explain_hop :: "TraversedHop \<Rightarrow> PathNode \<Rightarrow> string" where
  "explain_hop hop node =
     '' --'' @ HopKind_text (th_Kind hop) @
     (if th_EdgeType hop \<noteq> no_EdgeType
      then ''('' @ Direction_String (th_Direction hop) @ '':'' @ EdgeType_text (th_EdgeType hop) @ '')'' else []) @
     ''--> '' @ pn_ID node"

definition Explain :: "Path \<Rightarrow> string" where
  "Explain p =
     (case pt_Nodes p of [] \<Rightarrow> []
      | n # ns \<Rightarrow> pn_ID n @ concat (map (\<lambda>(h, m). explain_hop h m) (zip (pt_Hops p) ns)))"

text \<open>Scores are rationals. Halving is exact down to paths of about a thousand hops.\<close>

type_synonym ScoreFunc = "Path \<Rightarrow> rat"

fun halve :: "nat \<Rightarrow> rat \<Rightarrow> rat" where
  "halve 0 score = score"
| "halve (Suc n) score = halve n (score / 2)"

definition DefaultScoreFunc :: ScoreFunc where
  "DefaultScoreFunc path = halve (Depth path) 1"

definition ConfidenceWeightedScoreFunc :: "(string \<rightharpoonup> rat) \<Rightarrow> ScoreFunc" where
  "ConfidenceWeightedScoreFunc weights path =
     (let base = DefaultScoreFunc path in
      if pt_Nodes path = [] then base
      else
        let total = sum_list (map (\<lambda>n. case weights (pn_ID n) of None \<Rightarrow> 1 | Some w \<Rightarrow> w) (pt_Nodes path));
            mean = total / of_nat (length (pt_Nodes path))
        in base * mean)"

section \<open>Queries\<close>

text \<open>
  The two resolvers are functions the caller supplies; an error of theirs is its text. They
  take and return typed nodes, of which the walk keeps the embedded \<open>Node\<close>.
\<close>

type_synonym PrecedentResolver = "NodeLike \<Rightarrow> string + NodeLike list"
type_synonym DistinguishingFactResolver = "string \<Rightarrow> NodeLike \<Rightarrow> string + NodeLike list"

definition NoPrecedents :: PrecedentResolver where
  "NoPrecedents _ = Inr []"

definition NoDistinguishingFacts :: DistinguishingFactResolver where
  "NoDistinguishingFacts _ _ = Inr []"

record Query =
  q_CaseID :: string
  q_StartNodeID :: string
  q_Hops :: "HopSpec list"
  q_MaxDepth :: int
  q_ScoreFunc :: "ScoreFunc option"
  q_PrecedentResolver :: "PrecedentResolver option"
  q_DistinguishingFactResolver :: "DistinguishingFactResolver option"

definition NewQuery :: "string \<Rightarrow> string \<Rightarrow> Query" where
  "NewQuery caseID startNodeID =
     \<lparr>q_CaseID = caseID, q_StartNodeID = startNodeID, q_Hops = [], q_MaxDepth = 0, q_ScoreFunc = None,
      q_PrecedentResolver = None, q_DistinguishingFactResolver = None\<rparr>"

text \<open>The builder methods return a modified copy.\<close>

definition Via :: "EdgeType \<Rightarrow> Direction \<Rightarrow> NodeType \<Rightarrow> Query \<Rightarrow> Query" where
  "Via edgeType direction nodeTypeFilter q =
     q\<lparr>q_Hops := q_Hops q @ [\<lparr>hs_Kind = HopKindCustom, hs_EdgeType = edgeType, hs_Direction = direction,
                               hs_NodeTypeFilter = nodeTypeFilter\<rparr>]\<rparr>"

definition ViaGoverningRule :: "Query \<Rightarrow> Query" where
  "ViaGoverningRule q =
     q\<lparr>q_Hops := q_Hops q @ [\<lparr>hs_Kind = HopKindGoverningRule, hs_EdgeType = EdgeGoverns, hs_Direction = Reverse,
                               hs_NodeTypeFilter = NodeRule\<rparr>]\<rparr>"

definition ViaControllingPrecedent :: "Query \<Rightarrow> Query" where
  "ViaControllingPrecedent q =
     q\<lparr>q_Hops := q_Hops q @ [\<lparr>hs_Kind = HopKindControllingPrecedent, hs_EdgeType = no_EdgeType,
                               hs_Direction = Forward, hs_NodeTypeFilter = NodeRule\<rparr>]\<rparr>"

definition ViaDistinguishingFacts :: "Query \<Rightarrow> Query" where
  "ViaDistinguishingFacts q =
     q\<lparr>q_Hops := q_Hops q @ [\<lparr>hs_Kind = HopKindDistinguishingFacts, hs_EdgeType = no_EdgeType,
                               hs_Direction = Forward, hs_NodeTypeFilter = NodeFact\<rparr>]\<rparr>"

definition WithMaxDepth :: "int \<Rightarrow> Query \<Rightarrow> Query" where
  "WithMaxDepth maxDepth q = q\<lparr>q_MaxDepth := maxDepth\<rparr>"

definition RankBy :: "ScoreFunc \<Rightarrow> Query \<Rightarrow> Query" where
  "RankBy scoreFunc q = q\<lparr>q_ScoreFunc := Some scoreFunc\<rparr>"

definition WithPrecedentResolver :: "PrecedentResolver \<Rightarrow> Query \<Rightarrow> Query" where
  "WithPrecedentResolver resolver q = q\<lparr>q_PrecedentResolver := Some resolver\<rparr>"

definition WithDistinguishingFactResolver :: "DistinguishingFactResolver \<Rightarrow> Query \<Rightarrow> Query" where
  "WithDistinguishingFactResolver resolver q = q\<lparr>q_DistinguishingFactResolver := Some resolver\<rparr>"

text \<open>
  \<open>'e\<close> is the error of the store. \<open>ErrNoHopsAt\<close> is \<open>ErrNoHops\<close> wrapped with the index of a hop,
  and \<open>ErrStartNodeNotFound\<close> carries the error of the store unless the node is of another case.
\<close>

datatype 'e traversal_error = ErrNilGraphStore | ErrEmptyStartNodeID | ErrEmptyCaseID | ErrNoHops
  | ErrNoHopsAt nat | ErrInvalidMaxDepth | ErrInvalidCacheCapacity | ErrStartNodeNotFound "'e option"
  | StoreFailed 'e | ResolverFailed string string

fun check_hops :: "nat \<Rightarrow> HopSpec list \<Rightarrow> 'e traversal_error option" where
  "check_hops i [] = None"
| "check_hops i (hop # rest) =
     (if hs_Kind hop = HopKindCustom \<and> hs_EdgeType hop = no_EdgeType then Some (ErrNoHopsAt i)
      else check_hops (Suc i) rest)"

definition validate :: "Query \<Rightarrow> 'e traversal_error option" where
  "validate q =
     (if q_CaseID q = [] then Some ErrEmptyCaseID
      else if q_StartNodeID q = [] then Some ErrEmptyStartNodeID
      else if q_Hops q = [] then Some ErrNoHops
      else if q_MaxDepth q < 0 then Some ErrInvalidMaxDepth
      else check_hops 0 (q_Hops q))"

definition effectiveDepth :: "Query \<Rightarrow> nat" where
  "effectiveDepth q =
     (if q_MaxDepth q \<le> 0 \<or> q_MaxDepth q \<ge> int (length (q_Hops q)) then length (q_Hops q) else nat (q_MaxDepth q))"

lemma effectiveDepth_le: "effectiveDepth q \<le> length (q_Hops q)"
  by (auto simp: effectiveDepth_def)

section \<open>The edges of a case\<close>

text \<open>
  What a walk uses of a store: its reads, and whether it can list the edges of a case. The
  first list is in the order in which the store delivers the nodes.
\<close>

record ('e, 's) reader =
  rd_GetNode :: "string \<Rightarrow> 's \<Rightarrow> 'e + Node"
  rd_Traverse :: "TraversalQuery \<Rightarrow> 's \<Rightarrow> 'e + Node list"
  rd_EdgesForCase :: "(string \<Rightarrow> 's \<Rightarrow> Edge list) option"

record caseEdgeIndex =
  ci_outbound :: "string \<Rightarrow> Edge list"
  ci_inbound :: "string \<Rightarrow> Edge list"

definition index_edge :: "Edge \<Rightarrow> caseEdgeIndex \<Rightarrow> caseEdgeIndex" where
  "index_edge e idx =
     idx\<lparr>ci_outbound := (ci_outbound idx)(ed_FromID e := ci_outbound idx (ed_FromID e) @ [e]),
         ci_inbound := (ci_inbound idx)(ed_ToID e := ci_inbound idx (ed_ToID e) @ [e])\<rparr>"

definition newCaseEdgeIndex :: "Edge list \<Rightarrow> caseEdgeIndex" where
  "newCaseEdgeIndex edges = fold index_edge edges \<lparr>ci_outbound = (\<lambda>_. []), ci_inbound = (\<lambda>_. [])\<rparr>"

definition neighbors :: "caseEdgeIndex \<Rightarrow> string \<Rightarrow> EdgeType \<Rightarrow> Direction \<Rightarrow> string list" where
  "neighbors idx nodeID edgeType direction =
     (let edges = (if direction = Reverse then ci_inbound idx nodeID else ci_outbound idx nodeID) in
      map (\<lambda>e. if direction = Reverse then ed_FromID e else ed_ToID e) (filter (\<lambda>e. ed_Type e = edgeType) edges))"

text \<open>The set \<open>seen\<close> of the code holds the edges collected so far.\<close>

fun collect_neighbors :: "Node \<Rightarrow> Node list \<Rightarrow> Edge list \<Rightarrow> Edge list" where
  "collect_neighbors n [] edges = edges"
| "collect_neighbors n (neighbor # ms) edges =
     (if nd_ID neighbor = nd_ID n then collect_neighbors n ms edges
      else
        let e = \<lparr>ed_FromID = nd_ID n, ed_ToID = nd_ID neighbor, ed_Type = no_EdgeType\<rparr> in
        if e \<in> set edges then collect_neighbors n ms edges else collect_neighbors n ms (edges @ [e]))"

fun edges_by_traverse ::
  "('e, 's) reader \<Rightarrow> string \<Rightarrow> 's \<Rightarrow> Node list \<Rightarrow> Edge list \<Rightarrow> 'e traversal_error + Edge list" where
  "edges_by_traverse rd caseID s [] edges = Inr edges"
| "edges_by_traverse rd caseID s (n # ns) edges =
     (case rd_Traverse rd \<lparr>tq_CaseID = caseID, tq_NodeType = None, tq_FromNodeID = nd_ID n, tq_MaxDepth = 1\<rparr> s of
        Inl err \<Rightarrow> Inl (StoreFailed err)
      | Inr ms \<Rightarrow> edges_by_traverse rd caseID s ns (collect_neighbors n ms edges))"

definition loadCaseEdgesViaTraverse :: "('e, 's) reader \<Rightarrow> string \<Rightarrow> 's \<Rightarrow> 'e traversal_error + Edge list" where
  "loadCaseEdgesViaTraverse rd caseID s =
     (case rd_Traverse rd \<lparr>tq_CaseID = caseID, tq_NodeType = None, tq_FromNodeID = [], tq_MaxDepth = 0\<rparr> s of
        Inl err \<Rightarrow> Inl (StoreFailed err)
      | Inr ns \<Rightarrow> edges_by_traverse rd caseID s ns [])"

definition loadCaseEdges :: "('e, 's) reader \<Rightarrow> string \<Rightarrow> 's \<Rightarrow> 'e traversal_error + Edge list" where
  "loadCaseEdges rd caseID s =
     (case rd_EdgesForCase rd of
        Some lister \<Rightarrow> Inr (lister caseID s)
      | None \<Rightarrow> loadCaseEdgesViaTraverse rd caseID s)"

lemma newCaseEdgeIndex_simps [simp]:
  "ci_outbound (newCaseEdgeIndex es) k = filter (\<lambda>e. ed_FromID e = k) es"
  "ci_inbound (newCaseEdgeIndex es) k = filter (\<lambda>e. ed_ToID e = k) es"
proof -
  have "ci_outbound (fold index_edge es idx) k = ci_outbound idx k @ filter (\<lambda>e. ed_FromID e = k) es \<and>
        ci_inbound (fold index_edge es idx) k = ci_inbound idx k @ filter (\<lambda>e. ed_ToID e = k) es" for idx
    by (induction es arbitrary: idx) (auto simp: index_edge_def)
  then show "ci_outbound (newCaseEdgeIndex es) k = filter (\<lambda>e. ed_FromID e = k) es"
    "ci_inbound (newCaseEdgeIndex es) k = filter (\<lambda>e. ed_ToID e = k) es"
    by (simp_all add: newCaseEdgeIndex_def)
qed

text \<open>One step of a hop along the edges, by IDs.\<close>

definition edge_step :: "Edge list \<Rightarrow> HopSpec \<Rightarrow> string \<Rightarrow> string \<Rightarrow> bool" where
  "edge_step es hop a b \<longleftrightarrow>
     (\<exists>e\<in>set es. ed_Type e = hs_EdgeType hop \<and>
        (if hs_Direction hop = Reverse then ed_ToID e = a \<and> ed_FromID e = b else ed_FromID e = a \<and> ed_ToID e = b))"

lemma set_neighbors:
  "b \<in> set (neighbors (newCaseEdgeIndex es) a (hs_EdgeType hop) (hs_Direction hop)) \<longleftrightarrow> edge_step es hop a b"
  by (auto simp: neighbors_def edge_step_def)

section \<open>The walk\<close>

text \<open>
  A walker has the store and an optional cache; the cache is in \<open>TraversalCache\<close>. The
  constructor rejects a nil store.
\<close>

definition NewWalker :: "('e, 's) reader option \<Rightarrow> 'e traversal_error + ('e, 's) reader" where
  "NewWalker store = (case store of None \<Rightarrow> Inl ErrNilGraphStore | Some rd \<Rightarrow> Inr rd)"

record frontierNode =
  fn_nodeIndex :: nat
  fn_node :: Node

text \<open>The slices and the set that the walk accumulates.\<close>

record WalkState =
  ws_nodes :: "PathNode list"
  ws_hops :: "TraversedHop list"
  ws_visited :: "string set"

fun get_nodes :: "('e, 's) reader \<Rightarrow> 's \<Rightarrow> string list \<Rightarrow> 'e traversal_error + Node list" where
  "get_nodes rd s [] = Inr []"
| "get_nodes rd s (k # ks) =
     (case rd_GetNode rd k s of
        Inl err \<Rightarrow> Inl (StoreFailed err)
      | Inr n \<Rightarrow> (case get_nodes rd s ks of Inl err \<Rightarrow> Inl err | Inr ns \<Rightarrow> Inr (n # ns)))"

definition resolveEdgeHop ::
  "('e, 's) reader \<Rightarrow> 's \<Rightarrow> caseEdgeIndex \<Rightarrow> HopSpec \<Rightarrow> Node \<Rightarrow> 'e traversal_error + Node list" where
  "resolveEdgeHop rd s edgeIdx hop from =
     get_nodes rd s (neighbors edgeIdx (nd_ID from) (hs_EdgeType hop) (hs_Direction hop))"

definition resolvePrecedentHop :: "Query \<Rightarrow> Node \<Rightarrow> 'e traversal_error + Node list" where
  "resolvePrecedentHop q from =
     (if nd_Type from \<noteq> NodeRule then Inr []
      else
        let resolver = (case q_PrecedentResolver q of None \<Rightarrow> NoPrecedents | Some r \<Rightarrow> r) in
        (case resolver (RuleNode from [] [] []) of
           Inl err \<Rightarrow> Inl (ResolverFailed (nd_ID from) err)
         | Inr rules \<Rightarrow> Inr (map node_of rules)))"

definition resolveDistinguishingFactsHop :: "Query \<Rightarrow> Node \<Rightarrow> 'e traversal_error + Node list" where
  "resolveDistinguishingFactsHop q from =
     (if nd_Type from \<noteq> NodeRule then Inr []
      else
        let resolver = (case q_DistinguishingFactResolver q of None \<Rightarrow> NoDistinguishingFacts | Some r \<Rightarrow> r) in
        (case resolver (q_CaseID q) (RuleNode from [] [] []) of
           Inl err \<Rightarrow> Inl (ResolverFailed (nd_ID from) err)
         | Inr facts \<Rightarrow> Inr (map node_of facts)))"

definition resolveHop ::
  "('e, 's) reader \<Rightarrow> Query \<Rightarrow> 's \<Rightarrow> caseEdgeIndex \<Rightarrow> HopSpec \<Rightarrow> Node \<Rightarrow> 'e traversal_error + Node list" where
  "resolveHop rd q s edgeIdx hop from =
     (if hs_Kind hop = HopKindControllingPrecedent then resolvePrecedentHop q from
      else if hs_Kind hop = HopKindDistinguishingFacts then resolveDistinguishingFactsHop q from
      else resolveEdgeHop rd s edgeIdx hop from)"

text \<open>One candidate of a live node: pruned by the filter, skipped when visited, or appended.\<close>

definition add_candidate ::
  "HopSpec \<Rightarrow> nat \<Rightarrow> Node \<Rightarrow> WalkState \<times> frontierNode list \<Rightarrow> WalkState \<times> frontierNode list" where
  "add_candidate hop liveIndex candidate acc =
     (case acc of (ws, nxt) \<Rightarrow>
        if hs_NodeTypeFilter hop \<noteq> no_NodeType \<and> nd_Type candidate \<noteq> hs_NodeTypeFilter hop then (ws, nxt)
        else if nd_ID candidate \<in> ws_visited ws then (ws, nxt)
        else
          let ws = \<lparr>ws_nodes = ws_nodes ws @ [pathNodeFromNode candidate],
                    ws_hops = ws_hops ws @ [\<lparr>th_FromIndex = liveIndex, th_Kind = hs_Kind hop,
                                             th_EdgeType = hs_EdgeType hop, th_Direction = hs_Direction hop\<rparr>],
                    ws_visited = insert (nd_ID candidate) (ws_visited ws)\<rparr>
          in (ws, nxt @ [\<lparr>fn_nodeIndex = length (ws_nodes ws) - 1, fn_node = candidate\<rparr>]))"

fun expand ::
  "(Node \<Rightarrow> 'e traversal_error + Node list) \<Rightarrow> HopSpec \<Rightarrow> frontierNode list \<Rightarrow> WalkState \<times> frontierNode list
     \<Rightarrow> 'e traversal_error + WalkState \<times> frontierNode list" where
  "expand resolve hop [] acc = Inr acc"
| "expand resolve hop (live # frontier) acc =
     (case resolve (fn_node live) of
        Inl err \<Rightarrow> Inl err
      | Inr candidates \<Rightarrow> expand resolve hop frontier (fold (add_candidate hop (fn_nodeIndex live)) candidates acc))"

text \<open>The loop over the hops; it ends early when a step finds nothing.\<close>

fun walk_hops ::
  "(HopSpec \<Rightarrow> Node \<Rightarrow> 'e traversal_error + Node list) \<Rightarrow> HopSpec list \<Rightarrow> WalkState \<times> frontierNode list
     \<Rightarrow> 'e traversal_error + WalkState \<times> frontierNode list" where
  "walk_hops resolve [] acc = Inr acc"
| "walk_hops resolve (hop # rest) (ws, frontier) =
     (case expand (resolve hop) hop frontier (ws, []) of
        Inl err \<Rightarrow> Inl err
      | Inr (ws, nxt) \<Rightarrow> if nxt = [] then Inr (ws, []) else walk_hops resolve rest (ws, nxt))"

text \<open>
  \<open>buildPathTo\<close> follows the parent pointers up to a node that has none. Nothing in the loop
  bounds it, so it is partial; that it returns is a theorem.
\<close>

partial_function (option) follow_parents ::
  "PathNode list \<Rightarrow> (nat \<rightharpoonup> TraversedHop) \<Rightarrow> nat \<Rightarrow> PathNode list \<Rightarrow> TraversedHop list
     \<Rightarrow> (PathNode list \<times> TraversedHop list) option" where
  "follow_parents nodes parentHop idx pathNodes pathHops =
     (let pathNodes = (nodes ! idx) # pathNodes in
      case parentHop idx of
        None \<Rightarrow> Some (pathNodes, pathHops)
      | Some hop \<Rightarrow> follow_parents nodes parentHop (th_FromIndex hop) pathNodes (hop # pathHops))"

definition renumber :: "TraversedHop list \<Rightarrow> TraversedHop list" where
  "renumber walked = map (\<lambda>(i, h). h\<lparr>th_FromIndex := i\<rparr>) (enumerate 0 walked)"

definition buildPathTo :: "PathNode list \<Rightarrow> (nat \<rightharpoonup> TraversedHop) \<Rightarrow> nat \<Rightarrow> Path option" where
  "buildPathTo nodes parentHop leafIndex =
     (case follow_parents nodes parentHop leafIndex [] [] of
        None \<Rightarrow> None
      | Some (pathNodes, pathHops) \<Rightarrow>
          Some \<lparr>pt_Nodes = pathNodes, pt_Hops = renumber pathHops, pt_Score = 0\<rparr>)"

definition parent_hop :: "TraversedHop list \<Rightarrow> nat \<rightharpoonup> TraversedHop" where
  "parent_hop walked i = (if 0 < i \<and> i \<le> length walked then Some (walked ! (i - 1)) else None)"

definition assemblePaths :: "PathNode list \<Rightarrow> TraversedHop list \<Rightarrow> Path list option" where
  "assemblePaths nodes walked =
     (if length nodes = 1 then Some [\<lparr>pt_Nodes = nodes, pt_Hops = [], pt_Score = 0\<rparr>]
      else those (map (buildPathTo nodes (parent_hop walked))
                   (filter (\<lambda>i. i \<notin> th_FromIndex ` set walked) [0..<length nodes])))"

definition rank_paths :: "ScoreFunc \<Rightarrow> Path list \<Rightarrow> Path list" where
  "rank_paths scoreFn paths =
     sort_by (\<lambda>p p'. pt_Score p > pt_Score p') (map (\<lambda>p. p\<lparr>pt_Score := scoreFn p\<rparr>) paths)"

text \<open>\<open>None\<close> is a call that does not return.\<close>

definition Execute :: "('e, 's) reader \<Rightarrow> Query \<Rightarrow> 's \<Rightarrow> ('e traversal_error + Result) option" where
  "Execute rd q s =
     (case validate q of
        Some err \<Rightarrow> Some (Inl err)
      | None \<Rightarrow>
     (case rd_GetNode rd (q_StartNodeID q) s of
        Inl err \<Rightarrow> Some (Inl (ErrStartNodeNotFound (Some err)))
      | Inr startNode \<Rightarrow>
     (if nd_CaseID startNode \<noteq> q_CaseID q then Some (Inl (ErrStartNodeNotFound None))
      else
     (case loadCaseEdges rd (q_CaseID q) s of
        Inl err \<Rightarrow> Some (Inl err)
      | Inr edges \<Rightarrow>
          let edgeIdx = newCaseEdgeIndex edges;
              depth = effectiveDepth q;
              ws = \<lparr>ws_nodes = [pathNodeFromNode startNode], ws_hops = [], ws_visited = {nd_ID startNode}\<rparr>;
              frontier = [\<lparr>fn_nodeIndex = 0, fn_node = startNode\<rparr>]
          in
     (case walk_hops (resolveHop rd q s edgeIdx) (take depth (q_Hops q)) (ws, frontier) of
        Inl err \<Rightarrow> Some (Inl err)
      | Inr (ws, frontier) \<Rightarrow>
          let truncated = (frontier \<noteq> [] \<and> depth < length (q_Hops q));
              scoreFn = (case q_ScoreFunc q of None \<Rightarrow> DefaultScoreFunc | Some f \<Rightarrow> f)
          in map_option
               (\<lambda>paths. Inr \<lparr>rs_Paths = rank_paths scoreFn paths, rs_Truncated = truncated,
                             rs_VisitedCount = card (ws_visited ws)\<rparr>)
               (assemblePaths (ws_nodes ws) (ws_hops ws)))))))"

section \<open>Routes\<close>

text \<open>
  The route to a node of the walk, along the parent pointers. \<open>R\<close> says which steps are right:
  the depth, the node the step leaves, the hop on record and the node it reaches.
\<close>

inductive routed ::
  "(nat \<Rightarrow> PathNode \<Rightarrow> TraversedHop \<Rightarrow> PathNode \<Rightarrow> bool) \<Rightarrow> WalkState \<Rightarrow> nat \<Rightarrow> PathNode list
     \<Rightarrow> TraversedHop list \<Rightarrow> bool" for R ws where
  root: "ws_nodes ws \<noteq> [] \<Longrightarrow> routed R ws 0 [ws_nodes ws ! 0] []"
| step: "routed R ws (th_FromIndex h) ns hs \<Longrightarrow> i < length (ws_hops ws) \<Longrightarrow> ws_hops ws ! i = h \<Longrightarrow>
         Suc i < length (ws_nodes ws) \<Longrightarrow> R (length hs) (last ns) h (ws_nodes ws ! Suc i) \<Longrightarrow>
         routed R ws (Suc i) (ns @ [ws_nodes ws ! Suc i]) (hs @ [h])"

inductive_cases routed_0E: "routed R ws 0 ns hs"
inductive_cases routed_SucE: "routed R ws (Suc i) ns hs"

lemma routed_shape:
  "routed R ws i ns hs \<Longrightarrow>
     length ns = Suc (length hs) \<and> i < length (ws_nodes ws) \<and> hd ns = ws_nodes ws ! 0 \<and> last ns = ws_nodes ws ! i"
  by (induction rule: routed.induct) (auto simp: hd_append split: if_splits)

lemma routed_unique: "routed R ws i ns hs \<Longrightarrow> routed R ws i ns' hs' \<Longrightarrow> ns' = ns \<and> hs' = hs"
proof (induction arbitrary: ns' hs' rule: routed.induct)
  case root
  then show ?case by (auto elim: routed_0E)
next
  case (step h ns hs i)
  from step.prems show ?case
    by (rule routed_SucE) (use step.IH step.hyps in auto)
qed

definition extends :: "WalkState \<Rightarrow> WalkState \<Rightarrow> bool" where
  "extends ws ws' \<longleftrightarrow>
     (\<exists>xs. ws_nodes ws' = ws_nodes ws @ xs) \<and> (\<exists>ys. ws_hops ws' = ws_hops ws @ ys) \<and> ws_visited ws \<subseteq> ws_visited ws'"

lemma extends_refl [simp]: "extends ws ws"
  by (simp add: extends_def)

lemma extends_trans: "extends u v \<Longrightarrow> extends v w \<Longrightarrow> extends u w"
  by (auto simp: extends_def)

lemma extends_nth: "extends ws ws' \<Longrightarrow> i < length (ws_nodes ws) \<Longrightarrow> ws_nodes ws' ! i = ws_nodes ws ! i"
  by (auto simp: extends_def nth_append)

lemma routed_extends:
  assumes "routed R ws i ns hs" "extends ws ws'"
  shows "routed R ws' i ns hs"
  using assms
proof (induction rule: routed.induct)
  case root
  then show ?case using routed.root [of ws' R] by (auto simp: extends_def nth_append)
next
  case (step h ns hs i)
  then show ?case using routed.step [of R ws' h ns hs i] by (auto simp: extends_def nth_append)
qed

lemma routed_steps:
  "routed R ws i ns hs \<Longrightarrow> a < length hs \<Longrightarrow> R a (ns ! a) (hs ! a) (ns ! Suc a)"
proof (induction arbitrary: a rule: routed.induct)
  case (step h ns hs i)
  note shape = routed_shape [OF step.hyps(1)]
  show ?case
  proof (cases "a < length hs")
    case True
    with step shape show ?thesis by (simp add: nth_append)
  next
    case False
    with step.prems have a: "a = length hs" by simp
    have "ns ! length hs = last ns" using shape by (metis diff_Suc_1 last_conv_nth length_0_conv nat.simps(3))
    with a step.hyps(5) shape show ?thesis by (simp add: nth_append)
  qed
qed simp

text \<open>Each node of a route has the front of the route as its own.\<close>

lemma routed_prefix:
  "routed R ws i ns hs \<Longrightarrow> a < length ns \<Longrightarrow>
     \<exists>j. routed R ws j (take (Suc a) ns) (take a hs) \<and> ns ! a = ws_nodes ws ! j"
proof (induction arbitrary: a rule: routed.induct)
  case root
  then show ?case using routed.root [of ws R] by auto
next
  case (step h ns hs i)
  note shape = routed_shape [OF step.hyps(1)]
  show ?case
  proof (cases "a < length ns")
    case True
    with step.IH [OF this] shape show ?thesis by (auto simp: nth_append)
  next
    case False
    with step.prems have a: "a = length ns" by simp
    moreover have "(ns @ [ws_nodes ws ! Suc i]) ! length ns = ws_nodes ws ! Suc i" by simp
    ultimately show ?thesis using routed.step [OF step.hyps] shape by (intro exI [of _ "Suc i"]) simp
  qed
qed

text \<open>The slices as the walk keeps them: parents come before their children, no node twice.\<close>

definition walk_shape :: "WalkState \<Rightarrow> bool" where
  "walk_shape ws \<longleftrightarrow>
     length (ws_nodes ws) = Suc (length (ws_hops ws)) \<and>
     (\<forall>i<length (ws_hops ws). th_FromIndex (ws_hops ws ! i) \<le> i) \<and>
     distinct (map pn_ID (ws_nodes ws)) \<and> ws_visited ws = pn_ID ` set (ws_nodes ws)"

lemma parent_before:
  assumes "walk_shape ws" "i < length (ws_hops ws)" "ws_hops ws ! i = h"
  shows "set (take (Suc (th_FromIndex h)) (ws_nodes ws)) \<subseteq> set (take (Suc i) (ws_nodes ws))"
  using assms by (intro set_take_subset_set_take) (auto simp: walk_shape_def)

lemma take_last_node:
  "Suc i < length (ws_nodes ws) \<Longrightarrow> take (Suc (Suc i)) (ws_nodes ws) = take (Suc i) (ws_nodes ws) @ [ws_nodes ws ! Suc i]"
  by (rule take_Suc_conv_app_nth)

lemma routed_below:
  assumes "walk_shape ws"
  shows "routed R ws i ns hs \<Longrightarrow> set ns \<subseteq> set (take (Suc i) (ws_nodes ws))"
proof (induction rule: routed.induct)
  case root
  then show ?case by (cases "ws_nodes ws") simp_all
next
  case (step h ns hs i)
  have "set ns \<subseteq> set (take (Suc i) (ws_nodes ws))"
    using step.IH parent_before [OF assms step.hyps(2,3)] by (rule subset_trans)
  then show ?case unfolding take_last_node [OF step.hyps(4)] by (simp add: subset_insertI2)
qed

lemma routed_distinct:
  assumes "walk_shape ws"
  shows "routed R ws i ns hs \<Longrightarrow> distinct (map pn_ID ns)"
proof (induction rule: routed.induct)
  case (step h ns hs i)
  have below: "set ns \<subseteq> set (take (Suc i) (ws_nodes ws))"
    using routed_below [OF assms step.hyps(1)] parent_before [OF assms step.hyps(2,3)] by (rule subset_trans)
  have "distinct (map pn_ID (take (Suc (Suc i)) (ws_nodes ws)))"
    using assms unfolding walk_shape_def take_map [symmetric] by (blast intro: distinct_take)
  then have "pn_ID (ws_nodes ws ! Suc i) \<notin> pn_ID ` set (take (Suc i) (ws_nodes ws))"
    unfolding take_last_node [OF step.hyps(4)] by simp
  then have "pn_ID (ws_nodes ws ! Suc i) \<notin> pn_ID ` set ns" using below by blast
  then show ?case using step.IH by simp
qed simp

text \<open>A node is reached by one route only, also when it lies in the middle of another.\<close>

lemma routed_shared:
  assumes "walk_shape ws" "routed R ws i ns hs" "routed R ws j ms gs" "a < length ns" "b < length ms"
    "pn_ID (ns ! a) = pn_ID (ms ! b)"
  shows "a = b \<and> take (Suc a) ns = take (Suc b) ms \<and> take a hs = take b gs"
proof -
  obtain k where k: "routed R ws k (take (Suc a) ns) (take a hs)" "ns ! a = ws_nodes ws ! k"
    using routed_prefix [OF assms(2,4)] by blast
  obtain l where l: "routed R ws l (take (Suc b) ms) (take b gs)" "ms ! b = ws_nodes ws ! l"
    using routed_prefix [OF assms(3,5)] by blast
  have "k < length (ws_nodes ws)" "l < length (ws_nodes ws)"
    using routed_shape [OF k(1)] routed_shape [OF l(1)] by auto
  then have "k = l"
    using assms(1,6) k(2) l(2) by (simp add: walk_shape_def distinct_conv_nth) metis
  then have same: "take (Suc a) ns = take (Suc b) ms \<and> take a hs = take b gs" using routed_unique k(1) l(1) by blast
  moreover have "a = b" using arg_cong [OF conjunct1 [OF same], of length] assms(4,5) by simp
  ultimately show ?thesis by simp
qed

text \<open>Following the parents of a routed node ends, with its route.\<close>

lemma follow_routed:
  "routed R ws i ns hs \<Longrightarrow>
     follow_parents (ws_nodes ws) (parent_hop (ws_hops ws)) i P H = Some (ns @ P, hs @ H)"
proof (induction arbitrary: P H rule: routed.induct)
  case root
  then show ?case by (subst follow_parents.simps) (simp add: parent_hop_def)
next
  case (step h ns hs i)
  then have "parent_hop (ws_hops ws) (Suc i) = Some h" by (simp add: parent_hop_def)
  with step.IH show ?case by (subst follow_parents.simps) simp
qed

section \<open>The invariant of the walk\<close>

text \<open>
  At step \<open>k\<close> the live nodes are those \<open>k\<close> hops away, and every node nearer than that is done:
  what a complete step reaches from it, which \<open>C\<close> says, has been visited.
\<close>

definition entry_at where
  "entry_at R k ws f \<longleftrightarrow>
     ws_nodes ws ! fn_nodeIndex f = pathNodeFromNode (fn_node f) \<and>
     (\<exists>ns hs. routed R ws (fn_nodeIndex f) ns hs \<and> length hs = k)"

definition done_at :: "(nat \<Rightarrow> PathNode \<Rightarrow> string \<Rightarrow> bool) \<Rightarrow> WalkState \<Rightarrow> nat \<Rightarrow> PathNode \<Rightarrow> bool" where
  "done_at C ws d a \<longleftrightarrow> (\<forall>x. C d a x \<longrightarrow> x \<in> ws_visited ws)"

definition level_inv where
  "level_inv R C k ws F \<longleftrightarrow>
     walk_shape ws \<and> (\<forall>f\<in>set F. entry_at R k ws f) \<and>
     (\<forall>i<length (ws_nodes ws). \<exists>ns hs. routed R ws i ns hs \<and>
        (length hs = k \<and> i \<in> fn_nodeIndex ` set F \<or> length hs < k \<and> done_at C ws (length hs) (ws_nodes ws ! i)))"

definition step_inv where
  "step_inv R C k F ws nxt \<longleftrightarrow>
     walk_shape ws \<and> (\<forall>f\<in>set F. entry_at R k ws f) \<and> (\<forall>f\<in>set nxt. entry_at R (Suc k) ws f) \<and>
     (\<forall>i<length (ws_nodes ws). \<exists>ns hs. routed R ws i ns hs \<and>
        (length hs = Suc k \<and> i \<in> fn_nodeIndex ` set nxt \<or> length hs = k \<and> i \<in> fn_nodeIndex ` set F \<or>
         length hs < k \<and> done_at C ws (length hs) (ws_nodes ws ! i)))"

definition passes :: "HopSpec \<Rightarrow> Node \<Rightarrow> bool" where
  "passes hop n \<longleftrightarrow> hs_NodeTypeFilter hop = no_NodeType \<or> nd_Type n = hs_NodeTypeFilter hop"

definition hop_record :: "HopSpec \<Rightarrow> nat \<Rightarrow> TraversedHop" where
  "hop_record hop i =
     \<lparr>th_FromIndex = i, th_Kind = hs_Kind hop, th_EdgeType = hs_EdgeType hop, th_Direction = hs_Direction hop\<rparr>"

lemma entry_extends: "entry_at R k ws f \<Longrightarrow> extends ws ws' \<Longrightarrow> entry_at R k ws' f"
  unfolding entry_at_def by (metis extends_nth routed_extends routed_shape)

lemma done_extends: "done_at C ws d a \<Longrightarrow> extends ws ws' \<Longrightarrow> done_at C ws' d a"
  by (auto simp: done_at_def extends_def)

lemma step_start: "level_inv R C k ws F \<Longrightarrow> step_inv R C k F ws []"
  unfolding level_inv_def step_inv_def by auto

lemma step_end:
  assumes "step_inv R C k F ws nxt" "\<And>f. f \<in> set F \<Longrightarrow> done_at C ws k (pathNodeFromNode (fn_node f))"
  shows "level_inv R C (Suc k) ws nxt"
proof -
  have "\<exists>ns hs. routed R ws i ns hs \<and>
      (length hs = Suc k \<and> i \<in> fn_nodeIndex ` set nxt \<or>
       length hs < Suc k \<and> done_at C ws (length hs) (ws_nodes ws ! i))"
    if i: "i < length (ws_nodes ws)" for i
  proof -
    obtain ns hs where r: "routed R ws i ns hs"
      and c: "length hs = Suc k \<and> i \<in> fn_nodeIndex ` set nxt \<or> length hs = k \<and> i \<in> fn_nodeIndex ` set F \<or>
         length hs < k \<and> done_at C ws (length hs) (ws_nodes ws ! i)"
      using assms(1) i unfolding step_inv_def by blast
    have "done_at C ws k (ws_nodes ws ! i)" if "i \<in> fn_nodeIndex ` set F"
      using that assms by (auto simp: step_inv_def entry_at_def)
    with r c show ?thesis by (intro exI [of _ ns] exI [of _ hs]) auto
  qed
  then show ?thesis using assms(1) by (simp add: level_inv_def step_inv_def)
qed

text \<open>A new node is one hop behind the live one.\<close>

lemma add_candidate_cases:
  "add_candidate hop j n (ws, nxt) =
     (if passes hop n \<and> nd_ID n \<notin> ws_visited ws
      then (\<lparr>ws_nodes = ws_nodes ws @ [pathNodeFromNode n], ws_hops = ws_hops ws @ [hop_record hop j],
             ws_visited = insert (nd_ID n) (ws_visited ws)\<rparr>,
            nxt @ [\<lparr>fn_nodeIndex = length (ws_nodes ws), fn_node = n\<rparr>])
      else (ws, nxt))"
  by (auto simp: add_candidate_def passes_def hop_record_def Let_def)

lemma step_append:
  assumes inv: "step_inv R C k F ws nxt" and live: "f \<in> set F"
    and new: "nd_ID n \<notin> ws_visited ws"
    and good: "R k (pathNodeFromNode (fn_node f)) (hop_record hop (fn_nodeIndex f)) (pathNodeFromNode n)"
    and ws': "ws' = \<lparr>ws_nodes = ws_nodes ws @ [pathNodeFromNode n],
               ws_hops = ws_hops ws @ [hop_record hop (fn_nodeIndex f)],
               ws_visited = insert (nd_ID n) (ws_visited ws)\<rparr>"
  shows "step_inv R C k F ws' (nxt @ [\<lparr>fn_nodeIndex = length (ws_nodes ws), fn_node = n\<rparr>])"
proof -
  have ext: "extends ws ws'" by (auto simp: ws' extends_def)
  have shape: "walk_shape ws" using inv by (simp add: step_inv_def)
  have at: "entry_at R k ws f" using inv live by (simp add: step_inv_def)
  then obtain ns hs where r: "routed R ws (fn_nodeIndex f) ns hs" "length hs = k"
    by (auto simp: entry_at_def)
  have idx: "fn_nodeIndex f \<le> length (ws_hops ws)"
    using routed_shape [OF r(1)] shape by (simp add: walk_shape_def)
  have shape': "walk_shape ws'"
    using shape new idx by (auto simp: ws' walk_shape_def nth_append hop_record_def less_Suc_eq)
  have last: "last ns = pathNodeFromNode (fn_node f)"
    using routed_shape [OF r(1)] at by (simp add: entry_at_def)
  have "routed R ws' (Suc (length (ws_hops ws))) (ns @ [ws_nodes ws' ! Suc (length (ws_hops ws))])
      (hs @ [hop_record hop (fn_nodeIndex f)])"
    using routed_extends [OF r(1) ext] good r(2) shape last
    by (intro routed.step) (simp_all add: ws' walk_shape_def hop_record_def nth_append)
  then have new_route: "\<exists>ns hs. routed R ws' (length (ws_nodes ws)) ns hs \<and> length hs = Suc k"
    using shape r(2) by (metis length_append_singleton walk_shape_def)
  have "entry_at R (Suc k) ws' \<lparr>fn_nodeIndex = length (ws_nodes ws), fn_node = n\<rparr>"
    using new_route by (simp add: entry_at_def ws')
  moreover have "\<exists>ns hs. routed R ws' i ns hs \<and>
      (length hs = Suc k \<and> i \<in> insert (length (ws_nodes ws)) (fn_nodeIndex ` set nxt) \<or>
       length hs = k \<and> i \<in> fn_nodeIndex ` set F \<or> length hs < k \<and> done_at C ws' (length hs) (ws_nodes ws' ! i))"
    if "i < length (ws_nodes ws')" for i
  proof (cases "i < length (ws_nodes ws)")
    case True
    with inv obtain ns hs where "routed R ws i ns hs"
      "length hs = Suc k \<and> i \<in> fn_nodeIndex ` set nxt \<or> length hs = k \<and> i \<in> fn_nodeIndex ` set F \<or>
         length hs < k \<and> done_at C ws (length hs) (ws_nodes ws ! i)"
      unfolding step_inv_def by blast
    then show ?thesis
      using routed_extends [OF _ ext] done_extends [OF _ ext] extends_nth [OF ext True]
      by (intro exI [of _ ns] exI [of _ hs]) auto
  next
    case False
    with that have "i = length (ws_nodes ws)" by (simp add: ws')
    with new_route show ?thesis by blast
  qed
  moreover have "\<forall>f\<in>set F. entry_at R k ws' f" "\<forall>f\<in>set nxt. entry_at R (Suc k) ws' f"
    using inv by (auto simp: step_inv_def intro: entry_extends [OF _ ext])
  ultimately show ?thesis using shape' by (simp add: step_inv_def)
qed

lemma step_candidates:
  assumes "step_inv R C k F ws nxt" "f \<in> set F"
    "\<forall>n\<in>set cs. passes hop n \<longrightarrow>
       R k (pathNodeFromNode (fn_node f)) (hop_record hop (fn_nodeIndex f)) (pathNodeFromNode n)"
    "fold (add_candidate hop (fn_nodeIndex f)) cs (ws, nxt) = (ws', nxt')"
  shows "step_inv R C k F ws' nxt' \<and> extends ws ws' \<and> (\<forall>n\<in>set cs. passes hop n \<longrightarrow> nd_ID n \<in> ws_visited ws')"
  using assms
proof (induction cs arbitrary: ws nxt)
  case (Cons n cs)
  obtain ws1 nxt1 where one: "add_candidate hop (fn_nodeIndex f) n (ws, nxt) = (ws1, nxt1)" by force
  have "step_inv R C k F ws1 nxt1 \<and> extends ws ws1 \<and> (passes hop n \<longrightarrow> nd_ID n \<in> ws_visited ws1)"
  proof (cases "passes hop n \<and> nd_ID n \<notin> ws_visited ws")
    case True
    with one Cons.prems step_append [OF Cons.prems(1,2)] show ?thesis
      by (auto simp: add_candidate_cases extends_def)
  next
    case False
    with one Cons.prems show ?thesis by (auto simp: add_candidate_cases)
  qed
  moreover from this have "step_inv R C k F ws' nxt' \<and> extends ws1 ws' \<and>
      (\<forall>n\<in>set cs. passes hop n \<longrightarrow> nd_ID n \<in> ws_visited ws')"
    using Cons.IH [of ws1 nxt1] Cons.prems one by simp
  ultimately show ?case by (auto simp: extends_def)
qed simp

lemma step_frontier:
  assumes "\<And>live cs n j. live \<in> fn_node ` set F \<Longrightarrow> resolve live = Inr cs \<Longrightarrow> n \<in> set cs \<Longrightarrow> passes hop n \<Longrightarrow>
      R k (pathNodeFromNode live) (hop_record hop j) (pathNodeFromNode n)"
    "\<And>live cs x. live \<in> fn_node ` set F \<Longrightarrow> resolve live = Inr cs \<Longrightarrow> C k (pathNodeFromNode live) x \<Longrightarrow>
      \<exists>n\<in>set cs. nd_ID n = x \<and> passes hop n"
    "step_inv R C k F ws nxt" "set G \<subseteq> set F" "expand resolve hop G (ws, nxt) = Inr (ws', nxt')"
  shows "step_inv R C k F ws' nxt' \<and> extends ws ws' \<and>
    (\<forall>f\<in>set G. done_at C ws' k (pathNodeFromNode (fn_node f)))"
  using assms(3-5)
proof (induction G arbitrary: ws nxt)
  case (Cons f G)
  from Cons.prems(3) obtain cs where cs: "resolve (fn_node f) = Inr cs"
    by (auto split: sum.splits)
  obtain ws1 nxt1 where one: "fold (add_candidate hop (fn_nodeIndex f)) cs (ws, nxt) = (ws1, nxt1)" by force
  have f: "f \<in> set F" using Cons.prems(2) by simp
  have s1: "step_inv R C k F ws1 nxt1 \<and> extends ws ws1 \<and> (\<forall>n\<in>set cs. passes hop n \<longrightarrow> nd_ID n \<in> ws_visited ws1)"
    using step_candidates [OF Cons.prems(1) f _ one] assms(1) [of "fn_node f" cs] cs f by blast
  then have "step_inv R C k F ws' nxt' \<and> extends ws1 ws' \<and>
      (\<forall>f\<in>set G. done_at C ws' k (pathNodeFromNode (fn_node f)))"
    using Cons.IH [of ws1 nxt1] Cons.prems one cs by simp
  moreover have "done_at C ws1 k (pathNodeFromNode (fn_node f))"
    unfolding done_at_def using assms(2) [of "fn_node f" cs] cs f s1 by blast
  ultimately show ?case using s1 done_extends extends_trans by auto
qed simp

text \<open>The whole loop: the resolver of hop \<open>i\<close> is sound for \<open>R i\<close> and complete for \<open>C i\<close>.\<close>

lemma walk_level:
  assumes sound: "\<And>i live cs n j. i < length hs \<Longrightarrow> resolve (hs ! i) live = Inr cs \<Longrightarrow> n \<in> set cs \<Longrightarrow>
      passes (hs ! i) n \<Longrightarrow>
      R (k + i) (pathNodeFromNode live) (hop_record (hs ! i) j) (pathNodeFromNode n)"
    and complete: "\<And>i live cs x. i < length hs \<Longrightarrow> resolve (hs ! i) live = Inr cs \<Longrightarrow>
      C (k + i) (pathNodeFromNode live) x \<Longrightarrow> \<exists>n\<in>set cs. nd_ID n = x \<and> passes (hs ! i) n"
    and "level_inv R C k ws F" "walk_hops resolve hs (ws, F) = Inr (ws', F')"
  shows "\<exists>k'. level_inv R C k' ws' F' \<and> k' \<le> k + length hs \<and> (F' = [] \<or> k' = k + length hs) \<and> extends ws ws'"
  using assms
proof (induction hs arbitrary: k ws F)
  case (Cons hop hs)
  from Cons.prems(4) obtain ws1 nxt where e: "expand (resolve hop) hop F (ws, []) = Inr (ws1, nxt)"
    by (auto split: sum.splits)
  have s1: "step_inv R C k F ws1 nxt \<and> extends ws ws1 \<and> (\<forall>f\<in>set F. done_at C ws1 k (pathNodeFromNode (fn_node f)))"
    using step_frontier [OF _ _ step_start [OF Cons.prems(3)] subset_refl e]
      Cons.prems(1) [of 0] Cons.prems(2) [of 0] by fastforce
  then have lvl: "level_inv R C (Suc k) ws1 nxt" using step_end by blast
  show ?case
  proof (cases "nxt = []")
    case True
    then show ?thesis using Cons.prems(4) e lvl s1 by (intro exI [of _ "Suc k"]) auto
  next
    case False
    with Cons.prems(4) e have "walk_hops resolve hs (ws1, nxt) = Inr (ws', F')" by simp
    from Cons.IH [OF _ _ lvl this] Cons.prems(1) [of "Suc _"] Cons.prems(2) [of "Suc _"] s1
    show ?thesis by (fastforce intro: extends_trans)
  qed
next
  case Nil
  then show ?case by (intro exI [of _ k]) simp
qed

text \<open>The paths are the routes to the leaves.\<close>

definition route_path :: "PathNode list \<Rightarrow> TraversedHop list \<Rightarrow> Path" where
  "route_path ns hs = \<lparr>pt_Nodes = ns, pt_Hops = renumber hs, pt_Score = 0\<rparr>"

lemma renumber_simps [simp]: "length (renumber hs) = length hs" "renumber [] = []"
  "i < length hs \<Longrightarrow> renumber hs ! i = (hs ! i)\<lparr>th_FromIndex := i\<rparr>"
  by (auto simp: renumber_def nth_enumerate_eq)

lemma those_map_Some: "\<forall>x\<in>set xs. f x = Some (g x) \<Longrightarrow> those (map f xs) = Some (map g xs)"
  by (induction xs) auto

definition leaves :: "WalkState \<Rightarrow> nat list" where
  "leaves ws = filter (\<lambda>i. i \<notin> th_FromIndex ` set (ws_hops ws)) [0..<length (ws_nodes ws)]"

lemma assemble_routes:
  assumes shape: "walk_shape ws" and routes: "\<forall>i<length (ws_nodes ws). \<exists>ns hs. routed R ws i ns hs"
  shows "\<exists>ps. assemblePaths (ws_nodes ws) (ws_hops ws) = Some ps \<and>
    list_all2 (\<lambda>i p. \<exists>ns hs. routed R ws i ns hs \<and> p = route_path ns hs) (leaves ws) ps"
proof -
  define rt where "rt = (\<lambda>i. SOME r. routed R ws i (fst r) (snd r))"
  have rt: "routed R ws i (fst (rt i)) (snd (rt i))" if i: "i < length (ws_nodes ws)" for i
  proof -
    obtain ns hs where "routed R ws i ns hs" using routes i by blast
    then have "\<exists>r. routed R ws i (fst r) (snd r)" by (intro exI [of _ "(ns, hs)"]) simp
    then show ?thesis unfolding rt_def by (rule someI_ex)
  qed
  define path where "path = (\<lambda>i. route_path (fst (rt i)) (snd (rt i)))"
  have paths: "list_all2 (\<lambda>i p. \<exists>ns hs. routed R ws i ns hs \<and> p = route_path ns hs) (leaves ws) (map path (leaves ws))"
    using rt by (fastforce simp: list.rel_map list_all2_same leaves_def path_def)
  show ?thesis
  proof (cases "length (ws_nodes ws) = 1")
    case True
    then have none: "ws_hops ws = []" using shape by (simp add: walk_shape_def)
    then have "leaves ws = [0]" using True by (simp add: leaves_def)
    moreover have "ws_nodes ws = [ws_nodes ws ! 0]" using True by (cases "ws_nodes ws") auto
    moreover have "routed R ws 0 [ws_nodes ws ! 0] []" using True by (intro routed.root) auto
    ultimately show ?thesis using True by (auto simp: assemblePaths_def route_path_def)
  next
    case False
    have "buildPathTo (ws_nodes ws) (parent_hop (ws_hops ws)) i = Some (path i)" if "i \<in> set (leaves ws)" for i
      using follow_routed [OF rt [of i], of "[]" "[]"] that
      by (simp add: buildPathTo_def path_def route_path_def leaves_def split_beta)
    then have "those (map (buildPathTo (ws_nodes ws) (parent_hop (ws_hops ws))) (leaves ws)) =
        Some (map path (leaves ws))"
      by (intro those_map_Some ballI)
    then have "assemblePaths (ws_nodes ws) (ws_hops ws) = Some (map path (leaves ws))"
      using False by (simp add: assemblePaths_def leaves_def)
    with paths show ?thesis by blast
  qed
qed

lemma child_on_route:
  assumes "walk_shape ws" "routed R ws j ns hs" "ws_nodes ws ! Suc c \<in> set ns" "c < length (ws_hops ws)"
  shows "ws_nodes ws ! th_FromIndex (ws_hops ws ! c) \<in> set ns"
proof -
  from assms(3) obtain a where a: "a < length ns" "ns ! a = ws_nodes ws ! Suc c"
    by (auto simp: in_set_conv_nth)
  obtain k where k: "routed R ws k (take (Suc a) ns) (take a hs)" "ns ! a = ws_nodes ws ! k"
    using routed_prefix [OF assms(2) a(1)] by blast
  have "k < length (ws_nodes ws)" "Suc c < length (ws_nodes ws)"
    using routed_shape [OF k(1)] assms(1,4) by (auto simp: walk_shape_def)
  moreover have "distinct (ws_nodes ws)" using assms(1) by (auto simp: walk_shape_def distinct_map)
  ultimately have "k = Suc c" using k(2) a(2) nth_eq_iff_index_eq by metis
  with k(1) obtain ms gs where "routed R ws (th_FromIndex (ws_hops ws ! c)) ms gs"
    "take (Suc a) ns = ms @ [ws_nodes ws ! Suc c]"
    by (auto elim: routed_SucE)
  then have "ws_nodes ws ! th_FromIndex (ws_hops ws ! c) \<in> set (take (Suc a) ns)"
    using routed_shape by (metis Un_iff last_in_set length_greater_0_conv set_append zero_less_Suc)
  then show ?thesis by (rule in_set_takeD)
qed

text \<open>Every node of the walk lies on the route to a leaf.\<close>

lemma node_on_leaf_route:
  assumes shape: "walk_shape ws" and routes: "\<forall>i<length (ws_nodes ws). \<exists>ns hs. routed R ws i ns hs"
  shows "i < length (ws_nodes ws) \<Longrightarrow>
    \<exists>j\<in>set (leaves ws). \<forall>ns hs. routed R ws j ns hs \<longrightarrow> ws_nodes ws ! i \<in> set ns"
proof (induction "length (ws_nodes ws) - i" arbitrary: i rule: less_induct)
  case less
  show ?case
  proof (cases "i \<in> set (leaves ws)")
    case True
    have "ws_nodes ws ! i \<in> set ns" if "routed R ws i ns hs" for ns hs
      using routed_shape [OF that] by (metis last_in_set list.size(3) nat.distinct(1))
    with True show ?thesis by blast
  next
    case False
    with less.prems obtain c where c: "c < length (ws_hops ws)" "th_FromIndex (ws_hops ws ! c) = i"
      by (auto simp: leaves_def in_set_conv_nth)
    then have "i < Suc c" "Suc c < length (ws_nodes ws)" using shape by (auto simp: walk_shape_def)
    then obtain j where "j \<in> set (leaves ws)" "\<forall>ns hs. routed R ws j ns hs \<longrightarrow> ws_nodes ws ! Suc c \<in> set ns"
      using less.hyps [of "Suc c"] diff_less_mono2 [OF \<open>i < Suc c\<close>, of "length (ws_nodes ws)"] by fastforce
    with child_on_route [OF shape _ _ c(1)] c(2) show ?thesis by blast
  qed
qed

section \<open>What a query returns\<close>

text \<open>
  The steps that answer a query: hop \<open>d\<close> of the query leads from \<open>m\<close> to \<open>n\<close> along an edge of
  its type and direction, or because the resolver says so.
\<close>

definition right_step ::
  "('e, 's) reader \<Rightarrow> Query \<Rightarrow> 's \<Rightarrow> Edge list \<Rightarrow> nat \<Rightarrow> PathNode \<Rightarrow> TraversedHop \<Rightarrow> PathNode \<Rightarrow> bool" where
  "right_step rd q s es d a h b \<longleftrightarrow>
     (let hop = q_Hops q ! d in
      d < effectiveDepth q \<and> h = hop_record hop (th_FromIndex h) \<and>
      (\<exists>m n. a = pathNodeFromNode m \<and> b = pathNodeFromNode n \<and> passes hop n \<and>
        (if hs_Kind hop = HopKindControllingPrecedent then
           nd_Type m = NodeRule \<and> (\<exists>resolver rules. q_PrecedentResolver q = Some resolver \<and>
             resolver (RuleNode m [] [] []) = Inr rules \<and> n \<in> node_of ` set rules)
         else if hs_Kind hop = HopKindDistinguishingFacts then
           nd_Type m = NodeRule \<and> (\<exists>resolver facts. q_DistinguishingFactResolver q = Some resolver \<and>
             resolver (q_CaseID q) (RuleNode m [] [] []) = Inr facts \<and> n \<in> node_of ` set facts)
         else \<exists>k. edge_step es hop (nd_ID m) k \<and> rd_GetNode rd k s = Inr n)))"

text \<open>The IDs that an edge hop leads to from a node.\<close>

definition edge_reach ::
  "('e, 's) reader \<Rightarrow> Query \<Rightarrow> 's \<Rightarrow> Edge list \<Rightarrow> nat \<Rightarrow> PathNode \<Rightarrow> string \<Rightarrow> bool" where
  "edge_reach rd q s es d a x \<longleftrightarrow>
     (let hop = q_Hops q ! d in
      hs_Kind hop \<noteq> HopKindControllingPrecedent \<and> hs_Kind hop \<noteq> HopKindDistinguishingFacts \<and>
      (\<exists>k n. edge_step es hop (pn_ID a) k \<and> rd_GetNode rd k s = Inr n \<and> passes hop n \<and> nd_ID n = x))"

lemma get_nodes_set:
  "get_nodes rd s ks = Inr ns \<Longrightarrow> set ns = {n. \<exists>k\<in>set ks. rd_GetNode rd k s = Inr n}"
  by (induction ks arbitrary: ns) (auto split: sum.splits)

lemma edge_hop_mem:
  "get_nodes rd s (neighbors (newCaseEdgeIndex es) a (hs_EdgeType hop) (hs_Direction hop)) = Inr ns \<Longrightarrow>
     n \<in> set ns \<Longrightarrow> \<exists>k. edge_step es hop a k \<and> rd_GetNode rd k s = Inr n"
  using get_nodes_set set_neighbors by fastforce

lemma resolveHop_sound:
  assumes "resolveHop rd q s (newCaseEdgeIndex es) (q_Hops q ! d) live = Inr cs" "n \<in> set cs"
    "passes (q_Hops q ! d) n" "d < effectiveDepth q"
  shows "right_step rd q s es d (pathNodeFromNode live) (hop_record (q_Hops q ! d) j) (pathNodeFromNode n)"
proof -
  let ?hop = "q_Hops q ! d"
  have rec: "hop_record ?hop j = hop_record ?hop (th_FromIndex (hop_record ?hop j))"
    by (simp add: hop_record_def)
  have "if hs_Kind ?hop = HopKindControllingPrecedent then
           nd_Type live = NodeRule \<and> (\<exists>resolver rules. q_PrecedentResolver q = Some resolver \<and>
             resolver (RuleNode live [] [] []) = Inr rules \<and> n \<in> node_of ` set rules)
         else if hs_Kind ?hop = HopKindDistinguishingFacts then
           nd_Type live = NodeRule \<and> (\<exists>resolver facts. q_DistinguishingFactResolver q = Some resolver \<and>
             resolver (q_CaseID q) (RuleNode live [] [] []) = Inr facts \<and> n \<in> node_of ` set facts)
         else \<exists>k. edge_step es ?hop (nd_ID live) k \<and> rd_GetNode rd k s = Inr n"
    using assms(1,2)
    by (auto simp: resolveHop_def resolvePrecedentHop_def resolveDistinguishingFactsHop_def resolveEdgeHop_def
        NoPrecedents_def NoDistinguishingFacts_def
        intro: edge_hop_mem split: if_splits option.splits sum.splits)
  then show ?thesis
    unfolding right_step_def Let_def using rec assms(3,4) by blast
qed

lemma resolveHop_complete:
  assumes "resolveHop rd q s (newCaseEdgeIndex es) (q_Hops q ! d) live = Inr cs"
    "edge_reach rd q s es d (pathNodeFromNode live) x"
  shows "\<exists>n\<in>set cs. nd_ID n = x \<and> passes (q_Hops q ! d) n"
proof -
  from assms(2) obtain k n where kn: "edge_step es (q_Hops q ! d) (nd_ID live) k" "rd_GetNode rd k s = Inr n"
    "passes (q_Hops q ! d) n" "nd_ID n = x" and kind: "hs_Kind (q_Hops q ! d) \<noteq> HopKindControllingPrecedent"
    "hs_Kind (q_Hops q ! d) \<noteq> HopKindDistinguishingFacts"
    by (auto simp: edge_reach_def Let_def)
  from assms(1) kind have "get_nodes rd s (neighbors (newCaseEdgeIndex es) (nd_ID live)
      (hs_EdgeType (q_Hops q ! d)) (hs_Direction (q_Hops q ! d))) = Inr cs"
    by (simp add: resolveHop_def resolveEdgeHop_def)
  from get_nodes_set [OF this] kn have "n \<in> set cs" unfolding set_neighbors [symmetric] by blast
  with kn show ?thesis by blast
qed

text \<open>
  What is left of a call that answers: the start, the edges, and the slices with a route to
  each node, of which the paths are those to the leaves.
\<close>

definition score_of :: "Query \<Rightarrow> ScoreFunc" where
  "score_of q = (case q_ScoreFunc q of None \<Rightarrow> DefaultScoreFunc | Some f \<Rightarrow> f)"

definition answers ::
  "('e, 's) reader \<Rightarrow> Query \<Rightarrow> 's \<Rightarrow> Node \<Rightarrow> Edge list \<Rightarrow> WalkState \<Rightarrow> Path list \<Rightarrow> bool" where
  "answers rd q s start es ws ps \<longleftrightarrow>
     walk_shape ws \<and> ws_nodes ws ! 0 = pathNodeFromNode start \<and>
     (\<forall>i<length (ws_nodes ws). \<exists>ns hs. routed (right_step rd q s es) ws i ns hs \<and>
        (length hs < effectiveDepth q \<longrightarrow> done_at (edge_reach rd q s es) ws (length hs) (ws_nodes ws ! i))) \<and>
     list_all2 (\<lambda>i p. \<exists>ns hs. routed (right_step rd q s es) ws i ns hs \<and> p = route_path ns hs) (leaves ws) ps"

lemma start_level:
  "level_inv R C 0 \<lparr>ws_nodes = [pathNodeFromNode n], ws_hops = [], ws_visited = {nd_ID n}\<rparr>
     [\<lparr>fn_nodeIndex = 0, fn_node = n\<rparr>]"
  using routed.root [of "\<lparr>ws_nodes = [pathNodeFromNode n], ws_hops = [], ws_visited = {nd_ID n}\<rparr>" R]
  by (auto simp: level_inv_def walk_shape_def entry_at_def)

lemma walk_answers:
  assumes "walk_hops (resolveHop rd q s (newCaseEdgeIndex es)) (take (effectiveDepth q) (q_Hops q))
      (\<lparr>ws_nodes = [pathNodeFromNode n], ws_hops = [], ws_visited = {nd_ID n}\<rparr>,
       [\<lparr>fn_nodeIndex = 0, fn_node = n\<rparr>]) = Inr (ws, F)"
  shows "\<exists>ps. assemblePaths (ws_nodes ws) (ws_hops ws) = Some ps \<and> answers rd q s n es ws ps \<and>
    (F \<noteq> [] \<longleftrightarrow> (\<exists>i ns hs. routed (right_step rd q s es) ws i ns hs \<and> length hs = effectiveDepth q))"
proof -
  let ?R = "right_step rd q s es" and ?C = "edge_reach rd q s es"
  have len: "length (take (effectiveDepth q) (q_Hops q)) = effectiveDepth q"
    using effectiveDepth_le by simp
  obtain k where k: "level_inv ?R ?C k ws F" "k \<le> effectiveDepth q" "F = [] \<or> k = effectiveDepth q"
    and ext: "extends \<lparr>ws_nodes = [pathNodeFromNode n], ws_hops = [], ws_visited = {nd_ID n}\<rparr> ws"
    using walk_level [OF _ _ start_level assms, where R = ?R and C = ?C] len resolveHop_sound resolveHop_complete
    by (auto simp: len) fastforce
  have routes: "\<exists>ns hs. routed ?R ws i ns hs \<and>
      (length hs < effectiveDepth q \<longrightarrow> done_at ?C ws (length hs) (ws_nodes ws ! i))"
    if i: "i < length (ws_nodes ws)" for i
  proof -
    obtain ns hs where "routed ?R ws i ns hs"
      "length hs = k \<and> i \<in> fn_nodeIndex ` set F \<or> length hs < k \<and> done_at ?C ws (length hs) (ws_nodes ws ! i)"
      using k(1) i unfolding level_inv_def by blast
    with k(3) show ?thesis by (intro exI [of _ ns] exI [of _ hs]) auto
  qed
  have shape: "walk_shape ws" using k(1) by (simp add: level_inv_def)
  have "\<exists>i ns hs. routed ?R ws i ns hs \<and> length hs = effectiveDepth q" if "F \<noteq> []"
  proof -
    from that have "entry_at ?R k ws (hd F)" using k(1) by (simp add: level_inv_def)
    then show ?thesis using k(3) that by (auto simp: entry_at_def)
  qed
  moreover have "F \<noteq> []" if r: "routed ?R ws i ns hs" "length hs = effectiveDepth q" for i ns hs
  proof
    assume "F = []"
    moreover have "i < length (ws_nodes ws)" using routed_shape [OF r(1)] by simp
    ultimately obtain ms gs where "routed ?R ws i ms gs" "length gs < k"
      using k(1) unfolding level_inv_def by auto
    with routed_unique [OF r(1)] r(2) k(2) show False by auto
  qed
  moreover have "ws_nodes ws ! 0 = pathNodeFromNode n" using ext by (auto simp: extends_def)
  ultimately show ?thesis
    using assemble_routes [OF shape, of ?R] routes shape unfolding answers_def by blast
qed

lemma Execute_answers:
  "\<exists>r. Execute rd q s = Some r \<and>
     (\<forall>res. r = Inr res \<longrightarrow>
       (\<exists>start es ws ps. rd_GetNode rd (q_StartNodeID q) s = Inr start \<and> nd_CaseID start = q_CaseID q \<and>
          loadCaseEdges rd (q_CaseID q) s = Inr es \<and> answers rd q s start es ws ps \<and>
          rs_Paths res = rank_paths (score_of q) ps \<and> rs_VisitedCount res = card (ws_visited ws) \<and>
          (rs_Truncated res \<longleftrightarrow> effectiveDepth q < length (q_Hops q) \<and>
             (\<exists>i ns hs. routed (right_step rd q s es) ws i ns hs \<and> length hs = effectiveDepth q))))"
proof (cases "validate q :: 'a traversal_error option")
  case valid: None
  show ?thesis
  proof (cases "rd_GetNode rd (q_StartNodeID q) s")
    case start: (Inr start)
    show ?thesis
    proof (cases "nd_CaseID start = q_CaseID q")
      case own: True
      show ?thesis
      proof (cases "loadCaseEdges rd (q_CaseID q) s")
        case es: (Inr es)
        let ?w = "walk_hops (resolveHop rd q s (newCaseEdgeIndex es)) (take (effectiveDepth q) (q_Hops q))
          (\<lparr>ws_nodes = [pathNodeFromNode start], ws_hops = [], ws_visited = {nd_ID start}\<rparr>,
           [\<lparr>fn_nodeIndex = 0, fn_node = start\<rparr>])"
        show ?thesis
        proof (cases ?w)
          case (Inr r)
          then obtain ws F where w: "?w = Inr (ws, F)" by (cases r) auto
          from walk_answers [OF this] obtain ps where ps: "assemblePaths (ws_nodes ws) (ws_hops ws) = Some ps"
            "answers rd q s start es ws ps"
            "F \<noteq> [] \<longleftrightarrow> (\<exists>i ns hs. routed (right_step rd q s es) ws i ns hs \<and> length hs = effectiveDepth q)"
            by blast
          have "Execute rd q s = Some (Inr \<lparr>rs_Paths = rank_paths (score_of q) ps,
              rs_Truncated = (F \<noteq> [] \<and> effectiveDepth q < length (q_Hops q)), rs_VisitedCount = card (ws_visited ws)\<rparr>)"
            using valid start own es w ps(1) by (simp add: Execute_def Let_def score_of_def)
          moreover have "answers rd q s start es ws ps \<and> (F \<noteq> [] \<and> effectiveDepth q < length (q_Hops q) \<longleftrightarrow>
              effectiveDepth q < length (q_Hops q) \<and>
              (\<exists>i ns hs. routed (right_step rd q s es) ws i ns hs \<and> length hs = effectiveDepth q))"
            using ps(2,3) by blast
          ultimately show ?thesis using start own es by auto
        qed (use valid start own es in \<open>simp add: Execute_def Let_def\<close>)
      qed (use valid start own in \<open>simp add: Execute_def\<close>)
    qed (use valid start in \<open>simp add: Execute_def\<close>)
  qed (use valid in \<open>simp add: Execute_def\<close>)
qed (simp add: Execute_def)

text \<open>What a path has to be: one hop of the query after the other, no node twice.\<close>

definition follows :: "('e, 's) reader \<Rightarrow> Query \<Rightarrow> 's \<Rightarrow> Edge list \<Rightarrow> Path \<Rightarrow> bool" where
  "follows rd q s es p \<longleftrightarrow>
     length (pt_Nodes p) = Suc (Depth p) \<and> Depth p \<le> effectiveDepth q \<and> distinct (map pn_ID (pt_Nodes p)) \<and>
     (\<forall>a<Depth p. th_FromIndex (pt_Hops p ! a) = a \<and>
        right_step rd q s es a (pt_Nodes p ! a) (pt_Hops p ! a) (pt_Nodes p ! Suc a))"

definition path_ids :: "Result \<Rightarrow> string set" where
  "path_ids res = pn_ID ` (\<Union>p\<in>set (rs_Paths res). set (pt_Nodes p))"

lemma routed_depth: "routed (right_step rd q s es) ws i ns hs \<Longrightarrow> length hs \<le> effectiveDepth q"
  by (induction rule: routed.induct) (auto simp: right_step_def Let_def)

lemma route_follows:
  assumes "walk_shape ws" "routed (right_step rd q s es) ws i ns hs"
  shows "follows rd q s es (route_path ns hs)"
proof -
  have "right_step rd q s es a (ns ! a) ((hs ! a)\<lparr>th_FromIndex := a\<rparr>) (ns ! Suc a)" if "a < length hs" for a
    using routed_steps [OF assms(2) that]
    by (cases "hs ! a") (auto simp: right_step_def Let_def hop_record_def)
  then show ?thesis
    using routed_shape [OF assms(2)] routed_distinct [OF assms] routed_depth [OF assms(2)]
    by (simp add: follows_def route_path_def Depth_def)
qed

lemma score_order: "strict_weak_order (\<lambda>p p'. pt_Score p > (pt_Score p' :: rat))"
  by unfold_locales auto

lemma set_rank_paths: "set (rank_paths f ps) = (\<lambda>p. p\<lparr>pt_Score := f p\<rparr>) ` set ps"
  by (simp add: rank_paths_def)

lemma rank_paths_sorted: "sorted_wrt (\<lambda>p p'. pt_Score p' \<le> pt_Score p) (rank_paths f ps)"
  using strict_weak_order.sorted_sort_by [OF score_order]
  by (simp add: rank_paths_def sorted_by_def not_less)

text \<open>The routes behind the paths of an answer.\<close>

lemma answers_paths:
  assumes "answers rd q s start es ws ps"
  shows "p \<in> set ps \<Longrightarrow> \<exists>i\<in>set (leaves ws). \<exists>ns hs. routed (right_step rd q s es) ws i ns hs \<and> p = route_path ns hs"
    "i \<in> set (leaves ws) \<Longrightarrow> \<exists>p\<in>set ps. \<exists>ns hs. routed (right_step rd q s es) ws i ns hs \<and> p = route_path ns hs"
  using assms list_all2_partners [of _ "leaves ws" ps] unfolding answers_def by blast+

lemma answers_nodes:
  assumes "answers rd q s start es ws ps"
  shows "(\<Union>p\<in>set ps. set (pt_Nodes p)) = set (ws_nodes ws)"
proof (intro set_eqI iffI)
  fix x
  assume "x \<in> (\<Union>p\<in>set ps. set (pt_Nodes p))"
  then obtain p i ns hs where x: "x \<in> set ns" and r: "routed (right_step rd q s es) ws i ns hs"
    using answers_paths(1) [OF assms] by (fastforce simp: route_path_def)
  have "walk_shape ws" using assms by (simp add: answers_def)
  from routed_below [OF this r] x have "x \<in> set (take (Suc i) (ws_nodes ws))" by blast
  then show "x \<in> set (ws_nodes ws)" by (rule in_set_takeD)
next
  fix x
  assume "x \<in> set (ws_nodes ws)"
  then obtain i where i: "i < length (ws_nodes ws)" "x = ws_nodes ws ! i" by (auto simp: in_set_conv_nth)
  have "walk_shape ws" "\<forall>i<length (ws_nodes ws). \<exists>ns hs. routed (right_step rd q s es) ws i ns hs"
    using assms unfolding answers_def by blast+
  from node_on_leaf_route [OF this i(1)] i(2)
  obtain j where "j \<in> set (leaves ws)" "\<forall>ns hs. routed (right_step rd q s es) ws j ns hs \<longrightarrow> x \<in> set ns"
    by auto
  with answers_paths(2) [OF assms] show "x \<in> (\<Union>p\<in>set ps. set (pt_Nodes p))"
    by (fastforce simp: route_path_def)
qed

text \<open>Queries over the in-memory store, and over the view of a tenant, which lists no edges.\<close>

definition mem_reader :: "(Node set \<Rightarrow> Node list) \<Rightarrow> (graph_error, InMemoryGraphStore) reader" where
  "mem_reader norder =
     \<lparr>rd_GetNode = mem_GetNode, rd_Traverse = (\<lambda>q s. map_sum id norder (mem_Traverse q s)),
      rd_EdgesForCase = Some EdgesForCase\<rparr>"

definition tenant_reader ::
  "'s GraphStore \<Rightarrow> (Node set \<Rightarrow> Node list) \<Rightarrow> 't \<Rightarrow> (graph_error, 's \<times> (string \<rightharpoonup> 't)) reader" where
  "tenant_reader G norder tenant =
     \<lparr>rd_GetNode = tn_GetNode G tenant, rd_Traverse = (\<lambda>q st. map_sum id norder (tn_Traverse G tenant q st)),
      rd_EdgesForCase = None\<rparr>"

text \<open>A rule that governs two issues, and a second rule that governs both.\<close>

definition shared_ops :: "store_op list" where
  "shared_ops =
     [OpCreateNode (sample_node ''r1'' NodeRule), OpCreateNode (sample_node ''r2'' NodeRule),
      OpCreateNode (sample_node ''i1'' NodeIssue), OpCreateNode (sample_node ''i2'' NodeIssue),
      OpCreateEdge \<lparr>ed_FromID = ''r1'', ed_ToID = ''i1'', ed_Type = EdgeGoverns\<rparr>,
      OpCreateEdge \<lparr>ed_FromID = ''r1'', ed_ToID = ''i2'', ed_Type = EdgeGoverns\<rparr>,
      OpCreateEdge \<lparr>ed_FromID = ''r2'', ed_ToID = ''i1'', ed_Type = EdgeGoverns\<rparr>,
      OpCreateEdge \<lparr>ed_FromID = ''r2'', ed_ToID = ''i2'', ed_Type = EdgeGoverns\<rparr>]"

definition shared_rule :: InMemoryGraphStore where
  "shared_rule = snd (run_steps (store_step (mem_store sorted_order)) shared_ops NewInMemoryGraphStore)"

lemma ranked_route:
  assumes "answers rd q s start es ws ps" "p \<in> set (rank_paths f ps)"
  shows "\<exists>i hs. i \<in> set (leaves ws) \<and> routed (right_step rd q s es) ws i (pt_Nodes p) hs \<and> Depth p = length hs"
  using assms(2) answers_paths(1) [OF assms(1)] by (fastforce simp: set_rank_paths route_path_def Depth_def)

lemma leaf_ranked:
  assumes "answers rd q s start es ws ps" "i \<in> set (leaves ws)"
  shows "\<exists>p\<in>set (rank_paths f ps). \<exists>hs. routed (right_step rd q s es) ws i (pt_Nodes p) hs \<and> Depth p = length hs"
proof -
  obtain p ns hs where p: "p \<in> set ps" "routed (right_step rd q s es) ws i ns hs" "p = route_path ns hs"
    using answers_paths(2) [OF assms] by blast
  from p(1) have "p\<lparr>pt_Score := f p\<rparr> \<in> set (rank_paths f ps)" by (simp add: set_rank_paths)
  with p(2,3) show ?thesis
    by (intro bexI [of _ "p\<lparr>pt_Score := f p\<rparr>"] exI [of _ hs]) (simp_all add: route_path_def Depth_def)
qed

lemma ranked_ids:
  assumes "answers rd q s start es ws ps" "rs_Paths res = rank_paths f ps"
  shows "path_ids res = ws_visited ws" "card (ws_visited ws) = length (ws_nodes ws)"
proof -
  have "(\<Union>p\<in>set (rank_paths f ps). set (pt_Nodes p)) = set (ws_nodes ws)"
    using answers_nodes [OF assms(1)] by (simp add: set_rank_paths image_image)
  moreover have "walk_shape ws" using assms(1) by (simp add: answers_def)
  ultimately show "path_ids res = ws_visited ws" "card (ws_visited ws) = length (ws_nodes ws)"
    using assms(2) distinct_card [of "map pn_ID (ws_nodes ws)"] by (simp_all add: path_ids_def walk_shape_def)
qed

lemma ranked_shared:
  assumes "answers rd q s start es ws ps" "p \<in> set (rank_paths f ps)" "p' \<in> set (rank_paths f ps)"
    "a < length (pt_Nodes p)" "b < length (pt_Nodes p')" "pn_ID (pt_Nodes p ! a) = pn_ID (pt_Nodes p' ! b)"
  shows "a = b \<and> take (Suc a) (pt_Nodes p) = take (Suc b) (pt_Nodes p')"
proof -
  have "walk_shape ws" using assms(1) by (simp add: answers_def)
  with ranked_route [OF assms(1,2)] ranked_route [OF assms(1,3)] routed_shared assms(4-6) show ?thesis by blast
qed

lemma EndID_score [simp]: "EndID (p\<lparr>pt_Score := x\<rparr>) = EndID p"
  by (simp add: EndID_def)

lemma ranked_ends:
  assumes "answers rd q s start es ws ps"
  shows "distinct (map EndID (rank_paths f ps))"
proof -
  have shape: "walk_shape ws" using assms by (simp add: answers_def)
  have "list_all2 (\<lambda>i p. \<exists>ns hs. routed (right_step rd q s es) ws i ns hs \<and> p = route_path ns hs) (leaves ws) ps"
    using assms by (simp add: answers_def)
  then have "list_all2 (\<lambda>i p. EndID p = pn_ID (ws_nodes ws ! i)) (leaves ws) ps"
    by (rule list_all2_mono) (use routed_shape in \<open>fastforce simp: EndID_def route_path_def\<close>)
  then have "map EndID ps = map (\<lambda>i. pn_ID (ws_nodes ws ! i)) (leaves ws)"
    by (induction rule: list_all2_induct) auto
  moreover have "inj_on (\<lambda>i. pn_ID (ws_nodes ws ! i)) (set (leaves ws))"
    using shape by (auto simp: leaves_def walk_shape_def distinct_conv_nth inj_on_def)
  ultimately have "distinct (map EndID ps)" by (simp add: distinct_map leaves_def)
  moreover have "mset (map EndID (rank_paths f ps)) = mset (map EndID ps)"
    by (simp add: rank_paths_def image_mset.compositionality o_def)
  ultimately show ?thesis by (metis mset_eq_imp_distinct_iff)
qed

lemma ranked_complete:
  assumes "answers rd q s start es ws ps" "p \<in> set (rank_paths f ps)" "a < effectiveDepth q" "a < length (pt_Nodes p)"
    "edge_reach rd q s es a (pt_Nodes p ! a) x"
  shows "x \<in> ws_visited ws"
proof -
  obtain i hs where "routed (right_step rd q s es) ws i (pt_Nodes p) hs" using ranked_route [OF assms(1,2)] by blast
  then obtain j where j: "routed (right_step rd q s es) ws j (take (Suc a) (pt_Nodes p)) (take a hs)"
    "pt_Nodes p ! a = ws_nodes ws ! j"
    using routed_prefix assms(4) by blast
  have a: "length (take a hs) = a" and lt: "j < length (ws_nodes ws)"
    using routed_shape [OF j(1)] assms(4) by auto
  obtain ns gs where "routed (right_step rd q s es) ws j ns gs"
    "length gs < effectiveDepth q \<longrightarrow> done_at (edge_reach rd q s es) ws (length gs) (ws_nodes ws ! j)"
    using assms(1) lt unfolding answers_def by blast
  with routed_unique [OF j(1)] a assms(3) have "done_at (edge_reach rd q s es) ws a (ws_nodes ws ! j)" by metis
  with assms(5) j(2) show ?thesis by (simp add: done_at_def)
qed

lemma ranked_deep:
  assumes "answers rd q s start es ws ps"
  shows "(\<exists>i ns hs. routed (right_step rd q s es) ws i ns hs \<and> length hs = effectiveDepth q) \<longleftrightarrow>
    (\<exists>p\<in>set (rank_paths f ps). Depth p = effectiveDepth q)"
proof
  assume "\<exists>i ns hs. routed (right_step rd q s es) ws i ns hs \<and> length hs = effectiveDepth q"
  then obtain i ns hs where r: "routed (right_step rd q s es) ws i ns hs" "length hs = effectiveDepth q" by blast
  have shape: "walk_shape ws" and all: "\<forall>i<length (ws_nodes ws). \<exists>ns hs. routed (right_step rd q s es) ws i ns hs"
    using assms unfolding answers_def by blast+
  have len: "i < length (ws_nodes ws)" "length ns = Suc (length hs)" "last ns = ws_nodes ws ! i"
    using routed_shape [OF r(1)] by auto
  obtain j where j: "j \<in> set (leaves ws)"
    "\<forall>ns hs. routed (right_step rd q s es) ws j ns hs \<longrightarrow> ws_nodes ws ! i \<in> set ns"
    using node_on_leaf_route [OF shape all len(1)] by blast
  obtain p gs where p: "p \<in> set (rank_paths f ps)" "routed (right_step rd q s es) ws j (pt_Nodes p) gs" "Depth p = length gs"
    using leaf_ranked [OF assms j(1)] by blast
  then obtain b where b: "b < length (pt_Nodes p)" "pt_Nodes p ! b = ws_nodes ws ! i"
    using j(2) by (metis in_set_conv_nth)
  have "ns ! length hs = ws_nodes ws ! i"
    using len by (metis diff_Suc_1 last_conv_nth list.size(3) nat.distinct(1))
  then have "length hs = b" using routed_shared [OF shape r(1) p(2), of "length hs" b] b len(2) by simp
  then have "length hs \<le> length gs" using routed_shape [OF p(2)] b(1) by simp
  then show "\<exists>p\<in>set (rank_paths f ps). Depth p = effectiveDepth q"
    using p r(2) routed_depth [OF p(2)] by (intro bexI [of _ p]) auto
next
  assume "\<exists>p\<in>set (rank_paths f ps). Depth p = effectiveDepth q"
  then show "\<exists>i ns hs. routed (right_step rd q s es) ws i ns hs \<and> length hs = effectiveDepth q"
    using ranked_route [OF assms] by metis
qed

text \<open>The answer to a query over the rule shared by two issues.\<close>

definition shared_query :: Query where
  "shared_query = ViaGoverningRule (Via EdgeGoverns Forward no_NodeType (NewQuery ''c'' ''r1''))"

definition shared_reader :: "(graph_error, InMemoryGraphStore) reader" where
  "shared_reader = mem_reader sorted_list_of_set"

definition shared_node :: "string \<Rightarrow> NodeType \<Rightarrow> PathNode" where
  "shared_node k t = \<lparr>pn_ID = k, pn_Type = t, pn_CaseID = ''c'', pn_Text = ''text''\<rparr>"

definition shared_result :: Result where
  "shared_result =
     \<lparr>rs_Paths =
        [\<lparr>pt_Nodes = [shared_node ''r1'' NodeRule, shared_node ''i2'' NodeIssue],
          pt_Hops = [\<lparr>th_FromIndex = 0, th_Kind = HopKindCustom, th_EdgeType = EdgeGoverns, th_Direction = Forward\<rparr>],
          pt_Score = 1 / 2\<rparr>,
         \<lparr>pt_Nodes = [shared_node ''r1'' NodeRule, shared_node ''i1'' NodeIssue, shared_node ''r2'' NodeRule],
          pt_Hops = [\<lparr>th_FromIndex = 0, th_Kind = HopKindCustom, th_EdgeType = EdgeGoverns, th_Direction = Forward\<rparr>,
                     \<lparr>th_FromIndex = 1, th_Kind = HopKindGoverningRule, th_EdgeType = EdgeGoverns,
                      th_Direction = Reverse\<rparr>],
          pt_Score = 1 / 4\<rparr>],
      rs_Truncated = False, rs_VisitedCount = 4\<rparr>"

lemma shared_rule_reads:
  "mem_GetNode ''r1'' shared_rule = Inr (sample_node ''r1'' NodeRule)"
  "mem_GetNode ''r2'' shared_rule = Inr (sample_node ''r2'' NodeRule)"
  "mem_GetNode ''i1'' shared_rule = Inr (sample_node ''i1'' NodeIssue)"
  "mem_GetNode ''i2'' shared_rule = Inr (sample_node ''i2'' NodeIssue)"
  "EdgesForCase ''c'' shared_rule =
     [\<lparr>ed_FromID = ''r1'', ed_ToID = ''i1'', ed_Type = EdgeGoverns\<rparr>,
      \<lparr>ed_FromID = ''r1'', ed_ToID = ''i2'', ed_Type = EdgeGoverns\<rparr>,
      \<lparr>ed_FromID = ''r2'', ed_ToID = ''i1'', ed_Type = EdgeGoverns\<rparr>,
      \<lparr>ed_FromID = ''r2'', ed_ToID = ''i2'', ed_Type = EdgeGoverns\<rparr>]"
proof -
  obtain es s where run: "run_steps (store_step (mem_store sorted_order)) shared_ops NewInMemoryGraphStore = (es, s)"
    by fastforce
  then have "shared_rule = s" by (simp add: shared_rule_def)
  moreover have "abs_store s = snd (run_steps spec_step shared_ops \<lparr>fo_nodes = Map.empty, fo_edges = (\<lambda>_. [])\<rparr>)"
    using mem.run_refines [OF mem.start(1) run] mem.start(2) by simp
  ultimately have f: "abs_store shared_rule =
      snd (run_steps spec_step shared_ops \<lparr>fo_nodes = Map.empty, fo_edges = (\<lambda>_. [])\<rparr>)" by simp
  note eval = shared_ops_def sample_node_def NewNode_def spec_CreateNode_def spec_CreateEdge_def spec_GetNode_def
  show "mem_GetNode ''r1'' shared_rule = Inr (sample_node ''r1'' NodeRule)"
    "mem_GetNode ''r2'' shared_rule = Inr (sample_node ''r2'' NodeRule)"
    "mem_GetNode ''i1'' shared_rule = Inr (sample_node ''i1'' NodeIssue)"
    "mem_GetNode ''i2'' shared_rule = Inr (sample_node ''i2'' NodeIssue)"
    unfolding mem_GetNode_spec f by (simp_all add: eval)
  have "EdgesForCase ''c'' shared_rule = fo_edges (abs_store shared_rule) ''c''"
    by (simp add: EdgesForCase_def abs_store_def)
  then show "EdgesForCase ''c'' shared_rule =
     [\<lparr>ed_FromID = ''r1'', ed_ToID = ''i1'', ed_Type = EdgeGoverns\<rparr>,
      \<lparr>ed_FromID = ''r1'', ed_ToID = ''i2'', ed_Type = EdgeGoverns\<rparr>,
      \<lparr>ed_FromID = ''r2'', ed_ToID = ''i1'', ed_Type = EdgeGoverns\<rparr>,
      \<lparr>ed_FromID = ''r2'', ed_ToID = ''i2'', ed_Type = EdgeGoverns\<rparr>]"
    unfolding f by (simp add: eval)
qed

lemma shared_query_simps:
  "q_CaseID shared_query = ''c''" "q_StartNodeID shared_query = ''r1''" "q_MaxDepth shared_query = 0"
  "q_ScoreFunc shared_query = None"
  "q_Hops shared_query =
     [\<lparr>hs_Kind = HopKindCustom, hs_EdgeType = EdgeGoverns, hs_Direction = Forward, hs_NodeTypeFilter = no_NodeType\<rparr>,
      \<lparr>hs_Kind = HopKindGoverningRule, hs_EdgeType = EdgeGoverns, hs_Direction = Reverse, hs_NodeTypeFilter = NodeRule\<rparr>]"
  "validate shared_query = None" "effectiveDepth shared_query = 2"
  by (simp_all add: shared_query_def ViaGoverningRule_def Via_def NewQuery_def validate_def effectiveDepth_def)

lemma shared_reader_simps:
  "rd_GetNode shared_reader = mem_GetNode" "rd_EdgesForCase shared_reader = Some EdgesForCase"
  by (simp_all add: shared_reader_def mem_reader_def)

lemma sample_node_simps:
  "nd_ID (sample_node k t) = k" "nd_Type (sample_node k t) = t" "nd_CaseID (sample_node k t) = ''c''"
  "pathNodeFromNode (sample_node k t) = shared_node k t"
  by (simp_all add: sample_node_def NewNode_def pathNodeFromNode_def shared_node_def)

definition shared_hops :: "TraversedHop list" where
  "shared_hops =
     [\<lparr>th_FromIndex = 0, th_Kind = HopKindCustom, th_EdgeType = EdgeGoverns, th_Direction = Forward\<rparr>,
      \<lparr>th_FromIndex = 0, th_Kind = HopKindCustom, th_EdgeType = EdgeGoverns, th_Direction = Forward\<rparr>,
      \<lparr>th_FromIndex = 1, th_Kind = HopKindGoverningRule, th_EdgeType = EdgeGoverns, th_Direction = Reverse\<rparr>]"

definition shared_nodes :: "PathNode list" where
  "shared_nodes = [shared_node ''r1'' NodeRule, shared_node ''i1'' NodeIssue, shared_node ''i2'' NodeIssue,
     shared_node ''r2'' NodeRule]"

lemma shared_walk:
  "\<exists>F. walk_hops (resolveHop shared_reader shared_query shared_rule (newCaseEdgeIndex (EdgesForCase ''c'' shared_rule)))
      (q_Hops shared_query)
      (\<lparr>ws_nodes = [pathNodeFromNode (sample_node ''r1'' NodeRule)], ws_hops = [], ws_visited = {''r1''}\<rparr>,
       [\<lparr>fn_nodeIndex = 0, fn_node = sample_node ''r1'' NodeRule\<rparr>]) =
     Inr (\<lparr>ws_nodes = shared_nodes, ws_hops = shared_hops, ws_visited = {''r1'', ''i1'', ''i2'', ''r2''}\<rparr>, F)"
  unfolding shared_query_simps shared_rule_reads
  by (simp add: resolveHop_def resolveEdgeHop_def neighbors_def add_candidate_cases passes_def hop_record_def
      shared_reader_simps shared_rule_reads sample_node_simps shared_nodes_def shared_hops_def insert_commute)

lemma shared_paths:
  "map_option (rank_paths DefaultScoreFunc) (assemblePaths shared_nodes shared_hops) = Some (rs_Paths shared_result)"
proof -
  have p: "parent_hop shared_hops 0 = None"
    "parent_hop shared_hops 1 = Some (shared_hops ! 0)" "parent_hop shared_hops 2 = Some (shared_hops ! 1)"
    "parent_hop shared_hops 3 = Some (shared_hops ! 2)"
    by (simp_all add: parent_hop_def shared_hops_def)
  have idx: "th_FromIndex (shared_hops ! 0) = 0" "th_FromIndex (shared_hops ! 1) = 0"
    "th_FromIndex (shared_hops ! 2) = 1"
    by (simp_all add: shared_hops_def)
  have f: "follow_parents shared_nodes (parent_hop shared_hops) 0 P H = Some (shared_nodes ! 0 # P, H)" for P H
    by (subst follow_parents.simps) (simp only: p option.case Let_def)
  have f1: "follow_parents shared_nodes (parent_hop shared_hops) 1 P H =
      Some (shared_nodes ! 0 # shared_nodes ! 1 # P, shared_hops ! 0 # H)" for P H
    by (subst follow_parents.simps) (simp only: p idx f option.case Let_def)
  have "follow_parents shared_nodes (parent_hop shared_hops) 2 [] [] =
      Some ([shared_nodes ! 0, shared_nodes ! 2], [shared_hops ! 1])"
    by (subst follow_parents.simps) (simp only: p idx f option.case Let_def)
  moreover have "follow_parents shared_nodes (parent_hop shared_hops) 3 [] [] =
      Some ([shared_nodes ! 0, shared_nodes ! 1, shared_nodes ! 3], [shared_hops ! 0, shared_hops ! 2])"
    by (subst follow_parents.simps) (simp only: p idx f1 option.case Let_def)
  ultimately have "map (buildPathTo shared_nodes (parent_hop shared_hops)) [2, 3] =
      [Some (route_path [shared_nodes ! 0, shared_nodes ! 2] [shared_hops ! 1]),
       Some (route_path [shared_nodes ! 0, shared_nodes ! 1, shared_nodes ! 3] [shared_hops ! 0, shared_hops ! 2])]"
    by (simp add: buildPathTo_def route_path_def)
  moreover have "filter (\<lambda>i. i \<notin> th_FromIndex ` set shared_hops) [0..<length shared_nodes] = [2, 3]"
    by (simp add: shared_hops_def shared_nodes_def upt_rec)
  moreover have "length shared_nodes \<noteq> 1" by (simp add: shared_nodes_def)
  ultimately have "assemblePaths shared_nodes shared_hops =
      Some [route_path [shared_nodes ! 0, shared_nodes ! 2] [shared_hops ! 1],
            route_path [shared_nodes ! 0, shared_nodes ! 1, shared_nodes ! 3] [shared_hops ! 0, shared_hops ! 2]]"
    unfolding assemblePaths_def by simp
  then show ?thesis
    by (simp add: rank_paths_def route_path_def renumber_def DefaultScoreFunc_def Depth_def numeral_2_eq_2 numeral_3_eq_3
        shared_result_def shared_nodes_def shared_hops_def)
qed

lemma shared_rule_answer: "Execute shared_reader shared_query shared_rule = Some (Inr shared_result)"
proof -
  obtain F where w: "walk_hops (resolveHop shared_reader shared_query shared_rule
      (newCaseEdgeIndex (EdgesForCase ''c'' shared_rule))) (q_Hops shared_query)
      (\<lparr>ws_nodes = [pathNodeFromNode (sample_node ''r1'' NodeRule)], ws_hops = [], ws_visited = {''r1''}\<rparr>,
       [\<lparr>fn_nodeIndex = 0, fn_node = sample_node ''r1'' NodeRule\<rparr>]) =
     Inr (\<lparr>ws_nodes = shared_nodes, ws_hops = shared_hops, ws_visited = {''r1'', ''i1'', ''i2'', ''r2''}\<rparr>, F)"
    using shared_walk by blast
  obtain ps where ps: "assemblePaths shared_nodes shared_hops = Some ps" "rank_paths DefaultScoreFunc ps = rs_Paths shared_result"
    using shared_paths by auto
  have len: "length (q_Hops shared_query) = 2" by (simp add: shared_query_simps)
  then have take: "take (effectiveDepth shared_query) (q_Hops shared_query) = q_Hops shared_query"
    by (simp add: shared_query_simps(7))
  show ?thesis
    unfolding Execute_def take
    using w ps len by (simp add: shared_query_simps(1-4,6,7) shared_reader_simps shared_rule_reads(1) loadCaseEdges_def
        sample_node_simps shared_result_def)
qed

section \<open>Properties of the walk\<close>

text \<open>
  C35: Executing a query always returns, and when it succeeds the start node is one of the
  query's case, each path begins there and takes one step for each hop of the query in turn,
  at most as many as the depth allows, along an edge of the case with the hop's type and
  direction or as the hop's resolver says, to a node that passes the hop's filter, and visits
  no node twice. The paths carry their scores and come with the highest score first.
\<close>

theorem executed_paths_follow_the_query:
  "\<exists>r. Execute rd q s = Some r \<and>
     (\<forall>res. r = Inr res \<longrightarrow>
       (\<exists>start es. rd_GetNode rd (q_StartNodeID q) s = Inr start \<and> nd_CaseID start = q_CaseID q \<and>
          loadCaseEdges rd (q_CaseID q) s = Inr es \<and>
          (\<forall>p\<in>set (rs_Paths res). hd (pt_Nodes p) = pathNodeFromNode start \<and> follows rd q s es p \<and>
             pt_Score p = score_of q (p\<lparr>pt_Score := 0\<rparr>)) \<and>
          sorted_wrt (\<lambda>p p'. pt_Score p' \<le> pt_Score p) (rs_Paths res)))"
proof -
  have paths: "hd (pt_Nodes p) = pathNodeFromNode start \<and> follows rd q s es p \<and>
      pt_Score p = score_of q (p\<lparr>pt_Score := 0\<rparr>)"
    if a: "answers rd q s start es ws ps" and p: "p \<in> set (rank_paths (score_of q) ps)" for start es ws ps p
  proof -
    from p obtain p0 where p0: "p0 \<in> set ps" "p = p0\<lparr>pt_Score := score_of q p0\<rparr>" by (auto simp: set_rank_paths)
    obtain i ns hs where r: "routed (right_step rd q s es) ws i ns hs" "p0 = route_path ns hs"
      using answers_paths(1) [OF a p0(1)] by blast
    have "walk_shape ws" "ws_nodes ws ! 0 = pathNodeFromNode start" using a by (auto simp: answers_def)
    with route_follows [OF _ r(1)] routed_shape [OF r(1)] show ?thesis
      by (simp add: p0(2) r(2) route_path_def follows_def Depth_def)
  qed
  obtain r where r: "Execute rd q s = Some r" and *: "\<forall>res. r = Inr res \<longrightarrow>
       (\<exists>start es ws ps. rd_GetNode rd (q_StartNodeID q) s = Inr start \<and> nd_CaseID start = q_CaseID q \<and>
          loadCaseEdges rd (q_CaseID q) s = Inr es \<and> answers rd q s start es ws ps \<and>
          rs_Paths res = rank_paths (score_of q) ps)"
    using Execute_answers [of rd q s] by blast
  show ?thesis using r * paths rank_paths_sorted by metis
qed

theorem executed_paths_follow_the_query_witness:
  "follows shared_reader shared_query shared_rule (EdgesForCase ''c'' shared_rule) (rs_Paths shared_result ! 1) \<and>
     hd (pt_Nodes (rs_Paths shared_result ! 1)) = shared_node ''r1'' NodeRule"
proof -
  have "rs_Paths shared_result ! 1 \<in> set (rs_Paths shared_result)" by (simp add: shared_result_def)
  then show ?thesis
    using executed_paths_follow_the_query [of shared_reader shared_query shared_rule]
    by (auto simp: shared_rule_answer shared_query_simps shared_reader_simps loadCaseEdges_def shared_rule_reads(1)
        sample_node_simps)
qed

text \<open>
  C36: The paths of an answer are the branches of one tree: two paths that meet in a node have
  the whole way to it in common, they end in different nodes, and the visited nodes are
  exactly those on them. Nothing within reach is missed: whatever an edge hop leads to from a
  node of a path lies on some path. The answer says it is truncated exactly when the depth
  bound cut off hops behind a path that got that far.
\<close>

theorem paths_are_branches_of_one_tree:
  assumes "Execute rd q s = Some (Inr res)"
  shows "(\<forall>p\<in>set (rs_Paths res). \<forall>p'\<in>set (rs_Paths res). \<forall>a<length (pt_Nodes p). \<forall>b<length (pt_Nodes p').
            pn_ID (pt_Nodes p ! a) = pn_ID (pt_Nodes p' ! b) \<longrightarrow>
            a = b \<and> take (Suc a) (pt_Nodes p) = take (Suc b) (pt_Nodes p')) \<and>
         distinct (map EndID (rs_Paths res)) \<and> rs_VisitedCount res = card (path_ids res) \<and>
         (\<exists>es. loadCaseEdges rd (q_CaseID q) s = Inr es \<and>
           (\<forall>p\<in>set (rs_Paths res). \<forall>a<effectiveDepth q. a < length (pt_Nodes p) \<longrightarrow>
              {x. edge_reach rd q s es a (pt_Nodes p ! a) x} \<subseteq> path_ids res)) \<and>
         (rs_Truncated res \<longleftrightarrow>
            effectiveDepth q < length (q_Hops q) \<and> (\<exists>p\<in>set (rs_Paths res). Depth p = effectiveDepth q))"
proof -
  from Execute_answers [of rd q s] assms
  obtain start es ws ps where es: "loadCaseEdges rd (q_CaseID q) s = Inr es"
    and a: "answers rd q s start es ws ps" and res: "rs_Paths res = rank_paths (score_of q) ps"
      "rs_VisitedCount res = card (ws_visited ws)"
    and trunc: "rs_Truncated res \<longleftrightarrow> effectiveDepth q < length (q_Hops q) \<and>
      (\<exists>i ns hs. routed (right_step rd q s es) ws i ns hs \<and> length hs = effectiveDepth q)"
    by (metis option.inject)
  note ids = ranked_ids [OF a res(1)]
  have "\<forall>p\<in>set (rs_Paths res). \<forall>a<effectiveDepth q. a < length (pt_Nodes p) \<longrightarrow>
      {x. edge_reach rd q s es a (pt_Nodes p ! a) x} \<subseteq> path_ids res"
    using ranked_complete [OF a] ids(1) res(1) by auto
  then have complete: "\<exists>es. loadCaseEdges rd (q_CaseID q) s = Inr es \<and>
      (\<forall>p\<in>set (rs_Paths res). \<forall>a<effectiveDepth q. a < length (pt_Nodes p) \<longrightarrow>
         {x. edge_reach rd q s es a (pt_Nodes p ! a) x} \<subseteq> path_ids res)"
    using es by blast
  have shared: "\<forall>p\<in>set (rs_Paths res). \<forall>p'\<in>set (rs_Paths res). \<forall>a<length (pt_Nodes p). \<forall>b<length (pt_Nodes p').
      pn_ID (pt_Nodes p ! a) = pn_ID (pt_Nodes p' ! b) \<longrightarrow>
      a = b \<and> take (Suc a) (pt_Nodes p) = take (Suc b) (pt_Nodes p')"
    unfolding res(1) by (intro ballI allI impI) (rule ranked_shared [OF a])
  have ends: "distinct (map EndID (rs_Paths res))" unfolding res(1) by (rule ranked_ends [OF a])
  have count: "rs_VisitedCount res = card (path_ids res)" using ids(1) res(2) by simp
  have deep: "rs_Truncated res \<longleftrightarrow>
      effectiveDepth q < length (q_Hops q) \<and> (\<exists>p\<in>set (rs_Paths res). Depth p = effectiveDepth q)"
    unfolding trunc res(1) ranked_deep [OF a, of "score_of q"] by (rule refl)
  show ?thesis by (intro conjI) (fact shared ends count complete deep)+
qed

theorem paths_are_branches_of_one_tree_witness:
  "distinct (map EndID (rs_Paths shared_result)) \<and> card (path_ids shared_result) = 4 \<and> \<not> rs_Truncated shared_result"
  using paths_are_branches_of_one_tree [OF shared_rule_answer] by (auto simp: shared_result_def)

text \<open>The edges reconstructed from traversals have no type, so no hop of a type walks them.\<close>

lemma collect_neighbors_untyped:
  "\<forall>e\<in>set es. ed_Type e = no_EdgeType \<Longrightarrow> \<forall>e\<in>set (collect_neighbors n ms es). ed_Type e = no_EdgeType"
  by (induction n ms es rule: collect_neighbors.induct) (auto simp: Let_def)

lemma edges_by_traverse_untyped:
  "edges_by_traverse rd c s ns es = Inr es' \<Longrightarrow> \<forall>e\<in>set es. ed_Type e = no_EdgeType \<Longrightarrow>
     \<forall>e\<in>set es'. ed_Type e = no_EdgeType"
  by (induction ns arbitrary: es) (auto split: sum.splits dest: collect_neighbors_untyped)

lemma edges_by_traverse_total:
  "(\<And>k. \<exists>ns. rd_Traverse rd \<lparr>tq_CaseID = c, tq_NodeType = None, tq_FromNodeID = k, tq_MaxDepth = 1\<rparr> s = Inr ns) \<Longrightarrow>
     \<exists>es'. edges_by_traverse rd c s ns es = Inr es'"
proof (induction ns arbitrary: es)
  case (Cons n ns)
  from Cons.prems [of "nd_ID n"] Cons.IH [OF Cons.prems] show ?case by auto
qed simp

lemma tenant_traverse_total:
  "c \<noteq> [] \<Longrightarrow> \<exists>ns. rd_Traverse (tenant_reader (mem_store ord) norder t)
     \<lparr>tq_CaseID = c, tq_NodeType = ty, tq_FromNodeID = k, tq_MaxDepth = d\<rparr> (s, owners) = Inr ns"
  by (auto simp: tenant_reader_def tn_Traverse_def mem_store_def mem_Traverse_def Let_def)

lemma tenant_edges:
  assumes "c \<noteq> []"
  shows "\<exists>es. loadCaseEdges (tenant_reader (mem_store ord) norder t) c (s, owners) = Inr es \<and>
    (\<forall>e\<in>set es. ed_Type e = no_EdgeType)"
proof -
  let ?rd = "tenant_reader (mem_store ord) norder t"
  obtain ns where ns: "rd_Traverse ?rd \<lparr>tq_CaseID = c, tq_NodeType = None, tq_FromNodeID = [], tq_MaxDepth = 0\<rparr>
      (s, owners) = Inr ns"
    using tenant_traverse_total [OF assms] by metis
  obtain es where "edges_by_traverse ?rd c (s, owners) ns [] = Inr es"
    using edges_by_traverse_total [OF tenant_traverse_total [OF assms]] by metis
  with ns edges_by_traverse_untyped [OF this] show ?thesis
    by (simp add: loadCaseEdges_def loadCaseEdgesViaTraverse_def tenant_reader_def)
qed

text \<open>
  C37: Over the view of a tenant, which cannot list the edges of a case, a query that starts with
  a typed edge hop finds nothing, whatever edges the tenant has stored: the answer is the start
  node alone, and it is not marked as truncated.
\<close>

theorem tenant_queries_lose_every_edge:
  assumes "validate q = (None :: graph_error traversal_error option)"
    "tn_GetNode (mem_store ord) t (q_StartNodeID q) (s, owners) = Inr start" "nd_CaseID start = q_CaseID q"
    "hs_Kind (q_Hops q ! 0) \<notin> {HopKindControllingPrecedent, HopKindDistinguishingFacts}"
    "hs_EdgeType (q_Hops q ! 0) \<noteq> no_EdgeType"
  shows "Execute (tenant_reader (mem_store ord) norder t) q (s, owners) =
    Some (Inr \<lparr>rs_Paths = rank_paths (score_of q) [\<lparr>pt_Nodes = [pathNodeFromNode start], pt_Hops = [], pt_Score = 0\<rparr>],
               rs_Truncated = False, rs_VisitedCount = 1\<rparr>)"
proof -
  have c: "q_CaseID q \<noteq> []" and hops_ne: "q_Hops q \<noteq> []" using assms(1) by (auto simp: validate_def split: if_splits)
  then obtain hop rest where hop: "q_Hops q = hop # rest" by (cases "q_Hops q") auto
  have "0 < effectiveDepth q" using hop by (auto simp: effectiveDepth_def)
  then obtain rest' where take: "take (effectiveDepth q) (q_Hops q) = hop # rest'"
    using hop by (cases "effectiveDepth q") auto
  define rd where "rd = tenant_reader (mem_store ord) norder t"
  have get: "rd_GetNode rd = tn_GetNode (mem_store ord) t" by (simp add: rd_def tenant_reader_def)
  obtain es where es: "loadCaseEdges rd (q_CaseID q) (s, owners) = Inr es" "\<forall>e\<in>set es. ed_Type e = no_EdgeType"
    using tenant_edges [OF c] unfolding rd_def by metis
  have "neighbors (newCaseEdgeIndex es) (nd_ID start) (hs_EdgeType hop) (hs_Direction hop) = []"
    using es(2) assms(5) hop by (auto simp: neighbors_def filter_empty_conv)
  then have none: "resolveHop rd q (s, owners) (newCaseEdgeIndex es) hop start = Inr []"
    using assms(4) hop by (simp add: resolveHop_def resolveEdgeHop_def)
  show ?thesis
    unfolding rd_def [symmetric]
    using assms(1-3) es(1) none
    by (simp add: Execute_def Let_def take get score_of_def assemblePaths_def)
qed

text \<open>The tenant owns the shared rule and its issues, and finds none of the paths above.\<close>

theorem tenant_queries_lose_every_edge_witness:
  "\<exists>res. Execute (tenant_reader (mem_store sorted_order) sorted_list_of_set ''t'') shared_query
      (shared_rule, \<lambda>_. Some ''t'') = Some (Inr res) \<and> rs_VisitedCount res = 1 \<and>
    Execute shared_reader shared_query shared_rule = Some (Inr shared_result) \<and> rs_VisitedCount shared_result = 4"
proof -
  have "tn_GetNode (mem_store sorted_order) ''t'' (q_StartNodeID shared_query) (shared_rule, \<lambda>_. Some ''t'') =
      Inr (sample_node ''r1'' NodeRule)"
    using shared_rule_reads(1) by (simp add: tn_GetNode_def foreign_def mem_store_def shared_query_simps)
  then have "Execute (tenant_reader (mem_store sorted_order) sorted_list_of_set ''t'') shared_query
      (shared_rule, \<lambda>_. Some ''t'') =
    Some (Inr \<lparr>rs_Paths = rank_paths (score_of shared_query)
       [\<lparr>pt_Nodes = [pathNodeFromNode (sample_node ''r1'' NodeRule)], pt_Hops = [], pt_Score = 0\<rparr>],
       rs_Truncated = False, rs_VisitedCount = 1\<rparr>)"
    by (intro tenant_queries_lose_every_edge) (simp_all add: shared_query_simps sample_node_simps)
  then show ?thesis by (simp add: shared_rule_answer, simp add: shared_result_def)
qed

end
