(* ===== verification/TraversalCache.thy ===== *)
theory TraversalCache
  imports Traversal
begin

text \<open>
  \<open>packages/traversal/cache.go\<close> and \<open>cacheKey\<close> of \<open>query.go\<close>: the least-recently-used cache in
  front of the walk, its keys and revisions, cached execution, and what calls that interleave
  with a change of the tree can do.
\<close>

section \<open>Keys\<close>

definition hop_key :: "HopSpec \<Rightarrow> string" where
  "hop_key h =
     HopKind_text (hs_Kind h) @ '':'' @ EdgeType_text (hs_EdgeType h) @ '':'' @
     Direction_String (hs_Direction h) @ '':'' @ NodeType_text (hs_NodeTypeFilter h)"

definition Query_cacheKey :: "Query \<Rightarrow> string" where
  "Query_cacheKey q =
     q_CaseID q @ ''|'' @ q_StartNodeID q @ ''|'' @ itoa (effectiveDepth q) @
     concat (map (\<lambda>h. ''|'' @ hop_key h) (q_Hops q))"

text \<open>
  The separator is not escaped. For IDs without it and hops of named kinds and types the key
  determines what it is made of.
\<close>

definition named_hop :: "HopSpec \<Rightarrow> bool" where
  "named_hop h \<longleftrightarrow>
     (case hs_Kind h of OtherHopKind _ \<Rightarrow> False | _ \<Rightarrow> True) \<and>
     (EdgeType_IsValid (hs_EdgeType h) \<or> hs_EdgeType h = no_EdgeType) \<and>
     (case hs_Direction h of OtherDirection _ \<Rightarrow> False | _ \<Rightarrow> True) \<and>
     (NodeType_IsValid (hs_NodeTypeFilter h) \<or> hs_NodeTypeFilter h = no_NodeType)"

definition clean_query :: "Query \<Rightarrow> bool" where
  "clean_query q \<longleftrightarrow>
     CHR ''|'' \<notin> set (q_CaseID q) \<and> CHR ''|'' \<notin> set (q_StartNodeID q) \<and> (\<forall>h\<in>set (q_Hops q). named_hop h)"

lemma concat_sep_inj:
  "concat (map (\<lambda>x. x @ [c]) xs) = concat (map (\<lambda>x. x @ [c]) ys) \<Longrightarrow>
     \<forall>x\<in>set xs. c \<notin> set x \<Longrightarrow> \<forall>y\<in>set ys. c \<notin> set y \<Longrightarrow> xs = ys"
proof (induction xs arbitrary: ys)
  case Nil
  then show ?case by (cases ys) auto
next
  case (Cons x xs)
  then show ?case by (cases ys) (auto dest: split_at_sep)
qed

lemma itoa_no_pipe: "CHR ''|'' \<notin> set (itoa n)"
proof (induction n rule: itoa.induct)
  case (1 n)
  have d: "CHR ''|'' \<noteq> digit_char k" if "k < 10" for k
  proof
    assume "CHR ''|'' = digit_char k"
    then have "of_char (digit_char k) = (of_char (CHR ''|'') :: nat)" by simp
    with that show False by (simp add: digit_char_def)
  qed
  show ?case
    using 1 d by (cases "n < 10") (auto simp: itoa_small itoa_large)
qed

lemma texts_clean:
  "(case k of OtherHopKind _ \<Rightarrow> False | _ \<Rightarrow> True) \<Longrightarrow> set (HopKind_text k) \<inter> {CHR ''|'', CHR '':''} = {}"
  "EdgeType_IsValid e \<or> e = no_EdgeType \<Longrightarrow> set (EdgeType_text e) \<inter> {CHR ''|'', CHR '':''} = {}"
  "set (Direction_String d) \<inter> {CHR ''|'', CHR '':''} = {}"
  "NodeType_IsValid t \<or> t = no_NodeType \<Longrightarrow> set (NodeType_text t) \<inter> {CHR ''|'', CHR '':''} = {}"
  subgoal by (cases k) simp_all
  subgoal by (cases e) (auto simp: EdgeType_IsValid_def)
  subgoal by (cases d) simp_all
  subgoal by (cases t) (auto simp: NodeType_IsValid_def)
  done

lemma texts_inj:
  "(case k of OtherHopKind _ \<Rightarrow> False | _ \<Rightarrow> True) \<Longrightarrow> (case k' of OtherHopKind _ \<Rightarrow> False | _ \<Rightarrow> True) \<Longrightarrow>
     HopKind_text k = HopKind_text k' \<Longrightarrow> k = k'"
  "EdgeType_IsValid e \<or> e = no_EdgeType \<Longrightarrow> EdgeType_IsValid e' \<or> e' = no_EdgeType \<Longrightarrow>
     EdgeType_text e = EdgeType_text e' \<Longrightarrow> e = e'"
  "(case d of OtherDirection _ \<Rightarrow> False | _ \<Rightarrow> True) \<Longrightarrow> (case d' of OtherDirection _ \<Rightarrow> False | _ \<Rightarrow> True) \<Longrightarrow>
     Direction_String d = Direction_String d' \<Longrightarrow> d = d'"
  "NodeType_IsValid t \<or> t = no_NodeType \<Longrightarrow> NodeType_IsValid t' \<or> t' = no_NodeType \<Longrightarrow>
     NodeType_text t = NodeType_text t' \<Longrightarrow> t = t'"
  subgoal by (cases k; cases k') simp_all
  subgoal by (cases e; cases e') (auto simp: EdgeType_IsValid_def)
  subgoal by (cases d; cases d') simp_all
  subgoal by (cases t; cases t') (auto simp: NodeType_IsValid_def)
  done

lemma hop_key_clean: "named_hop h \<Longrightarrow> CHR ''|'' \<notin> set (hop_key h)"
  using texts_clean(1) [of "hs_Kind h"] texts_clean(2) [of "hs_EdgeType h"] texts_clean(3) [of "hs_Direction h"]
    texts_clean(4) [of "hs_NodeTypeFilter h"]
  by (auto simp: named_hop_def hop_key_def)

lemma hop_key_inj:
  assumes "named_hop h" "named_hop h'" "hop_key h = hop_key h'"
  shows "h = h'"
proof -
  note n = assms(1,2) [unfolded named_hop_def]
  have k: "HopKind_text (hs_Kind h) = HopKind_text (hs_Kind h')" and
    r: "EdgeType_text (hs_EdgeType h) @ CHR '':'' # Direction_String (hs_Direction h) @ CHR '':'' #
          NodeType_text (hs_NodeTypeFilter h) =
        EdgeType_text (hs_EdgeType h') @ CHR '':'' # Direction_String (hs_Direction h') @ CHR '':'' #
          NodeType_text (hs_NodeTypeFilter h')"
    using assms(3) split_at_sep [of "HopKind_text (hs_Kind h)" "CHR '':''"] n texts_clean(1)
    by (auto simp: hop_key_def)
  have e: "EdgeType_text (hs_EdgeType h) = EdgeType_text (hs_EdgeType h')" and
    r': "Direction_String (hs_Direction h) @ CHR '':'' # NodeType_text (hs_NodeTypeFilter h) =
        Direction_String (hs_Direction h') @ CHR '':'' # NodeType_text (hs_NodeTypeFilter h')"
    using split_at_sep [OF r] n texts_clean(2) by auto
  have d: "Direction_String (hs_Direction h) = Direction_String (hs_Direction h')" and
    t: "NodeType_text (hs_NodeTypeFilter h) = NodeType_text (hs_NodeTypeFilter h')"
    using split_at_sep [OF r'] texts_clean(3) by auto
  show ?thesis
    using texts_inj k e d t n by (intro HopSpec.equality) auto
qed

lemma Query_cacheKey_inj:
  assumes "clean_query q" "clean_query q'" "Query_cacheKey q = Query_cacheKey q'"
  shows "q_CaseID q = q_CaseID q' \<and> q_StartNodeID q = q_StartNodeID q' \<and> effectiveDepth q = effectiveDepth q' \<and>
    q_Hops q = q_Hops q'"
proof -
  let ?parts = "\<lambda>q. q_CaseID q # q_StartNodeID q # itoa (effectiveDepth q) # map hop_key (q_Hops q)"

  have tail: "concat (map (\<lambda>h. ''|'' @ hop_key h) hs) @ ''|'' = ''|'' @ concat (map (\<lambda>x. x @ [CHR ''|'']) (map hop_key hs))" for hs
    by (induction hs) auto
  have key: "Query_cacheKey q @ ''|'' = concat (map (\<lambda>x. x @ [CHR ''|'']) (?parts q))" for q
    using tail [of "q_Hops q"] by (simp add: Query_cacheKey_def)
  have clean: "\<forall>x\<in>set (?parts q). CHR ''|'' \<notin> set x" if "clean_query q" for q
    using that itoa_no_pipe hop_key_clean by (auto simp: clean_query_def)
  have "?parts q = ?parts q'"
    using concat_sep_inj [OF _ clean [OF assms(1)] clean [OF assms(2)]] key [of q] key [of q'] assms(3) by metis
  moreover have "inj_on hop_key (set (q_Hops q) \<union> set (q_Hops q'))"
    using assms(1,2) hop_key_inj by (auto simp: inj_on_def clean_query_def)
  ultimately show ?thesis
    using inj_on_map_eq_map [of hop_key "q_Hops q" "q_Hops q'"] itoa_inj by auto
qed

section \<open>The cache\<close>

record cacheKey =
  ck_query :: string
  ck_revision :: int

record cacheEntry =
  ce_key :: cacheKey
  ce_result :: Result

text \<open>
  The list of \<open>container/list\<close> holds elements, here numbers with the entry that is their
  \<open>Value\<close>, most recently used first; the map leads from a key to its element. \<open>ca_next\<close> is a
  number no element has.
\<close>

record Cache =
  ca_capacity :: int
  ca_items :: "cacheKey \<rightharpoonup> nat"
  ca_order :: "(nat \<times> cacheEntry) list"
  ca_next :: nat
  ca_revisions :: "string \<rightharpoonup> int"

definition DefaultCacheCapacity :: int where
  "DefaultCacheCapacity = 256"

definition NewCache :: "int \<Rightarrow> 'e traversal_error + Cache" where
  "NewCache optsCapacity =
     (let capacity = (if optsCapacity = 0 then DefaultCacheCapacity else optsCapacity) in
      if capacity < 0 then Inl ErrInvalidCacheCapacity
      else Inr \<lparr>ca_capacity = capacity, ca_items = Map.empty, ca_order = [], ca_next = 0, ca_revisions = Map.empty\<rparr>)"

definition revisionFor :: "string \<Rightarrow> Cache \<Rightarrow> int" where
  "revisionFor caseID c = (case ca_revisions c caseID of None \<Rightarrow> 0 | Some r \<Rightarrow> r)"

definition SetRevision :: "string \<Rightarrow> int \<Rightarrow> Cache \<Rightarrow> Cache" where
  "SetRevision caseID revision c = c\<lparr>ca_revisions := (ca_revisions c)(caseID \<mapsto> revision)\<rparr>"

definition MoveToFront :: "nat \<Rightarrow> (nat \<times> cacheEntry) list \<Rightarrow> (nat \<times> cacheEntry) list" where
  "MoveToFront el xs = filter (\<lambda>x. fst x = el) xs @ filter (\<lambda>x. fst x \<noteq> el) xs"

definition set_Value :: "nat \<Rightarrow> cacheEntry \<Rightarrow> (nat \<times> cacheEntry) list \<Rightarrow> (nat \<times> cacheEntry) list" where
  "set_Value el v xs = map (\<lambda>x. if fst x = el then (el, v) else x) xs"

definition cache_key :: "string \<Rightarrow> Query \<Rightarrow> Cache \<Rightarrow> cacheKey" where
  "cache_key caseID q c = \<lparr>ck_query = Query_cacheKey q, ck_revision = revisionFor caseID c\<rparr>"

definition cache_get :: "string \<Rightarrow> Query \<Rightarrow> Cache \<Rightarrow> Result option \<times> Cache" where
  "cache_get caseID q c =
     (let key = cache_key caseID q c in
      case ca_items c key of
        None \<Rightarrow> (None, c)
      | Some elem \<Rightarrow>
          (map_option ce_result (map_of (ca_order c) elem), c\<lparr>ca_order := MoveToFront elem (ca_order c)\<rparr>))"

definition cache_put :: "string \<Rightarrow> Query \<Rightarrow> Result \<Rightarrow> Cache \<Rightarrow> Cache" where
  "cache_put caseID q result c =
     (let key = cache_key caseID q c;
          ent = \<lparr>ce_key = key, ce_result = result\<rparr>
      in
      case ca_items c key of
        Some elem \<Rightarrow> c\<lparr>ca_order := MoveToFront elem (set_Value elem ent (ca_order c))\<rparr>
      | None \<Rightarrow>
          let elem = ca_next c;
              c = c\<lparr>ca_order := (elem, ent) # ca_order c, ca_items := (ca_items c)(key \<mapsto> elem), ca_next := elem + 1\<rparr>
          in
          if int (length (ca_order c)) > ca_capacity c then
            let oldest = last (ca_order c) in
            c\<lparr>ca_order := butlast (ca_order c), ca_items := (ca_items c)(ce_key (snd oldest) := None)\<rparr>
          else c)"

definition Cache_Len :: "Cache \<Rightarrow> nat" where
  "Cache_Len c = length (ca_order c)"

section \<open>The cache is a recency list\<close>

text \<open>The map is the index of the list, which never outgrows the capacity.\<close>

definition cache_inv :: "Cache \<Rightarrow> bool" where
  "cache_inv c \<longleftrightarrow>
     distinct (map fst (ca_order c)) \<and> distinct (map (\<lambda>x. ce_key (snd x)) (ca_order c)) \<and>
     (\<forall>k el. ca_items c k = Some el \<longleftrightarrow> (\<exists>v. (el, v) \<in> set (ca_order c) \<and> ce_key v = k)) \<and>
     (\<forall>x\<in>set (ca_order c). fst x < ca_next c) \<and>
     int (length (ca_order c)) \<le> ca_capacity c \<and> 0 < ca_capacity c"

text \<open>What it stands for: results by key, the most recently used first.\<close>

definition recency :: "Cache \<Rightarrow> (cacheKey \<times> Result) list" where
  "recency c = map (\<lambda>x. (ce_key (snd x), ce_result (snd x))) (ca_order c)"

definition lru_use :: "'k \<Rightarrow> ('k \<times> 'v) list \<Rightarrow> ('k \<times> 'v) list" where
  "lru_use k xs = filter (\<lambda>x. fst x = k) xs @ filter (\<lambda>x. fst x \<noteq> k) xs"

definition lru_put :: "nat \<Rightarrow> 'k \<Rightarrow> 'v \<Rightarrow> ('k \<times> 'v) list \<Rightarrow> ('k \<times> 'v) list" where
  "lru_put n k v xs = take n ((k, v) # filter (\<lambda>x. fst x \<noteq> k) xs)"

lemma cache_inv_new: "NewCache n = Inr c \<Longrightarrow> cache_inv c \<and> recency c = []"
  by (auto simp: NewCache_def Let_def cache_inv_def recency_def DefaultCacheCapacity_def split: if_splits)

lemma cache_inv_items:
  assumes "cache_inv c"
  shows "ca_items c k = None \<longleftrightarrow> (\<forall>x\<in>set (ca_order c). ce_key (snd x) \<noteq> k)"
    "ca_items c k = Some el \<Longrightarrow> \<exists>v. (el, v) \<in> set (ca_order c) \<and> ce_key v = k \<and> map_of (ca_order c) el = Some v \<and>
       (\<forall>x\<in>set (ca_order c). fst x = el \<longleftrightarrow> ce_key (snd x) = k)"
proof -
  have items: "\<And>k el. ca_items c k = Some el \<longleftrightarrow> (\<exists>v. (el, v) \<in> set (ca_order c) \<and> ce_key v = k)"
    and d: "distinct (map fst (ca_order c))" "distinct (map (\<lambda>x. ce_key (snd x)) (ca_order c))"
    using assms by (auto simp: cache_inv_def)
  show "ca_items c k = None \<longleftrightarrow> (\<forall>x\<in>set (ca_order c). ce_key (snd x) \<noteq> k)"
    using items [of k] by (cases "ca_items c k") (force, fastforce)
  assume "ca_items c k = Some el"
  then obtain v where v: "(el, v) \<in> set (ca_order c)" "ce_key v = k" using items by blast
  moreover have "map_of (ca_order c) el = Some v" using v(1) d(1) by (simp add: map_of_is_SomeI)
  moreover have "fst x = el \<longleftrightarrow> ce_key (snd x) = k" if "x \<in> set (ca_order c)" for x
  proof -
    have "fst x = fst (el, v) \<Longrightarrow> x = (el, v)" "ce_key (snd x) = ce_key (snd (el, v)) \<Longrightarrow> x = (el, v)"
      using d that v(1) unfolding distinct_map by (blast dest: inj_onD)+
    with v(2) show ?thesis by (metis fst_conv snd_conv)
  qed
  ultimately show "\<exists>v. (el, v) \<in> set (ca_order c) \<and> ce_key v = k \<and> map_of (ca_order c) el = Some v \<and>
       (\<forall>x\<in>set (ca_order c). fst x = el \<longleftrightarrow> ce_key (snd x) = k)"
    by blast
qed

lemma recency_map_of: "cache_inv c \<Longrightarrow> ca_items c k = Some el \<Longrightarrow>
  map_of (recency c) k = map_option ce_result (map_of (ca_order c) el)"
proof -
  assume inv: "cache_inv c" and el: "ca_items c k = Some el"
  obtain v where v: "(el, v) \<in> set (ca_order c)" "ce_key v = k" "map_of (ca_order c) el = Some v"
    using cache_inv_items(2) [OF inv el] by blast
  have "distinct (map fst (recency c))" using inv by (simp add: cache_inv_def recency_def o_def)
  moreover have "(k, ce_result v) \<in> set (recency c)" using v by (force simp: recency_def)
  ultimately have "map_of (recency c) k = Some (ce_result v)" by (rule map_of_is_SomeI)
  with v(3) show ?thesis by simp
qed

lemma cache_inv_perm:
  assumes "cache_inv c" "mset xs = mset (ca_order c)"
  shows "cache_inv (c\<lparr>ca_order := xs\<rparr>)"
proof -
  have "mset (map fst xs) = mset (map fst (ca_order c))"
    "mset (map (\<lambda>x. ce_key (snd x)) xs) = mset (map (\<lambda>x. ce_key (snd x)) (ca_order c))"
    using assms(2) by simp_all
  then have d: "distinct (map fst xs) = distinct (map fst (ca_order c))"
    "distinct (map (\<lambda>x. ce_key (snd x)) xs) = distinct (map (\<lambda>x. ce_key (snd x)) (ca_order c))"
    using mset_eq_imp_distinct_iff by metis+
  have "set xs = set (ca_order c)" "length xs = length (ca_order c)"
    using assms(2) by (auto dest: mset_eq_setD mset_eq_length)
  then show ?thesis using assms(1) d unfolding cache_inv_def by simp
qed

lemma mset_MoveToFront: "mset (MoveToFront el xs) = mset xs"
  by (simp add: MoveToFront_def)

lemma filter_key_single:
  "distinct (map fst xs) \<Longrightarrow> (k, v) \<in> set xs \<Longrightarrow> filter (\<lambda>x. fst x = k) xs = [(k, v)]"
proof (induction xs)
  case (Cons x xs)
  show ?case
  proof (cases "x = (k, v)")
    case True
    with Cons.prems(1) have "\<forall>y\<in>set xs. fst y \<noteq> k" by force
    with True show ?thesis by (simp add: filter_empty_conv)
  next
    case False
    with Cons.prems(2) have m: "(k, v) \<in> set xs" by auto
    then have "k \<in> fst ` set xs" by force
    with Cons.prems(1) have "fst x \<noteq> k" by auto
    with m Cons show ?thesis by simp
  qed
qed simp

text \<open>Elements and keys of the list correspond, so moving one is using the other.\<close>

lemma recency_move:
  assumes "\<forall>x\<in>set xs. fst x = el \<longleftrightarrow> ce_key (snd x) = k"
  shows "map (\<lambda>x. (ce_key (snd x), ce_result (snd x))) (MoveToFront el xs) =
    lru_use k (map (\<lambda>x. (ce_key (snd x), ce_result (snd x))) xs)"
proof -
  have "filter (\<lambda>x. fst x = el) xs = filter (\<lambda>x. ce_key (snd x) = k) xs"
    "filter (\<lambda>x. fst x \<noteq> el) xs = filter (\<lambda>x. ce_key (snd x) \<noteq> k) xs"
    using assms by (auto intro: filter_cong)
  then show ?thesis by (simp add: MoveToFront_def lru_use_def filter_map o_def)
qed

lemma lru_use_absent: "k \<notin> fst ` set xs \<Longrightarrow> lru_use k xs = xs"
proof -
  assume "k \<notin> fst ` set xs"
  then have "\<forall>x\<in>set xs. fst x \<noteq> k" by force
  then show ?thesis by (simp add: lru_use_def filter_empty_conv filter_id_conv)
qed

lemma cache_get_refines:
  assumes inv: "cache_inv c" and get: "cache_get caseID q c = (r, c')"
  shows "cache_inv c' \<and> r = map_of (recency c) (cache_key caseID q c) \<and>
    recency c' = lru_use (cache_key caseID q c) (recency c) \<and> ca_revisions c' = ca_revisions c \<and>
    ca_capacity c' = ca_capacity c"
proof (cases "ca_items c (cache_key caseID q c)")
  case None
  then have "cache_key caseID q c \<notin> fst ` set (recency c)"
    using cache_inv_items(1) [OF inv] by (auto simp: recency_def)
  then have "map_of (recency c) (cache_key caseID q c) = None" "lru_use (cache_key caseID q c) (recency c) = recency c"
    by (simp_all add: map_of_eq_None_iff lru_use_absent)
  with None get inv show ?thesis by (simp add: cache_get_def Let_def)
next
  case (Some el)
  have "\<forall>x\<in>set (ca_order c). fst x = el \<longleftrightarrow> ce_key (snd x) = cache_key caseID q c"
    using cache_inv_items(2) [OF inv Some] by blast
  from recency_move [OF this] Some get recency_map_of [OF inv Some] cache_inv_perm [OF inv mset_MoveToFront]
  show ?thesis by (auto simp: cache_get_def Let_def recency_def)
qed

lemma mem_by_key:
  "(\<exists>w. (e, w) \<in> S \<and> ce_key w = k) \<longleftrightarrow> (e, k) \<in> (\<lambda>x. (fst x, ce_key (snd x))) ` S"
  by force

lemma cache_put_hit:
  assumes inv: "cache_inv c" and el: "ca_items c k = Some el" and key: "ce_key v = k"
  shows "cache_inv (c\<lparr>ca_order := MoveToFront el (set_Value el v (ca_order c))\<rparr>) \<and>
    map (\<lambda>x. (ce_key (snd x), ce_result (snd x))) (MoveToFront el (set_Value el v (ca_order c))) =
      (k, ce_result v) # filter (\<lambda>x. fst x \<noteq> k) (recency c)"
proof -
  let ?xs = "set_Value el v (ca_order c)"
  obtain v0 where v0: "(el, v0) \<in> set (ca_order c)" "ce_key v0 = k"
    "\<forall>x\<in>set (ca_order c). fst x = el \<longleftrightarrow> ce_key (snd x) = k"
    using cache_inv_items(2) [OF inv el] by blast
  have d: "distinct (map fst (ca_order c))" using inv by (simp add: cache_inv_def)
  have fsts: "map fst ?xs = map fst (ca_order c)" by (simp add: set_Value_def)
  have keys: "map (\<lambda>x. ce_key (snd x)) ?xs = map (\<lambda>x. ce_key (snd x)) (ca_order c)"
    using v0(3) key by (auto simp: set_Value_def)
  have both: "map (\<lambda>x. (fst x, ce_key (snd x))) ?xs = map (\<lambda>x. (fst x, ce_key (snd x))) (ca_order c)"
    using v0(3) key by (auto simp: set_Value_def)
  have mem: "(\<exists>w. (e, w) \<in> set ?xs \<and> ce_key w = k') \<longleftrightarrow> (\<exists>w. (e, w) \<in> set (ca_order c) \<and> ce_key w = k')" for e k'
    unfolding mem_by_key using arg_cong [OF both, of set] by simp
  have less: "\<forall>x\<in>set ?xs. fst x < ca_next c"
    using inv arg_cong [OF fsts, of set] unfolding cache_inv_def by (metis (no_types, lifting) imageE image_eqI list.set_map)
  have "length ?xs = length (ca_order c)" by (simp add: set_Value_def)
  then have "cache_inv (c\<lparr>ca_order := ?xs\<rparr>)"
    using inv fsts keys less by (simp add: cache_inv_def mem)
  then have "cache_inv (c\<lparr>ca_order := MoveToFront el ?xs\<rparr>)"
    using cache_inv_perm [OF _ mset_MoveToFront, of "c\<lparr>ca_order := ?xs\<rparr>" el] by simp
  moreover have "(el, v) \<in> set ?xs" using v0(1) by (force simp: set_Value_def)
  with filter_key_single [of ?xs el v] d fsts have "filter (\<lambda>x. fst x = el) ?xs = [(el, v)]" by simp
  moreover have "map (\<lambda>x. (ce_key (snd x), ce_result (snd x))) (filter (\<lambda>x. fst x \<noteq> el) ?xs) =
      filter (\<lambda>x. fst x \<noteq> k) (recency c)"
  proof -
    have "filter (\<lambda>x. fst x \<noteq> el) ?xs = filter (\<lambda>x. fst x \<noteq> el) (ca_order c)"
      by (induction "ca_order c") (auto simp: set_Value_def filter_map o_def intro!: map_idI)
    also have "\<dots> = filter (\<lambda>x. ce_key (snd x) \<noteq> k) (ca_order c)" using v0(3) by (intro filter_cong) auto
    finally show ?thesis by (simp add: recency_def filter_map o_def)
  qed
  ultimately show ?thesis using key by (simp add: MoveToFront_def)
qed

text \<open>A new element in front, and the last one out if there are too many.\<close>

lemma cache_add:
  assumes inv: "cache_inv c" and new: "ca_items c k = None" and key: "ce_key v = k"
    and xs: "xs = (ca_next c, v) # ca_order c" and room: "int (length xs) \<le> cap" "0 < cap"
  shows "cache_inv (c\<lparr>ca_order := xs, ca_items := (ca_items c)(k \<mapsto> ca_next c), ca_next := ca_next c + 1, ca_capacity := cap\<rparr>)"
proof -
  have fresh: "\<forall>x\<in>set (ca_order c). fst x \<noteq> ca_next c \<and> ce_key (snd x) \<noteq> k"
    using inv cache_inv_items(1) [OF inv, of k] new by (auto simp: cache_inv_def)
  have items: "(((ca_items c)(k \<mapsto> ca_next c)) k' = Some el) \<longleftrightarrow> (\<exists>w. (el, w) \<in> set xs \<and> ce_key w = k')" for k' el
    using inv fresh key unfolding cache_inv_def xs by (cases "k' = k") fastforce+
  have d: "distinct (map fst xs)" "distinct (map (\<lambda>x. ce_key (snd x)) xs)"
    using inv fresh key by (auto simp: cache_inv_def xs)
  have "\<forall>x\<in>set xs. fst x < ca_next c + 1" using inv by (auto simp: cache_inv_def xs)
  with items d room show ?thesis unfolding cache_inv_def by simp
qed

lemma cache_drop_last:
  assumes inv: "cache_inv c" and ne: "ca_order c \<noteq> []" and cap: "0 < cap" "int (length (ca_order c)) \<le> cap + 1"
  shows "cache_inv (c\<lparr>ca_order := butlast (ca_order c), ca_items := (ca_items c)(ce_key (snd (last (ca_order c))) := None),
    ca_capacity := cap\<rparr>)"
proof -
  obtain ys y where ys: "ca_order c = ys @ [y]" using ne by (cases "ca_order c" rule: rev_cases) auto
  let ?k = "ce_key (snd y)"
  have items: "\<And>k el. ca_items c k = Some el \<longleftrightarrow> (\<exists>w. (el, w) \<in> set (ys @ [y]) \<and> ce_key w = k)"
    and d: "distinct (map fst (ys @ [y]))" "distinct (map (\<lambda>x. ce_key (snd x)) (ys @ [y]))"
    using inv unfolding cache_inv_def ys by auto
  from d(2) have "?k \<notin> (\<lambda>x. ce_key (snd x)) ` set ys" by simp
  then have others: "\<forall>x\<in>set ys. ce_key (snd x) \<noteq> ?k" by (metis (no_types, lifting) image_eqI)
  have "(((ca_items c)(?k := None)) k = Some el) \<longleftrightarrow> (\<exists>w. (el, w) \<in> set ys \<and> ce_key w = k)" for k el
  proof (cases "k = ?k")
    case True
    then have "\<not> (\<exists>w. (el, w) \<in> set ys \<and> ce_key w = k)" using others by (metis snd_conv)
    with True show ?thesis by simp
  next
    case False
    have "(el, w) \<in> set (ys @ [y]) \<and> ce_key w = k \<longleftrightarrow> (el, w) \<in> set ys \<and> ce_key w = k" for w
      using False by (cases y) auto
    with False items [of k el] show ?thesis by simp
  qed
  then show ?thesis using inv d cap unfolding cache_inv_def ys by simp
qed

lemma cache_put_refines:
  assumes inv: "cache_inv c"
  shows "cache_inv (cache_put caseID q res c) \<and>
    recency (cache_put caseID q res c) = lru_put (nat (ca_capacity c)) (cache_key caseID q c) res (recency c) \<and>
    ca_revisions (cache_put caseID q res c) = ca_revisions c \<and> ca_capacity (cache_put caseID q res c) = ca_capacity c"
proof -
  let ?k = "cache_key caseID q c"
  let ?v = "\<lparr>ce_key = ?k, ce_result = res\<rparr>"
  let ?n = "nat (ca_capacity c)"
  have cap: "length (recency c) \<le> ?n" "0 < ?n" using inv by (auto simp: cache_inv_def recency_def)
  show ?thesis
  proof (cases "ca_items c ?k")
    case (Some el)
    obtain x where "x \<in> set (recency c)" "fst x = ?k"
      using cache_inv_items(2) [OF inv Some] by (force simp: recency_def)
    then have "length (filter (\<lambda>x. fst x \<noteq> ?k) (recency c)) < length (recency c)"
      by (intro length_filter_less [of x]) auto
    then have "lru_put ?n ?k res (recency c) = (?k, res) # filter (\<lambda>x. fst x \<noteq> ?k) (recency c)"
      using cap by (simp add: lru_put_def take_Cons')
    moreover have "cache_put caseID q res c = c\<lparr>ca_order := MoveToFront el (set_Value el ?v (ca_order c))\<rparr>"
      using Some by (simp add: cache_put_def Let_def)
    ultimately show ?thesis using cache_put_hit [OF inv Some, of ?v] by (simp add: recency_def)
  next
    case None
    let ?xs = "(ca_next c, ?v) # ca_order c"
    let ?c = "c\<lparr>ca_order := ?xs, ca_items := (ca_items c)(?k \<mapsto> ca_next c), ca_next := ca_next c + 1\<rparr>"
    have absent: "filter (\<lambda>x. fst x \<noteq> ?k) (recency c) = recency c"
      using cache_inv_items(1) [OF inv, of ?k] None by (auto simp: recency_def filter_id_conv)

    show ?thesis
    proof (cases "int (length ?xs) > ca_capacity c")
      case True
      then have full: "length (recency c) = ?n" using cap by (simp add: recency_def)
      have "cache_inv (?c\<lparr>ca_capacity := ca_capacity c + 1\<rparr>)"
        using cache_add [OF inv None, of ?v ?xs "ca_capacity c + 1"] inv by (auto simp: cache_inv_def)
      from cache_drop_last [OF this, of "ca_capacity c"] True inv
      have "cache_inv (?c\<lparr>ca_order := butlast ?xs, ca_items := ((ca_items c)(?k \<mapsto> ca_next c))(ce_key (snd (last ?xs)) := None)\<rparr>)"
        by (simp add: cache_inv_def)
      moreover have "cache_put caseID q res c =
          ?c\<lparr>ca_order := butlast ?xs, ca_items := ((ca_items c)(?k \<mapsto> ca_next c))(ce_key (snd (last ?xs)) := None)\<rparr>"
        using None True by (simp add: cache_put_def Let_def)
      moreover have "map (\<lambda>x. (ce_key (snd x), ce_result (snd x))) (butlast ?xs) = take ?n ((?k, res) # recency c)"
        using full by (simp add: recency_def butlast_conv_take take_map take_Cons')
      ultimately show ?thesis using absent by (simp add: recency_def lru_put_def)
    next
      case False
      then have "cache_put caseID q res c = ?c" using None by (simp add: cache_put_def Let_def)
      moreover have "cache_inv ?c"
        using cache_add [OF inv None, of ?v ?xs "ca_capacity c"] inv False by (simp add: cache_inv_def)
      ultimately show ?thesis using absent False cap by (simp add: recency_def lru_put_def take_Cons')
    qed
  qed
qed

lemma cache_revise_refines:
  "cache_inv c \<Longrightarrow> cache_inv (SetRevision caseID r c) \<and> recency (SetRevision caseID r c) = recency c"
  by (simp add: SetRevision_def cache_inv_def recency_def)

section \<open>Cached execution\<close>

definition ExecuteCached ::
  "('e, 's) reader \<Rightarrow> Query \<Rightarrow> 's \<Rightarrow> Cache option \<Rightarrow> (('e traversal_error + Result) \<times> Cache option) option" where
  "ExecuteCached rd q s cache =
     (case cache of
        None \<Rightarrow> map_option (\<lambda>r. (r, None)) (Execute rd q s)
      | Some c \<Rightarrow>
          (case cache_get (q_CaseID q) q c of
             (Some cached, c) \<Rightarrow> Some (Inr cached, Some c)
           | (None, c) \<Rightarrow>
               (case Execute rd q s of
                  None \<Rightarrow> None
                | Some (Inl err) \<Rightarrow> Some (Inl err, Some c)
                | Some (Inr result) \<Rightarrow> Some (Inr result, Some (cache_put (q_CaseID q) q result c)))))"

definition ReindexOnRevision :: "Cache option \<Rightarrow> TreeRevision \<Rightarrow> 'e traversal_error option \<times> Cache option" where
  "ReindexOnRevision cache revision =
     (if tr_CaseID revision = [] then (Some ErrEmptyCaseID, cache)
      else
        (case cache of
           None \<Rightarrow> (None, None)
         | Some c \<Rightarrow> (None, Some (SetRevision (tr_CaseID revision) (tr_RevisionNumber revision) c))))"

lemma ExecuteCached_returns: "\<exists>r. ExecuteCached rd q s cache = Some r"
proof -
  obtain x where "Execute rd q s = Some x" using Execute_answers [of rd q s] by blast
  then show ?thesis by (auto simp: ExecuteCached_def split: option.splits sum.splits prod.splits)
qed

lemma ExecuteCached_keeps: "\<exists>r c'. ExecuteCached rd q s (Some c) = Some (r, Some c')"
proof -
  obtain r where "ExecuteCached rd q s (Some c) = Some r" using ExecuteCached_returns [of rd q s "Some c"] by blast
  then show ?thesis by (cases r) (auto simp: ExecuteCached_def split: option.splits sum.splits prod.splits)
qed

text \<open>
  A call that has an answer, and what it does to the cache: the key moves to the front, or the
  answer of the walk comes in.
\<close>

lemma ExecuteCached_cases:
  assumes "cache_inv c" "ExecuteCached rd q s (Some c) = Some (r, Some c')"
  obtains (hit) res where "r = Inr res" "map_of (recency c) (cache_key (q_CaseID q) q c) = Some res"
      "cache_inv c'" "recency c' = lru_use (cache_key (q_CaseID q) q c) (recency c)" "ca_revisions c' = ca_revisions c"
  | (miss) res where "r = Inr res" "Execute rd q s = Some (Inr res)" "cache_inv c'"
      "recency c' = lru_put (nat (ca_capacity c)) (cache_key (q_CaseID q) q c) res (recency c)"
      "ca_revisions c' = ca_revisions c"
  | (failed) err where "r = Inl err" "Execute rd q s = Some (Inl err)" "cache_inv c'" "recency c' = recency c"
      "ca_revisions c' = ca_revisions c"
proof -
  let ?k = "cache_key (q_CaseID q) q c"
  obtain g c1 where g: "cache_get (q_CaseID q) q c = (g, c1)" by force
  note get = cache_get_refines [OF assms(1) g]
  show thesis
  proof (cases g)
    case (Some res)
    with assms(2) g have "r = Inr res" "c' = c1" by (auto simp: ExecuteCached_def)
    with get Some show thesis using hit by simp
  next
    case None
    then have "?k \<notin> fst ` set (recency c)" using get by (metis map_of_eq_None_iff)
    then have same: "recency c1 = recency c" using get by (simp add: lru_use_absent)
    have key: "cache_key (q_CaseID q) q c1 = ?k" using get by (simp add: cache_key_def revisionFor_def)
    from assms(2) g None show thesis
      using get same key cache_put_refines [of c1 "q_CaseID q" q] miss failed
      by (auto simp: ExecuteCached_def split: option.splits sum.splits)
  qed
qed

section \<open>What the keys leave out\<close>

lemma validate_None_iff:
  "validate q = None \<longleftrightarrow> q_CaseID q \<noteq> [] \<and> q_StartNodeID q \<noteq> [] \<and> q_Hops q \<noteq> [] \<and> 0 \<le> q_MaxDepth q \<and>
     (\<forall>h\<in>set (q_Hops q). hs_Kind h = HopKindCustom \<longrightarrow> hs_EdgeType h \<noteq> no_EdgeType)"
proof -
  have "check_hops i hs = None \<longleftrightarrow> (\<forall>h\<in>set hs. hs_Kind h = HopKindCustom \<longrightarrow> hs_EdgeType h \<noteq> no_EdgeType)" for i hs
    by (induction hs arbitrary: i) auto
  then show ?thesis by (auto simp: validate_def)
qed

text \<open>Valid queries with clean IDs and the same functions; for them the key says everything.\<close>

definition posed ::
  "ScoreFunc option \<Rightarrow> PrecedentResolver option \<Rightarrow> DistinguishingFactResolver option \<Rightarrow> Query \<Rightarrow> bool" where
  "posed f p d q \<longleftrightarrow>
     clean_query q \<and> q_CaseID q \<noteq> [] \<and> q_StartNodeID q \<noteq> [] \<and> q_Hops q \<noteq> [] \<and> 0 \<le> q_MaxDepth q \<and>
     (\<forall>h\<in>set (q_Hops q). hs_Kind h = HopKindCustom \<longrightarrow> hs_EdgeType h \<noteq> no_EdgeType) \<and>
     q_ScoreFunc q = f \<and> q_PrecedentResolver q = p \<and> q_DistinguishingFactResolver q = d"

lemma posed_same_key:
  fixes rd :: "('e, 's) reader"
  assumes "posed f p d q" "posed f p d q'" "Query_cacheKey q = Query_cacheKey q'"
  shows "q_CaseID q' = q_CaseID q \<and> Execute rd q' s = Execute rd q s"
proof -
  have clean: "clean_query q" "clean_query q'" using assms by (auto simp: posed_def)
  note shape = Query_cacheKey_inj [OF clean assms(3)]
  then have q': "q' = q\<lparr>q_MaxDepth := q_MaxDepth q'\<rparr>"
    using assms(1,2) by (intro Query.equality) (auto simp: posed_def)
  have res: "resolveHop rd (q\<lparr>q_MaxDepth := m\<rparr>) = resolveHop rd q" for m
    by (simp add: fun_eq_iff resolveHop_def resolvePrecedentHop_def resolveDistinguishingFactsHop_def)
  have "validate q = (None :: 'e traversal_error option)"
    "validate (q\<lparr>q_MaxDepth := q_MaxDepth q'\<rparr>) = (None :: 'e traversal_error option)"
    using assms(1,2) by (auto simp: validate_None_iff posed_def)
  moreover have "effectiveDepth (q\<lparr>q_MaxDepth := q_MaxDepth q'\<rparr>) = effectiveDepth q" using shape q' by simp
  ultimately have "Execute rd (q\<lparr>q_MaxDepth := q_MaxDepth q'\<rparr>) s = Execute rd q s"
    by (simp add: Execute_def res cong: sum.case_cong if_cong)
  then show ?thesis using shape q' by simp
qed

section \<open>Histories without overlapping calls\<close>

text \<open>
  Cached calls, and changes of the tree of one case each followed by the new revision, which
  is greater than the last one. A change leaves the answers for other cases alone.
\<close>

inductive cached_step :: "('e, 's) reader \<Rightarrow> (Query \<Rightarrow> bool) \<Rightarrow> 's \<times> Cache \<Rightarrow> 's \<times> Cache \<Rightarrow> bool" for rd ok where
  ask: "ok q \<Longrightarrow> ExecuteCached rd q s (Some c) = Some (r, Some c') \<Longrightarrow> cached_step rd ok (s, c) (s, c')"
| change: "(\<And>q res. ok q \<Longrightarrow> q_CaseID q \<noteq> tr_CaseID rv \<Longrightarrow> Execute rd q s = Some (Inr res) \<Longrightarrow>
       Execute rd q s' = Some (Inr res)) \<Longrightarrow>
     revisionFor (tr_CaseID rv) c < tr_RevisionNumber rv \<Longrightarrow>
     ReindexOnRevision (Some c) rv = (None :: 'e traversal_error option, Some c') \<Longrightarrow>
     cached_step rd ok (s, c) (s', c')"

text \<open>Each entry is of a query of an older revision of its case, or still the right answer.\<close>

definition fresh_inv :: "('e, 's) reader \<Rightarrow> (Query \<Rightarrow> bool) \<Rightarrow> 's \<Rightarrow> Cache \<Rightarrow> bool" where
  "fresh_inv rd ok s c \<longleftrightarrow>
     cache_inv c \<and>
     (\<forall>(k, res)\<in>set (recency c). \<exists>q. ok q \<and> ck_query k = Query_cacheKey q \<and>
        ck_revision k \<le> revisionFor (q_CaseID q) c \<and>
        (ck_revision k = revisionFor (q_CaseID q) c \<longrightarrow> Execute rd q s = Some (Inr res)))"

lemma fresh_subset:
  assumes "fresh_inv rd ok s c" "cache_inv c'" "set (recency c') \<subseteq> set (recency c)" "ca_revisions c' = ca_revisions c"
  shows "fresh_inv rd ok s c'"
proof -
  have "revisionFor cid c' = revisionFor cid c" for cid using assms(4) by (simp add: revisionFor_def)
  then show ?thesis using assms(1-3) unfolding fresh_inv_def by fastforce
qed

lemma fresh_ask:
  assumes inv: "fresh_inv rd ok s c" and ok: "ok q" and ask: "ExecuteCached rd q s (Some c) = Some (r, Some c')"
  shows "fresh_inv rd ok s c'"
proof -
  have c: "cache_inv c" using inv by (simp add: fresh_inv_def)
  from c ask show ?thesis
  proof (cases rule: ExecuteCached_cases)
    case hit
    have "set (recency c') \<subseteq> set (recency c)" using hit(4) by (auto simp: lru_use_def)
    with hit show ?thesis using fresh_subset [OF inv] by blast
  next
    case failed
    then show ?thesis using fresh_subset [OF inv] by simp
  next
    case (miss res)
    have rev: "revisionFor cid c' = revisionFor cid c" for cid using miss(5) by (simp add: revisionFor_def)
    have "set (recency c') \<subseteq> insert (cache_key (q_CaseID q) q c, res) (set (recency c))"
      using miss(4) by (auto simp: lru_put_def dest!: in_set_takeD)
    moreover have "\<exists>q. ok q \<and> ck_query k = Query_cacheKey q \<and> ck_revision k \<le> revisionFor (q_CaseID q) c' \<and>
        (ck_revision k = revisionFor (q_CaseID q) c' \<longrightarrow> Execute rd q s = Some (Inr res'))"
      if "(k, res') \<in> insert (cache_key (q_CaseID q) q c, res) (set (recency c))" for k res'
      using that inv ok miss(2) rev by (auto simp: fresh_inv_def cache_key_def)
    ultimately show ?thesis using miss(3) unfolding fresh_inv_def by blast
  qed
qed

lemma fresh_change:
  assumes inv: "fresh_inv rd ok s c"
    and same: "\<And>q res. ok q \<Longrightarrow> q_CaseID q \<noteq> cid \<Longrightarrow> Execute rd q s = Some (Inr res) \<Longrightarrow> Execute rd q s' = Some (Inr res)"
    and rev: "revisionFor cid c < n"
  shows "fresh_inv rd ok s' (SetRevision cid n c)"
proof -
  have set: "revisionFor x (SetRevision cid n c) = (if x = cid then n else revisionFor x c)" for x
    by (simp add: revisionFor_def SetRevision_def)
  have "\<exists>q. ok q \<and> ck_query k = Query_cacheKey q \<and> ck_revision k \<le> revisionFor (q_CaseID q) (SetRevision cid n c) \<and>
      (ck_revision k = revisionFor (q_CaseID q) (SetRevision cid n c) \<longrightarrow> Execute rd q s' = Some (Inr res))"
    if m: "(k, res) \<in> set (recency c)" for k res
  proof -
    obtain q where "ok q" "ck_query k = Query_cacheKey q" "ck_revision k \<le> revisionFor (q_CaseID q) c"
      "ck_revision k = revisionFor (q_CaseID q) c \<longrightarrow> Execute rd q s = Some (Inr res)"
      using inv m unfolding fresh_inv_def by blast
    then show ?thesis using same rev by (intro exI [of _ q]) (auto simp: set)
  qed
  moreover have "cache_inv (SetRevision cid n c)" "recency (SetRevision cid n c) = recency c"
    using inv cache_revise_refines unfolding fresh_inv_def by blast+
  ultimately show ?thesis unfolding fresh_inv_def by auto
qed

lemma fresh_step: "cached_step rd ok (s, c) (s', c') \<Longrightarrow> fresh_inv rd ok s c \<Longrightarrow> fresh_inv rd ok s' c'"
proof (induction "(s, c)" "(s', c')" rule: cached_step.induct)
  case (ask q r)
  then show ?case using fresh_ask by metis
next
  case (change rv)
  then have "c' = SetRevision (tr_CaseID rv) (tr_RevisionNumber rv) c"
    by (auto simp: ReindexOnRevision_def split: if_splits)
  with change fresh_change [of rd ok s c "tr_CaseID rv" s' "tr_RevisionNumber rv"] show ?case by simp
qed

section \<open>Properties of the cache\<close>

datatype cache_op = OpGet string Query | OpPut string Query Result | OpSetRevision string int

fun cache_do :: "cache_op \<Rightarrow> Cache \<Rightarrow> Result option \<times> Cache" where
  "cache_do (OpGet caseID q) c = cache_get caseID q c"
| "cache_do (OpPut caseID q res) c = (None, cache_put caseID q res c)"
| "cache_do (OpSetRevision caseID r) c = (None, SetRevision caseID r c)"

text \<open>The specification: results in the order of their last use, and the revisions.\<close>

record lru_state =
  lr_entries :: "(cacheKey \<times> Result) list"
  lr_revisions :: "string \<Rightarrow> int"

definition lru_key :: "string \<Rightarrow> Query \<Rightarrow> lru_state \<Rightarrow> cacheKey" where
  "lru_key caseID q st = \<lparr>ck_query = Query_cacheKey q, ck_revision = lr_revisions st caseID\<rparr>"

fun lru_do :: "nat \<Rightarrow> cache_op \<Rightarrow> lru_state \<Rightarrow> Result option \<times> lru_state" where
  "lru_do n (OpGet caseID q) st =
     (map_of (lr_entries st) (lru_key caseID q st), st\<lparr>lr_entries := lru_use (lru_key caseID q st) (lr_entries st)\<rparr>)"
| "lru_do n (OpPut caseID q res) st = (None, st\<lparr>lr_entries := lru_put n (lru_key caseID q st) res (lr_entries st)\<rparr>)"
| "lru_do n (OpSetRevision caseID r) st = (None, st\<lparr>lr_revisions := (lr_revisions st)(caseID := r)\<rparr>)"

definition cache_view :: "Cache \<Rightarrow> lru_state" where
  "cache_view c = \<lparr>lr_entries = recency c, lr_revisions = (\<lambda>cid. revisionFor cid c)\<rparr>"

lemma lru_key_view: "lru_key caseID q (cache_view c) = cache_key caseID q c"
  by (simp add: lru_key_def cache_view_def cache_key_def)

lemma cache_do_refines:
  assumes "cache_inv c" "cache_do opn c = (r, c')"
  shows "cache_inv c' \<and> ca_capacity c' = ca_capacity c \<and>
    lru_do (nat (ca_capacity c)) opn (cache_view c) = (r, cache_view c')"
proof (cases opn)
  case (OpGet caseID q)
  with cache_get_refines [OF assms(1), of caseID q r c'] assms(2) show ?thesis
    by (simp add: lru_key_view) (simp add: cache_view_def revisionFor_def)
next
  case (OpPut caseID q res)
  with cache_put_refines [OF assms(1), of caseID q res] assms(2) show ?thesis
    by (auto simp: lru_key_view) (simp add: cache_view_def revisionFor_def)
next
  case (OpSetRevision caseID n)
  have "revisionFor x (SetRevision caseID n c) = (if x = caseID then n else revisionFor x c)" for x
    by (simp add: revisionFor_def SetRevision_def)
  with OpSetRevision cache_revise_refines [OF assms(1), of caseID n] assms(2) show ?thesis
    by (auto simp: cache_view_def fun_eq_iff) (simp add: SetRevision_def)
qed

lemma cache_run_refines:
  "cache_inv c \<Longrightarrow> run_steps cache_do ops c = (rs, c') \<Longrightarrow>
     cache_inv c' \<and> ca_capacity c' = ca_capacity c \<and>
     run_steps (lru_do (nat (ca_capacity c))) ops (cache_view c) = (rs, cache_view c')"
proof (induction ops arbitrary: c rs)
  case (Cons opn ops)
  obtain r c1 where one: "cache_do opn c = (r, c1)" by force
  obtain rs1 where rest: "run_steps cache_do ops c1 = (rs1, c')" "rs = r # rs1"
    using Cons.prems(2) one by (auto split: prod.splits)
  from cache_do_refines [OF Cons.prems(1) one] Cons.IH [of c1 rs1] rest show ?case by simp
qed simp

text \<open>
  C38: The cache, with its map into a linked list, refines a plain least-recently-used list.
  After any sequence of lookups, insertions and revisions from an empty cache every lookup
  gives what was put last under the query's key and the case's current revision, unless as many
  other keys as the capacity have been used since; and the number of entries never exceeds the
  capacity, 256 when none is given.
\<close>

theorem cache_refines_lru:
  assumes "NewCache n = Inr c0" "run_steps cache_do ops c0 = (rs, c)"
  shows "\<exists>st. run_steps (lru_do (if n = 0 then 256 else nat n)) ops \<lparr>lr_entries = [], lr_revisions = (\<lambda>_. 0)\<rparr> = (rs, st) \<and>
    recency c = lr_entries st \<and> Cache_Len c \<le> (if n = 0 then 256 else nat n)"
proof -
  have c0: "ca_capacity c0 = (if n = 0 then 256 else n)" "cache_view c0 = \<lparr>lr_entries = [], lr_revisions = (\<lambda>_. 0)\<rparr>"
    using assms(1) by (auto simp: NewCache_def Let_def DefaultCacheCapacity_def cache_view_def recency_def revisionFor_def
        split: if_splits)
  have run: "cache_inv c \<and> ca_capacity c = ca_capacity c0 \<and>
      run_steps (lru_do (nat (ca_capacity c0))) ops (cache_view c0) = (rs, cache_view c)"
    using cache_run_refines [OF _ assms(2)] cache_inv_new [OF assms(1)] by blast
  then have "length (ca_order c) \<le> nat (ca_capacity c0)" by (auto simp: cache_inv_def)
  with run c0 show ?thesis
    by (intro exI [of _ "cache_view c"]) (auto simp: cache_view_def Cache_Len_def)
qed

text \<open>Of two results put into a cache of one, the second is left.\<close>

theorem cache_refines_lru_witness:
  "\<exists>c. run_steps cache_do [OpPut ''c'' shared_query shared_result, OpPut ''d'' (NewQuery ''d'' ''x'') shared_result,
        OpGet ''c'' shared_query, OpGet ''d'' (NewQuery ''d'' ''x'')]
      \<lparr>ca_capacity = 1, ca_items = Map.empty, ca_order = [], ca_next = 0, ca_revisions = Map.empty\<rparr> =
      ([None, None, None, Some shared_result], c) \<and> Cache_Len c \<le> 1"
proof -
  let ?c0 = "\<lparr>ca_capacity = 1, ca_items = Map.empty, ca_order = [], ca_next = 0, ca_revisions = Map.empty\<rparr>"
  let ?ops = "[OpPut ''c'' shared_query shared_result, OpPut ''d'' (NewQuery ''d'' ''x'') shared_result,
        OpGet ''c'' shared_query, OpGet ''d'' (NewQuery ''d'' ''x'')]"
  obtain rs c where run: "run_steps cache_do ?ops ?c0 = (rs, c)" by force
  have new: "NewCache 1 = (Inr ?c0 :: graph_error traversal_error + Cache)" by (simp add: NewCache_def)
  have keys: "Query_cacheKey shared_query \<noteq> Query_cacheKey (NewQuery ''d'' ''x'')"
    by (simp add: Query_cacheKey_def shared_query_simps, simp add: NewQuery_def)
  from cache_refines_lru [OF new run] have "rs = [None, None, None, Some shared_result] \<and> Cache_Len c \<le> 1"
    using keys by (simp add: lru_key_def lru_put_def lru_use_def split: if_splits)
  with run show ?thesis by simp
qed

text \<open>
  C39: As long as calls do not overlap, a cached call gives exactly what executing the query now
  would give: after any history of cached calls and of changes of one case's tree, each
  followed by a greater revision of that case, whatever was evicted in between. The queries
  are valid, carry the same functions and have IDs without the separator of the keys.
\<close>

theorem cached_answers_are_fresh:
  assumes "NewCache n = Inr c0" "(cached_step rd (posed f p d))\<^sup>*\<^sup>* (s0, c0) (s, c)" "posed f p d q"
    "ExecuteCached rd q s (Some c) = Some (r, c')"
  shows "Execute rd q s = Some r"
proof -
  have start: "fresh_inv rd (posed f p d) s0 c0"
    using cache_inv_new [OF assms(1)] by (simp add: fresh_inv_def)
  have inv: "fresh_inv rd (posed f p d) s c"
    using assms(2) start by (induction rule: rtranclp_induct2) (auto dest: fresh_step)
  obtain c1 where c': "c' = Some c1" using assms(4)
    by (auto simp: ExecuteCached_def split: option.splits sum.splits prod.splits)
  have "cache_inv c" using inv by (simp add: fresh_inv_def)
  from this assms(4) [unfolded c'] show ?thesis
  proof (cases rule: ExecuteCached_cases)
    case (hit res)
    let ?k = "cache_key (q_CaseID q) q c"
    have "(?k, res) \<in> set (recency c)" using hit(2) by (rule map_of_SomeD)
    then obtain q0 where q0: "posed f p d q0" "ck_query ?k = Query_cacheKey q0"
      "ck_revision ?k = revisionFor (q_CaseID q0) c \<longrightarrow> Execute rd q0 s = Some (Inr res)"
      using inv unfolding fresh_inv_def by blast
    have "Query_cacheKey q0 = Query_cacheKey q" using q0(2) by (simp add: cache_key_def)
    from posed_same_key [OF q0(1) assms(3) this, of rd s] q0(3) hit(1) show ?thesis by (simp add: cache_key_def)
  qed auto
qed

text \<open>The shared rule is stored, its case gets revision 1, and the query is asked twice.\<close>

definition one_entry_cache :: Cache where
  "one_entry_cache = \<lparr>ca_capacity = 1, ca_items = Map.empty, ca_order = [], ca_next = 0, ca_revisions = Map.empty\<rparr>"

lemma shared_query_posed: "posed None None None shared_query"
  by (simp add: posed_def clean_query_def shared_query_def ViaGoverningRule_def Via_def NewQuery_def named_hop_def
      EdgeType_IsValid_def NodeType_IsValid_def)

lemma empty_store_answers_nothing: "Execute shared_reader q NewInMemoryGraphStore \<noteq> Some (Inr res)"
  by (simp add: Execute_def shared_reader_simps mem_GetNode_def NewInMemoryGraphStore_def split: option.split)

theorem cached_answers_are_fresh_witness:
  "\<exists>c c'. (cached_step shared_reader (posed None None None))\<^sup>*\<^sup>*
       (NewInMemoryGraphStore, one_entry_cache) (shared_rule, c) \<and>
     ExecuteCached shared_reader shared_query shared_rule (Some c) = Some (Inr shared_result, c')"
proof -
  let ?step = "cached_step shared_reader (posed None None None)"
  have new: "NewCache 1 = (Inr one_entry_cache :: graph_error traversal_error + Cache)"
    by (simp add: NewCache_def one_entry_cache_def)
  define c1 where "c1 = SetRevision ''c'' 1 one_entry_cache"
  have "?step (NewInMemoryGraphStore, one_entry_cache) (shared_rule, c1)"
    by (rule cached_step.change [where rv = "NewInitialRevision ''c'' 1"])
      (simp_all add: empty_store_answers_nothing NewInitialRevision_def ReindexOnRevision_def c1_def revisionFor_def
        one_entry_cache_def)
  moreover obtain r1 c2 where first: "ExecuteCached shared_reader shared_query shared_rule (Some c1) = Some (r1, Some c2)"
    using ExecuteCached_keeps [of shared_reader shared_query shared_rule c1] by blast
  then have "?step (shared_rule, c1) (shared_rule, c2)"
    by (intro cached_step.ask [where q = shared_query] shared_query_posed)
  ultimately have run: "?step\<^sup>*\<^sup>* (NewInMemoryGraphStore, one_entry_cache) (shared_rule, c2)" by simp
  obtain r2 c3 where second: "ExecuteCached shared_reader shared_query shared_rule (Some c2) = Some (r2, c3)"
    using ExecuteCached_returns by fastforce
  from cached_answers_are_fresh [OF new run shared_query_posed second] have "r2 = Inr shared_result"
    by (simp add: shared_rule_answer)
  with run second show ?thesis by blast
qed

text \<open>After an answer, the key of the query holds it.\<close>

lemma found_after_put:
  assumes "cache_inv c"
  shows "map_of (recency (cache_put cid q res c)) (cache_key cid q c) = Some res"
  using cache_put_refines [OF assms, of cid q res] assms by (simp add: lru_put_def take_Cons' cache_inv_def)

lemma hit_serves:
  assumes "cache_inv c" "map_of (recency c) (cache_key (q_CaseID q) q c) = Some res"
  shows "\<exists>c'. ExecuteCached rd q s (Some c) = Some (Inr res, Some c')"
proof -
  obtain g c' where g: "cache_get (q_CaseID q) q c = (g, c')" by force
  from cache_get_refines [OF assms(1) g] assms(2) have "g = Some res" by simp
  with g show ?thesis by (simp add: ExecuteCached_def)
qed

text \<open>
  C40: The key is all that a cached call looks at: once a query has been answered, every query
  with the same key gets that answer as long as the revisions of the two cases agree, also
  one for another case whose IDs put the separator elsewhere, one that is invalid, and one
  with other resolvers or another score.
\<close>

theorem equal_keys_share_answers:
  assumes "cache_inv c" "ExecuteCached rd q s (Some c) = Some (Inr res, Some c1)"
    "Query_cacheKey q' = Query_cacheKey q" "revisionFor (q_CaseID q') c = revisionFor (q_CaseID q) c"
  shows "\<exists>c2. ExecuteCached rd q' s' (Some c1) = Some (Inr res, Some c2)"
proof -
  have key: "cache_key (q_CaseID q') q' c1 = cache_key (q_CaseID q) q c" if "ca_revisions c1 = ca_revisions c"
    using that assms(3,4) by (simp add: cache_key_def revisionFor_def)
  let ?k = "cache_key (q_CaseID q) q c"
  from assms(1,2) have "cache_inv c1 \<and> map_of (recency c1) ?k = Some res \<and> ca_revisions c1 = ca_revisions c"
  proof (cases rule: ExecuteCached_cases)
    case hit
    then have "(?k, res) \<in> set (recency c)" by (auto dest: map_of_SomeD)
    moreover have "distinct (map fst (recency c))" using assms(1) by (simp add: cache_inv_def recency_def o_def)
    ultimately have "filter (\<lambda>x. fst x = ?k) (recency c) = [(?k, res)]" by (intro filter_key_single)
    with hit show ?thesis by (simp add: lru_use_def)
  next
    case miss
    with assms(1) show ?thesis by (simp add: lru_put_def take_Cons' cache_inv_def)
  qed simp
  with hit_serves [of c1 q' res rd s'] key show ?thesis by simp
qed

text \<open>
  An issue whose ID has the separator in it: a query for another case, which has no nodes at
  all, and with a negative depth, gets the node of the first case.
\<close>

definition piped_store :: InMemoryGraphStore where
  "piped_store = snd (mem_CreateNode (sample_node ''i|1'' NodeIssue) NewInMemoryGraphStore)"

definition piped_result :: Result where
  "piped_result = \<lparr>rs_Paths = [\<lparr>pt_Nodes = [shared_node ''i|1'' NodeIssue], pt_Hops = [], pt_Score = 1\<rparr>],
     rs_Truncated = False, rs_VisitedCount = 1\<rparr>"

definition piped_query :: Query where
  "piped_query = ViaGoverningRule (NewQuery ''c'' ''i|1'')"

lemma piped_query_simps:
  "q_CaseID piped_query = ''c''" "q_StartNodeID piped_query = ''i|1''" "q_ScoreFunc piped_query = None"
  "q_Hops piped_query = [\<lparr>hs_Kind = HopKindGoverningRule, hs_EdgeType = EdgeGoverns, hs_Direction = Reverse,
     hs_NodeTypeFilter = NodeRule\<rparr>]"
  "validate piped_query = None" "effectiveDepth piped_query = 1"
  by (simp_all add: piped_query_def ViaGoverningRule_def NewQuery_def validate_def effectiveDepth_def)

lemma piped_answer: "Execute shared_reader piped_query piped_store = Some (Inr piped_result)"
proof -
  have "mem_GetNode ''i|1'' piped_store = Inr (sample_node ''i|1'' NodeIssue)" "EdgesForCase ''c'' piped_store = []"
    by (simp_all add: piped_store_def mem_CreateNode_def NewInMemoryGraphStore_def mem_GetNode_def EdgesForCase_def
        addToCaseIndex_def addType_def sample_node_simps)
  then show ?thesis
    by (simp add: Execute_def piped_query_simps shared_reader_simps loadCaseEdges_def resolveHop_def resolveEdgeHop_def
        neighbors_def sample_node_simps assemblePaths_def rank_paths_def DefaultScoreFunc_def Depth_def piped_result_def)
qed

theorem equal_keys_share_answers_witness:
  "\<exists>c1 c2. ExecuteCached shared_reader piped_query piped_store (Some one_entry_cache) =
       Some (Inr piped_result, Some c1) \<and>
     ExecuteCached shared_reader (WithMaxDepth (-1) (ViaGoverningRule (NewQuery ''c|i'' ''1''))) piped_store (Some c1) =
       Some (Inr piped_result, Some c2)"
proof -
  let ?q = piped_query
  let ?q' = "WithMaxDepth (-1) (ViaGoverningRule (NewQuery ''c|i'' ''1''))"
  have inv: "cache_inv one_entry_cache" by (simp add: cache_inv_def one_entry_cache_def)
  have first: "ExecuteCached shared_reader ?q piped_store (Some one_entry_cache) =
      Some (Inr piped_result, Some (cache_put (q_CaseID ?q) ?q piped_result one_entry_cache))"
    by (simp add: ExecuteCached_def piped_answer cache_get_def one_entry_cache_def)
  have "Query_cacheKey ?q' = Query_cacheKey ?q"
    by (simp add: Query_cacheKey_def effectiveDepth_def ViaGoverningRule_def NewQuery_def WithMaxDepth_def piped_query_def)
  moreover have "revisionFor (q_CaseID ?q') one_entry_cache = revisionFor (q_CaseID ?q) one_entry_cache"
    by (simp add: revisionFor_def one_entry_cache_def)
  ultimately show ?thesis using equal_keys_share_answers [OF inv first, of ?q' piped_store] first by blast
qed

text \<open>
  When calls overlap, the cache can serve an outdated answer under the current revision,
  and keeps doing so: if a query misses, is executed, and the case's tree and revision change
  before the answer is put into the cache, the next call for it gets the old answer, whatever
  the tree is by then.
\<close>

lemma stale_put_outlives_revision:
  assumes "cache_inv c" "cache_get (q_CaseID q) q c = (None, c1)" "Execute rd q s = Some (Inr old)"
    "ReindexOnRevision (Some c1) rv = (None :: 'e traversal_error option, Some c2)"
  shows "\<exists>c3. ExecuteCached rd q s' (Some (cache_put (q_CaseID q) q old c2)) = Some (Inr old, Some c3)"
proof -
  have inv: "cache_inv c2"
    using cache_get_refines [OF assms(1,2)] cache_revise_refines [of c1] assms(4)
    by (auto simp: ReindexOnRevision_def split: if_splits)
  note put = cache_put_refines [OF inv, of "q_CaseID q" q old]
  have "cache_key (q_CaseID q) q (cache_put (q_CaseID q) q old c2) = cache_key (q_CaseID q) q c2"
    using put by (simp add: cache_key_def revisionFor_def)
  with put found_after_put [OF inv, of "q_CaseID q" q old] show ?thesis by (intro hit_serves) simp_all
qed

text \<open>The tree is deleted while the query runs; the paths of the deleted rule are served on.\<close>

lemma stale_put_outlives_revision_witness:
  "\<exists>c. ExecuteCached shared_reader shared_query NewInMemoryGraphStore
         (Some (cache_put ''c'' shared_query shared_result (SetRevision ''c'' 2 one_entry_cache))) =
       Some (Inr shared_result, Some c)"
proof -
  have "cache_get ''c'' shared_query one_entry_cache = (None, one_entry_cache)"
    by (simp add: cache_get_def one_entry_cache_def)
  moreover have "cache_inv one_entry_cache"
    using cache_inv_new [of 1 one_entry_cache] by (simp add: NewCache_def one_entry_cache_def)
  moreover have "ReindexOnRevision (Some one_entry_cache) (NextRevision (NewInitialRevision ''c'' 1) 2) =
      (None :: graph_error traversal_error option, Some (SetRevision ''c'' 2 one_entry_cache))"
    by (simp add: ReindexOnRevision_def NextRevision_def NewInitialRevision_def wrap64_def)
  ultimately show ?thesis
    using stale_put_outlives_revision [of one_entry_cache shared_query one_entry_cache shared_reader shared_rule
        shared_result] shared_rule_answer
    by (simp add: shared_query_simps(1)) blast
qed

end
