(* ===== verification/Spec2Isabelle.thy ===== *)
theory Spec2Isabelle
  imports Review Dispatch TenantGraph TreeValidation Orchestration Sharding KeyManagement GovernanceRuns TraversalCache
begin

text \<open>
  A model of the core of Verdex (\<open>packages/\<close>, Go): a platform in which cases are reasoned
  over by machines and decided by judges. What the development covers is the part that must
  not go wrong: who may do what, which history a case and its sign-off can have, when an
  analysis may be finalised, and that the record of all this cannot be altered unnoticed.

  The parts, their theories and how they depend on each other:

  \<^item> \<open>Prelude\<close>: identifiers, time, the Go library functions the code calls and the generic
    lemmas on them. SHA-256, the text form of a UUID and time formatting are fields of a
    record \<open>platform\<close> over which the theories are stated; \<open>platform_ok\<close> collects what is
    assumed of them and \<open>ref_platform\<close> shows that it can hold.
  \<^item> \<open>Identity\<close> (\<open>packages/identity\<close>): roles, the permission matrix, accounts, the
    middlewares. A \<open>context.Context\<close> is the user it carries, if any.
  \<^item> \<open>AuditLog\<close> and \<open>AuditStore\<close> (\<open>packages/auditlog\<close>): events and their hash chain
    (\<open>chain.go\<close>), and the store over a repository (\<open>store.go\<close>, \<open>query.go\<close>,
    \<open>retention.go\<close>, \<open>accessadapter.go\<close>, \<open>inmemory_repository.go\<close>).
  \<^item> \<open>CaseLifecycle\<close> (\<open>packages/caselifecycle\<close>): cases, their state machine, metadata with
    versions, bulk operations.
  \<^item> \<open>Guardrail\<close> (\<open>packages/guardrail\<close>, \<open>packages/irac/guardrail.go\<close>): the verdict-language
    scan, labels, disclaimer, the finalisation gate and the recorder of failures.
  \<^item> \<open>Signoff\<close> (\<open>packages/signoff\<close>): decisions, re-review, the gate behind the finalisation
    check, and the projection of its trail into the audit log.
  \<^item> \<open>Review\<close>: cases and sign-off together, as a step relation on both repositories.
  \<^item> \<open>Breaker\<close> and \<open>Dispatch\<close> (\<open>packages/reliability\<close>): the circuit breaker and its
    composition with retries, the idempotency guard, degradation and the traffic shifter.
  \<^item> \<open>Irac\<close> and \<open>Serialize\<close> (\<open>packages/irac\<close>): the nodes and edges of a reasoning tree, their
    validation, revisions, and the JSON codec over abstract JSON values.
  \<^item> \<open>GraphStore\<close> and \<open>TenantGraph\<close> (\<open>packages/graph\<close>): the in-memory graph store with its
    indexes, breadth-first traversal and transactions, and the tenant-scoped store over it.
  \<^item> \<open>TreeAssembly\<close> and \<open>TreeService\<close> (\<open>packages/treeassembly\<close>, \<open>packages/graph/backup.go\<close>):
    composing a tree, its incremental reassembly, persistence, snapshots and backups.
  \<^item> \<open>TreeValidation\<close> (\<open>packages/treevalidation\<close>): the checks on a stored tree, among them
    the cycle search, and the gate on their report.
  \<^item> \<open>Orchestration\<close> (\<open>packages/reasoningorchestration\<close>): the staged pipeline that reasons
    over a case, its checkpoints, resumption and budget.
  \<^item> \<open>Sharding\<close> (\<open>packages/scalability\<close>): the hash ring and the other assignments of keys to
    shards, rebalancing, the admission of ingest jobs and the autoscaler.
  \<^item> \<open>Encryption\<close> (\<open>packages/encryption\<close>): the envelope of a ciphertext and its codec, local
    keys, encryption and decryption of fields, and the scan for plaintext.
  \<^item> \<open>KeyManagement\<close> (\<open>packages/keymanagement\<close>): the versions of a tenant's keys, the provider
    that keeps them wrapped in files, the adapter to \<open>Encryption\<close>, and the service with its
    permissions, audit trail and emergency grants.
  \<^item> \<open>AccessGovernance\<close> and \<open>GovernanceRuns\<close> (\<open>packages/accessgovernance\<close>): conditional
    policies over requests, emergency grants and their review, the decision of the engine
    over them (\<open>engine.go\<close>, \<open>types.go\<close>, \<open>repository.go\<close>), what it writes into \<open>AuditStore\<close>,
    and the histories its calls can produce.
  \<^item> \<open>Traversal\<close> and \<open>TraversalCache\<close> (\<open>packages/traversal\<close>): queries that follow a sequence of
    hops through the tree of a case, over the in-memory store or the view of a tenant, and the
    least-recently-used cache in front of them.

  Conventions. A Go \<open>(value, error)\<close> is a sum whose left side is the error, a nilable pointer or
  interface an option. An operation takes the state of its repository last and returns the
  new state; its reading of the clock and each \<open>uuid.New()\<close> are arguments. Each repository
  interface is a record of operations over an abstract state, its contract is a locale
  (\<open>audit_repository\<close>, \<open>case_repository\<close>, \<open>signoff_repository\<close>, and \<open>review_system\<close>, which
  joins the last two; \<open>graph_store\<close>, \<open>checkpoint_store\<close>, \<open>partitioner\<close>, \<open>shard_strategy\<close>,
  \<open>key_source\<close>, \<open>key_store\<close> and \<open>governance_store\<close>), the lemmas about the services are proved in it, and the
  in-memory repository of each package interprets it. What is not code of this repository is
  an argument: AES-GCM and the parser of UUIDs are fields of a record, the agents of a
  pipeline a function of its stage. \<open>sort.Slice\<close>, which is not stable, is an insertion sort
  where the keys are distinct, and an arbitrary sorted permutation where they may not be.
  Confidences and metrics are rationals, for which the comparisons of the code are exact; a
  float that is not a number is a case of its own where the code meets one. JSON is a datatype
  of values. Integers of the code are words of their width
  where they can wrap (versions are \<open>64 word\<close>), durations saturate as \<open>time.Sub\<close> does.
  Runs are step relations; invariants are proved by induction on them. A step is one call:
  the code does not lock across the calls of a repository, and the properties about racing
  calls show what can then go wrong.

  What the groups of lemmas show. \<open>AuditLog\<close>: verification locates the first broken link, and
  two verified trails with the same tail are equal unless SHA-256 collides. \<open>AuditStore\<close>:
  every trail the store can produce verifies, queries answer exactly the matching events of
  the reader's tenant, purges remove exactly the expired prefix. \<open>CaseLifecycle\<close>: each of
  the operations has one of three effects on the case it names and none on any other, so
  that the audit log of a case is always a legal path of its state machine. \<open>Guardrail\<close>: the
  scan is stable under surrounding text, case and white space. \<open>Signoff\<close> and \<open>Review\<close>: the
  trail of a case is a legal decision history and the gate opens only for a version that a
  judge approved. \<open>Breaker\<close> and \<open>Dispatch\<close>: how many calls reach a failing dependency.
  \<open>Serialize\<close>, \<open>TreeService\<close>: what is stored is read back. \<open>GraphStore\<close>: the indexed store
  refines the plain forest of nodes and edges, \<open>TenantGraph\<close> keeps tenants apart in it; its
  searches (\<open>bfs_loop\<close>, and \<open>dfs_loop\<close> and \<open>search_from\<close> of \<open>TreeValidation\<close>) end because each
  round marks a node of a finite set, which is their termination measure. \<open>TreeAssembly\<close>: a
  composed tree validates, and reassembling what changed gives the same tree.
  \<open>TreeValidation\<close>: each check reports exactly the defects of its kind. \<open>Orchestration\<close>:
  resuming from a checkpoint gives the run that was never interrupted; the fuel of its
  driving loop is the number of stages. \<open>Sharding\<close>: which keys move when a ring grows, that
  admission counts exactly the jobs in flight, and the limits of the autoscaler.
  \<open>Encryption\<close>: envelopes round trip and only sealed texts open. \<open>KeyManagement\<close>: no call loses
  an old key, and a key leaves only to a caller with the right to it, on the record.
  \<open>GovernanceRuns\<close>: every operation has one of a few effects on the stored grants, reviews and
  policies, so that each allowed request is traced back to the policy or the live grant
  behind it, a revoked grant stays revoked, and each decision is an event of the trail.
  \<open>Traversal\<close>: the nodes of a walk form a tree whose branches are the paths; following the
  parents of a node, which the code does not bound, ends because parents come first.
  \<open>TraversalCache\<close>: the cache refines a list in order of last use, answers as a fresh walk
  would while calls do not overlap, and what it does when they do or when keys collide.
  Every definition computes, so the witnesses evaluate it.

  Not modelled: the PostgreSQL repositories (their behaviour is that of the database and its
  row-level security), HTTP servers, the language-model adapters and prompts, ingestion,
  retrieval and the web application, which are input and output around this core.
\<close>

end
